(* ===== verification/Prelude.thy ===== *)
theory Prelude
  imports Complex_Main "HOL-Library.Char_ord"
begin

text \<open>
  Shared vocabulary of the development: the collections of simplification rules the
  components extend, the outcome type of Go code that may panic, and the part of Go's
  \<open>strings\<close> and \<open>unicode\<close> packages the formula engine uses.

  Text is a list of characters. The engine works on runes; the model covers the runes that
  are single bytes of ASCII, for which \<open>[]rune(s)\<close>, byte offsets and \<open>len(s)\<close> agree
  and \<open>unicode.IsLetter\<close>, \<open>IsDigit\<close>, \<open>IsSpace\<close>, \<open>strings.ToUpper\<close> and
  \<open>strings.EqualFold\<close> are the functions below.
\<close>

named_theorems text_simps "facts about the ASCII text functions"
named_theorems f64_simps "facts about binary64 arithmetic"
named_theorems eval_simps "equations of the formula evaluator"

subsection \<open>Panics\<close>

text \<open>
  The outcome of Go code that may panic: a result, or the panic with the text its value
  prints as. A panic unwinds through every caller up to a \<open>recover\<close>.
\<close>

datatype 'a go = panic string | ret 'a

fun go_bind :: "'a go \<Rightarrow> ('a \<Rightarrow> 'b go) \<Rightarrow> 'b go" where
  "go_bind (panic r) f = panic r"
| "go_bind (ret x) f = f x"

lemma go_bind_assoc: "go_bind (go_bind x f) g = go_bind x (\<lambda>y. go_bind (f y) g)"
  by (cases x) simp_all

lemma go_bind_ret [simp]: "go_bind x ret = x"
  by (cases x) simp_all

lemma go_bind_eq_ret: "go_bind x f = ret y \<longleftrightarrow> (\<exists>z. x = ret z \<and> f z = ret y)"
  by (cases x) simp_all

subsection \<open>Characters\<close>

definition code_of :: "char \<Rightarrow> nat" where
  "code_of c = of_char c"

definition IsUpperLetter :: "char \<Rightarrow> bool" where
  "IsUpperLetter c \<longleftrightarrow> 65 \<le> code_of c \<and> code_of c \<le> 90"

definition IsLowerLetter :: "char \<Rightarrow> bool" where
  "IsLowerLetter c \<longleftrightarrow> 97 \<le> code_of c \<and> code_of c \<le> 122"

definition IsLetter :: "char \<Rightarrow> bool" where
  "IsLetter c \<longleftrightarrow> IsUpperLetter c \<or> IsLowerLetter c"

definition IsDigit :: "char \<Rightarrow> bool" where
  "IsDigit c \<longleftrightarrow> 48 \<le> code_of c \<and> code_of c \<le> 57"

definition IsSpace :: "char \<Rightarrow> bool" where
  "IsSpace c \<longleftrightarrow> code_of c = 32 \<or> 9 \<le> code_of c \<and> code_of c \<le> 13"

definition ToUpperRune :: "char \<Rightarrow> char" where
  "ToUpperRune c = (if IsLowerLetter c then char_of (code_of c - 32) else c)"

definition ToLowerRune :: "char \<Rightarrow> char" where
  "ToLowerRune c = (if IsUpperLetter c then char_of (code_of c + 32) else c)"

lemma code_of_less [simp]: "code_of c < 256"
  unfolding code_of_def by (metis of_char_mod_256 mod_less_divisor zero_less_numeral)

lemma code_of_inject [simp]: "code_of c = code_of d \<longleftrightarrow> c = d"
  by (simp add: code_of_def)

lemma code_of_char_of [simp]: "n < 256 \<Longrightarrow> code_of (char_of n) = n"
  by (simp add: code_of_def)

lemma char_of_code_of [simp]: "char_of (code_of c) = c"
  by (simp add: code_of_def)

lemmas char_class_defs =
  IsUpperLetter_def IsLowerLetter_def IsLetter_def IsDigit_def IsSpace_def

lemma letter_not_digit: "IsLetter c \<Longrightarrow> \<not> IsDigit c"
  by (auto simp: char_class_defs)

lemma letter_not_space: "IsLetter c \<Longrightarrow> \<not> IsSpace c"
  by (auto simp: char_class_defs)

lemma digit_not_space: "IsDigit c \<Longrightarrow> \<not> IsSpace c"
  by (auto simp: char_class_defs)

lemma code_of_ToUpperRune:
  "code_of (ToUpperRune c) = (if IsLowerLetter c then code_of c - 32 else code_of c)"
proof -
  have "code_of c - 32 < 256"
    using code_of_less [of c] by arith
  then show ?thesis by (simp add: ToUpperRune_def)
qed

lemma code_of_ToLowerRune:
  "code_of (ToLowerRune c) = (if IsUpperLetter c then code_of c + 32 else code_of c)"
  by (auto simp: ToLowerRune_def IsUpperLetter_def)

lemma ToUpperRune_idem [simp]: "ToUpperRune (ToUpperRune c) = ToUpperRune c"
  by (auto simp: code_of_inject [symmetric] code_of_ToUpperRune char_class_defs
      simp del: code_of_inject)

lemma ToUpperRune_Lower [simp]: "ToUpperRune (ToLowerRune c) = ToUpperRune c"
  by (auto simp: code_of_inject [symmetric] code_of_ToUpperRune code_of_ToLowerRune
      char_class_defs simp del: code_of_inject)

lemma ToUpperRune_classes [simp]:
  "IsLetter (ToUpperRune c) = IsLetter c"
  "IsDigit (ToUpperRune c) = IsDigit c"
  "IsSpace (ToUpperRune c) = IsSpace c"
  by (auto simp: code_of_ToUpperRune char_class_defs)

subsection \<open>Strings\<close>

definition ToUpper :: "string \<Rightarrow> string" where
  "ToUpper s = map ToUpperRune s"

definition ToLower :: "string \<Rightarrow> string" where
  "ToLower s = map ToLowerRune s"

definition EqualFold :: "string \<Rightarrow> string \<Rightarrow> bool" where
  "EqualFold s t \<longleftrightarrow> ToLower s = ToLower t"

lemma ToUpper_idem [simp]: "ToUpper (ToUpper s) = ToUpper s"
  by (simp add: ToUpper_def)

lemma ToUpper_ToLower [simp]: "ToUpper (ToLower s) = ToUpper s"
  by (simp add: ToUpper_def ToLower_def)

lemma ToUpper_append [simp]: "ToUpper (s @ t) = ToUpper s @ ToUpper t"
  by (simp add: ToUpper_def)

lemma length_ToUpper [simp]: "length (ToUpper s) = length s"
  by (simp add: ToUpper_def)

lemma ToUpper_Nil_iff [simp]: "ToUpper s = [] \<longleftrightarrow> s = []"
  by (simp add: ToUpper_def)

lemma ToLowerRune_Upper [simp]: "ToLowerRune (ToUpperRune c) = ToLowerRune c"
  by (auto simp: code_of_inject [symmetric] code_of_ToUpperRune code_of_ToLowerRune
      char_class_defs simp del: code_of_inject)

lemma ToLower_ToUpper [simp]: "ToLower (ToUpper s) = ToLower s"
  by (simp add: ToUpper_def ToLower_def)

lemma EqualFold_ToUpper: "EqualFold s t \<longleftrightarrow> ToUpper s = ToUpper t"
  unfolding EqualFold_def by (metis ToUpper_ToLower ToLower_ToUpper)

lemma EqualFold_refl [simp]: "EqualFold s s"
  by (simp add: EqualFold_def)

lemma EqualFold_sym: "EqualFold s t \<longleftrightarrow> EqualFold t s"
  by (auto simp: EqualFold_def)

lemma EqualFold_trans: "EqualFold s t \<Longrightarrow> EqualFold t u \<Longrightarrow> EqualFold s u"
  by (simp add: EqualFold_def)

text \<open>\<open>strings.TrimSpace\<close>, \<open>strings.TrimPrefix\<close>, \<open>strings.HasPrefix\<close>, \<open>strings.Join\<close>.\<close>

definition TrimSpace :: "string \<Rightarrow> string" where
  "TrimSpace s = rev (dropWhile IsSpace (rev (dropWhile IsSpace s)))"

fun HasPrefix :: "string \<Rightarrow> string \<Rightarrow> bool" where
  "HasPrefix s [] = True"
| "HasPrefix [] (p # ps) = False"
| "HasPrefix (c # cs) (p # ps) = (c = p \<and> HasPrefix cs ps)"

definition TrimPrefix :: "string \<Rightarrow> string \<Rightarrow> string" where
  "TrimPrefix s p = (if HasPrefix s p then drop (length p) s else s)"

fun Join :: "string list \<Rightarrow> string \<Rightarrow> string" where
  "Join [] sep = []"
| "Join [s] sep = s"
| "Join (s # t # ss) sep = s @ sep @ Join (t # ss) sep"

lemma TrimSpace_id:
  assumes "s \<noteq> []" and "\<not> IsSpace (hd s)" and "\<not> IsSpace (last s)"
  shows "TrimSpace s = s"
proof -
  have 1: "dropWhile IsSpace s = s" using assms(1,2) by (cases s) auto
  have "dropWhile IsSpace (rev s) = rev s"
    using assms(1,3) by (cases s rule: rev_cases) auto
  then show ?thesis by (simp add: TrimSpace_def 1)
qed

lemma HasPrefix_iff: "HasPrefix s p \<longleftrightarrow> (\<exists>t. s = p @ t)"
  by (induction s p rule: HasPrefix.induct) auto

text \<open>\<open>strings.Compare\<close>: byte-wise lexicographic order as -1, 0 or 1.\<close>

fun str_compare :: "string \<Rightarrow> string \<Rightarrow> int" where
  "str_compare [] [] = 0"
| "str_compare [] (b # bs) = - 1"
| "str_compare (a # as) [] = 1"
| "str_compare (a # as) (b # bs) =
     (if code_of a < code_of b then - 1 else if code_of b < code_of a then 1
      else str_compare as bs)"

lemma str_compare_antisym: "str_compare s t = - str_compare t s"
  by (induction s t rule: str_compare.induct) auto

lemma str_compare_eq_0: "str_compare s t = 0 \<longleftrightarrow> s = t"
proof (induction s t rule: str_compare.induct)
  case (4 a as b bs)
  then show ?case by (auto simp: code_of_inject [symmetric] simp del: code_of_inject)
qed auto

lemma str_compare_self [simp]: "str_compare s s = 0"
  by (simp add: str_compare_eq_0)

lemma str_compare_range: "str_compare s t \<in> {- 1, 0, 1}"
  by (induction s t rule: str_compare.induct) auto

lemma str_compare_trans:
  "str_compare s t \<le> 0 \<Longrightarrow> str_compare t u \<le> 0 \<Longrightarrow> str_compare s u \<le> 0"
proof (induction s t arbitrary: u rule: str_compare.induct)
  case (1 u)
  then show ?case by simp
next
  case (2 b bs u)
  then show ?case by (cases u) auto
next
  case (3 a as u)
  then show ?case by simp
next
  case (4 a as b bs u)
  show ?case
  proof (cases u)
    case Nil
    with "4.prems" show ?thesis by simp
  next
    case (Cons c cs)
    consider (lt) "code_of a < code_of b" | (eq) "a = b" "str_compare as bs \<le> 0"
      using "4.prems"(1)
      by (cases "code_of a < code_of b"; cases "code_of b < code_of a")
        (simp_all add: code_of_inject [symmetric] del: code_of_inject)
    then show ?thesis
    proof cases
      case lt
      with Cons "4.prems"(2) show ?thesis by (auto split: if_splits)
    next
      case eq
      with Cons "4.prems"(2) "4.IH" [of cs] show ?thesis by (auto split: if_splits)
    qed
  qed
qed

subsection \<open>Decimal texts of integers\<close>

text \<open>
  \<open>digits10 n\<close> is the decimal text of \<open>n\<close> (\<open>%d\<close>); \<open>pad_left w s\<close> the zero padding
  of \<open>%02d\<close> and \<open>%04d\<close>.
\<close>

definition digit_char :: "int \<Rightarrow> char" where
  "digit_char d = char_of (nat (48 + d))"

function digits10 :: "int \<Rightarrow> string" where
  "digits10 n = (if n < 10 then [digit_char n] else digits10 (n div 10) @ [digit_char (n mod 10)])"
  by pat_completeness auto
termination
  by (relation "measure nat") auto

declare digits10.simps [simp del]

definition show_int :: "int \<Rightarrow> string" where
  "show_int n = (if n < 0 then CHR ''-'' # digits10 (- n) else digits10 n)"

definition pad_left :: "nat \<Rightarrow> string \<Rightarrow> string" where
  "pad_left w s = replicate (w - length s) CHR ''0'' @ s"

definition digit_value :: "char \<Rightarrow> int" where
  "digit_value c = int (code_of c) - 48"

definition digits_value :: "string \<Rightarrow> int" where
  "digits_value s = foldl (\<lambda>v c. 10 * v + digit_value c) 0 s"

lemma digit_char_digit: "0 \<le> d \<Longrightarrow> d < 10 \<Longrightarrow> IsDigit (digit_char d)"
  by (auto simp: digit_char_def IsDigit_def)

lemma digit_value_char [simp]: "0 \<le> d \<Longrightarrow> d < 10 \<Longrightarrow> digit_value (digit_char d) = d"
  by (simp add: digit_char_def digit_value_def)

lemma digits10_digits: "0 \<le> n \<Longrightarrow> \<forall>c \<in> set (digits10 n). IsDigit c"
proof (induction n rule: digits10.induct)
  case (1 n)
  show ?case
  proof (cases "n < 10")
    case True
    with "1.prems" show ?thesis by (simp add: digits10.simps [of n] digit_char_digit)
  next
    case False
    with 1 show ?thesis by (auto simp: digits10.simps [of n] digit_char_digit)
  qed
qed

lemma digits10_nonempty [simp]: "digits10 n \<noteq> []"
  by (simp add: digits10.simps [of n])

lemma digits_value_digits10: "0 \<le> n \<Longrightarrow> digits_value (digits10 n) = n"
proof (induction n rule: digits10.induct)
  case (1 n)
  show ?case
  proof (cases "n < 10")
    case True
    with "1.prems" show ?thesis by (simp add: digits10.simps [of n] digits_value_def)
  next
    case False
    then have "digits_value (digits10 n) = 10 * digits_value (digits10 (n div 10)) + n mod 10"
      by (simp add: digits10.simps [of n] digits_value_def)
    also have "\<dots> = 10 * (n div 10) + n mod 10"
      using 1 False by simp
    finally show ?thesis by simp
  qed
qed

lemma digits10_inject: "0 \<le> m \<Longrightarrow> 0 \<le> n \<Longrightarrow> digits10 m = digits10 n \<longleftrightarrow> m = n"
  by (metis digits_value_digits10)

subsection \<open>Quoted texts\<close>

text \<open>\<open>strconv.Quote\<close>, the \<open>%q\<close> of the error messages.\<close>

definition hex_char :: "nat \<Rightarrow> char" where
  "hex_char d = (if d < 10 then char_of (48 + d) else char_of (87 + d))"

definition quote_char :: "char \<Rightarrow> string" where
  "quote_char c =
     (let n = code_of c; bs = CHR 0x5C
      in if c = CHR 0x22 \<or> c = bs then [bs, c]
         else if 32 \<le> n \<and> n < 127 then [c]
         else if n = 7 then [bs, CHR ''a'']
         else if n = 8 then [bs, CHR ''b'']
         else if n = 12 then [bs, CHR ''f'']
         else if n = 10 then [bs, CHR ''n'']
         else if n = 13 then [bs, CHR ''r'']
         else if n = 9 then [bs, CHR ''t'']
         else if n = 11 then [bs, CHR ''v'']
         else [bs, CHR ''x'', hex_char (n div 16), hex_char (n mod 16)])"

definition go_quote :: "string \<Rightarrow> string" where
  "go_quote s = [CHR 0x22] @ concat (map quote_char s) @ [CHR 0x22]"

end
