(* ===== verification/Float64.thy ===== *)
theory Float64
  imports Prelude
begin

text \<open>
  Go's \<open>float64\<close>: IEEE 754 binary64 with round-to-nearest-even. A finite value is the
  rational number it stands for; every operation computes the exact rational result and
  rounds it with \<open>round64\<close>, as the hardware does. Negative zero, the infinities and NaN are
  separate constructors (one NaN: no code of the engine looks at a payload).
\<close>

subsection \<open>Powers and logarithms on integers and rationals\<close>

fun ipow :: "int \<Rightarrow> int \<Rightarrow> int" where
  "ipow b n =
     (if n \<le> 0 then 1
      else let h = ipow b (n div 2) in if even n then h * h else b * (h * h))"

declare ipow.simps [simp del]

lemma ipow_eq: "ipow b n = b ^ nat n"
proof (induction b n rule: ipow.induct)
  case (1 b n)
  show ?case
  proof (cases "n \<le> 0")
    case True
    then show ?thesis by (simp add: ipow.simps [of b n])
  next
    case False
    then have n: "nat n = (if even n then nat (n div 2) + nat (n div 2)
        else Suc (nat (n div 2) + nat (n div 2)))"
      by (auto simp: even_nat_iff elim!: evenE oddE)
    from False 1 have "ipow b (n div 2) = b ^ nat (n div 2)" by simp
    with False show ?thesis
      by (subst n) (simp add: ipow.simps [of b n] Let_def power_add)
  qed
qed

definition rpow :: "int \<Rightarrow> int \<Rightarrow> rat" where
  "rpow b k = (if 0 \<le> k then of_int (ipow b k) else 1 / of_int (ipow b (- k)))"

lemma rpow_eq: "rpow b k = of_int b powi k"
  by (simp add: rpow_def ipow_eq power_int_def divide_inverse power_inverse)

lemma rpow_pos [simp]: "0 < b \<Longrightarrow> 0 < rpow b k"
  by (simp add: rpow_eq)

lemma rpow_nonneg [simp]: "0 < b \<Longrightarrow> 0 \<le> rpow b k"
  by (simp add: rpow_eq)

lemma rpow_neq_0 [simp]: "0 < b \<Longrightarrow> rpow b k \<noteq> 0"
  by (simp add: rpow_eq)

lemma rpow_add: "b \<noteq> 0 \<Longrightarrow> rpow b (j + k) = rpow b j * rpow b k"
  by (simp add: rpow_eq power_int_add)

lemma rpow_0 [simp]: "rpow b 0 = 1"
  by (simp add: rpow_eq)

lemma rpow_1 [simp]: "rpow b 1 = of_int b"
  by (simp add: rpow_eq)

lemma rpow_minus: "rpow b (- k) = 1 / rpow b k"
  by (simp add: rpow_eq power_int_minus_divide)

lemma rpow_diff: "b \<noteq> 0 \<Longrightarrow> rpow b (j - k) = rpow b j / rpow b k"
  by (simp add: rpow_eq power_int_diff)

lemma rpow_mono: "1 \<le> b \<Longrightarrow> j \<le> k \<Longrightarrow> rpow b j \<le> rpow b k"
  by (simp add: rpow_eq power_int_increasing)

lemma rpow_strict_mono: "1 < b \<Longrightarrow> j < k \<Longrightarrow> rpow b j < rpow b k"
  by (simp add: rpow_eq power_int_strict_increasing)

lemma rpow_less_iff: "1 < b \<Longrightarrow> rpow b j < rpow b k \<longleftrightarrow> j < k"
  by (metis linorder_not_less order_less_imp_le rpow_mono rpow_strict_mono)

lemma rpow_int: "0 \<le> k \<Longrightarrow> rpow b k = of_int (b ^ nat k)"
  by (simp add: rpow_def ipow_eq)

text \<open>\<open>flog b q\<close> is the integer part of the base-\<open>b\<close> logarithm of a positive \<open>q\<close>.\<close>

function ndig :: "int \<Rightarrow> int \<Rightarrow> int" where
  "ndig b n = (if b < 2 \<or> n \<le> 0 then 0 else 1 + ndig b (n div b))"
  by pat_completeness auto
termination
  by (relation "measure (\<lambda>(b, n). nat n)") (auto simp: int_div_less_self)

declare ndig.simps [simp del]

lemma ndig_nonneg: "0 \<le> ndig b n"
  by (induction b n rule: ndig.induct) (simp add: ndig.simps)

lemma ndig_bounds:
  assumes "2 \<le> b" and "0 < n"
  shows "rpow b (ndig b n - 1) \<le> of_int n \<and> of_int n < rpow b (ndig b n)"
  using assms
proof (induction b n rule: ndig.induct)
  case (1 b n)
  have n: "ndig b n = 1 + ndig b (n div b)"
    using "1.prems" by (simp add: ndig.simps [of b n])
  have dm: "n = b * (n div b) + n mod b" by simp
  have m: "0 \<le> n mod b" "n mod b < b" using "1.prems" by simp_all
  show ?case
  proof (cases "n div b = 0")
    case True
    with "1.prems" have "n < b" by (auto simp: zdiv_eq_0_iff)
    moreover have "ndig b n = 1" using n True by (simp add: ndig.simps [of b 0])
    ultimately show ?thesis using "1.prems" by simp
  next
    case False
    then have pos: "0 < n div b" 
      using "1.prems" pos_imp_zdiv_nonneg_iff [of b n] by linarith
    let ?k = "ndig b (n div b)"
    from "1.IH" "1.prems" pos
    have IH: "rpow b (?k - 1) \<le> of_int (n div b)" "of_int (n div b) < rpow b ?k" by auto
    have "rpow b ?k = of_int b * rpow b (?k - 1)"
      using "1.prems" rpow_add [of b 1 "?k - 1"] by simp
    also have "\<dots> \<le> of_int b * of_int (n div b)"
      using IH(1) "1.prems" by (intro mult_left_mono) auto
    also have "\<dots> \<le> of_int n"
      using m(1) dm by (metis le_add_same_cancel1 of_int_le_iff of_int_mult)
    finally have lower: "rpow b ?k \<le> of_int n" .
    have k: "rpow b ?k = of_int (b ^ nat ?k)" by (simp add: rpow_int ndig_nonneg)
    have "n div b + 1 \<le> b ^ nat ?k"
      using IH(2) k by (metis of_int_less_iff zless_imp_add1_zle)
    then have "b * (n div b + 1) \<le> b * b ^ nat ?k" using "1.prems" by simp
    moreover have "n < b * (n div b) + b"
      by (subst dm) (simp only: add_less_cancel_left m)
    ultimately have "n < b * b ^ nat ?k" by (simp add: distrib_left)
    then have "of_int n < of_int b * rpow b ?k" using k by (metis of_int_less_iff of_int_mult)
    then have "of_int n < rpow b (1 + ?k)" using "1.prems" by (simp add: rpow_add)
    with lower n show ?thesis by simp
  qed
qed

definition flog :: "int \<Rightarrow> rat \<Rightarrow> int" where
  "flog b q = (case quotient_of q of (n, d) \<Rightarrow>
     let k = ndig b n - ndig b d in if rpow b k \<le> q then k else k - 1)"

lemma flog_bounds:
  assumes b: "2 \<le> b" and q: "0 < q"
  shows "rpow b (flog b q) \<le> q" and "q < rpow b (flog b q + 1)"
proof -
  obtain n d where nd: "quotient_of q = (n, d)" by force
  have d: "0 < d" using nd by (rule quotient_of_denom_pos)
  have qnd: "q = of_int n / of_int d" using nd by (rule quotient_of_div)
  have n: "0 < n" using q qnd d by (simp add: zero_less_divide_iff)
  let ?k = "ndig b n - ndig b d"
  have nb: "rpow b (ndig b n - 1) \<le> of_int n" "of_int n < rpow b (ndig b n)"
    using ndig_bounds [OF b n] by auto
  have db: "rpow b (ndig b d - 1) \<le> of_int d" "of_int d < rpow b (ndig b d)"
    using ndig_bounds [OF b d] by auto
  have b0: "0 < b" using b by simp
  have "q < rpow b (ndig b n) / of_int d"
    using nb(2) d qnd by (simp add: divide_strict_right_mono)
  also have "\<dots> \<le> rpow b (ndig b n) / rpow b (ndig b d - 1)"
    using db(1) b0 d by (intro divide_left_mono) (auto intro: mult_pos_pos)
  also have "\<dots> = rpow b (?k + 1)"
    using b0 by (simp add: rpow_diff [symmetric] algebra_simps)
  finally have up: "q < rpow b (?k + 1)" .
  have "rpow b (?k - 1) = rpow b (ndig b n - 1) / rpow b (ndig b d)"
    using b0 by (simp add: rpow_diff [symmetric] algebra_simps)
  also have "\<dots> \<le> rpow b (ndig b n - 1) / of_int d"
    using db(2) b0 d by (intro divide_left_mono) (auto intro: mult_pos_pos)
  also have "\<dots> \<le> q"
    using nb(1) d qnd by (simp add: divide_right_mono)
  finally have lo: "rpow b (?k - 1) \<le> q" .
  show "rpow b (flog b q) \<le> q"
    using lo by (simp add: flog_def nd Let_def)
  show "q < rpow b (flog b q + 1)"
    using up by (auto simp: flog_def nd Let_def)
qed

lemma flog_unique:
  assumes "2 \<le> b" and "rpow b k \<le> q" and "q < rpow b (k + 1)"
  shows "flog b q = k"
proof -
  have "0 < q" using assms(1,2) rpow_pos [of b k] by linarith
  note fb = flog_bounds [OF assms(1) this]
  have "rpow b (flog b q) < rpow b (k + 1)" using fb(1) assms(3) by linarith
  moreover have "rpow b k < rpow b (flog b q + 1)" using fb(2) assms(2) by linarith
  ultimately show ?thesis using assms(1) by (simp add: rpow_less_iff)
qed

lemma flog_mono:
  assumes "2 \<le> b" and "0 < p" and "p \<le> q"
  shows "flog b p \<le> flog b q"
proof -
  have "rpow b (flog b p) < rpow b (flog b q + 1)"
    using flog_bounds(1) [of b p] flog_bounds(2) [of b q] assms by linarith
  then show ?thesis using assms(1) by (simp add: rpow_less_iff)
qed

subsection \<open>Rounding to the nearest integer, ties to even\<close>

definition round_half_even :: "rat \<Rightarrow> int" where
  "round_half_even q =
     (let f = \<lfloor>q\<rfloor>; r = q - of_int f
      in if r < 1 / 2 then f else if 1 / 2 < r then f + 1 else if even f then f else f + 1)"

lemma round_half_even_of_int [simp]: "round_half_even (of_int n) = n"
  by (simp add: round_half_even_def)

lemma round_half_even_error: "\<bar>of_int (round_half_even q) - q\<bar> \<le> 1 / 2"
proof -
  have "of_int \<lfloor>q\<rfloor> \<le> q" "q < of_int \<lfloor>q\<rfloor> + 1" by linarith+
  then show ?thesis by (auto simp: round_half_even_def Let_def abs_le_iff)
qed

lemma round_half_even_near:
  assumes "\<bar>q - of_int n\<bar> < 1 / 2"
  shows "round_half_even q = n"
proof -
  have "\<bar>of_int (round_half_even q) - of_int n\<bar> < (1 :: rat)"
    using round_half_even_error [of q] assms by linarith
  then have "\<bar>round_half_even q - n\<bar> < 1" by linarith
  then show ?thesis by simp
qed

lemma round_half_even_mono:
  assumes "p \<le> q"
  shows "round_half_even p \<le> round_half_even q"
proof (cases "\<lfloor>p\<rfloor> = \<lfloor>q\<rfloor>")
  case True
  with assms show ?thesis by (auto simp: round_half_even_def Let_def)
next
  case False
  with assms have "\<lfloor>p\<rfloor> + 1 \<le> \<lfloor>q\<rfloor>" using floor_mono [of p q] by linarith
  moreover have "round_half_even p \<le> \<lfloor>p\<rfloor> + 1" "\<lfloor>q\<rfloor> \<le> round_half_even q"
    by (simp_all add: round_half_even_def Let_def)
  ultimately show ?thesis by linarith
qed

subsection \<open>The values and their rounding\<close>

datatype f64 =
    F64_NaN
  | F64_Inf bool \<comment> \<open>\<open>True\<close> is the negative infinity\<close>
  | F64_NegZero
  | Fin rat

text \<open>
  \<open>ulp_exp a\<close> is the exponent of the last place of the binade of \<open>a\<close> (at least -1074, where
  the subnormal numbers are), \<open>mag64 a\<close> the magnitude \<open>a\<close> rounds to when the exponent has
  no upper bound; \<open>round64\<close> adds the sign and the overflow to an infinity.
\<close>

definition ulp_exp :: "rat \<Rightarrow> int" where
  "ulp_exp a = max (- 1074) (flog 2 a - 52)"

definition mant64 :: "rat \<Rightarrow> int" where
  "mant64 a = round_half_even (a / rpow 2 (ulp_exp a))"

definition mag64 :: "rat \<Rightarrow> rat" where
  "mag64 a = of_int (mant64 a) * rpow 2 (ulp_exp a)"

definition round64 :: "rat \<Rightarrow> f64" where
  "round64 q =
     (if q = 0 then Fin 0
      else let a = \<bar>q\<bar>; e = ulp_exp a; m = mant64 a
           in if m = 0 then (if q < 0 then F64_NegZero else Fin 0)
              else if 971 < e \<or> e = 971 \<and> 9007199254740992 \<le> m then F64_Inf (q < 0)
              else let r = of_int m * rpow 2 e in Fin (if q < 0 then - r else r))"

definition representable :: "rat \<Rightarrow> bool" where
  "representable q \<longleftrightarrow>
     (\<exists>m e. q = of_int m * rpow 2 e \<and> \<bar>m\<bar> < 9007199254740992 \<and> - 1074 \<le> e \<and> e \<le> 971)"

text \<open>The well-formed values: a finite one is a binary64 number.\<close>

fun wf64 :: "f64 \<Rightarrow> bool" where
  "wf64 (Fin q) = representable q"
| "wf64 _ = True"

lemma rpow_2_53: "rpow 2 53 = 9007199254740992"
  by (simp add: rpow_def ipow_eq)

lemma rpow_2_52: "rpow 2 52 = 4503599627370496"
  by (simp add: rpow_def ipow_eq)

lemma scaled_bounds:
  assumes "0 < a"
  shows "0 < a / rpow 2 (ulp_exp a)" and "a / rpow 2 (ulp_exp a) < 9007199254740992"
proof -
  show "0 < a / rpow 2 (ulp_exp a)" using assms by simp
  have "a < rpow 2 (flog 2 a + 1)" using flog_bounds(2) [of 2 a] assms by simp
  also have "\<dots> \<le> rpow 2 (53 + ulp_exp a)"
    by (intro rpow_mono) (auto simp: ulp_exp_def)
  also have "\<dots> = 9007199254740992 * rpow 2 (ulp_exp a)"
    by (simp add: rpow_add rpow_2_53)
  finally show "a / rpow 2 (ulp_exp a) < 9007199254740992"
    by (simp add: divide_less_eq)
qed

lemma scaled_normal:
  assumes "0 < a" and "- 1074 < ulp_exp a"
  shows "4503599627370496 \<le> a / rpow 2 (ulp_exp a)"
proof -
  have e: "ulp_exp a = flog 2 a - 52" using assms(2) by (simp add: ulp_exp_def)
  have "4503599627370496 * rpow 2 (ulp_exp a) = rpow 2 (52 + ulp_exp a)"
    by (simp add: rpow_add rpow_2_52)
  also have "\<dots> = rpow 2 (flog 2 a)" using e by simp
  also have "\<dots> \<le> a" using flog_bounds(1) [of 2 a] assms(1) by simp
  finally show ?thesis by (simp add: le_divide_eq)
qed

lemma mant64_bounds:
  assumes "0 < a"
  shows "0 \<le> mant64 a" and "mant64 a \<le> 9007199254740992"
proof -
  have "round_half_even 0 \<le> mant64 a"
    unfolding mant64_def using scaled_bounds(1) [OF assms] by (intro round_half_even_mono) simp
  then show "0 \<le> mant64 a" using round_half_even_of_int [of 0] by simp
  have "mant64 a \<le> round_half_even (of_int 9007199254740992)"
    unfolding mant64_def using scaled_bounds(2) [OF assms] by (intro round_half_even_mono) simp
  then show "mant64 a \<le> 9007199254740992" by (simp only: round_half_even_of_int)
qed

lemma mant64_normal:
  assumes "0 < a" and "- 1074 < ulp_exp a"
  shows "4503599627370496 \<le> mant64 a"
proof -
  have "round_half_even (of_int 4503599627370496) \<le> mant64 a"
    unfolding mant64_def using scaled_normal [OF assms] by (intro round_half_even_mono) simp
  then show ?thesis by (simp only: round_half_even_of_int)
qed

lemma mag64_error: "\<bar>mag64 a - a\<bar> \<le> rpow 2 (ulp_exp a) / 2"
proof -
  let ?u = "rpow 2 (ulp_exp a)"
  have "mag64 a - a = (of_int (mant64 a) - a / ?u) * ?u"
    by (simp add: mag64_def left_diff_distrib)
  then have "\<bar>mag64 a - a\<bar> = \<bar>of_int (mant64 a) - a / ?u\<bar> * ?u"
    by (simp add: abs_mult)
  also have "\<dots> \<le> 1 / 2 * ?u"
    unfolding mant64_def by (intro mult_right_mono round_half_even_error) simp
  finally show ?thesis by simp
qed

lemma ulp_exp_mono: "0 < a \<Longrightarrow> a \<le> b \<Longrightarrow> ulp_exp a \<le> ulp_exp b"
  unfolding ulp_exp_def using flog_mono [of 2 a b] by simp

text \<open>Rounding is monotone: across binades the powers of two separate the results.\<close>

lemma mag64_mono:
  assumes "0 < a" and "a \<le> b"
  shows "mag64 a \<le> mag64 b"
proof (cases "ulp_exp a = ulp_exp b")
  case True
  have "mant64 a \<le> mant64 b"
    unfolding mant64_def True
    using assms(2) by (intro round_half_even_mono divide_right_mono) auto
  then show ?thesis by (simp add: mag64_def True mult_right_mono)
next
  case False
  with ulp_exp_mono [OF assms] have lt: "ulp_exp a + 1 \<le> ulp_exp b" by simp
  then have sub: "- 1074 < ulp_exp b" by (simp add: ulp_exp_def)
  have b: "0 < b" using assms by simp
  have "mag64 a \<le> 9007199254740992 * rpow 2 (ulp_exp a)"
    unfolding mag64_def using mant64_bounds(2) [OF assms(1)]
    by (intro mult_right_mono) (auto simp: of_int_le_iff [symmetric] simp del: of_int_le_iff)
  also have "\<dots> = 4503599627370496 * rpow 2 (ulp_exp a + 1)"
    by (simp add: rpow_add)
  also have "\<dots> \<le> 4503599627370496 * rpow 2 (ulp_exp b)"
    using lt by (intro mult_left_mono rpow_mono) auto
  also have "\<dots> \<le> mag64 b"
    unfolding mag64_def using mant64_normal [OF b sub]
    by (intro mult_right_mono) (auto simp: of_int_le_iff [symmetric] simp del: of_int_le_iff)
  finally show ?thesis .
qed

text \<open>A representable number rounds to itself.\<close>

lemma representable_scaled:
  assumes q: "q = of_int m * rpow 2 e" and m: "\<bar>m\<bar> < 9007199254740992" "m \<noteq> 0"
    and e: "- 1074 \<le> e"
  shows "ulp_exp \<bar>q\<bar> \<le> e" and "mag64 \<bar>q\<bar> = \<bar>q\<bar>" and "0 < mant64 \<bar>q\<bar>"
    and "ulp_exp \<bar>q\<bar> = e \<Longrightarrow> mant64 \<bar>q\<bar> = \<bar>m\<bar>"
proof -
  let ?a = "\<bar>q\<bar>"
  have a: "?a = of_int \<bar>m\<bar> * rpow 2 e" using q by (simp add: abs_mult)
  have pos: "0 < ?a" using a m(2) by simp
  have "?a < 9007199254740992 * rpow 2 e"
    unfolding a using m(1)
    by (intro mult_strict_right_mono)
      (auto simp: of_int_less_iff [symmetric] simp del: of_int_less_iff)
  also have "\<dots> = rpow 2 (53 + e)" by (simp add: rpow_add rpow_2_53)
  finally have "rpow 2 (flog 2 ?a) < rpow 2 (53 + e)"
    using flog_bounds(1) [of 2 ?a] pos by simp
  then have "flog 2 ?a - 52 \<le> e" by (simp add: rpow_less_iff)
  with e show le: "ulp_exp ?a \<le> e" by (simp add: ulp_exp_def)
  let ?N = "\<bar>m\<bar> * 2 ^ nat (e - ulp_exp ?a)"
  have "?a / rpow 2 (ulp_exp ?a) = of_int \<bar>m\<bar> * rpow 2 (e - ulp_exp ?a)"
    by (simp add: a rpow_diff)
  also have "\<dots> = of_int ?N" using le by (simp add: rpow_int)
  finally have sc: "?a / rpow 2 (ulp_exp ?a) = of_int ?N" .
  then have mant: "mant64 ?a = ?N" by (simp only: mant64_def round_half_even_of_int)
  show "mag64 ?a = ?a"
    using sc by (simp add: mag64_def mant divide_eq_eq del: of_int_mult of_int_power)
  show "0 < mant64 ?a" using m(2) by (simp add: mant)
  show "mant64 ?a = \<bar>m\<bar>" if "ulp_exp ?a = e" using that by (simp add: mant)
qed

lemma round64_representable [f64_simps]:
  assumes "representable q"
  shows "round64 q = Fin q"
proof (cases "q = 0")
  case True
  then show ?thesis by (simp add: round64_def)
next
  case False
  from assms obtain m e where q: "q = of_int m * rpow 2 e" and m: "\<bar>m\<bar> < 9007199254740992"
    and e: "- 1074 \<le> e" "e \<le> 971" by (auto simp: representable_def)
  have m0: "m \<noteq> 0" using q False by auto
  note sc = representable_scaled [OF q m m0 e(1)]
  have "\<not> (971 < ulp_exp \<bar>q\<bar> \<or> ulp_exp \<bar>q\<bar> = 971 \<and> 9007199254740992 \<le> mant64 \<bar>q\<bar>)"
    using sc(1) sc(4) e(2) m by linarith
  moreover have "of_int (mant64 \<bar>q\<bar>) * rpow 2 (ulp_exp \<bar>q\<bar>) = \<bar>q\<bar>"
    using sc(2) by (simp add: mag64_def)
  ultimately show ?thesis
    using False sc(3) by (auto simp: round64_def Let_def)
qed

lemma representable_int [intro]: "\<bar>n\<bar> \<le> 9007199254740992 \<Longrightarrow> representable (of_int n)"
proof (cases "\<bar>n\<bar> < 9007199254740992")
  case True
  then show ?thesis
    unfolding representable_def by (intro exI [of _ n] exI [of _ 0]) simp
next
  case False
  moreover assume "\<bar>n\<bar> \<le> 9007199254740992"
  ultimately have "n = 9007199254740992 \<or> n = - 9007199254740992" by linarith
  then have "of_int n = of_int (n div 2) * rpow 2 1 \<and> \<bar>n div 2\<bar> < 9007199254740992"
    by auto
  then show ?thesis
    unfolding representable_def by (intro exI [of _ "n div 2"] exI [of _ 1]) simp
qed

lemma round64_int [f64_simps]: "\<bar>n\<bar> \<le> 9007199254740992 \<Longrightarrow> round64 (of_int n) = Fin (of_int n)"
  by (intro round64_representable representable_int)

lemma round64_numeral [simp]:
  "numeral k \<le> (9007199254740992 :: int) \<Longrightarrow> round64 (numeral k) = Fin (numeral k)"
  "numeral k \<le> (9007199254740992 :: int) \<Longrightarrow> round64 (- numeral k) = Fin (- numeral k)"
  using round64_int [of "numeral k"] round64_int [of "- numeral k"] by simp_all

lemma round64_0 [simp]: "round64 0 = Fin 0" and round64_1 [simp]: "round64 1 = Fin 1"
  using round64_int [of 0] round64_int [of 1] by simp_all

lemma representable_minus: "representable (- q) \<longleftrightarrow> representable q"
proof -
  have "representable (- q)" if "representable q" for q
  proof -
    from that obtain m e where "q = of_int m * rpow 2 e" "\<bar>m\<bar> < 9007199254740992"
      "- 1074 \<le> e" "e \<le> 971" by (auto simp: representable_def)
    then show ?thesis
      unfolding representable_def by (intro exI [of _ "- m"] exI [of _ e]) simp
  qed
  from this [of q] this [of "- q"] show ?thesis by auto
qed

text \<open>Every rounded value is well formed.\<close>

lemma round64_wf: "wf64 (round64 q)"
proof (cases "q = 0")
  case True
  then show ?thesis using representable_int [of 0] by (simp add: round64_def)
next
  case False
  let ?a = "\<bar>q\<bar>" and ?e = "ulp_exp \<bar>q\<bar>" and ?m = "mant64 \<bar>q\<bar>"
  have a: "0 < ?a" using False by simp
  show ?thesis
  proof (cases "?m = 0 \<or> 971 < ?e \<or> ?e = 971 \<and> 9007199254740992 \<le> ?m")
    case True
    then show ?thesis using False representable_int [of 0] by (auto simp: round64_def Let_def)
  next
    case no: False
    have e: "- 1074 \<le> ?e" by (simp add: ulp_exp_def)
    have "representable (of_int ?m * rpow 2 ?e)"
    proof (cases "?m = 9007199254740992")
      case True
      then have "of_int ?m * rpow 2 ?e = of_int 4503599627370496 * rpow 2 (?e + 1)"
        by (simp add: rpow_add)
      moreover have "?e + 1 \<le> 971" using no True by linarith
      ultimately show ?thesis
        unfolding representable_def using e
        by (intro exI [of _ 4503599627370496] exI [of _ "?e + 1"]) simp
    next
      case ne: False
      then have "\<bar>?m\<bar> < 9007199254740992" using mant64_bounds [OF a] by linarith
      then show ?thesis
        unfolding representable_def using no e
        by (intro exI [of _ ?m] exI [of _ ?e]) auto
    qed
    with False no show ?thesis by (auto simp: round64_def Let_def representable_minus)
  qed
qed

subsection \<open>Arithmetic\<close>

fun rv :: "f64 \<Rightarrow> rat" where
  "rv (Fin q) = q"
| "rv _ = 0"

fun IsNaN :: "f64 \<Rightarrow> bool" where
  "IsNaN F64_NaN = True"
| "IsNaN _ = False"

fun IsInf :: "f64 \<Rightarrow> bool" where
  "IsInf (F64_Inf _) = True"
| "IsInf _ = False"

definition is_finite :: "f64 \<Rightarrow> bool" where
  "is_finite x \<longleftrightarrow> \<not> IsNaN x \<and> \<not> IsInf x"

fun signbit :: "f64 \<Rightarrow> bool" where
  "signbit F64_NaN = False"
| "signbit (F64_Inf n) = n"
| "signbit F64_NegZero = True"
| "signbit (Fin q) = (q < 0)"

definition zero_of :: "bool \<Rightarrow> f64" where
  "zero_of n = (if n then F64_NegZero else Fin 0)"

fun fneg :: "f64 \<Rightarrow> f64" where
  "fneg F64_NaN = F64_NaN"
| "fneg (F64_Inf n) = F64_Inf (\<not> n)"
| "fneg F64_NegZero = Fin 0"
| "fneg (Fin q) = (if q = 0 then F64_NegZero else Fin (- q))"

definition fabs :: "f64 \<Rightarrow> f64" where
  "fabs x = (if signbit x then fneg x else x)"

fun fadd :: "f64 \<Rightarrow> f64 \<Rightarrow> f64" where
  "fadd F64_NaN y = F64_NaN"
| "fadd x F64_NaN = F64_NaN"
| "fadd (F64_Inf m) (F64_Inf n) = (if m = n then F64_Inf m else F64_NaN)"
| "fadd (F64_Inf m) y = F64_Inf m"
| "fadd x (F64_Inf n) = F64_Inf n"
| "fadd F64_NegZero F64_NegZero = F64_NegZero"
| "fadd x y = round64 (rv x + rv y)"

definition fsub :: "f64 \<Rightarrow> f64 \<Rightarrow> f64" where
  "fsub x y = fadd x (fneg y)"

definition fmul :: "f64 \<Rightarrow> f64 \<Rightarrow> f64" where
  "fmul x y =
     (let s = (signbit x \<noteq> signbit y)
      in if IsNaN x \<or> IsNaN y then F64_NaN
         else if IsInf x \<or> IsInf y then
           (if \<not> IsInf x \<and> rv x = 0 \<or> \<not> IsInf y \<and> rv y = 0 then F64_NaN else F64_Inf s)
         else if rv x * rv y = 0 then zero_of s else round64 (rv x * rv y))"

definition fdiv :: "f64 \<Rightarrow> f64 \<Rightarrow> f64" where
  "fdiv x y =
     (let s = (signbit x \<noteq> signbit y)
      in if IsNaN x \<or> IsNaN y \<or> IsInf x \<and> IsInf y then F64_NaN
         else if IsInf x then F64_Inf s
         else if IsInf y then zero_of s
         else if rv y = 0 then (if rv x = 0 then F64_NaN else F64_Inf s)
         else if rv x = 0 then zero_of s else round64 (rv x / rv y))"

subsection \<open>Comparison\<close>

fun flt :: "f64 \<Rightarrow> f64 \<Rightarrow> bool" where
  "flt F64_NaN y = False"
| "flt x F64_NaN = False"
| "flt (F64_Inf m) (F64_Inf n) = (m \<and> \<not> n)"
| "flt (F64_Inf m) y = m"
| "flt x (F64_Inf n) = (\<not> n)"
| "flt x y = (rv x < rv y)"

fun feq :: "f64 \<Rightarrow> f64 \<Rightarrow> bool" where
  "feq F64_NaN y = False"
| "feq x F64_NaN = False"
| "feq (F64_Inf m) (F64_Inf n) = (m = n)"
| "feq (F64_Inf m) y = False"
| "feq x (F64_Inf n) = False"
| "feq x y = (rv x = rv y)"

abbreviation fzero :: f64 where
  "fzero \<equiv> Fin 0"

definition is_zero :: "f64 \<Rightarrow> bool" where
  "is_zero x \<longleftrightarrow> feq x fzero"

lemma flt_trichotomy:
  "\<not> IsNaN x \<Longrightarrow> \<not> IsNaN y \<Longrightarrow> flt x y \<or> feq x y \<or> flt y x"
  by (cases x; cases y) auto

lemma flt_irrefl [simp]: "\<not> flt x x"
  by (cases x) auto

lemma flt_asym: "flt x y \<Longrightarrow> \<not> flt y x"
  by (cases x; cases y) auto

lemma flt_trans: "flt x y \<Longrightarrow> flt y z \<Longrightarrow> flt x z"
  by (cases x; cases y; cases z) auto

lemma feq_refl: "\<not> IsNaN x \<Longrightarrow> feq x x"
  by (cases x) auto

lemma feq_sym: "feq x y \<longleftrightarrow> feq y x"
  by (cases x; cases y) auto

lemma feq_flt: "feq x y \<Longrightarrow> \<not> flt x y"
  by (cases x; cases y) auto

lemma flt_cotrans: "\<not> IsNaN y \<Longrightarrow> flt x z \<Longrightarrow> flt x y \<or> flt y z"
  by (cases x; cases y; cases z) auto

subsection \<open>Rounding to whole numbers, conversions to and from \<open>int\<close>\<close>

fun math_Floor :: "f64 \<Rightarrow> f64" where
  "math_Floor (Fin q) = Fin (of_int \<lfloor>q\<rfloor>)"
| "math_Floor x = x"

definition math_Ceil :: "f64 \<Rightarrow> f64" where
  "math_Ceil x = fneg (math_Floor (fneg x))"

definition math_Trunc :: "f64 \<Rightarrow> f64" where
  "math_Trunc x = (if signbit x then math_Ceil x else math_Floor x)"

text \<open>
  Go's \<open>int(f)\<close> drops the fraction. A value outside the 64-bit range (or NaN) is
  implementation-defined in the language; amd64, the platform the repository's images are
  built for, gives the least 64-bit integer.
\<close>

definition min_int64 :: int where
  "min_int64 = - 9223372036854775808"

definition rat_trunc :: "rat \<Rightarrow> int" where
  "rat_trunc q = (if q < 0 then - \<lfloor>- q\<rfloor> else \<lfloor>q\<rfloor>)"

fun f64_to_int :: "f64 \<Rightarrow> int" where
  "f64_to_int (Fin q) =
     (let n = rat_trunc q
      in if - 9223372036854775808 \<le> n \<and> n < 9223372036854775808 then n else min_int64)"
| "f64_to_int F64_NegZero = 0"
| "f64_to_int x = min_int64"

definition f64_of_int :: "int \<Rightarrow> f64" where
  "f64_of_int n = round64 (of_int n)"

text \<open>Two's complement wrap-around of 64-bit arithmetic.\<close>

definition wrap64 :: "int \<Rightarrow> int" where
  "wrap64 n = (n + 9223372036854775808) mod 18446744073709551616 - 9223372036854775808"

lemma wrap64_id [simp]:
  "- 9223372036854775808 \<le> n \<Longrightarrow> n < 9223372036854775808 \<Longrightarrow> wrap64 n = n"
  by (simp add: wrap64_def)

lemma wrap64_range: "- 9223372036854775808 \<le> wrap64 n" "wrap64 n < 9223372036854775808"
  by (simp_all add: wrap64_def)

lemma f64_to_int_range:
  "- 9223372036854775808 \<le> f64_to_int x \<and> f64_to_int x < 9223372036854775808"
  by (cases x) (auto simp: min_int64_def Let_def)

lemma f64_of_int_exact [simp]:
  "\<bar>n\<bar> \<le> 9007199254740992 \<Longrightarrow> f64_of_int n = Fin (of_int n)"
  by (simp add: f64_of_int_def round64_int)

lemma f64_to_int_of_int [simp]:
  "- 9223372036854775808 \<le> n \<Longrightarrow> n < 9223372036854775808 \<Longrightarrow> f64_to_int (Fin (of_int n)) = n"
  by (simp add: rat_trunc_def)

subsection \<open>The operations keep values well formed\<close>

lemma representable_0 [simp]: "representable 0"
  using representable_int [of 0] by simp

lemma zero_of_wf [simp]: "wf64 (zero_of n)"
  by (simp add: zero_of_def)

lemma fneg_wf [simp]: "wf64 x \<Longrightarrow> wf64 (fneg x)"
  by (cases x) (auto simp: representable_minus)

lemma fabs_wf [simp]: "wf64 x \<Longrightarrow> wf64 (fabs x)"
  by (simp add: fabs_def)

lemma fadd_wf [simp]: "wf64 (fadd x y)"
  by (cases "(x, y)" rule: fadd.cases) (auto simp: round64_wf)

lemma fsub_wf [simp]: "wf64 (fsub x y)"
  by (simp add: fsub_def)

lemma fmul_wf [simp]: "wf64 (fmul x y)"
  by (simp add: fmul_def Let_def round64_wf)

lemma fdiv_wf [simp]: "wf64 (fdiv x y)"
  by (simp add: fdiv_def Let_def round64_wf)

lemma fadd_commute: "fadd x y = fadd y x"
  by (cases x; cases y) (auto simp: add.commute)

lemma fmul_commute: "fmul x y = fmul y x"
  by (cases "signbit x"; cases "signbit y") (auto simp: fmul_def Let_def mult.commute)

lemma fadd_Fin_representable:
  "representable (p + q) \<Longrightarrow> fadd (Fin p) (Fin q) = Fin (p + q)"
  by (simp add: round64_representable)

lemma fadd_int:
  "\<bar>m + n\<bar> \<le> 9007199254740992 \<Longrightarrow> fadd (Fin (of_int m)) (Fin (of_int n)) = Fin (of_int (m + n))"
  using representable_int [of "m + n"] by (simp add: round64_representable)

lemma fsub_int:
  assumes "\<bar>m - n\<bar> \<le> 9007199254740992" and "\<bar>m\<bar> \<le> 9007199254740992"
  shows "fsub (Fin (of_int m)) (Fin (of_int n)) = Fin (of_int (m - n))"
proof (cases "n = 0")
  case True
  then show ?thesis using assms(2) by (simp add: fsub_def round64_int)
next
  case False
  then show ?thesis using representable_int [of "m - n"] assms(1)
    by (simp add: fsub_def round64_representable)
qed

text \<open>The bound is sharp: past \<open>2^53\<close> an integer need not be representable.\<close>

lemma fadd_absorbs: "fadd (Fin 9007199254740992) (Fin 1) = Fin 9007199254740992"
  by code_simp

subsection \<open>Square root\<close>

text \<open>The whole square root, digit by digit in base four.\<close>

function isqrt :: "int \<Rightarrow> int" where
  "isqrt n =
     (if n \<le> 0 then 0
      else let r = 2 * isqrt (n div 4) in if (r + 1) * (r + 1) \<le> n then r + 1 else r)"
  by pat_completeness auto
termination
  by (relation "measure nat") auto

declare isqrt.simps [simp del]

lemma isqrt_bounds:
  "0 \<le> n \<Longrightarrow> 0 \<le> isqrt n \<and> isqrt n * isqrt n \<le> n \<and> n < (isqrt n + 1) * (isqrt n + 1)"
proof (induction n rule: isqrt.induct)
  case (1 n)
  show ?case
  proof (cases "n \<le> 0")
    case True
    with "1.prems" show ?thesis by (simp add: isqrt.simps [of 0])
  next
    case False
    define s where "s = isqrt (n div 4)"
    have IH: "0 \<le> s" "s * s \<le> n div 4" "n div 4 < (s + 1) * (s + 1)"
      using 1 False by (simp_all add: s_def)
    from IH(2,3) have b: "4 * (s * s) \<le> n" "n < 4 * ((s + 1) * (s + 1))" by linarith+
    show ?thesis
      using False b IH(1) by (simp add: isqrt.simps [of n] s_def [symmetric] Let_def algebra_simps)
  qed
qed

text \<open>
  \<open>math.Sqrt\<close>: the root rounded to nearest. A binary64 value never has its root half way
  between two binary64 values, so comparing with the square of the midpoint decides.
\<close>

fun fsqrt :: "f64 \<Rightarrow> f64" where
  "fsqrt (Fin q) =
     (if q < 0 then F64_NaN else if q = 0 then Fin 0
      else let e = flog 2 q div 2 - 52; m = isqrt \<lfloor>q / rpow 2 (2 * e)\<rfloor>;
               h = (of_int (2 * m + 1) * rpow 2 (e - 1))
           in round64 (of_int (if h * h < q then m + 1 else m) * rpow 2 e))"
| "fsqrt F64_NegZero = F64_NegZero"
| "fsqrt (F64_Inf n) = (if n then F64_NaN else F64_Inf False)"
| "fsqrt F64_NaN = F64_NaN"

lemma fsqrt_wf [simp]: "wf64 (fsqrt x)"
  by (cases x) (auto simp: Let_def round64_wf)

end
