(* ===== verification/Decimal.thy ===== *)
theory Decimal
  imports Float64
begin

text \<open>
  Decimal texts and decimal rounding: the part of Go's \<open>strconv\<close> the engine uses
  (\<open>ParseFloat\<close>, \<open>FormatFloat\<close>) and the rounding core of
  \<open>internal/formula/arity.go\<close> (\<open>significant15\<close>, \<open>decimalRound\<close>, \<open>numberText15\<close>), with the
  facts that make it correct: fifteen significant digits survive the round trip through
  binary, so \<open>significant15\<close> and ROUND are idempotent.
\<close>

subsection \<open>ParseFloat\<close>

definition lower_char :: "char \<Rightarrow> char" where
  "lower_char c = ToLowerRune c"

definition is_hex_letter :: "char \<Rightarrow> bool" where
  "is_hex_letter c \<longleftrightarrow> 97 \<le> code_of (lower_char c) \<and> code_of (lower_char c) \<le> 102"

definition hex_value :: "char \<Rightarrow> int" where
  "hex_value c = (if IsDigit c then digit_value c else int (code_of (lower_char c)) - 87)"

text \<open>
  The mantissa of \<open>readFloat\<close>: digits with at most one dot, underscores skipped. The result
  is the digits, how many of them follow the dot, and the unread text.
\<close>

fun scan_mantissa :: "bool \<Rightarrow> bool \<Rightarrow> string \<Rightarrow> int \<Rightarrow> string \<Rightarrow> string \<times> int \<times> string" where
  "scan_mantissa hex sawdot ds nf [] = (ds, nf, [])"
| "scan_mantissa hex sawdot ds nf (c # cs) =
     (if c = CHR ''_'' then scan_mantissa hex sawdot ds nf cs
      else if c = CHR ''.'' then
        (if sawdot then (ds, nf, c # cs) else scan_mantissa hex True ds nf cs)
      else if IsDigit c \<or> hex \<and> is_hex_letter c then
        scan_mantissa hex sawdot (ds @ [c]) (if sawdot then nf + 1 else nf) cs
      else (ds, nf, c # cs))"

text \<open>The exponent's digits; as in the source a value of 10000 or more stops growing.\<close>

fun scan_exponent :: "int \<Rightarrow> string \<Rightarrow> int \<times> string" where
  "scan_exponent e [] = (e, [])"
| "scan_exponent e (c # cs) =
     (if c = CHR ''_'' then scan_exponent e cs
      else if IsDigit c then
        scan_exponent (if e < 10000 then e * 10 + digit_value c else e) cs
      else (e, c # cs))"

text \<open>\<open>underscoreOK\<close>: an underscore stands only between digits or after a base prefix.\<close>

fun underscore_scan :: "bool \<Rightarrow> char \<Rightarrow> string \<Rightarrow> bool" where
  "underscore_scan hex i [] = (i \<noteq> CHR ''_'')"
| "underscore_scan hex i (c # cs) =
     (if IsDigit c \<or> hex \<and> is_hex_letter c then underscore_scan hex (CHR ''0'') cs
      else if c = CHR ''_'' then (if i \<noteq> CHR ''0'' then False else underscore_scan hex (CHR ''_'') cs)
      else if i = CHR ''_'' then False
      else underscore_scan hex (CHR ''!'') cs)"

definition drop_sign :: "string \<Rightarrow> string" where
  "drop_sign s = (case s of c # cs \<Rightarrow> if c = CHR ''+'' \<or> c = CHR ''-'' then cs else s | [] \<Rightarrow> [])"

definition underscoreOK :: "string \<Rightarrow> bool" where
  "underscoreOK s =
     (case drop_sign s of
        c # d # cs \<Rightarrow>
          if c = CHR ''0'' \<and> (lower_char d = CHR ''b'' \<or> lower_char d = CHR ''o'' \<or> lower_char d = CHR ''x'')
          then underscore_scan (lower_char d = CHR ''x'') (CHR ''0'') cs
          else underscore_scan False (CHR ''^'') (c # d # cs)
      | t \<Rightarrow> underscore_scan False (CHR ''^'') t)"

definition hex_prefix :: "string \<Rightarrow> bool" where
  "hex_prefix t = (case t of c # d # e # _ \<Rightarrow> c = CHR ''0'' \<and> lower_char d = CHR ''x'' | _ \<Rightarrow> False)"

text \<open>
  \<open>readFloat\<close> on the whole text: the exact value, or nothing when the text is not a number.
\<close>

definition readFloat :: "string \<Rightarrow> (bool \<times> rat) option" where
  "readFloat s =
     (let neg = (case s of c # _ \<Rightarrow> c = CHR ''-'' | [] \<Rightarrow> False);
          t = drop_sign s; hex = hex_prefix t; t = (if hex then drop 2 t else t);
          (ds, nf, rest) = scan_mantissa hex False [] 0 t;
          base = (if hex then 16 else 10);
          mant = foldl (\<lambda>v c. base * v + hex_value c) 0 ds;
          scale = of_int mant * rpow base (- nf);
          fin = (\<lambda>e. if CHR ''_'' \<in> set s \<and> \<not> underscoreOK s then None
                     else Some (neg, scale * rpow (if hex then 2 else 10) e))
      in if ds = [] then None
         else case rest of
           [] \<Rightarrow> if hex then None else fin 0
         | c # cs \<Rightarrow>
             if lower_char c \<noteq> (if hex then CHR ''p'' else CHR ''e'') then None
             else let esign = (case cs of d # _ \<Rightarrow> if d = CHR ''-'' then - 1 else 1 | [] \<Rightarrow> 1);
                      es = drop_sign cs
                  in case es of
                       [] \<Rightarrow> None
                     | d # _ \<Rightarrow>
                         if \<not> IsDigit d then None
                         else case scan_exponent 0 es of
                                (e, []) \<Rightarrow> fin (esign * e)
                              | _ \<Rightarrow> None)"

text \<open>
  \<open>strconv.ParseFloat(s, 64)\<close>: \<open>None\<close> is the error, both for a malformed text and for a
  number too large to be finite (\<open>ErrRange\<close>).
\<close>

definition ParseFloat :: "string \<Rightarrow> f64 option" where
  "ParseFloat s =
     (let neg = (case s of c # _ \<Rightarrow> c = CHR ''-'' | [] \<Rightarrow> False); u = ToLower (drop_sign s)
      in if u = ''inf'' \<or> u = ''infinity'' then Some (F64_Inf neg)
         else if ToLower s = ''nan'' then Some F64_NaN
         else case readFloat s of
                None \<Rightarrow> None
              | Some (n, q) \<Rightarrow>
                  (let r = round64 q in if IsInf r then None else Some (if n then fneg r else r)))"

subsection \<open>FormatFloat\<close>

text \<open>
  The shortest digits that read back as the number: at each length the two neighbouring
  decimals, the nearer one when both read back.
\<close>

fun shortest_from :: "nat \<Rightarrow> int \<Rightarrow> rat \<Rightarrow> int \<times> int" where
  "shortest_from 0 d q =
     (let k = flog 10 q - (d - 1) in (round_half_even (q / rpow 10 k), k))"
| "shortest_from (Suc n) d q =
     (let k = flog 10 q - (d - 1); x = q / rpow 10 k; lo = \<lfloor>x\<rfloor>;
          down = (round64 (of_int lo * rpow 10 k) = Fin q);
          up = (round64 (of_int (lo + 1) * rpow 10 k) = Fin q)
      in if down \<and> up then (round_half_even x, k)
         else if down then (lo, k)
         else if up then (lo + 1, k)
         else shortest_from n (d + 1) q)"

declare shortest_from.simps [simp del]

definition strip_zeros :: "string \<Rightarrow> string" where
  "strip_zeros s = rev (dropWhile (\<lambda>c. c = CHR ''0'') (rev s))"

text \<open>Digits (no trailing zero) and the position of the decimal point, for a positive number.\<close>

definition shortest_digits :: "rat \<Rightarrow> string \<times> int" where
  "shortest_digits q =
     (let (m, k) = shortest_from 16 1 q; ds = digits10 m
      in (strip_zeros ds, int (length ds) + k))"

definition digit_at :: "string \<Rightarrow> int \<Rightarrow> char" where
  "digit_at ds i = (if 0 \<le> i \<and> i < int (length ds) then ds ! nat i else CHR ''0'')"

definition fmtF :: "bool \<Rightarrow> string \<Rightarrow> int \<Rightarrow> int \<Rightarrow> string" where
  "fmtF neg ds dp prec =
     (if neg then ''-'' else []) @
     (if 0 < dp then map (digit_at ds) [0..dp - 1] else ''0'') @
     (if 0 < prec then ''.'' @ map (\<lambda>i. digit_at ds (dp + i)) [0..prec - 1] else [])"

definition fmtE :: "bool \<Rightarrow> string \<Rightarrow> int \<Rightarrow> string" where
  "fmtE neg ds dp =
     (let e = dp - 1
      in (if neg then ''-'' else []) @ [digit_at ds 0] @
         (if 1 < length ds then ''.'' @ drop 1 ds else []) @
         ''e'' @ (if e < 0 then ''-'' else ''+'') @ pad_left 2 (digits10 \<bar>e\<bar>))"

definition non_finite_text :: "f64 \<Rightarrow> string" where
  "non_finite_text x = (case x of F64_Inf n \<Rightarrow> if n then ''-Inf'' else ''+Inf'' | _ \<Rightarrow> ''NaN'')"

text \<open>\<open>FormatFloat(x, 'f', -1, 64)\<close>.\<close>

definition format_f :: "f64 \<Rightarrow> string" where
  "format_f x =
     (if \<not> is_finite x then non_finite_text x
      else if rv x = 0 then fmtF (signbit x) ''0'' 1 0
      else let (ds, dp) = shortest_digits \<bar>rv x\<bar>
           in fmtF (signbit x) ds dp (max (int (length ds) - dp) 0))"

text \<open>\<open>FormatFloat(x, 'g', -1, 64)\<close>: an exponent below -4 or of at least 6 is written out.\<close>

definition format_g :: "f64 \<Rightarrow> string" where
  "format_g x =
     (if \<not> is_finite x then non_finite_text x
      else if rv x = 0 then fmtF (signbit x) ''0'' 1 0
      else let (ds, dp) = shortest_digits \<bar>rv x\<bar>; e = dp - 1
           in if e < - 4 \<or> 6 \<le> e then fmtE (signbit x) ds dp
              else fmtF (signbit x) ds dp (max (int (length ds) - dp) 0))"

text \<open>\<open>FormatFloat(x, 'f', prec, 64)\<close>: the exact value rounded half to even at \<open>prec\<close> places.\<close>

definition format_fixed :: "f64 \<Rightarrow> int \<Rightarrow> string" where
  "format_fixed x prec =
     (if \<not> is_finite x then non_finite_text x
      else let m = round_half_even (\<bar>rv x\<bar> * rpow 10 prec); ds = digits10 m;
               ds = (if m = 0 then [] else ds)
           in fmtF (signbit x) ds (int (length ds) - prec) prec)"

subsection \<open>Fifteen significant digits\<close>

text \<open>
  \<open>dec15 q\<close> is the decimal number \<open>FormatFloat(q, 'g', 15, 64)\<close> writes: \<open>q\<close> on fifteen
  significant digits, ties to even. Parsing that text back rounds it to binary again.
\<close>

definition dec15_unit :: "rat \<Rightarrow> rat" where
  "dec15_unit a = rpow 10 (flog 10 a - 14)"

definition dec15 :: "rat \<Rightarrow> rat" where
  "dec15 q =
     (if q = 0 then 0
      else let u = dec15_unit \<bar>q\<bar>; r = of_int (round_half_even (\<bar>q\<bar> / u)) * u
           in if q < 0 then - r else r)"

definition significant15 :: "f64 \<Rightarrow> f64" where
  "significant15 n =
     (case n of
        Fin q \<Rightarrow> (let r = round64 (dec15 q) in if IsInf r then n else r)
      | _ \<Rightarrow> n)"

datatype roundMode = roundHalfAway | roundAway | roundToward

definition math_Max :: "f64 \<Rightarrow> f64 \<Rightarrow> f64" where
  "math_Max x y =
     (if x = F64_Inf False \<or> y = F64_Inf False then F64_Inf False
      else if IsNaN x \<or> IsNaN y then F64_NaN
      else if is_zero x \<and> is_zero y then (if signbit x then y else x)
      else if flt y x then x else y)"

definition math_Min :: "f64 \<Rightarrow> f64 \<Rightarrow> f64" where
  "math_Min x y =
     (if x = F64_Inf True \<or> y = F64_Inf True then F64_Inf True
      else if IsNaN x \<or> IsNaN y then F64_NaN
      else if is_zero x \<and> is_zero y then (if signbit x then x else y)
      else if flt x y then x else y)"

text \<open>
  The whole number the scaled value \<open>r\<close> is rounded to: \<open>QuoRem\<close> truncates, then the mode
  decides whether the remainder moves the quotient one step away from zero.
\<close>

definition round_quotient :: "roundMode \<Rightarrow> rat \<Rightarrow> int" where
  "round_quotient mode r =
     (let q = rat_trunc r; m = \<bar>r - of_int q\<bar>; step = (if r < 0 then - 1 else 1)
      in if m = 0 then q
         else case mode of
                roundAway \<Rightarrow> q + step
              | roundHalfAway \<Rightarrow> (if 1 \<le> 2 * m then q + step else q)
              | roundToward \<Rightarrow> q)"

definition round_places :: "f64 \<Rightarrow> int" where
  "round_places places =
     f64_to_int (math_Max (Fin (- 330)) (math_Min (Fin 330) (math_Trunc places)))"

definition round_scale :: "int \<Rightarrow> rat" where
  "round_scale p = of_int (ipow 10 (if p < 0 then wrap64 (- p) else p))"

text \<open>The exact decimal result, before it is rounded to binary.\<close>

definition decimal_round_exact :: "rat \<Rightarrow> int \<Rightarrow> roundMode \<Rightarrow> rat" where
  "decimal_round_exact q p mode =
     (let scale = round_scale p
      in if 0 \<le> p then of_int (round_quotient mode (dec15 q * scale)) / scale
         else of_int (round_quotient mode (dec15 q / scale)) * scale)"

definition decimalRound :: "f64 \<Rightarrow> f64 \<Rightarrow> roundMode \<Rightarrow> f64" where
  "decimalRound n places mode =
     (if IsNaN n \<or> IsInf n then n
      else let f = round64 (decimal_round_exact (rv n) (round_places places) mode)
           in if is_zero f then Fin 0 else f)"

definition numberText15 :: "f64 \<Rightarrow> string" where
  "numberText15 n =
     (if IsNaN n \<or> IsInf n then format_g n
      else let r = significant15 n
           in if is_zero r then ''0''
              else if rpow 10 21 \<le> \<bar>rv r\<bar> \<or> \<bar>rv r\<bar> < rv (round64 (1 / 1000000000)) then format_g r
              else format_f r)"

text \<open>\<open>numberText\<close> of \<open>criteria.go\<close>: never an exponent, negative zero is \<open>0\<close>.\<close>

definition numberText :: "f64 \<Rightarrow> string" where
  "numberText n =
     (let m = significant15 n; m = (if is_zero m then Fin 0 else m) in format_f m)"

subsection \<open>Fifteen digits survive the trip through binary\<close>

lemma dec15_pos: "0 < q \<Longrightarrow> dec15 q = of_int (round_half_even (q / dec15_unit q)) * dec15_unit q"
  by (simp add: dec15_def Let_def)

lemma dec15_minus: "dec15 (- q) = - dec15 q"
  by (auto simp: dec15_def Let_def)

lemma dec15_0 [simp]: "dec15 0 = 0"
  by (simp add: dec15_def)

lemma dec15_unit_pos [simp]: "0 < dec15_unit q"
  by (simp add: dec15_unit_def)

lemma dec15_unit_neq [simp]: "dec15_unit q \<noteq> 0"
  by (simp add: dec15_unit_def)

lemma rpow_10_14: "rpow 10 14 = 100000000000000"
  by (simp add: rpow_int)

lemma dec15_unit_scale:
  assumes "flog 10 q = k"
  shows "rpow 10 k = 100000000000000 * dec15_unit q"
  using rpow_add [of 10 14 "k - 14"] by (simp add: rpow_10_14 dec15_unit_def assms)

text \<open>A positive number on fifteen digits: a mantissa of fifteen digits times a power of ten.\<close>

definition digits15 :: "rat \<Rightarrow> bool" where
  "digits15 d \<longleftrightarrow> (\<exists>M k. d = of_int M * rpow 10 (k - 14) \<and> 100000000000000 \<le> M \<and> M < 1000000000000000)"

lemma flog_scaled:
  assumes "100000000000000 * rpow 10 (k - 14) \<le> r" and "r < 1000000000000000 * rpow 10 (k - 14)"
  shows "flog 10 r = k"
proof (rule flog_unique)
  have a: "rpow 10 k = 100000000000000 * rpow 10 (k - 14)"
    using rpow_add [of 10 14 "k - 14"] by (simp add: rpow_10_14)
  then have b: "rpow 10 (k + 1) = 1000000000000000 * rpow 10 (k - 14)"
    by (simp add: rpow_add)
  show "rpow 10 k \<le> r" using assms(1) a by simp
  show "r < rpow 10 (k + 1)" using assms(2) b by simp
qed simp_all

lemma dec15_digits:
  assumes "0 < q"
  shows "digits15 (dec15 q)" and "\<bar>dec15 q - q\<bar> \<le> dec15_unit q / 2"
proof -
  let ?u = "dec15_unit q" and ?k = "flog 10 q" and ?m = "round_half_even (q / dec15_unit q)"
  have lo: "100000000000000 \<le> q / ?u"
    using flog_bounds(1) [of 10 q] assms dec15_unit_scale [of q ?k] by (simp add: le_divide_eq)
  have hi: "q / ?u < 1000000000000000"
    using flog_bounds(2) [of 10 q] assms dec15_unit_scale [of q ?k]
    by (simp add: rpow_add divide_less_eq)
  have m: "100000000000000 \<le> ?m"
    using round_half_even_mono [of "of_int 100000000000000" "q / ?u"] lo
    unfolding round_half_even_of_int by simp
  have m': "?m \<le> 1000000000000000"
    using round_half_even_mono [of "q / ?u" "of_int 1000000000000000"] hi
    unfolding round_half_even_of_int by simp
  have d: "dec15 q = of_int ?m * rpow 10 (?k - 14)"
    using assms by (simp add: dec15_pos dec15_unit_def)
  show "digits15 (dec15 q)"
  proof (cases "?m = 1000000000000000")
    case True
    have "dec15 q = of_int 100000000000000 * rpow 10 (?k + 1 - 14)"
      unfolding d True using rpow_add [of 10 1 "?k - 14"] by (simp add: algebra_simps)
    then show ?thesis unfolding digits15_def by (intro exI [of _ 100000000000000] exI [of _ "?k + 1"]) simp
  next
    case False
    then show ?thesis unfolding digits15_def d using m m' by (intro exI [of _ ?m] exI [of _ ?k]) simp
  qed
  have "dec15 q - q = (of_int ?m - q / ?u) * ?u"
    using assms by (simp add: dec15_pos left_diff_distrib)
  then have "\<bar>dec15 q - q\<bar> = \<bar>of_int ?m - q / ?u\<bar> * ?u"
    by (simp only: abs_mult abs_of_pos [OF dec15_unit_pos])
  also have "\<dots> \<le> 1 / 2 * ?u" by (intro mult_right_mono round_half_even_error less_imp_le [OF dec15_unit_pos])
  finally show "\<bar>dec15 q - q\<bar> \<le> ?u / 2" by simp
qed

text \<open>Whatever is within one part in 2^52 of a fifteen-digit number has that number as its fifteen digits.\<close>

lemma dec15_stable:
  assumes d: "digits15 d" and near: "\<bar>r - d\<bar> \<le> d / 4503599627370496"
  shows "dec15 r = d"
proof -
  obtain M k where M: "d = of_int M * rpow 10 (k - 14)" "100000000000000 \<le> M" "M < 1000000000000000"
    using d by (auto simp: digits15_def)
  define u where "u = rpow 10 (k - 14)"
  have u: "0 < u" by (simp add: u_def)
  have dM: "d = of_int M * u" by (simp add: M(1) u_def)
  have Mr: "(100000000000000 :: rat) \<le> of_int M" "of_int M \<le> (999999999999999 :: rat)"
    using M(2,3) by (simp_all add: of_int_le_iff [symmetric] del: of_int_le_iff)
  have "d \<le> 1000000000000000 * u" unfolding dM using Mr(2) u by (intro mult_right_mono) auto
  then have "d / 4503599627370496 \<le> 23 / 100 * u" using u by simp
  with near have e: "\<bar>r - d\<bar> \<le> 23 / 100 * u" by linarith
  have r0: "0 < r"
  proof -
    have "100000000000000 * u \<le> d" unfolding dM using Mr(1) u by (intro mult_right_mono) auto
    with e u show ?thesis by linarith
  qed
  have hi: "r < 1000000000000000 * u"
  proof -
    have "d \<le> 999999999999999 * u" unfolding dM using Mr(2) u by (intro mult_right_mono) auto
    with e u show ?thesis by linarith
  qed
  have round: "round_half_even (r / v) = N" if "0 < v" "\<bar>r - of_int N * v\<bar> \<le> 23 / 100 * v" for v N
  proof -
    have "\<bar>r / v - of_int N\<bar> = \<bar>r - of_int N * v\<bar> / v"
    proof -
      have "r / v - of_int N = (r - of_int N * v) / v" using that(1) by (simp add: diff_divide_distrib)
      then show ?thesis using that(1) by (simp add: abs_divide)
    qed
    also have "\<dots> \<le> 23 / 100" using that by (simp add: divide_le_eq)
    finally have "\<bar>r / v - of_int N\<bar> < 1 / 2" by simp
    then show ?thesis by (rule round_half_even_near)
  qed
  show ?thesis
  proof (cases "100000000000000 * u \<le> r")
    case True
    then have "flog 10 r = k" using hi by (intro flog_scaled) (simp_all add: u_def)
    then have "dec15_unit r = u" by (simp add: dec15_unit_def u_def)
    then show ?thesis using r0 u round [of u M] e by (simp add: dec15_pos dM)
  next
    case False
    have "d < (100000000000000 + 23 / 100) * u" 
    proof -
      have "d - r \<le> 23 / 100 * u" using e by linarith
      then show ?thesis using False by (simp only: distrib_right)
    qed
    then have "of_int M < (100000000000001 :: rat)"
      unfolding dM using u by (simp add: mult_less_cancel_right_pos)
    then have M14: "M = 100000000000000" using M(2) by simp
    define v where "v = u / 10"
    have v: "0 < v" "u = 10 * v" using u by (simp_all add: v_def)
    have v': "v = rpow 10 (k - 1 - 14)"
      using rpow_diff [of 10 "k - 14" 1] by (simp add: v_def u_def algebra_simps)
    have dv: "d = 1000000000000000 * v" unfolding dM M14 v(2) by simp
    then have e': "\<bar>r - d\<bar> \<le> 23 / 100 * v" using near v(1) by simp
    have "100000000000000 * v \<le> r" "r < 1000000000000000 * v"
      using False e' dv v by linarith+
    then have "flog 10 r = k - 1" unfolding v' by (rule flog_scaled)
    then have "dec15_unit r = v" by (simp add: dec15_unit_def v')
    then show ?thesis using r0 round [of v 1000000000000000] e' v(1) by (simp add: dec15_pos dv)
  qed
qed

text \<open>Rounding a number that is not far below the normal range moves it by at most one part in 2^52.\<close>

lemma mag64_relative:
  assumes "rpow 2 (- 1023) \<le> a"
  shows "\<bar>mag64 a - a\<bar> \<le> a / 4503599627370496"
proof -
  have a: "0 < a" using assms rpow_pos [of 2 "- 1023"] by linarith
  have "rpow 2 (- 1023) < rpow 2 (flog 2 a + 1)" using flog_bounds(2) [of 2 a] assms a by linarith
  then have k: "- 1023 \<le> flog 2 a" by (simp add: rpow_less_iff)
  have "ulp_exp a \<le> flog 2 a - 51" using k by (simp add: ulp_exp_def)
  then have "rpow 2 (ulp_exp a) \<le> rpow 2 (flog 2 a - 51)" by (intro rpow_mono) auto
  also have "\<dots> = rpow 2 (flog 2 a) / 2251799813685248"
    using rpow_diff [of 2 "flog 2 a" 51] by (simp add: rpow_int [of 51])
  also have "\<dots> \<le> a / 2251799813685248"
    using flog_bounds(1) [of 2 a] a by (intro divide_right_mono) auto
  finally show ?thesis using mag64_error [of a] by linarith
qed

text \<open>The range in which fifteen digits are safe: normal numbers and zero.\<close>

definition normal :: "rat \<Rightarrow> bool" where
  "normal q \<longleftrightarrow> q = 0 \<or> rpow 2 (- 1023) \<le> \<bar>q\<bar>"

lemma round64_digits15:
  assumes "digits15 \<bar>q\<bar>" and "normal q" and "round64 q = Fin r"
  shows "dec15 r = q"
proof -
  have q0: "q \<noteq> 0" using assms(1) by (auto simp: digits15_def)
  have n: "rpow 2 (- 1023) \<le> \<bar>q\<bar>" using assms(2) q0 by (simp add: normal_def)
  have st: "dec15 (mag64 \<bar>q\<bar>) = \<bar>q\<bar>"
    using dec15_stable [OF assms(1) mag64_relative [OF n]] .
  have "r = (if q < 0 then - mag64 \<bar>q\<bar> else mag64 \<bar>q\<bar>)"
    using assms(3) q0 by (auto simp: round64_def mag64_def Let_def zero_of_def split: if_splits)
  then show ?thesis using st by (auto simp: dec15_minus)
qed

lemma digits15_pos: "digits15 d \<Longrightarrow> 0 < d"
  by (auto simp: digits15_def)

lemma digits15_dec15: "q \<noteq> 0 \<Longrightarrow> digits15 \<bar>dec15 q\<bar>"
proof (cases "0 < q")
  case True
  from dec15_digits(1) [OF this] show ?thesis by (simp add: abs_of_pos digits15_pos)
next
  case False
  assume "q \<noteq> 0"
  with False have "digits15 (dec15 (- q))" by (intro dec15_digits(1)) simp
  moreover from this have "0 < - dec15 q" by (simp add: dec15_minus [symmetric] digits15_pos)
  ultimately show ?thesis by (simp add: dec15_minus)
qed

text \<open>
  Reading a number on its fifteen significant digits is idempotent: once \<open>significant15\<close>
  has removed the binary noise there is none left. (For normal results; a result that would
  overflow is left as it is.)
\<close>

theorem significant15_idem:
  assumes "normal (dec15 (rv n))"
  shows "significant15 (significant15 n) = significant15 n"
proof (cases n)
  case (Fin q)
  show ?thesis
  proof (cases "q = 0")
    case True
    then show ?thesis by (simp add: Fin significant15_def)
  next
    case False
    show ?thesis
    proof (cases "round64 (dec15 q)")
      case r: (Fin r)
      have "dec15 r = dec15 q"
        using round64_digits15 [OF digits15_dec15 [OF False] _ r] assms Fin by simp
      then show ?thesis by (simp add: Fin significant15_def r Let_def)
    qed (simp_all add: Fin significant15_def Let_def)
  qed
qed (simp_all add: significant15_def)

theorem significant15_idem_witness:
  "significant15 (significant15 (fadd (round64 (1 / 10)) (round64 (2 / 10)))) =
   significant15 (fadd (round64 (1 / 10)) (round64 (2 / 10)))"
proof -
  have "normal (dec15 (rv (fadd (round64 (1 / 10)) (round64 (2 / 10)))))" by code_simp
  then show ?thesis by (rule significant15_idem)
qed

subsection \<open>Decimal rounding\<close>

lemma rat_trunc_bounds:
  "0 \<le> r \<Longrightarrow> of_int (rat_trunc r) \<le> r \<and> r < of_int (rat_trunc r) + 1"
  "r < 0 \<Longrightarrow> r \<le> of_int (rat_trunc r) \<and> of_int (rat_trunc r) - 1 < r"
  unfolding rat_trunc_def by (simp_all add: floor_le_iff) linarith+

text \<open>
  How far each mode moves a value: half a unit, a tie outwards; less than a unit outwards; less than a unit inwards.
\<close>

lemma round_quotient_half: "\<bar>of_int (round_quotient roundHalfAway r) - r\<bar> \<le> 1 / 2"
  using rat_trunc_bounds [of r]
  by (cases "r < 0") (auto simp: round_quotient_def Let_def abs_le_iff)

lemma round_quotient_tie:
  "\<bar>of_int (round_quotient roundHalfAway r) - r\<bar> = 1 / 2 \<Longrightarrow> \<bar>r\<bar> < \<bar>of_int (round_quotient roundHalfAway r)\<bar>"
  using rat_trunc_bounds [of r]
  by (cases "r < 0") (auto simp: round_quotient_def Let_def abs_if split: if_splits)

lemma round_quotient_away:
  "\<bar>r\<bar> \<le> \<bar>of_int (round_quotient roundAway r)\<bar> \<and> \<bar>of_int (round_quotient roundAway r) - r\<bar> < 1"
  using rat_trunc_bounds [of r]
  by (cases "r < 0") (auto simp: round_quotient_def Let_def abs_le_iff abs_less_iff)

lemma round_quotient_toward:
  "\<bar>of_int (round_quotient roundToward r)\<bar> \<le> \<bar>r\<bar> \<and> \<bar>of_int (round_quotient roundToward r) - r\<bar> < 1"
  using rat_trunc_bounds [of r]
  by (cases "r < 0") (auto simp: round_quotient_def Let_def abs_le_iff abs_less_iff)

lemma round_places_range: "\<not> IsNaN places \<Longrightarrow> - 330 \<le> round_places places \<and> round_places places \<le> 330"
  by (cases places; simp add: round_places_def math_Max_def math_Min_def math_Trunc_def math_Ceil_def
      is_zero_def Let_def rat_trunc_def; linarith?)

lemma decimal_round_exact_eq:
  assumes "- 330 \<le> p" and "p \<le> 330"
  shows "decimal_round_exact q p mode = of_int (round_quotient mode (dec15 q * rpow 10 p)) * rpow 10 (- p)"
proof (cases "0 \<le> p")
  case True
  then have "round_scale p = rpow 10 p" by (simp add: round_scale_def rpow_int ipow_eq)
  with True show ?thesis by (simp add: decimal_round_exact_def Let_def rpow_minus)
next
  case False
  with assms have "round_scale p = rpow 10 (- p)" by (simp add: round_scale_def rpow_int ipow_eq)
  moreover have "dec15 q / rpow 10 (- p) = dec15 q * rpow 10 p" by (simp add: rpow_minus)
  ultimately show ?thesis using False by (simp add: decimal_round_exact_def Let_def)
qed

definition rounds_within :: "roundMode \<Rightarrow> rat \<Rightarrow> rat \<Rightarrow> rat \<Rightarrow> bool" where
  "rounds_within mode u v x =
     (case mode of
        roundHalfAway \<Rightarrow> \<bar>x - v\<bar> \<le> u / 2 \<and> (\<bar>x - v\<bar> = u / 2 \<longrightarrow> \<bar>v\<bar> < \<bar>x\<bar>)
      | roundAway \<Rightarrow> \<bar>v\<bar> \<le> \<bar>x\<bar> \<and> \<bar>x - v\<bar> < u
      | roundToward \<Rightarrow> \<bar>x\<bar> \<le> \<bar>v\<bar> \<and> \<bar>x - v\<bar> < u)"

lemma rounds_within_scale:
  assumes "0 < u" and "rounds_within mode 1 (v / u) x"
  shows "rounds_within mode u v (x * u)"
proof -
  have 1: "x * u - v = (x - v / u) * u" using assms(1) by (simp add: left_diff_distrib)
  have 2: "\<bar>v\<bar> = \<bar>v / u\<bar> * u" using assms(1) by simp
  have 3: "\<bar>x * u\<bar> = \<bar>x\<bar> * u" "\<bar>(x - v / u) * u\<bar> = \<bar>x - v / u\<bar> * u"
    using assms(1) by (simp_all add: abs_mult)
  from assms show ?thesis
    unfolding rounds_within_def 1 2 3 by (cases mode) (auto simp: divide_le_eq le_divide_eq divide_less_eq)
qed

text \<open>
  C36 ROUND, ROUNDUP and ROUNDDOWN work on the number's fifteen decimal digits, exactly: the
  result is the binary64 nearest to a multiple of \<open>10 ^ (- places)\<close>. For ROUND that multiple lies within
  half a unit of the decimal value, and of two multiples half a unit away it is the one farther from zero; for
  ROUNDUP it is the next multiple away from zero, and for ROUNDDOWN the next one towards zero (the value itself when it is
  a multiple). A negative zero becomes 0.
\<close>

theorem decimalRound_spec:
  assumes "is_finite n" and "\<not> IsNaN places"
  shows "\<exists>D. let u = rpow 10 (- round_places places); x = of_int D * u; f = round64 x
    in rounds_within mode u (dec15 (rv n)) x \<and>
       decimalRound n places mode = (if is_zero f then Fin 0 else f)"
proof -
  let ?p = "round_places places"
  let ?D = "round_quotient mode (dec15 (rv n) * rpow 10 ?p)"
  have q: "dec15 (rv n) * rpow 10 ?p = dec15 (rv n) / rpow 10 (- ?p)" by (simp add: rpow_minus)
  have "rounds_within mode 1 (dec15 (rv n) * rpow 10 ?p) (of_int ?D)"
    using round_quotient_half round_quotient_tie round_quotient_away round_quotient_toward
    by (cases mode) (simp_all add: rounds_within_def)
  then have "rounds_within mode (rpow 10 (- ?p)) (dec15 (rv n)) (of_int ?D * rpow 10 (- ?p))"
    unfolding q by (intro rounds_within_scale) simp_all
  moreover have "decimal_round_exact (rv n) ?p mode = of_int ?D * rpow 10 (- ?p)"
    using round_places_range [OF assms(2)] by (intro decimal_round_exact_eq) simp_all
  ultimately show ?thesis
    using assms by (intro exI [of _ ?D]) (simp add: decimalRound_def is_finite_def Let_def)
qed

theorem decimalRound_spec_witness:
  "\<exists>D. let u = rpow 10 (- round_places (Fin 2)); x = of_int D * u; f = round64 x
    in rounds_within roundHalfAway u (dec15 (rv (round64 (1005 / 1000)))) x \<and>
       decimalRound (round64 (1005 / 1000)) (Fin 2) roundHalfAway = (if is_zero f then Fin 0 else f)"
proof -
  have "is_finite (round64 (1005 / 1000))" by code_simp
  then show ?thesis by (rule decimalRound_spec) simp
qed

lemma digits15_small:
  assumes "0 < D" and "D < 1000000000000000"
  shows "digits15 (of_int D * rpow 10 e)"
proof -
  let ?d = "rat_of_int D" and ?k = "flog 10 (of_int D)"
  have d: "0 < ?d" using assms(1) by simp
  have kb: "rpow 10 ?k \<le> ?d" "?d < rpow 10 (?k + 1)" using flog_bounds [of 10 ?d] d by simp_all
  have "?d < rpow 10 15" using assms(2) by (simp add: rpow_int of_int_less_iff [symmetric] del: of_int_less_iff)
  with kb(1) have "rpow 10 ?k < rpow 10 15" by linarith
  then have k: "?k \<le> 14" by (simp add: rpow_less_iff)
  let ?M = "D * 10 ^ nat (14 - ?k)"
  have M: "of_int ?M = ?d * rpow 10 (14 - ?k)" using k by (simp add: rpow_int)
  have "of_int D * rpow 10 e = of_int ?M * rpow 10 (e + ?k - 14)"
    unfolding M using rpow_add [of 10 "14 - ?k" "e + ?k - 14"] by (simp add: mult.assoc)
  moreover have "100000000000000 \<le> ?M"
  proof -
    have "rpow 10 ?k * rpow 10 (14 - ?k) \<le> of_int ?M" unfolding M using kb(1) by (intro mult_right_mono) auto
    then have "(100000000000000 :: rat) \<le> of_int ?M"
      using rpow_add [of 10 ?k "14 - ?k"] by (simp add: rpow_10_14)
    then show ?thesis by linarith
  qed
  moreover have "?M < 1000000000000000"
  proof -
    have "of_int ?M < rpow 10 (?k + 1) * rpow 10 (14 - ?k)" unfolding M using kb(2) by (intro mult_strict_right_mono) auto
    then have "of_int ?M < (1000000000000000 :: rat)"
      using rpow_add [of 10 "?k + 1" "14 - ?k"] by (simp add: rpow_int)
    then show ?thesis by linarith
  qed
  ultimately show ?thesis
    unfolding digits15_def by (intro exI [of _ ?M] exI [of _ "e + ?k"]) simp
qed

lemma round_quotient_minus: "round_quotient mode (- r) = - round_quotient mode r"
  using of_int_floor_le [of r] of_int_floor_le [of "- r"]
  by (cases mode; auto simp: round_quotient_def rat_trunc_def Let_def abs_if; linarith)

lemma round_quotient_of_int [simp]: "round_quotient mode (of_int n) = n"
  by (cases "n < 0") (simp_all add: round_quotient_def rat_trunc_def Let_def flip: of_int_minus)

lemma rounded_digits15_pos:
  assumes "0 < q" and "round_quotient mode (dec15 q * rpow 10 p) \<noteq> 0"
  shows "digits15 (of_int (round_quotient mode (dec15 q * rpow 10 p)) * rpow 10 (- p))"
proof -
  let ?D = "round_quotient mode (dec15 q * rpow 10 p)"
  obtain M k where M: "dec15 q = of_int M * rpow 10 (k - 14)" "100000000000000 \<le> M" "M < 1000000000000000"
    using dec15_digits(1) [OF assms(1)] by (auto simp: digits15_def)
  have r: "dec15 q * rpow 10 p = of_int M * rpow 10 (k - 14 + p)"
    by (simp add: M(1) rpow_add)
  show ?thesis
  proof (cases "0 \<le> k - 14 + p")
    case True
    then have "dec15 q * rpow 10 p = of_int (M * 10 ^ nat (k - 14 + p))"
      by (simp add: r rpow_int)
    then have "of_int ?D = dec15 q * rpow 10 p" by (simp only: round_quotient_of_int)
    then have "of_int ?D * rpow 10 (- p) = dec15 q" by (simp add: rpow_minus)
    then show ?thesis using dec15_digits(1) [OF assms(1)] by simp
  next
    case False
    then have "rpow 10 (k - 14 + p) \<le> rpow 10 (- 1)" by (intro rpow_mono) auto
    then have "of_int M * rpow 10 (k - 14 + p) \<le> of_int M * rpow 10 (- 1)"
      using M(2) by (intro mult_left_mono) auto
    also have "\<dots> < 100000000000000"
      using M(3) by (simp add: rpow_minus of_int_less_iff [symmetric] del: of_int_less_iff)
    finally have lt: "dec15 q * rpow 10 p < 100000000000000" by (simp add: r)
    have nn: "0 \<le> dec15 q * rpow 10 p" using M(2) by (simp add: r)
    then have "rat_trunc (dec15 q * rpow 10 p) < 100000000000000" "0 \<le> rat_trunc (dec15 q * rpow 10 p)"
      using lt by (simp_all add: rat_trunc_def floor_less_iff)
    then have "0 \<le> ?D" "?D \<le> 100000000000000"
      using nn by (cases mode; simp add: round_quotient_def Let_def)+
    with assms(2) show ?thesis by (intro digits15_small) auto
  qed
qed

lemma rounded_digits15:
  assumes "round_quotient mode (dec15 q * rpow 10 p) \<noteq> 0"
  shows "digits15 \<bar>of_int (round_quotient mode (dec15 q * rpow 10 p)) * rpow 10 (- p)\<bar>"
proof -
  have pos: "digits15 \<bar>of_int (round_quotient mode (dec15 t * rpow 10 p)) * rpow 10 (- p)\<bar>"
    if "0 < t" "round_quotient mode (dec15 t * rpow 10 p) \<noteq> 0" for t
    using rounded_digits15_pos [OF that] by (simp add: abs_of_pos digits15_pos del: abs_mult)
  consider "0 < q" | "q = 0" | "0 < - q" by linarith
  then show ?thesis
  proof cases
    case 1
    then show ?thesis using assms by (rule pos)
  next
    case 2
    then show ?thesis using assms round_quotient_of_int [of mode 0] by simp
  next
    case 3
    then show ?thesis using pos [of "- q"] assms by (simp add: dec15_minus round_quotient_minus)
  qed
qed

text \<open>
  Rounding to the same number of places twice is rounding once, in every mode: the
  result of ROUND, ROUNDUP and ROUNDDOWN has no binary noise that a second ROUNDUP would carry
  into the next unit. (For a result in the normal range.)
\<close>

theorem decimalRound_idem:
  assumes "\<not> IsNaN places" and "normal (decimal_round_exact (rv n) (round_places places) mode)"
  shows "decimalRound (decimalRound n places mode) places mode = decimalRound n places mode"
proof (cases "is_finite n")
  case False
  then show ?thesis by (auto simp: decimalRound_def is_finite_def)
next
  case True
  let ?p = "round_places places" and ?x = "decimal_round_exact (rv n) (round_places places) mode"
  let ?D = "round_quotient mode (dec15 (rv n) * rpow 10 ?p)"
  note p = round_places_range [OF assms(1)]
  have x: "?x = of_int ?D * rpow 10 (- ?p)" using p by (intro decimal_round_exact_eq) auto
  have dr: "decimalRound n places mode = (if is_zero (round64 ?x) then Fin 0 else round64 ?x)"
    using True by (simp add: decimalRound_def is_finite_def Let_def)
  have zero: "decimalRound (Fin 0) places mode = Fin 0"
    using p round_quotient_of_int [of mode 0]
    by (simp add: decimalRound_def decimal_round_exact_eq is_zero_def)
  show ?thesis
  proof (cases "is_zero (round64 ?x)")
    case True
    then show ?thesis by (simp add: dr zero)
  next
    case nz: False
    show ?thesis
    proof (cases "round64 ?x")
      case (Fin r)
      have "?D \<noteq> 0" using nz x by (auto simp: is_zero_def)
      then have "dec15 r = ?x"
        using round64_digits15 [OF _ assms(2) Fin] rounded_digits15 x by simp
      then have "decimal_round_exact r ?p mode = of_int (round_quotient mode (?x * rpow 10 ?p)) * rpow 10 (- ?p)"
        using p decimal_round_exact_eq [of ?p r mode] by simp
      also have "?x * rpow 10 ?p = of_int ?D" by (simp add: x rpow_minus)
      finally have "decimal_round_exact r ?p mode = ?x" by (simp add: x)
      then show ?thesis using nz Fin by (simp add: dr decimalRound_def Let_def)
    qed (use nz in \<open>simp_all add: dr decimalRound_def is_zero_def\<close>)
  qed
qed

theorem decimalRound_idem_witness:
  "decimalRound (decimalRound (round64 (1005 / 1000)) (Fin 2) roundAway) (Fin 2) roundAway =
   decimalRound (round64 (1005 / 1000)) (Fin 2) roundAway"
proof -
  have "normal (decimal_round_exact (rv (round64 (1005 / 1000))) (round_places (Fin 2)) roundAway)"
    by code_simp
  then show ?thesis by (intro decimalRound_idem) simp_all
qed

end
