(* ===== verification/Values.thy ===== *)
theory Values
  imports Decimal
begin

text \<open>
  The data of the formula engine: the syntax tree (\<open>internal/formula/ast.go\<close>), values and
  errors (\<open>value.go\<close>), and the comparison every operator, SWITCH and criterion rests on.
\<close>

subsection \<open>Syntax tree\<close>

datatype node =
    NumberLit f64
  | StringLit string
  | BoolLit bool
  | Ident string
  | DimProperty string string \<comment> \<open>dimension, property\<close>
  | UnaryExpr string node
  | BinaryExpr string node node
  | CallExpr string "node list"

subsection \<open>Errors and values\<close>

record FormulaError =
  Code :: string
  Message :: string
  memberNotAvailable :: bool

definition mk_error :: "string \<Rightarrow> string \<Rightarrow> FormulaError" where
  "mk_error c m = \<lparr>Code = c, Message = m, memberNotAvailable = False\<rparr>"

definition ErrDiv0 :: FormulaError where
  "ErrDiv0 = mk_error ''#DIV/0!'' ''Division by zero''"

definition ErrValue :: FormulaError where
  "ErrValue = mk_error ''#VALUE!'' ''Wrong value type''"

definition ErrRef :: FormulaError where
  "ErrRef = mk_error ''#REF!'' ''Invalid reference''"

definition ErrName :: FormulaError where
  "ErrName = mk_error ''#NAME?'' ''Unknown name''"

definition ErrNA :: FormulaError where
  "ErrNA = mk_error ''#N/A'' ''Value not available''"

definition ErrNum :: FormulaError where
  "ErrNum = mk_error ''#NUM!'' ''Invalid numeric value''"

definition errName :: "string \<Rightarrow> FormulaError" where
  "errName name = mk_error ''#NAME?'' (''Unknown name: '' @ name)"

definition errValue :: "string \<Rightarrow> FormulaError" where
  "errValue msg = mk_error ''#VALUE!'' msg"

lemmas error_defs =
  mk_error_def ErrDiv0_def ErrValue_def ErrRef_def ErrName_def ErrNA_def ErrNum_def
  errName_def errValue_def

definition error_text :: "FormulaError \<Rightarrow> string" where
  "error_text e = (if Message e \<noteq> [] then Code e @ '': '' @ Message e else Code e)"

datatype Kind = KindNumber | KindString | KindBool | KindBlank | KindError

datatype Value =
    NumberVal f64
  | StringVal string
  | BoolVal bool
  | BlankVal
  | ErrorVal FormulaError

fun kind :: "Value \<Rightarrow> Kind" where
  "kind (NumberVal _) = KindNumber"
| "kind (StringVal _) = KindString"
| "kind (BoolVal _) = KindBool"
| "kind BlankVal = KindBlank"
| "kind (ErrorVal _) = KindError"

definition IsError :: "Value \<Rightarrow> bool" where
  "IsError v \<longleftrightarrow> kind v = KindError"

definition IsBlank :: "Value \<Rightarrow> bool" where
  "IsBlank v \<longleftrightarrow> kind v = KindBlank"

lemma IsError_simps [simp]:
  "\<not> IsError (NumberVal n)" "\<not> IsError (StringVal s)" "\<not> IsError (BoolVal b)"
  "\<not> IsError BlankVal" "IsError (ErrorVal e)"
  by (simp_all add: IsError_def)

lemma IsBlank_simps [simp]:
  "\<not> IsBlank (NumberVal n)" "\<not> IsBlank (StringVal s)" "\<not> IsBlank (BoolVal b)"
  "IsBlank BlankVal" "\<not> IsBlank (ErrorVal e)"
  by (simp_all add: IsBlank_def)

lemma IsError_iff: "IsError v \<longleftrightarrow> (\<exists>e. v = ErrorVal e)"
  by (cases v) auto

text \<open>\<open>Value.Number\<close>: the number and whether the value has one.\<close>

fun Number :: "Value \<Rightarrow> f64 option" where
  "Number (NumberVal n) = Some n"
| "Number (BoolVal b) = Some (if b then Fin 1 else Fin 0)"
| "Number BlankVal = Some (Fin 0)"
| "Number (StringVal _) = None"
| "Number (ErrorVal _) = None"

fun Text :: "Value \<Rightarrow> string" where
  "Text (NumberVal n) = numberText15 n"
| "Text (StringVal s) = s"
| "Text (BoolVal b) = (if b then ''TRUE'' else ''FALSE'')"
| "Text BlankVal = []"
| "Text (ErrorVal e) = Code e"

fun Truth :: "Value \<Rightarrow> bool" where
  "Truth (BoolVal b) = b"
| "Truth (NumberVal n) = (\<not> is_zero n)"
| "Truth (StringVal s) = EqualFold s ''true''"
| "Truth BlankVal = False"
| "Truth (ErrorVal _) = False"

lemma Number_None: "Number v = None \<longleftrightarrow> kind v = KindString \<or> kind v = KindError"
  by (cases v) auto

subsection \<open>Comparison\<close>

definition sign_of_less :: "bool \<Rightarrow> bool \<Rightarrow> int" where
  "sign_of_less lt gt = (if lt then - 1 else if gt then 1 else 0)"

definition compareValues :: "Value \<Rightarrow> Value \<Rightarrow> FormulaError + int" where
  "compareValues a b =
     (case a of ErrorVal e \<Rightarrow> Inl e
      | _ \<Rightarrow> case b of ErrorVal e \<Rightarrow> Inl e
      | _ \<Rightarrow>
        (case (Number a, Number b) of
           (Some an, Some bn) \<Rightarrow>
             (let an = significant15 an; bn = significant15 bn
              in Inr (sign_of_less (flt an bn) (flt bn an)))
         | _ \<Rightarrow> Inr (str_compare (ToUpper (Text a)) (ToUpper (Text b)))))"

lemma compareValues_error:
  "compareValues a b = Inl e \<longleftrightarrow> a = ErrorVal e \<or> \<not> IsError a \<and> b = ErrorVal e"
  by (cases a; cases b) (auto simp: compareValues_def Let_def)

lemma compareValues_numbers:
  assumes "Number a = Some x" and "Number b = Some y"
  shows "compareValues a b =
    Inr (sign_of_less (flt (significant15 x) (significant15 y)) (flt (significant15 y) (significant15 x)))"
  using assms by (cases a; cases b) (simp_all add: compareValues_def Let_def)

lemma compareValues_text:
  assumes "\<not> IsError a" and "\<not> IsError b" and "Number a = None \<or> Number b = None"
  shows "compareValues a b = Inr (str_compare (ToUpper (Text a)) (ToUpper (Text b)))"
  using assms by (cases a; cases b) (simp_all add: compareValues_def)

text \<open>Comparing the other way round gives the opposite sign; comparing with itself gives 0.\<close>

lemma compareValues_swap:
  "compareValues a b = Inr c \<Longrightarrow> compareValues b a = Inr (- c)"
proof (cases "Number a = None \<or> Number b = None")
  case True
  assume "compareValues a b = Inr c"
  moreover from this have "\<not> IsError a" "\<not> IsError b"
    by (cases a; cases b; simp add: compareValues_def)+
  ultimately show ?thesis
    using True str_compare_antisym [of "ToUpper (Text b)" "ToUpper (Text a)"]
    by (auto simp: compareValues_text)
next
  case False
  then obtain x y where "Number a = Some x" "Number b = Some y" by auto
  moreover assume "compareValues a b = Inr c"
  ultimately show ?thesis
    by (auto simp: compareValues_numbers sign_of_less_def dest: flt_asym)
qed

lemma compareValues_refl: "\<not> IsError a \<Longrightarrow> compareValues a a = Inr 0"
  by (cases a) (simp_all add: compareValues_def Let_def sign_of_less_def)

end
