(* ===== verification/Lexer.thy ===== *)
theory Lexer
  imports Values
begin

text \<open>
  The lexer of \<open>internal/formula/lexer.go\<close>. The Go lexer keeps the source runes and an index
  into them; here a reader takes the unread text (and the index, for the tokens' positions)
  and returns the token with the text left. \<open>lex\<close> calls \<open>next_token\<close> until end of input, as
  the source does; its termination is the fact that every other token consumes text.
\<close>

subsection \<open>Tokens\<close>

datatype TokenType =
    tokEOF | tokNumber | tokString | tokIdent | tokPlus | tokMinus | tokStar | tokSlash
  | tokCaret | tokLParen | tokRParen | tokComma | tokEq | tokNeq | tokLt | tokLte | tokGt
  | tokGte | tokAmpersand | tokSemicolon | tokDotted | tokError

record Token =
  Type :: TokenType
  Val :: string
  Pos :: nat
  Dim :: string
  Prop :: string

definition tok :: "TokenType \<Rightarrow> string \<Rightarrow> nat \<Rightarrow> Token" where
  "tok t v p = \<lparr>Type = t, Val = v, Pos = p, Dim = [], Prop = []\<rparr>"

definition dotted_tok :: "string \<Rightarrow> nat \<Rightarrow> string \<Rightarrow> string \<Rightarrow> Token" where
  "dotted_tok v p d q = \<lparr>Type = tokDotted, Val = v, Pos = p, Dim = d, Prop = q\<rparr>"

lemma tok_sel [simp]:
  "Type (tok t v p) = t" "Val (tok t v p) = v" "Pos (tok t v p) = p"
  by (simp_all add: tok_def)

lemma dotted_tok_sel [simp]:
  "Type (dotted_tok v p d q) = tokDotted" "Val (dotted_tok v p d q) = v"
  "Pos (dotted_tok v p d q) = p" "Dim (dotted_tok v p d q) = d" "Prop (dotted_tok v p d q) = q"
  by (simp_all add: dotted_tok_def)

subsection \<open>Readers\<close>

text \<open>The text a reader consumed, given what it started from and what it left.\<close>

definition consumed :: "string \<Rightarrow> string \<Rightarrow> string" where
  "consumed cs rest = take (length cs - length rest) cs"

definition peek :: "string \<Rightarrow> char \<Rightarrow> bool" where
  "peek cs c \<longleftrightarrow> (case cs of [] \<Rightarrow> False | d # _ \<Rightarrow> d = c)"

definition isIdentRune :: "char \<Rightarrow> bool" where
  "isIdentRune r \<longleftrightarrow> IsLetter r \<or> IsDigit r \<or> r = CHR ''_''"

definition isIdentStart :: "char \<Rightarrow> bool" where
  "isIdentStart r \<longleftrightarrow> IsLetter r \<or> r = CHR ''_''"

fun string_body :: "string \<Rightarrow> string \<Rightarrow> (string \<times> string) option" where
  "string_body acc [] = None"
| "string_body acc (c # cs) =
     (if c = CHR ''\"'' then
        (case cs of
           d # ds \<Rightarrow> if d = CHR ''\"'' then string_body (acc @ [c]) ds else Some (acc, cs)
         | [] \<Rightarrow> Some (acc, cs))
      else string_body (acc @ [c]) cs)"

definition readString :: "nat \<Rightarrow> string \<Rightarrow> Token \<times> string" where
  "readString start cs =
     (case string_body [] (tl cs) of
        Some (v, rest) \<Rightarrow> (tok tokString v start, rest)
      | None \<Rightarrow>
          (tok tokError (''the text starting at position '' @ show_int (int start) @
             '' has no closing quote ('' @ [CHR ''\"''] @ '')'') start, []))"

definition number_rest :: "string \<Rightarrow> string" where
  "number_rest cs =
     (let r = dropWhile (\<lambda>c. IsDigit c \<or> c = CHR ''.'') cs
      in case r of
           e # r' \<Rightarrow>
             if e = CHR ''e'' \<or> e = CHR ''E'' then
               dropWhile IsDigit
                 (case r' of s # r'' \<Rightarrow> if s = CHR ''+'' \<or> s = CHR ''-'' then r'' else r' | [] \<Rightarrow> r')
             else r
         | [] \<Rightarrow> r)"

definition readNumber :: "nat \<Rightarrow> string \<Rightarrow> Token \<times> string" where
  "readNumber start cs =
     (let rest = number_rest cs in (tok tokNumber (consumed cs rest) start, rest))"

definition readWord :: "string \<Rightarrow> string" where
  "readWord cs = dropWhile isIdentRune cs"

lemma readWord_length: "length (readWord cs) \<le> length cs"
  by (simp add: readWord_def length_dropWhile_le)

text \<open>The further dotted words of \<open>a.b.c\<close>, which are one malformed token.\<close>

function drop_dots :: "string \<Rightarrow> string" where
  "drop_dots cs =
     (case cs of
        d # c # ds \<Rightarrow> if d = CHR ''.'' \<and> isIdentRune c then drop_dots (readWord (c # ds)) else cs
      | _ \<Rightarrow> cs)"
  by pat_completeness auto
termination
proof (relation "measure length", goal_cases)
  case (2 cs d r c ds)
  have "length (readWord (c # ds)) \<le> length (c # ds)" by (rule readWord_length)
  with 2 show ?case by simp
qed simp

declare drop_dots.simps [simp del]

definition dot_ident :: "string \<Rightarrow> bool" where
  "dot_ident cs \<longleftrightarrow> (case cs of d # c # _ \<Rightarrow> d = CHR ''.'' \<and> isIdentRune c | _ \<Rightarrow> False)"

definition one_dot_msg :: string where
  "one_dot_msg = '': a property reference has exactly one dot (dimension.property)''"

definition prop_start_msg :: string where
  "prop_start_msg = '': a property name must start with a letter or _''"

definition readIdent :: "nat \<Rightarrow> string \<Rightarrow> Token \<times> string" where
  "readIdent start cs =
     (let r = readWord cs; ident = (tok tokIdent (consumed cs r) start, r)
      in case r of
           d # after # r' \<Rightarrow>
             if d \<noteq> CHR ''.'' then ident
             else if isIdentStart after then
               (let r2 = readWord (after # r')
                in if dot_ident r2 then
                     (let r3 = drop_dots r2
                      in (tok tokError (consumed cs r3 @ one_dot_msg) start, r3))
                   else (dotted_tok (consumed cs r2) start (consumed cs r)
                           (consumed (after # r') r2), r2))
             else if IsDigit after then
               (let r2 = readWord (after # r')
                in (tok tokError (consumed cs r2 @ prop_start_msg) start, r2))
             else ident
         | _ \<Rightarrow> ident)"

definition readBraceIdent :: "nat \<Rightarrow> string \<Rightarrow> Token \<times> string" where
  "readBraceIdent start cs =
     (let inner = tl cs; r0 = dropWhile (\<lambda>c. c \<noteq> CHR ''}'') inner; val = consumed inner r0
      in case r0 of
           [] \<Rightarrow> (tok tokError (''the name starting at position '' @ show_int (int start) @
                    '' has no closing brace (})'') start, [])
         | _ # r \<Rightarrow>
             (case r of
                d # after # r' \<Rightarrow>
                  if d \<noteq> CHR ''.'' then (tok tokIdent val start, r)
                  else if isIdentStart after then
                    (let r2 = readWord (after # r')
                     in if peek r2 (CHR ''.'') then
                          (tok tokError (consumed cs r2 @ one_dot_msg) start, r2)
                        else (dotted_tok (consumed cs r2) start val
                                (consumed (after # r') r2), r2))
                  else if IsDigit after then
                    (let r2 = readWord (after # r')
                     in (tok tokError (consumed cs r2 @ prop_start_msg) start, r2))
                  else (tok tokIdent val start, r)
              | _ \<Rightarrow> (tok tokIdent val start, r)))"

text \<open>The operators; an unknown character is an identifier, which the parser will refuse.\<close>

definition op_token :: "nat \<Rightarrow> char \<Rightarrow> string \<Rightarrow> Token \<times> string" where
  "op_token start ch r =
     (if ch = CHR ''+'' then (tok tokPlus ''+'' start, r)
      else if ch = CHR ''-'' then (tok tokMinus ''-'' start, r)
      else if ch = CHR ''*'' then (tok tokStar ''*'' start, r)
      else if ch = CHR ''/'' then (tok tokSlash ''/'' start, r)
      else if ch = CHR ''^'' then (tok tokCaret ''^'' start, r)
      else if ch = CHR ''('' then (tok tokLParen ''('' start, r)
      else if ch = CHR '')'' then (tok tokRParen '')'' start, r)
      else if ch = CHR '','' then (tok tokComma '','' start, r)
      else if ch = CHR '';'' then (tok tokSemicolon '';'' start, r)
      else if ch = CHR ''&'' then (tok tokAmpersand ''&'' start, r)
      else if ch = CHR ''='' then (tok tokEq ''='' start, r)
      else if ch = CHR ''<'' then
        (if peek r (CHR ''>'') then (tok tokNeq ''<>'' start, tl r)
         else if peek r (CHR ''='') then (tok tokLte ''<='' start, tl r)
         else (tok tokLt ''<'' start, r))
      else if ch = CHR ''>'' then
        (if peek r (CHR ''='') then (tok tokGte ''>='' start, tl r)
         else (tok tokGt ''>'' start, r))
      else (tok tokIdent [ch] start, r))"

definition number_start :: "string \<Rightarrow> bool" where
  "number_start cs \<longleftrightarrow>
     (case cs of
        [] \<Rightarrow> False
      | c # r \<Rightarrow> IsDigit c \<or> c = CHR ''.'' \<and> (case r of d # _ \<Rightarrow> IsDigit d | [] \<Rightarrow> False))"

definition next_token :: "nat \<Rightarrow> string \<Rightarrow> Token \<times> string" where
  "next_token pos cs0 =
     (let cs = dropWhile IsSpace cs0; start = pos + (length cs0 - length cs)
      in case cs of
           [] \<Rightarrow> (tok tokEOF [] start, [])
         | ch # r \<Rightarrow>
             if ch = CHR ''\"'' then readString start cs
             else if number_start cs then readNumber start cs
             else if isIdentStart ch then readIdent start cs
             else if ch = CHR ''{'' then readBraceIdent start cs
             else op_token start ch r)"

subsection \<open>Every token consumes text\<close>

lemma string_body_length: "string_body acc cs = Some (v, rest) \<Longrightarrow> length rest < length cs"
  by (induction acc cs rule: string_body.induct) (auto split: if_splits list.splits)

lemma readString_length: "readString s (c # cs) = (t, rest) \<Longrightarrow> length rest < length (c # cs)"
  by (auto simp: readString_def split: option.splits dest: string_body_length)

lemma dropWhile_cons_length: "P c \<Longrightarrow> length (dropWhile P (c # cs)) \<le> length cs"
  by (simp add: length_dropWhile_le)

lemma readWord_cons_length: "isIdentRune c \<Longrightarrow> length (readWord (c # cs)) \<le> length cs"
  by (simp add: readWord_def length_dropWhile_le)

lemma number_rest_length: "number_start cs \<Longrightarrow> length (number_rest cs) < length cs"
proof -
  assume "number_start cs"
  then obtain c r where cs: "cs = c # r" and c: "IsDigit c \<or> c = CHR ''.''"
    by (auto simp: number_start_def split: list.splits)
  let ?d = "dropWhile (\<lambda>c. IsDigit c \<or> c = CHR ''.'') cs"
  have d: "length ?d \<le> length r" unfolding cs using c by (intro dropWhile_cons_length)
  have "length (number_rest cs) \<le> length ?d"
    by (auto simp: number_rest_def Let_def split: list.splits
        intro: le_trans [OF length_dropWhile_le])
  with d cs show ?thesis by simp
qed

lemma readNumber_length:
  "number_start cs \<Longrightarrow> readNumber s cs = (t, rest) \<Longrightarrow> length rest < length cs"
  using number_rest_length by (auto simp: readNumber_def Let_def)

lemma drop_dots_length: "length (drop_dots cs) \<le> length cs"
proof (induction cs rule: drop_dots.induct)
  case (1 cs)
  show ?case
  proof (cases "\<exists>d c ds. cs = d # c # ds \<and> d = CHR ''.'' \<and> isIdentRune c")
    case True
    then obtain c ds where cs: "cs = CHR ''.'' # c # ds" and c: "isIdentRune c" by auto
    have "length (drop_dots (readWord (c # ds))) \<le> length (readWord (c # ds))"
      using 1 cs c by simp
    also have "\<dots> \<le> length (c # ds)" by (rule readWord_length)
    finally show ?thesis using c unfolding cs by (subst drop_dots.simps) simp
  next
    case False
    then show ?thesis by (auto simp: drop_dots.simps [of cs] split: list.splits)
  qed
qed

lemma isIdentStart_rune: "isIdentStart c \<Longrightarrow> isIdentRune c"
  by (auto simp: isIdentStart_def isIdentRune_def)

lemma readIdent_length:
  assumes "isIdentStart c" and "readIdent s (c # cs) = (t, rest)"
  shows "length rest < length (c # cs)"
proof -
  obtain r where r: "readWord (c # cs) = r" by simp
  have le: "length r \<le> length cs"
    using assms(1) r readWord_cons_length [of c cs] by (simp add: isIdentStart_rune)
  have w: "length (readWord x) \<le> length x" for x by (rule readWord_length)
  have dd: "length (drop_dots (readWord x)) \<le> length x" for x
    using drop_dots_length [of "readWord x"] w [of x] by linarith
  note eq = assms(2) [unfolded readIdent_def Let_def r]
  show ?thesis
  proof (cases "\<exists>d a r2. r = d # a # r2")
    case False
    with eq le show ?thesis by (auto split: list.splits)
  next
    case True
    then obtain d a r2 where "r = d # a # r2" by auto
    with eq le w [of "a # r2"] dd [of "a # r2"] show ?thesis
      by (auto split: if_splits)
  qed
qed

lemma readBraceIdent_length:
  assumes "readBraceIdent s (c # cs) = (t, rest)"
  shows "length rest < length (c # cs)"
proof -
  let ?r = "dropWhile (\<lambda>c. c \<noteq> CHR ''}'') cs"
  have r: "length ?r \<le> length cs" by (rule length_dropWhile_le)
  have w: "length (readWord x) \<le> length x" for x by (rule readWord_length)
  show ?thesis
  proof (cases ?r)
    case Nil
    with assms show ?thesis by (auto simp: readBraceIdent_def Let_def)
  next
    case (Cons d r1)
    show ?thesis
    proof (cases "\<exists>x y z. r1 = x # y # z")
      case False
      with Cons assms r show ?thesis
        by (auto simp: readBraceIdent_def Let_def split: list.splits)
    next
      case True
      then obtain x y z where r1: "r1 = x # y # z" by auto
      with Cons assms r w [of "y # z"] show ?thesis
        by (auto simp: readBraceIdent_def Let_def split: if_splits)
    qed
  qed
qed

lemma op_token_length: "op_token s c cs = (t, rest) \<Longrightarrow> length rest \<le> length cs"
  by (auto simp: op_token_def split: if_splits)

lemma op_token_not_EOF: "Type (fst (op_token s c cs)) \<noteq> tokEOF"
  by (simp add: op_token_def)

lemma next_token_length:
  assumes "next_token pos cs0 = (t, rest)" and "Type t \<noteq> tokEOF"
  shows "length rest < length cs0"
proof -
  let ?cs = "dropWhile IsSpace cs0"
  have le: "length ?cs \<le> length cs0" by (rule length_dropWhile_le)
  show ?thesis
  proof (cases ?cs)
    case Nil
    with assms show ?thesis by (auto simp: next_token_def Let_def)
  next
    case (Cons ch r)
    with assms(1) have "length rest < length (ch # r)"
      by (auto simp: next_token_def Let_def less_Suc_eq_le split: if_splits
          dest: readString_length readNumber_length readIdent_length readBraceIdent_length
            op_token_length)
    with le Cons show ?thesis by simp
  qed
qed

function lex_from :: "nat \<Rightarrow> string \<Rightarrow> Token list" where
  "lex_from pos cs =
     (let nt = next_token pos cs
      in if Type (fst nt) = tokEOF then [fst nt]
         else fst nt # lex_from (pos + (length cs - length (snd nt))) (snd nt))"
  by pat_completeness auto
termination
  by (relation "measure (\<lambda>(pos, cs). length cs)") (auto intro: next_token_length prod.collapse [symmetric])

declare lex_from.simps [simp del]

definition lex :: "string \<Rightarrow> Token list" where
  "lex src = lex_from 0 src"

definition QuoteName :: "string \<Rightarrow> string" where
  "QuoteName name =
     (if name \<noteq> [] \<and> list_all isIdentRune name \<and> \<not> IsDigit (hd name) then name
      else ''{'' @ name @ ''}'')"

end
