(* ===== verification/Grammar.thy ===== *)
theory Grammar
  imports Parser
begin

text \<open>
  The parser implements its grammar: the parse functions stop, consume what they accept, and
  \<open>parse\<close> returns a tree exactly for the sentences of the grammar documented in
  \<open>internal/formula/parser.go\<close>, which is the inductive relation \<open>derives\<close>.
\<close>

subsection \<open>The contract of a parse function\<close>

locale bounded_parser =
  fixes p :: parser and n :: nat
  assumes shrinks: "p ts = POk e r \<Longrightarrow> length r < length ts"
    and returns: "length ts < n \<Longrightarrow> p ts \<noteq> POut"
begin

lemma bind_shrinks:
  assumes "bind_ok (p ts) f = POk e r" and "\<And>a s. f a s = POk e r \<Longrightarrow> length r \<le> length s"
  shows "length r < length ts"
proof -
  from assms(1) obtain a s where "p ts = POk a s" "f a s = POk e r" by (cases "p ts") auto
  with shrinks [of ts a s] assms(2) [of a s] show ?thesis by simp
qed

lemma bind_returns:
  assumes "length ts < n" and "\<And>a s. p ts = POk a s \<Longrightarrow> f a s \<noteq> POut"
  shows "bind_ok (p ts) f \<noteq> POut"
  using returns [OF assms(1)] assms(2) by (cases "p ts") auto

lemma chain_shrinks: "chain k ops p left ts = POk e r \<Longrightarrow> length r \<le> length ts"
proof (induction k arbitrary: left ts)
  case 0
  then show ?case by simp
next
  case (Suc k)
  show ?case
  proof (cases "ops (peekt ts)")
    case None
    with Suc.prems show ?thesis by simp
  next
    case (Some op)
    with Suc.prems obtain a s where "p (tl ts) = POk a s"
      and "chain k ops p (BinaryExpr op left a) s = POk e r"
      by (cases "p (tl ts)") auto
    with shrinks [of "tl ts" a s] Suc.IH show ?thesis by fastforce
  qed
qed

lemma chain_returns:
  "ops eof_token = None \<Longrightarrow> length ts < k \<Longrightarrow> length ts \<le> n \<Longrightarrow> chain k ops p left ts \<noteq> POut"
proof (induction k arbitrary: left ts)
  case 0
  then show ?case by simp
next
  case (Suc k)
  show ?case
  proof (cases "ops (peekt ts)")
    case None
    then show ?thesis by simp
  next
    case (Some op)
    with Suc.prems obtain t ts' where ts: "ts = t # ts'" by (cases ts) auto
    show ?thesis
    proof (cases "p ts'")
      case (POk a s)
      with shrinks [of ts' a s] Suc.prems ts Suc.IH [of s] Some show ?thesis by simp
    next
      case POut
      with returns [of ts'] Suc.prems ts show ?thesis by simp
    next
      case (PErr m)
      with Some ts show ?thesis by simp
    qed
  qed
qed

lemma binary_level_bounded: "ops eof_token = None \<Longrightarrow> bounded_parser (binary_level ops p) n"
proof unfold_locales
  fix ts e r
  assume "binary_level ops p ts = POk e r"
  then show "length r < length ts"
    unfolding binary_level_def by (rule bind_shrinks) (rule chain_shrinks)
next
  fix ts :: "Token list"
  assume ops: "ops eof_token = None" and len: "length ts < n"
  show "binary_level ops p ts \<noteq> POut"
    unfolding binary_level_def
  proof (rule bind_returns [OF len])
    fix a s
    assume "p ts = POk a s"
    with shrinks [of ts a s] len show "chain (Suc (length s)) ops p a s \<noteq> POut"
      by (intro chain_returns) (auto simp: ops)
  qed
qed

lemma call_args_shrinks: "call_args k p name args ts = POk e r \<Longrightarrow> length r < length ts"
proof (induction k arbitrary: args ts)
  case (Suc k)
  then obtain a s where s: "p ts = POk a s" by (cases "p ts") auto
  from s shrinks have "length s < length ts" by auto
  moreover have "length (tl s) \<le> length s" by simp
  ultimately show ?case
    using Suc.prems s Suc.IH [of "args @ [a]" "tl s"]
    by (auto simp: Let_def split: if_splits)
qed simp

lemma call_args_returns: "length ts < k \<Longrightarrow> length ts < n \<Longrightarrow> call_args k p name args ts \<noteq> POut"
proof (induction k arbitrary: args ts)
  case (Suc k)
  show ?case
    unfolding call_args.simps
  proof (rule bind_returns [OF Suc.prems(2)])
    fix a s
    assume s: "p ts = POk a s"
    have "length s < length ts" using shrinks s by simp
    with Suc.prems have "length (tl s) < k" "length (tl s) < n" by auto
    then show "(let args' = args @ [a]; t = peekt s in
        if Type t = tokRParen then POk (CallExpr (ToUpper name) args') (tl s)
        else if Type t = tokComma \<or> Type t = tokSemicolon then call_args k p name args' (tl s)
        else PErr (expected_separator t)) \<noteq> POut"
      using Suc.IH by (auto simp: Let_def)
  qed
qed simp

lemma parseCall_shrinks: "length ts \<ge> 2 \<Longrightarrow> parseCall p ts = POk e r \<Longrightarrow> length r < length ts"
  by (auto simp: parseCall_def Let_def simp del: call_args.simps split: if_splits
      dest!: call_args_shrinks)

lemma parseCall_returns: "length ts \<ge> 2 \<Longrightarrow> length ts \<le> n \<Longrightarrow> parseCall p ts \<noteq> POut"
  using call_args_returns [of "drop 2 ts" "Suc (length (drop 2 ts))"]
  by (auto simp: parseCall_def Let_def simp del: call_args.simps)

lemma next_is_lparen_length: "next_is_lparen ts \<Longrightarrow> 2 \<le> length ts"
  by (auto simp: next_is_lparen_def split: list.splits)

lemma paren_shrinks: "bind_ok (p ts) close_paren = POk e r \<Longrightarrow> length r < length ts"
  by (erule bind_shrinks) (auto simp: close_paren_def split: if_splits)

lemma paren_returns: "length ts < n \<Longrightarrow> bind_ok (p ts) close_paren \<noteq> POut"
  by (erule bind_returns) (simp add: close_paren_def)

lemma parsePrimary_shrinks: "parsePrimary p ts = POk e r \<Longrightarrow> length r < length ts"
proof (cases ts)
  case (Cons t us)
  assume "parsePrimary p ts = POk e r"
  with Cons parseCall_shrinks [OF next_is_lparen_length, of ts e r] paren_shrinks [of us e r]
  show ?thesis
    by (auto simp: parsePrimary_def Let_def split: TokenType.splits if_splits option.splits)
qed (simp add: parsePrimary_def)

lemma parsePrimary_returns: "length ts < Suc n \<Longrightarrow> parsePrimary p ts \<noteq> POut"
proof (cases ts)
  case (Cons t us)
  assume "length ts < Suc n"
  with Cons parseCall_returns [OF next_is_lparen_length, of ts] paren_returns [of us]
  show ?thesis
    by (auto simp: parsePrimary_def Let_def split: TokenType.splits option.splits)
qed (simp add: parsePrimary_def)

lemma parseUnary_shrinks: "parseUnary p ts = POk e r \<Longrightarrow> length r < length ts"
proof (induction ts arbitrary: e)
  case (Cons t ts)
  show ?case
  proof (cases "parseUnary p ts")
    case (POk a s)
    with Cons show ?thesis by (auto dest: parsePrimary_shrinks split: if_splits)
  qed (use Cons in \<open>auto dest: parsePrimary_shrinks split: if_splits\<close>)
qed (auto dest: parsePrimary_shrinks)

lemma parseUnary_returns: "length ts < Suc n \<Longrightarrow> parseUnary p ts \<noteq> POut"
proof (induction ts)
  case Nil
  then show ?case using parsePrimary_returns [of "[]"] by simp
next
  case (Cons t ts)
  then show ?case using parsePrimary_returns [of "t # ts"] by (cases "parseUnary p ts") auto
qed

lemma parseUnary_bounded: "bounded_parser (parseUnary p) (Suc n)"
  by unfold_locales (auto dest: parseUnary_shrinks simp: parseUnary_returns)

lemma op_eof [simp]:
  "power_op eof_token = None" "mulDiv_op eof_token = None" "addSub_op eof_token = None"
  "concat_op eof_token = None" "comparison_op eof_token = None"
  by (simp_all add: power_op_def mulDiv_op_def addSub_op_def concat_op_def comparison_op_def)

lemma parsePower_bounded: "bounded_parser (parsePower p) (Suc n)"
  unfolding parsePower_def
  by (rule bounded_parser.binary_level_bounded [OF parseUnary_bounded]) simp

lemma parseMulDiv_bounded: "bounded_parser (parseMulDiv p) (Suc n)"
  unfolding parseMulDiv_def
  by (rule bounded_parser.binary_level_bounded [OF parsePower_bounded]) simp

lemma parseAddSub_bounded: "bounded_parser (parseAddSub p) (Suc n)"
  unfolding parseAddSub_def
  by (rule bounded_parser.binary_level_bounded [OF parseMulDiv_bounded]) simp

lemma parseConcat_bounded: "bounded_parser (parseConcat p) (Suc n)"
  unfolding parseConcat_def
  by (rule bounded_parser.binary_level_bounded [OF parseAddSub_bounded]) simp

lemma parseComparison_bounded: "bounded_parser (parseComparison p) (Suc n)"
  unfolding parseComparison_def
  by (rule bounded_parser.binary_level_bounded [OF parseConcat_bounded]) simp

end

lemma parseExpr_bounded: "bounded_parser (parseExpr n) n"
proof (induction n)
  case 0
  show ?case by unfold_locales auto
next
  case (Suc n)
  have "parseExpr (Suc n) = parseComparison (parseExpr n)" by auto
  with bounded_parser.parseComparison_bounded [OF Suc] show ?case by simp
qed

interpretation fuel_expr: bounded_parser "parseExpr n" n for n
  by (rule parseExpr_bounded)

text \<open>The fuel of \<open>parse_expr\<close> is always enough.\<close>

lemma parse_expr_bounded: "bounded_parser parse_expr n"
proof unfold_locales
  fix ts e r
  assume "parse_expr ts = POk e r"
  then show "length r < length ts" unfolding parse_expr_def by (rule fuel_expr.shrinks)
next
  fix ts :: "Token list"
  show "parse_expr ts \<noteq> POut" unfolding parse_expr_def by (rule fuel_expr.returns) simp
qed

interpretation expr: bounded_parser parse_expr n for n
  by (rule parse_expr_bounded)

lemma parse_expr_returns: "parse_expr ts \<noteq> POut"
  by (rule expr.returns [of _ "Suc (length ts)"]) simp

subsection \<open>The fuel does not matter\<close>

lemma chain_agree:
  assumes sub: "\<And>us. length us < length ts \<Longrightarrow> p us = q us"
    and p: "bounded_parser p n" and ops: "ops eof_token = None"
  shows "length ts < k \<Longrightarrow> length ts < k' \<Longrightarrow> chain k ops p left ts = chain k' ops q left ts"
  using sub
proof (induction k arbitrary: k' left ts)
  case (Suc k)
  then obtain l where k': "k' = Suc l" by (cases k') auto
  show ?case
  proof (cases "ops (peekt ts)")
    case None
    then show ?thesis by (simp add: k')
  next
    case (Some op)
    with ops obtain t us where ts: "ts = t # us" by (cases ts) auto
    have pq: "p us = q us" using Suc.prems(3) ts by simp
    show ?thesis
    proof (cases "p us")
      case (POk a s)
      then have "length s < length us" by (rule bounded_parser.shrinks [OF p])
      with Suc.prems ts k' have "chain k ops p (BinaryExpr op left a) s = chain l ops q (BinaryExpr op left a) s"
        by (intro Suc.IH) auto
      with POk pq Some ts k' show ?thesis by simp
    qed (use pq Some ts k' in simp_all)
  qed
qed simp

lemma binary_level_agree:
  assumes "\<And>us. length us \<le> length ts \<Longrightarrow> p us = q us" and "bounded_parser p n"
    and "ops eof_token = None"
  shows "binary_level ops p ts = binary_level ops q ts"
proof (cases "p ts")
  case (POk a s)
  then have "length s < length ts" by (rule bounded_parser.shrinks [OF assms(2)])
  then have "chain (Suc (length s)) ops p a s = chain (Suc (length s)) ops q a s"
    using assms by (intro chain_agree [where p = p and q = q and n = n]) auto
  with POk assms(1) [of ts] show ?thesis by (simp add: binary_level_def del: chain.simps)
qed (use assms(1) [of ts] in \<open>simp_all add: binary_level_def\<close>)

lemma call_args_agree:
  assumes p: "bounded_parser p n"
  shows "length ts < k \<Longrightarrow> length ts < k' \<Longrightarrow> (\<And>us. length us \<le> length ts \<Longrightarrow> p us = q us)
    \<Longrightarrow> call_args k p name args ts = call_args k' q name args ts"
proof (induction k arbitrary: k' args ts)
  case (Suc k)
  then obtain l where k': "k' = Suc l" by (cases k') auto
  show ?case
  proof (cases "p ts")
    case (POk a s)
    then have "length s < length ts" by (rule bounded_parser.shrinks [OF p])
    with Suc.prems k'
    have "call_args k p name (args @ [a]) (tl s) = call_args l q name (args @ [a]) (tl s)"
      by (intro Suc.IH) auto
    with POk Suc.prems(3) [of ts] k' show ?thesis by (simp add: Let_def)
  qed (use Suc.prems(3) [of ts] k' in simp_all)
qed simp

lemma parsePrimary_agree:
  assumes "\<And>us. length us < length ts \<Longrightarrow> p us = q us" and "bounded_parser p n"
  shows "parsePrimary p ts = parsePrimary q ts"
proof (cases ts)
  case (Cons t us)
  have "parseCall p ts = parseCall q ts"
    using assms(1) Cons unfolding parseCall_def Let_def
    by (auto intro!: call_args_agree [OF assms(2)] simp del: call_args.simps)
  with assms(1) [of us] Cons show ?thesis
    by (simp add: parsePrimary_def Let_def split: TokenType.splits)
qed (simp add: parsePrimary_def)

lemma parseUnary_agree:
  assumes "bounded_parser p n"
  shows "(\<And>us. length us < length ts \<Longrightarrow> p us = q us) \<Longrightarrow> parseUnary p ts = parseUnary q ts"
proof (induction ts)
  case Nil
  then show ?case by (simp add: parsePrimary_def)
next
  case (Cons t ts)
  then show ?case using parsePrimary_agree [OF _ assms, of "t # ts" q] by simp
qed

lemma parseComparison_agree:
  assumes p: "bounded_parser p n" and eq: "\<And>us. length us < length ts \<Longrightarrow> p us = q us"
  shows "parseComparison p ts = parseComparison q ts"
proof -
  note [simp] = bounded_parser.op_eof [OF p]
  have un: "parseUnary p us = parseUnary q us" if "length us \<le> length ts" for us
    by (rule parseUnary_agree [OF p]) (use that eq in auto)
  have pw: "parsePower p us = parsePower q us" if "length us \<le> length ts" for us
    unfolding parsePower_def
    by (rule binary_level_agree [OF _ bounded_parser.parseUnary_bounded [OF p]]) (use un that in auto)
  have md: "parseMulDiv p us = parseMulDiv q us" if "length us \<le> length ts" for us
    unfolding parseMulDiv_def
    by (rule binary_level_agree [OF _ bounded_parser.parsePower_bounded [OF p]]) (use pw that in auto)
  have as: "parseAddSub p us = parseAddSub q us" if "length us \<le> length ts" for us
    unfolding parseAddSub_def
    by (rule binary_level_agree [OF _ bounded_parser.parseMulDiv_bounded [OF p]]) (use md that in auto)
  have co: "parseConcat p us = parseConcat q us" if "length us \<le> length ts" for us
    unfolding parseConcat_def
    by (rule binary_level_agree [OF _ bounded_parser.parseAddSub_bounded [OF p]]) (use as that in auto)
  show ?thesis
    unfolding parseComparison_def
    by (rule binary_level_agree [OF _ bounded_parser.parseConcat_bounded [OF p]]) (use co in auto)
qed

lemma parseExpr_fuel: "length ts < m \<Longrightarrow> length ts < k \<Longrightarrow> parseExpr m ts = parseExpr k ts"
proof (induction m arbitrary: k ts)
  case (Suc m)
  then obtain l where k: "k = Suc l" by (cases k) auto
  show ?case
    unfolding k parseExpr.simps
  proof (rule parseComparison_agree [OF parseExpr_bounded])
    fix us :: "Token list"
    assume "length us < length ts"
    with Suc.prems k have "length us < m" "length us < l" by linarith+
    then show "parseExpr m us = parseExpr l us" by (rule Suc.IH)
  qed
qed simp

lemma parse_expr_unfold: "parse_expr ts = parseComparison parse_expr ts"
proof -
  have "parse_expr ts = parseComparison (parseExpr (length ts)) ts"
    by (simp add: parse_expr_def)
  also have "\<dots> = parseComparison parse_expr ts"
    by (rule parseComparison_agree [OF parseExpr_bounded])
      (auto simp: parse_expr_def intro: parseExpr_fuel simp del: parseExpr.simps)
  finally show ?thesis .
qed

subsection \<open>The grammar\<close>

datatype level = LComparison | LConcat | LAddSub | LMulDiv | LPower | LUnary

fun tighter :: "level \<Rightarrow> level" where
  "tighter LComparison = LConcat"
| "tighter LConcat = LAddSub"
| "tighter LAddSub = LMulDiv"
| "tighter LMulDiv = LPower"
| "tighter LPower = LUnary"
| "tighter LUnary = LUnary"

fun level_op :: "level \<Rightarrow> Token \<Rightarrow> string option" where
  "level_op LComparison = comparison_op"
| "level_op LConcat = concat_op"
| "level_op LAddSub = addSub_op"
| "level_op LMulDiv = mulDiv_op"
| "level_op LPower = power_op"
| "level_op LUnary = (\<lambda>_. None)"

text \<open>One rule per production; \<open>derives_args\<close> is a non-empty argument list.\<close>

inductive derives :: "level \<Rightarrow> Token list \<Rightarrow> node \<Rightarrow> bool"
  and derives_args :: "Token list \<Rightarrow> node list \<Rightarrow> bool" where
  d_tighter: "k \<noteq> LUnary \<Longrightarrow> derives (tighter k) ts e \<Longrightarrow> derives k ts e"
| d_binary: "derives k ts l \<Longrightarrow> level_op k t = Some op \<Longrightarrow> derives (tighter k) us r
    \<Longrightarrow> derives k (ts @ t # us) (BinaryExpr op l r)"
| d_minus: "Type t = tokMinus \<Longrightarrow> derives LUnary ts e \<Longrightarrow> derives LUnary (t # ts) (UnaryExpr ''-'' e)"
| d_plus: "Type t = tokPlus \<Longrightarrow> derives LUnary ts e \<Longrightarrow> derives LUnary (t # ts) e"
| d_number: "Type t = tokNumber \<Longrightarrow> ParseFloat (Val t) = Some n \<Longrightarrow> derives LUnary [t] (NumberLit n)"
| d_string: "Type t = tokString \<Longrightarrow> derives LUnary [t] (StringLit (Val t))"
| d_true: "Type t = tokIdent \<Longrightarrow> ToUpper (Val t) = ''TRUE'' \<Longrightarrow> derives LUnary [t] (BoolLit True)"
| d_false: "Type t = tokIdent \<Longrightarrow> ToUpper (Val t) = ''FALSE'' \<Longrightarrow> derives LUnary [t] (BoolLit False)"
| d_ident: "Type t = tokIdent \<Longrightarrow> ToUpper (Val t) \<notin> {''TRUE'', ''FALSE''}
    \<Longrightarrow> derives LUnary [t] (Ident (Val t))"
| d_property: "Type t = tokDotted \<Longrightarrow> derives LUnary [t] (DimProperty (Dim t) (Prop t))"
| d_paren: "Type t = tokLParen \<Longrightarrow> derives LComparison ts e \<Longrightarrow> Type u = tokRParen
    \<Longrightarrow> derives LUnary (t # ts @ [u]) e"
| d_call0: "Type t = tokIdent \<Longrightarrow> ToUpper (Val t) \<notin> {''TRUE'', ''FALSE''} \<Longrightarrow> Type l = tokLParen
    \<Longrightarrow> Type u = tokRParen \<Longrightarrow> derives LUnary [t, l, u] (CallExpr (ToUpper (Val t)) [])"
| d_call: "Type t = tokIdent \<Longrightarrow> ToUpper (Val t) \<notin> {''TRUE'', ''FALSE''} \<Longrightarrow> Type l = tokLParen
    \<Longrightarrow> derives_args ts es \<Longrightarrow> Type u = tokRParen
    \<Longrightarrow> derives LUnary (t # l # ts @ [u]) (CallExpr (ToUpper (Val t)) es)"
| a_one: "derives LComparison ts e \<Longrightarrow> derives_args ts [e]"
| a_more: "derives LComparison ts e \<Longrightarrow> Type t = tokComma \<or> Type t = tokSemicolon
    \<Longrightarrow> derives_args us es \<Longrightarrow> derives_args (ts @ t # us) (e # es)"

subsection \<open>Soundness: what the parser accepts is a sentence\<close>

definition sound_at :: "level \<Rightarrow> parser \<Rightarrow> bool" where
  "sound_at k p \<longleftrightarrow> (\<forall>ts e r. p ts = POk e r \<longrightarrow> (\<exists>pre. ts = pre @ r \<and> derives k pre e))"

lemma sound_atI: "(\<And>ts e r. p ts = POk e r \<Longrightarrow> \<exists>pre. ts = pre @ r \<and> derives k pre e) \<Longrightarrow> sound_at k p"
  by (simp add: sound_at_def)

lemma sound_atD: "sound_at k p \<Longrightarrow> p ts = POk e r \<Longrightarrow> \<exists>pre. ts = pre @ r \<and> derives k pre e"
  by (simp add: sound_at_def)

lemma chain_sound:
  assumes sub: "sound_at (tighter k) p"
  shows "chain n (level_op k) p left ts = POk e r \<Longrightarrow> derives k pre left
    \<Longrightarrow> level_op k eof_token = None \<Longrightarrow> \<exists>mid. ts = mid @ r \<and> derives k (pre @ mid) e"
proof (induction n arbitrary: left pre ts)
  case (Suc n)
  show ?case
  proof (cases "level_op k (peekt ts)")
    case None
    with Suc.prems show ?thesis by (intro exI [of _ "[]"]) auto
  next
    case (Some op)
    with Suc.prems(3) obtain t us where ts: "ts = t # us" by (cases ts) auto
    with Some Suc.prems obtain a s where a: "p us = POk a s"
      and c: "chain n (level_op k) p (BinaryExpr op left a) s = POk e r"
      by (cases "p us") auto
    from sound_atD [OF sub a] obtain m where m: "us = m @ s" "derives (tighter k) m a" by auto
    have "derives k (pre @ t # m) (BinaryExpr op left a)"
      using Suc.prems(2) Some ts m(2) by (auto intro: d_binary)
    from Suc.IH [OF c this Suc.prems(3)] obtain mid
      where "s = mid @ r" "derives k ((pre @ t # m) @ mid) e" by auto
    with ts m(1) show ?thesis by (intro exI [of _ "t # m @ mid"]) simp
  qed
qed simp

lemma binary_level_sound:
  assumes "sound_at (tighter k) p" and "k \<noteq> LUnary" and "level_op k eof_token = None"
  shows "sound_at k (binary_level (level_op k) p)"
proof (rule sound_atI)
  fix ts e r
  assume "binary_level (level_op k) p ts = POk e r"
  then obtain a s where a: "p ts = POk a s"
    and c: "chain (Suc (length s)) (level_op k) p a s = POk e r"
    by (cases "p ts") (auto simp: binary_level_def simp del: chain.simps)
  from sound_atD [OF assms(1) a] obtain pre where pre: "ts = pre @ s" "derives (tighter k) pre a"
    by auto
  from chain_sound [OF assms(1) c d_tighter [OF assms(2) pre(2)] assms(3)] pre(1)
  show "\<exists>pre. ts = pre @ r \<and> derives k pre e" by auto
qed

lemma call_args_sound:
  assumes expr: "sound_at LComparison p"
  shows "call_args n p name acc ts = POk e r \<Longrightarrow>
    \<exists>pre es u. ts = pre @ u # r \<and> derives_args pre es \<and> Type u = tokRParen
      \<and> e = CallExpr (ToUpper name) (acc @ es)"
proof (induction n arbitrary: acc ts)
  case (Suc n)
  then obtain a s where a: "p ts = POk a s" by (cases "p ts") auto
  from sound_atD [OF expr a] obtain pre where pre: "ts = pre @ s" "derives LComparison pre a" by auto
  from Suc.prems a have "s \<noteq> []" by (cases s) (auto simp: Let_def)
  then obtain t us where s: "s = t # us" by (cases s) auto
  show ?case
  proof (cases "Type t = tokRParen")
    case True
    with Suc.prems a s pre show ?thesis
      by (intro exI [of _ pre] exI [of _ "[a]"] exI [of _ t]) (auto simp: Let_def intro: a_one)
  next
    case False
    with Suc.prems a s have t: "Type t = tokComma \<or> Type t = tokSemicolon"
      and c: "call_args n p name (acc @ [a]) us = POk e r"
      by (auto simp: Let_def split: if_splits)
    from Suc.IH [OF c] obtain pre2 es u where
      "us = pre2 @ u # r" "derives_args pre2 es" "Type u = tokRParen"
      "e = CallExpr (ToUpper name) ((acc @ [a]) @ es)" by auto
    with pre s t show ?thesis
      by (intro exI [of _ "pre @ t # pre2"] exI [of _ "a # es"] exI [of _ u]) (auto intro: a_more)
  qed
qed simp

lemma parseCall_sound:
  assumes "sound_at LComparison p" and ts: "ts = t # l # us"
    and t: "Type t = tokIdent" "ToUpper (Val t) \<notin> {''TRUE'', ''FALSE''}" and l: "Type l = tokLParen"
    and c: "parseCall p ts = POk e r"
  shows "\<exists>pre. ts = pre @ r \<and> derives LUnary pre e"
proof (cases "Type (peekt us) = tokRParen")
  case True
  then obtain u vs where us: "us = u # vs" by (cases us) auto
  with c ts True have "e = CallExpr (ToUpper (Val t)) []" "r = vs" by (auto simp: parseCall_def)
  with us ts True t l show ?thesis
    by (intro exI [of _ "[t, l, u]"]) (auto intro: d_call0)
next
  case False
  with c ts have "call_args (Suc (length us)) p (Val t) [] us = POk e r"
    by (simp add: parseCall_def del: call_args.simps)
  from call_args_sound [OF assms(1) this] obtain pre es u where
    "us = pre @ u # r" "derives_args pre es" "Type u = tokRParen" "e = CallExpr (ToUpper (Val t)) es"
    by auto
  with ts t l show ?thesis
    by (intro exI [of _ "t # l # pre @ [u]"]) (auto intro: d_call)
qed

lemma parsePrimary_sound:
  assumes expr: "sound_at LComparison p"
  shows "sound_at LUnary (parsePrimary p)"
proof (rule sound_atI)
  fix ts e r
  assume ok: "parsePrimary p ts = POk e r"
  then obtain t us where ts: "ts = t # us" by (cases ts) (auto simp: parsePrimary_def)
  consider (paren) "Type t = tokLParen" | (call) "Type t = tokIdent" "next_is_lparen ts"
      "ToUpper (Val t) \<notin> {''TRUE'', ''FALSE''}"
    | (single) "r = us" "derives LUnary [t] e"
    using ok ts
    by (auto simp: parsePrimary_def Let_def split: TokenType.splits option.splits if_splits
        intro: d_number d_string d_true d_false d_ident d_property)
  then show "\<exists>pre. ts = pre @ r \<and> derives LUnary pre e"
  proof cases
    case paren
    with ok ts obtain a s where a: "p us = POk a s" "close_paren a s = POk e r"
      by (cases "p us") (auto simp: parsePrimary_def)
    then obtain u where u: "s = u # r" "Type u = tokRParen" "e = a"
      by (cases s) (auto simp: close_paren_def split: if_splits)
    from sound_atD [OF expr a(1)] obtain pre where "us = pre @ s" "derives LComparison pre a" by auto
    with ts u paren show ?thesis
      by (intro exI [of _ "t # pre @ [u]"]) (auto intro: d_paren)
  next
    case call
    then obtain l vs where us: "us = l # vs" "Type l = tokLParen"
      using ts by (auto simp: next_is_lparen_def split: list.splits)
    from ok call ts have "parseCall p ts = POk e r"
      by (auto simp: parsePrimary_def Let_def)
    with us ts call show ?thesis by (intro parseCall_sound [OF expr]) auto
  next
    case single
    with ts show ?thesis by (intro exI [of _ "[t]"]) simp
  qed
qed

lemma parseUnary_sound:
  assumes "sound_at LComparison p"
  shows "sound_at LUnary (parseUnary p)"
proof (rule sound_atI)
  fix ts e r
  assume "parseUnary p ts = POk e r"
  then show "\<exists>pre. ts = pre @ r \<and> derives LUnary pre e"
  proof (induction ts arbitrary: e)
    case Nil
    then show ?case by (simp add: parsePrimary_def)
  next
    case (Cons t ts)
    consider (minus) a where "Type t = tokMinus" "parseUnary p ts = POk a r" "e = UnaryExpr ''-'' a"
      | (plus) "Type t = tokPlus" "parseUnary p ts = POk e r"
      | (prim) "parsePrimary p (t # ts) = POk e r"
      using Cons.prems by (cases "parseUnary p ts") (auto split: if_splits)
    then show ?case
    proof cases
      case minus
      from Cons.IH [OF minus(2)] obtain pre where "ts = pre @ r" "derives LUnary pre a" by auto
      with minus show ?thesis by (intro exI [of _ "t # pre"]) (auto intro: d_minus)
    next
      case plus
      from Cons.IH [OF plus(2)] obtain pre where "ts = pre @ r" "derives LUnary pre e" by auto
      with plus show ?thesis by (intro exI [of _ "t # pre"]) (auto intro: d_plus)
    next
      case prim
      with sound_atD [OF parsePrimary_sound [OF assms]] show ?thesis by simp
    qed
  qed
qed

lemmas level_eof = fuel_expr.op_eof

lemma parseComparison_sound:
  assumes "sound_at LComparison p"
  shows "sound_at LComparison (parseComparison p)"
proof -
  have pw: "sound_at LPower (parsePower p)"
    using binary_level_sound [of LPower] parseUnary_sound [OF assms]
    by (simp add: parsePower_def level_eof)
  have md: "sound_at LMulDiv (parseMulDiv p)"
    using binary_level_sound [of LMulDiv] pw by (simp add: parseMulDiv_def level_eof)
  have as: "sound_at LAddSub (parseAddSub p)"
    using binary_level_sound [of LAddSub] md by (simp add: parseAddSub_def level_eof)
  have co: "sound_at LConcat (parseConcat p)"
    using binary_level_sound [of LConcat] as by (simp add: parseConcat_def level_eof)
  show ?thesis
    using binary_level_sound [of LComparison] co by (simp add: parseComparison_def level_eof)
qed

lemma parseExpr_sound: "sound_at LComparison (parseExpr n)"
proof (induction n)
  case 0
  show ?case by (rule sound_atI) simp
next
  case (Suc n)
  have "parseExpr (Suc n) = parseComparison (parseExpr n)" by auto
  with parseComparison_sound [OF Suc] show ?case by simp
qed

lemma parse_expr_sound: "sound_at LComparison parse_expr"
  using parseExpr_sound by (auto simp: sound_at_def parse_expr_def simp del: parseExpr.simps)

subsection \<open>Completeness: every sentence is accepted, with its tree\<close>

fun parse_level :: "level \<Rightarrow> parser" where
  "parse_level LComparison = parseComparison parse_expr"
| "parse_level LConcat = parseConcat parse_expr"
| "parse_level LAddSub = parseAddSub parse_expr"
| "parse_level LMulDiv = parseMulDiv parse_expr"
| "parse_level LPower = parsePower parse_expr"
| "parse_level LUnary = parseUnary parse_expr"

fun rank :: "level \<Rightarrow> nat" where
  "rank LComparison = 0"
| "rank LConcat = 1"
| "rank LAddSub = 2"
| "rank LMulDiv = 3"
| "rank LPower = 4"
| "rank LUnary = 5"

text \<open>The token after a phrase of level \<open>k\<close> continues no tighter level.\<close>

definition closes :: "level \<Rightarrow> Token list \<Rightarrow> bool" where
  "closes k rest \<longleftrightarrow> Type (peekt rest) \<noteq> tokLParen \<and>
     (\<forall>j. rank k < rank j \<longrightarrow> level_op j (peekt rest) = None)"

lemmas level_op_defs =
  comparison_op_def concat_op_def addSub_op_def mulDiv_op_def power_op_def

lemma closes_after_op: "level_op k t = Some op \<Longrightarrow> closes k (t # us)"
  unfolding closes_def
proof (intro conjI allI impI)
  assume op: "level_op k t = Some op"
  then show "Type (peekt (t # us)) \<noteq> tokLParen"
    by (cases k) (auto simp: level_op_defs split: if_splits TokenType.splits)
  fix j
  assume "rank k < rank j"
  with op show "level_op j (peekt (t # us)) = None"
    by (cases k; cases j) (auto simp: level_op_defs split: if_splits TokenType.splits)
qed

lemma closes_tighter: "closes k rest \<Longrightarrow> closes (tighter k) rest"
  by (cases k) (auto simp: closes_def)

lemma rank_tighter: "k \<noteq> LUnary \<Longrightarrow> rank k < rank (tighter k)"
  by (cases k) auto

lemma closes_tighter_op: "closes k rest \<Longrightarrow> k \<noteq> LUnary \<Longrightarrow> level_op (tighter k) (peekt rest) = None"
  using rank_tighter by (auto simp: closes_def)

lemma closes_plain:
  assumes "Type t \<in> {tokRParen, tokComma, tokSemicolon, tokEOF}"
  shows "closes k (t # us)" and "level_op k t = None"
proof -
  have "level_op j t = None" for j
    using assms by (cases j) (auto simp: level_op_defs)
  with assms show "closes k (t # us)" "level_op k t = None" by (auto simp: closes_def)
qed

lemma parse_level_unfold:
  "k \<noteq> LUnary \<Longrightarrow> parse_level k = binary_level (level_op k) (parse_level (tighter k))"
  by (cases k)
    (simp_all add: parseComparison_def parseConcat_def parseAddSub_def parseMulDiv_def parsePower_def)

lemma parse_level_bounded: "bounded_parser (parse_level k) (Suc n)"
  by (cases k)
    (simp_all add: expr.parseUnary_bounded expr.parsePower_bounded expr.parseMulDiv_bounded
      expr.parseAddSub_bounded expr.parseConcat_bounded expr.parseComparison_bounded)

lemma level_op_eof: "level_op k eof_token = None"
  by (cases k) (simp_all add: level_eof)

text \<open>
  What the parser does on a phrase of level \<open>k\<close> followed by \<open>rest\<close>: it stands in the loop of
  level \<open>k\<close> with the phrase's tree as the left operand.
\<close>

abbreviation loop_state :: "level \<Rightarrow> node \<Rightarrow> Token list \<Rightarrow> presult" where
  "loop_state k e rest \<equiv> chain (Suc (length rest)) (level_op k) (parse_level (tighter k)) e rest"

lemma loop_state_stops: "level_op k (peekt rest) = None \<Longrightarrow> loop_state k e rest = POk e rest"
  by simp

lemma derives_start:
  "derives k ts e \<Longrightarrow> ts \<noteq> [] \<and> Type (hd ts) \<noteq> tokRParen"
  "derives_args ts es \<Longrightarrow> ts \<noteq> [] \<and> Type (hd ts) \<noteq> tokRParen"
  by (induction rule: derives_derives_args.inducts) auto

lemma complete_tighter:
  assumes "k \<noteq> LUnary" and "closes k rest"
    and "closes (tighter k) rest \<Longrightarrow> parse_level (tighter k) (ts @ rest) = loop_state (tighter k) e rest"
  shows "parse_level k (ts @ rest) = loop_state k e rest"
proof -
  have "parse_level (tighter k) (ts @ rest) = POk e rest"
    using assms closes_tighter closes_tighter_op by (simp add: loop_state_stops)
  with assms(1) show ?thesis
    by (simp add: parse_level_unfold binary_level_def del: chain.simps)
qed

lemma complete_binary:
  assumes op: "level_op k t = Some op" and cl: "closes k rest"
    and left: "\<And>rest. closes k rest \<Longrightarrow> parse_level k (ts @ rest) = loop_state k l rest"
    and right: "closes (tighter k) rest \<Longrightarrow>
      parse_level (tighter k) (us @ rest) = loop_state (tighter k) r rest"
  shows "parse_level k ((ts @ t # us) @ rest) = loop_state k (BinaryExpr op l r) rest"
proof -
  have k: "k \<noteq> LUnary" using op by auto
  have sub: "parse_level (tighter k) (us @ rest) = POk r rest"
    using right cl k closes_tighter closes_tighter_op by (simp add: loop_state_stops)
  have "parse_level k ((ts @ t # us) @ rest) = loop_state k l (t # us @ rest)"
    using left [OF closes_after_op [OF op]] by (simp del: chain.simps)
  also have "\<dots> = chain (Suc (length (us @ rest))) (level_op k) (parse_level (tighter k)) (BinaryExpr op l r) rest"
    using op sub by simp
  also have "\<dots> = loop_state k (BinaryExpr op l r) rest"
    by (rule chain_agree [OF _ parse_level_bounded])
      (auto simp: level_op_eof)
  finally show ?thesis .
qed

lemma complete_args_step:
  assumes sep: "Type t \<in> {tokRParen, tokComma, tokSemicolon}"
    and inner: "\<And>rest. closes LComparison rest \<Longrightarrow>
      parse_level LComparison (ts @ rest) = loop_state LComparison e rest"
  shows "parse_expr (ts @ t # rest) = POk e (t # rest)"
proof -
  have "closes LComparison (t # rest)" "comparison_op t = None"
    using closes_plain(1) [of t LComparison rest] closes_plain(2) [of t LComparison] sep by auto
  with inner [of "t # rest"] show ?thesis by (simp add: parse_expr_unfold [symmetric])
qed

lemma complete_paren:
  assumes "Type t = tokLParen" and "Type u = tokRParen"
    and "\<And>rest. closes LComparison rest \<Longrightarrow>
      parse_level LComparison (ts @ rest) = loop_state LComparison e rest"
  shows "parse_level LUnary ((t # ts @ [u]) @ rest) = loop_state LUnary e rest"
  using assms complete_args_step [of u ts e rest] by (simp add: parsePrimary_def close_paren_def)

lemma complete_call:
  assumes t: "Type t = tokIdent" "ToUpper (Val t) \<notin> {''TRUE'', ''FALSE''}"
    and l: "Type l = tokLParen" and u: "Type u = tokRParen"
    and ts: "ts \<noteq> []" "Type (hd ts) \<noteq> tokRParen"
    and args: "\<And>name acc. call_args (Suc (length (ts @ u # rest))) parse_expr name acc (ts @ u # rest)
      = POk (CallExpr (ToUpper name) (acc @ es)) rest"
  shows "parse_level LUnary ((t # l # ts @ [u]) @ rest)
    = loop_state LUnary (CallExpr (ToUpper (Val t)) es) rest"
proof -
  have "Type (peekt (ts @ u # rest)) \<noteq> tokRParen"
    using ts by (cases ts) auto
  then have "parseCall parse_expr (t # l # ts @ u # rest) = POk (CallExpr (ToUpper (Val t)) es) rest"
    using args by (simp add: parseCall_def del: call_args.simps)
  with t l show ?thesis
    by (simp add: parsePrimary_def next_is_lparen_def)
qed

lemma derives_complete:
  "derives k ts e \<Longrightarrow> \<forall>rest. closes k rest \<longrightarrow> parse_level k (ts @ rest) = loop_state k e rest"
  "derives_args ts es \<Longrightarrow> \<forall>u rest n name acc. Type u = tokRParen \<longrightarrow> length (ts @ u # rest) < n \<longrightarrow>
     call_args n parse_expr name acc (ts @ u # rest) = POk (CallExpr (ToUpper name) (acc @ es)) rest"
proof (induction rule: derives_derives_args.inducts)
  case (d_tighter k ts e)
  then show ?case by (auto intro: complete_tighter simp del: chain.simps)
next
  case (d_binary k ts l t op us r)
  then show ?case by (auto intro!: complete_binary simp del: chain.simps append_assoc)
next
  case (d_paren t ts e u)
  then show ?case by (intro allI impI complete_paren) blast+
next
  case (d_call t l ts es u)
  show ?case
  proof (intro allI impI complete_call)
    fix rest name acc
    show "call_args (Suc (length (ts @ u # rest))) parse_expr name acc (ts @ u # rest)
      = POk (CallExpr (ToUpper name) (acc @ es)) rest"
      using d_call.IH d_call.hyps by (simp del: call_args.simps)
  qed (use d_call.hyps derives_start(2) [OF d_call.hyps(4)] in auto)
next
  case (a_one ts e)
  have "parse_expr (ts @ u # rest) = POk e (u # rest)" if "Type u = tokRParen" for u rest
    using that a_one.IH by (intro complete_args_step) auto
  then have "call_args (Suc m) parse_expr name acc (ts @ u # rest)
      = POk (CallExpr (ToUpper name) (acc @ [e])) rest" if "Type u = tokRParen" for u rest m name acc
    using that by (simp add: Let_def)
  then show ?case by (metis less_imp_Suc_add)
next
  case (a_more ts e t us es)
  show ?case
  proof (intro allI impI)
    fix u rest n name acc
    assume u: "Type u = tokRParen" and n: "length ((ts @ t # us) @ u # rest) < n"
    then obtain m where m: "n = Suc m" by (cases n) auto
    have "parse_expr (ts @ t # us @ u # rest) = POk e (t # us @ u # rest)"
      using a_more.hyps a_more.IH by (intro complete_args_step) auto
    moreover have "call_args m parse_expr name (acc @ [e]) (us @ u # rest)
        = POk (CallExpr (ToUpper name) ((acc @ [e]) @ es)) rest"
      using a_more.IH u n m by simp
    ultimately show "call_args n parse_expr name acc ((ts @ t # us) @ u # rest)
        = POk (CallExpr (ToUpper name) (acc @ e # es)) rest"
      using a_more.hyps m by (auto simp: Let_def)
  qed
qed (auto simp: closes_def parsePrimary_def next_is_lparen_def parseCall_def split: list.splits)

lemma parse_expr_complete:
  assumes "derives LComparison ts e" and "Type (peekt rest) = tokEOF"
  shows "parse_expr (ts @ rest) = POk e rest"
proof -
  have "closes LComparison rest" "level_op LComparison (peekt rest) = None"
    using assms(2) closes_plain(2) [of "peekt rest"] by (auto simp: closes_def simp del: level_op.simps)
  with derives_complete(1) [OF assms(1)] show ?thesis
    by (simp add: parse_expr_unfold [symmetric])
qed

text \<open>The parser decides the grammar.\<close>

lemma parse_tokens_iff:
  "parse_tokens ts = Inr e \<longleftrightarrow>
     (\<exists>body rest. ts = body @ rest \<and> Type (peekt rest) = tokEOF \<and> derives LComparison body e)"
proof
  assume "parse_tokens ts = Inr e"
  then obtain rest where "parse_expr ts = POk e rest" "Type (peekt rest) = tokEOF"
    by (auto simp: parse_tokens_def split: presult.splits if_splits)
  with sound_atD [OF parse_expr_sound] show "\<exists>body rest. ts = body @ rest \<and>
      Type (peekt rest) = tokEOF \<and> derives LComparison body e" by blast
next
  assume "\<exists>body rest. ts = body @ rest \<and> Type (peekt rest) = tokEOF \<and> derives LComparison body e"
  then show "parse_tokens ts = Inr e"
    using parse_expr_complete by (auto simp: parse_tokens_def)
qed

text \<open>
  C1: a formula parses to a tree exactly when the tokens before the first end-of-input token
  are a sentence of the documented grammar (precedence and left-associativity of every binary
  level, unary signs, calls with comma or semicolon separators), and the tree is the one the
  grammar gives. Nothing outside the grammar is accepted and nothing inside it is refused.
\<close>

theorem parse_iff_grammar:
  "parse src = Inr e \<longleftrightarrow>
     (\<exists>body rest. lex (normalise src) = body @ rest \<and> Type (peekt rest) = tokEOF
        \<and> derives LComparison body e)"
  unfolding parse_def by (rule parse_tokens_iff)

subsection \<open>A quoted name is a reference to that name\<close>

lemma ident_rune_not_space: "isIdentRune c \<Longrightarrow> \<not> IsSpace c"
  by (auto simp: isIdentRune_def char_class_defs code_of_def)

lemma ident_rune_chars:
  "isIdentRune c \<Longrightarrow> c \<noteq> CHR ''='' \<and> c \<noteq> CHR ''\"'' \<and> c \<noteq> CHR ''.''"
  by (auto simp: isIdentRune_def char_class_defs code_of_def)

lemma lex_end: "lex_from p [] = [tok tokEOF [] p]"
  by (simp add: lex_from.simps [of p "[]"] next_token_def Let_def)

lemma next_token_word:
  assumes "list_all isIdentRune (c # cs)" and "\<not> IsDigit c"
  shows "next_token p (c # cs) = (tok tokIdent (c # cs) p, [])"
proof -
  have c: "isIdentRune c" "isIdentStart c" using assms by (auto simp: isIdentRune_def isIdentStart_def)
  have "readWord (c # cs) = []"
    using assms(1) by (simp add: readWord_def list_all_iff)
  then have "readIdent p (c # cs) = (tok tokIdent (c # cs) p, [])"
    by (simp add: readIdent_def Let_def consumed_def)
  then show ?thesis
    using c assms(2) ident_rune_not_space [OF c(1)] ident_rune_chars [OF c(1)]
    by (simp add: next_token_def Let_def number_start_def)
qed

lemma brace_classes: "\<not> IsSpace (CHR 0x7B)" "\<not> isIdentStart (CHR 0x7B)" "\<not> IsDigit (CHR 0x7B)"
  by code_simp+

lemma next_token_brace:
  assumes "CHR 0x7D \<notin> set name"
  shows "next_token p (CHR 0x7B # name @ [CHR 0x7D]) = (tok tokIdent name p, [])"
proof -
  have d: "dropWhile (\<lambda>c. c \<noteq> CHR 0x7D) (name @ [CHR 0x7D]) = [CHR 0x7D]"
    using assms by (simp add: dropWhile_append)
  have "readBraceIdent p (CHR 0x7B # name @ [CHR 0x7D]) = (tok tokIdent name p, [])"
    unfolding readBraceIdent_def Let_def list.sel d by (simp add: consumed_def)
  then show ?thesis by (simp add: next_token_def Let_def number_start_def brace_classes)
qed

lemma lex_QuoteName:
  assumes "CHR 0x7D \<notin> set name"
  shows "\<exists>n. lex (QuoteName name) = [tok tokIdent name 0, tok tokEOF [] n]"
proof (cases "name \<noteq> [] \<and> list_all isIdentRune name \<and> \<not> IsDigit (hd name)")
  case True
  then obtain c cs where "name = c # cs" by (cases name) auto
  with True next_token_word [of c cs 0] show ?thesis
    by (auto simp: QuoteName_def lex_def lex_from.simps [of 0 "c # cs"] lex_end Let_def)
next
  case False
  then have "QuoteName name = CHR 0x7B # name @ [CHR 0x7D]" by (simp add: QuoteName_def)
  then show ?thesis
    using next_token_brace [OF assms, of 0]
    by (auto simp: lex_def lex_from.simps [of 0 "CHR 0x7B # name @ [CHR 0x7D]"] lex_end Let_def)
qed

lemma normalise_QuoteName: "normalise (QuoteName name) = QuoteName name"
proof (cases "name \<noteq> [] \<and> list_all isIdentRune name \<and> \<not> IsDigit (hd name)")
  case True
  then have r: "isIdentRune (hd name)" "isIdentRune (last name)" by (auto simp: list_all_iff)
  have "TrimSpace name = name" using True r by (intro TrimSpace_id) (auto simp: ident_rune_not_space)
  moreover have "\<not> HasPrefix name ''=''"
    using True ident_rune_chars [OF r(1)] by (cases name) auto
  ultimately show ?thesis using True by (simp add: normalise_def QuoteName_def TrimPrefix_def)
next
  case False
  have "\<not> IsSpace (CHR 0x7B)" "\<not> IsSpace (CHR 0x7D)" by code_simp+
  then have "TrimSpace (CHR 0x7B # name @ [CHR 0x7D]) = CHR 0x7B # name @ [CHR 0x7D]"
    by (intro TrimSpace_id) auto
  moreover have "QuoteName name = CHR 0x7B # name @ [CHR 0x7D]" using False by (simp add: QuoteName_def)
  ultimately show ?thesis by (simp add: normalise_def TrimPrefix_def)
qed

lemma derives_up: "derives LUnary ts e \<Longrightarrow> derives LComparison ts e"
  using d_tighter [of LComparison ts e] d_tighter [of LConcat ts e] d_tighter [of LAddSub ts e]
    d_tighter [of LMulDiv ts e] d_tighter [of LPower ts e]
  by simp

text \<open>
  C37 A metric or dimension name that has no closing brace and is not TRUE or FALSE in any case, written as
  \<open>QuoteName\<close> writes it, parses back to a reference to exactly that name. The two exceptions are real: see \<open>quoted_TRUE_is_boolean\<close>,
  and a closing brace ends the quoted name.
\<close>

theorem parse_QuoteName:
  assumes "CHR 0x7D \<notin> set name" and "ToUpper name \<notin> {''TRUE'', ''FALSE''}"
  shows "parse (QuoteName name) = Inr (Ident name)"
proof -
  obtain n where l: "lex (normalise (QuoteName name)) = [tok tokIdent name 0] @ [tok tokEOF [] n]"
    using lex_QuoteName [OF assms(1)] by (auto simp: normalise_QuoteName)
  have "derives LComparison [tok tokIdent name 0] (Ident name)"
    using d_ident [of "tok tokIdent name 0"] assms(2) by (intro derives_up) simp
  moreover have "Type (peekt [tok tokEOF [] n]) = tokEOF" by (simp add: peekt_def)
  ultimately have "parse_tokens (lex (normalise (QuoteName name))) = Inr (Ident name)"
    unfolding parse_tokens_iff using l by blast
  then show ?thesis by (simp add: parse_def)
qed

theorem parse_QuoteName_witness:
  "QuoteName ''Setup Item'' = ''{Setup Item}'' \<and> parse (QuoteName ''Setup Item'') = Inr (Ident ''Setup Item'')"
  using parse_QuoteName [of "''Setup Item''"] by (auto simp: QuoteName_def isIdentRune_def char_class_defs code_of_def ToUpper_def)

text \<open>
  A metric called TRUE cannot be referred to: \<open>QuoteName\<close> writes its name bare, and even in
  braces the parser reads the boolean constant.
\<close>

lemma quoted_TRUE_is_boolean:
  "parse (QuoteName ''True'') = Inr (BoolLit True) \<and> parse ''{True}'' = Inr (BoolLit True)"
  by code_simp

end
