(* ===== verification/GoTime.thy ===== *)
theory GoTime
  imports Decimal
begin

text \<open>
  The part of Go's \<open>time\<close> package the engine uses, on UTC: the civil calendar with
  \<open>time.Date\<close>'s normalisation, \<open>AddDate\<close>, the 64-bit nanosecond \<open>Duration\<close> that \<open>Sub\<close>
  saturates at, and the ISO date layout; and the date serials of
  \<open>internal/formula/functions.go\<close> built on it. An instant is its nanoseconds since the Excel
  epoch, 1899-12-30; the calendar is computed on unbounded integers.
\<close>

subsection \<open>The civil calendar\<close>

definition leap :: "int \<Rightarrow> bool" where
  "leap y \<longleftrightarrow> 4 dvd y \<and> (\<not> 100 dvd y \<or> 400 dvd y)"

text \<open>Days before 1 January of year \<open>y\<close>, counted from 0001-01-01.\<close>

definition days_before_year :: "int \<Rightarrow> int" where
  "days_before_year y = 365 * (y - 1) + (y - 1) div 4 - (y - 1) div 100 + (y - 1) div 400"

definition days_in_year :: "int \<Rightarrow> int" where
  "days_in_year y = (if leap y then 366 else 365)"

lemma div_pred:
  fixes y c :: int
  assumes "0 < c"
  shows "y div c = (y - 1) div c + (if c dvd y then 1 else 0)"
proof (cases "c dvd y")
  case True
  then obtain k where y: "y = c * k" by auto
  have "(y - 1) div c = k - 1"
    by (rule int_div_pos_eq [of _ _ _ "c - 1"]) (use assms in \<open>auto simp: y algebra_simps\<close>)
  with assms True y show ?thesis by simp
next
  case False
  then have "0 < y mod c"
    using assms pos_mod_sign [of c y] by (simp add: dvd_eq_mod_eq_0 del: pos_mod_sign)
  then have "(y - 1) div c = y div c"
    using pos_mod_bound [OF assms, of y] by (intro int_div_pos_eq [of _ _ _ "y mod c - 1"]) auto
  with False show ?thesis by simp
qed

lemma days_before_year_Suc: "days_before_year (y + 1) = days_before_year y + days_in_year y"
proof -
  obtain a b c where abc: "(y - 1) div 4 = a" "(y - 1) div 100 = b" "(y - 1) div 400 = c"
    by simp
  obtain i j k :: int where ijk: "(if 4 dvd y then 1 else 0) = i" "(if 100 dvd y then 1 else 0) = j"
    "(if 400 dvd y then 1 else 0) = k" by simp
  have y4: "y div 4 = a + i"
    using div_pred [of 4 y] unfolding abc ijk by simp
  have y100: "y div 100 = b + j"
    using div_pred [of 100 y] unfolding abc ijk by simp
  have y400: "y div 400 = c + k"
    using div_pred [of 400 y] unfolding abc ijk by simp
  have "days_before_year (y + 1) = 365 * y + (a + i) - (b + j) + (c + k)"
    by (simp only: days_before_year_def add_diff_cancel_right' y4 y100 y400)
  moreover have "days_before_year y = 365 * (y - 1) + a - b + c"
    by (simp only: days_before_year_def abc)
  moreover
  have dv: "400 dvd y \<Longrightarrow> 100 dvd y" "100 dvd y \<Longrightarrow> 4 dvd y"
    using dvd_trans [of 100 400 y] dvd_trans [of 4 100 y] by simp_all
  have tab: "(r \<longrightarrow> q) \<Longrightarrow> (q \<longrightarrow> p) \<Longrightarrow>
      (if p then 1 else 0) - (if q then 1 else 0) + (if r then 1 else 0)
      = (if p \<and> (\<not> q \<or> r) then 366 else 365) - (365 :: int)" for p q r
    by (cases p; cases q; cases r) simp_all
  have "i - j + k = days_in_year y - 365"
    using tab [of "400 dvd y" "100 dvd y" "4 dvd y"] dv
    unfolding days_in_year_def leap_def ijk by blast
  ultimately show ?thesis by (simp add: algebra_simps)
qed

lemma days_before_year_mono: "x < y \<Longrightarrow> days_before_year x + 365 \<le> days_before_year y"
proof (induction "nat (y - x - 1)" arbitrary: y)
  case 0
  then have "y = x + 1" by simp
  then show ?case by (simp add: days_before_year_Suc days_in_year_def)
next
  case (Suc n)
  then have "days_before_year x + 365 \<le> days_before_year (y - 1)" by (intro Suc.hyps(1)) auto
  then show ?case
    using days_before_year_Suc [of "y - 1"] by (simp add: days_in_year_def split: if_splits)
qed

text \<open>The year a day lies in: an estimate from the mean year, corrected by at most one.\<close>

definition year_of_day :: "int \<Rightarrow> int" where
  "year_of_day n =
     (let y = (400 * n) div 146097 + 1
      in if n < days_before_year y then y - 1
         else if days_before_year (y + 1) \<le> n then y + 1 else y)"

lemma year_of_day_bounds:
  "days_before_year (year_of_day n) \<le> n" "n < days_before_year (year_of_day n + 1)"
proof -
  define k where "k = (400 * n) div 146097"
  have k: "146097 * k \<le> 400 * n" "400 * n < 146097 * k + 146097"
    unfolding k_def by linarith+
  have d: "4 * (j div 4) \<le> j" "j < 4 * (j div 4) + 4" "100 * (j div 100) \<le> j"
    "j < 100 * (j div 100) + 100" "400 * (j div 400) \<le> j" "j < 400 * (j div 400) + 400" for j :: int
    by linarith+
  have near: "365 * 400 * j + 97 * j - 800 < 400 * days_before_year (j + 1)"
    "400 * days_before_year (j + 1) \<le> 365 * 400 * j + 97 * j + 400" for j
  proof -
    obtain a b c where abc: "j div 4 = a" "j div 100 = b" "j div 400 = c" by simp
    note d' = d [of j, unfolded abc]
    have "days_before_year (j + 1) = 365 * j + a - b + c"
      by (simp add: days_before_year_def abc)
    with d' show "365 * 400 * j + 97 * j - 800 < 400 * days_before_year (j + 1)"
      "400 * days_before_year (j + 1) \<le> 365 * 400 * j + 97 * j + 400" by linarith+
  qed
  have lo: "days_before_year k \<le> n"
    using near(2) [of "k - 1"] k by simp
  have hi: "n < days_before_year (3 + k)"
    using near(1) [of "k + 2"] k by (simp add: add.commute)
  show "days_before_year (year_of_day n) \<le> n" "n < days_before_year (year_of_day n + 1)"
    using lo hi by (auto simp: year_of_day_def k_def [symmetric] Let_def)
qed

lemma year_of_day_unique:
  assumes "days_before_year y \<le> n" and "n < days_before_year (y + 1)"
  shows "year_of_day n = y"
proof (rule ccontr)
  assume "year_of_day n \<noteq> y"
  then consider "year_of_day n + 1 \<le> y" | "y + 1 \<le> year_of_day n" by linarith
  then show False
  proof cases
    case 1
    then have "days_before_year (year_of_day n + 1) \<le> days_before_year y"
      using days_before_year_mono [of "year_of_day n + 1" y] by (cases "year_of_day n + 1 = y") auto
    with assms(1) year_of_day_bounds(2) [of n] show False by simp
  next
    case 2
    then have "days_before_year (y + 1) \<le> days_before_year (year_of_day n)"
      using days_before_year_mono [of "y + 1" "year_of_day n"] by (cases "y + 1 = year_of_day n") auto
    with assms(2) year_of_day_bounds(1) [of n] show False by simp
  qed
qed

definition days_in_month :: "int \<Rightarrow> int \<Rightarrow> int" where
  "days_in_month y m =
     (if m = 2 then (if leap y then 29 else 28)
      else if m = 4 \<or> m = 6 \<or> m = 9 \<or> m = 11 then 30 else 31)"

definition days_before_month :: "int \<Rightarrow> int \<Rightarrow> int" where
  "days_before_month y m =
     (if m \<le> 1 then 0 else if m = 2 then 31
      else (if leap y then 1 else 0) +
        (if m = 3 then 59 else if m = 4 then 90 else if m = 5 then 120 else if m = 6 then 151
         else if m = 7 then 181 else if m = 8 then 212 else if m = 9 then 243
         else if m = 10 then 273 else if m = 11 then 304 else if m = 12 then 334 else 365))"

definition month_of_yday :: "int \<Rightarrow> int \<Rightarrow> int" where
  "month_of_yday y d =
     (if d < 31 then 1
      else let e = (if leap y then 1 else 0)
           in if d < 59 + e then 2 else if d < 90 + e then 3 else if d < 120 + e then 4
              else if d < 151 + e then 5 else if d < 181 + e then 6 else if d < 212 + e then 7
              else if d < 243 + e then 8 else if d < 273 + e then 9 else if d < 304 + e then 10
              else if d < 334 + e then 11 else 12)"

record civil =
  Year :: int
  Month :: int
  Day :: int

definition valid_civil :: "civil \<Rightarrow> bool" where
  "valid_civil c \<longleftrightarrow> 1 \<le> Month c \<and> Month c \<le> 12 \<and> 1 \<le> Day c \<and> Day c \<le> days_in_month (Year c) (Month c)"

text \<open>The day number of a date of a given month, and the date of a day number.\<close>

definition day_number :: "civil \<Rightarrow> int" where
  "day_number c = days_before_year (Year c) + days_before_month (Year c) (Month c) + (Day c - 1)"

definition civil_of_day :: "int \<Rightarrow> civil" where
  "civil_of_day n =
     (let y = year_of_day n; d = n - days_before_year y; m = month_of_yday y d
      in \<lparr>Year = y, Month = m, Day = d - days_before_month y m + 1\<rparr>)"

lemmas month_tables = days_in_month_def days_before_month_def month_of_yday_def

lemma month_of_yday_valid:
  assumes "0 \<le> d" and "d < days_in_year y"
  shows "1 \<le> month_of_yday y d" and "month_of_yday y d \<le> 12"
    and "days_before_month y (month_of_yday y d) \<le> d"
    and "d < days_before_month y (month_of_yday y d) + days_in_month y (month_of_yday y d)"
  using assms unfolding month_tables days_in_year_def Let_def
  by (simp_all split: if_splits)

lemma month_of_yday_unique:
  assumes "1 \<le> m" and "m \<le> 12" and "1 \<le> d" and "d \<le> days_in_month y m"
  shows "month_of_yday y (days_before_month y m + (d - 1)) = m"
proof -
  have "m \<in> {1, 2, 3, 4, 5, 6, 7, 8, 9, 10, 11, 12}" using assms(1,2) by simp arith
  then show ?thesis using assms(3,4)
    by (elim insertE emptyE) (simp_all add: month_tables Let_def split: if_splits)
qed

lemma civil_of_day_valid: "valid_civil (civil_of_day n)"
proof -
  let ?y = "year_of_day n" and ?d = "n - days_before_year (year_of_day n)"
  have "0 \<le> ?d" "?d < days_in_year ?y"
    using year_of_day_bounds [of n] by (simp_all add: days_before_year_Suc)
  note m = month_of_yday_valid [OF this]
  show ?thesis using m by (simp add: valid_civil_def civil_of_day_def Let_def)
qed

lemma day_number_civil_of_day: "day_number (civil_of_day n) = n"
  by (simp add: day_number_def civil_of_day_def Let_def)

lemma civil_of_day_day_number:
  assumes "valid_civil c"
  shows "civil_of_day (day_number c) = c"
proof -
  let ?y = "Year c" and ?m = "Month c" and ?d = "Day c"
  have v: "1 \<le> ?m" "?m \<le> 12" "1 \<le> ?d" "?d \<le> days_in_month ?y ?m"
    using assms by (simp_all add: valid_civil_def)
  have "?m \<in> {1, 2, 3, 4, 5, 6, 7, 8, 9, 10, 11, 12}" using v(1,2) by simp arith
  then have "0 \<le> days_before_month ?y ?m + (?d - 1) \<and>
      days_before_month ?y ?m + (?d - 1) < days_in_year ?y"
    using v(3,4) by (elim insertE emptyE) (simp_all add: month_tables days_in_year_def split: if_splits)
  then have "year_of_day (day_number c) = ?y"
    by (intro year_of_day_unique) (simp_all add: day_number_def days_before_year_Suc)
  moreover have "month_of_yday ?y (days_before_month ?y ?m + (?d - 1)) = ?m"
    using v by (intro month_of_yday_unique)
  ultimately show ?thesis
    by (simp add: civil_of_day_def day_number_def Let_def algebra_simps)
qed

subsection \<open>\<open>time.Date\<close>, \<open>AddDate\<close> and instants\<close>

text \<open>
  \<open>time.Date\<close> at midnight UTC: a month outside 1 to 12 carries into the year, a day outside
  the month runs on into the neighbouring months. Go counts seconds in 64 bits; the model is
  exact while the year stays within 2.9e11, where those seconds do not wrap.
\<close>

type_synonym instant = int

definition ns_per_day :: int where
  "ns_per_day = 86400000000000"

definition epoch_day :: int where
  "epoch_day = day_number \<lparr>Year = 1899, Month = 12, Day = 30\<rparr>"

definition date_day :: "int \<Rightarrow> int \<Rightarrow> int \<Rightarrow> int" where
  "date_day y m d =
     day_number \<lparr>Year = y + (m - 1) div 12, Month = (m - 1) mod 12 + 1, Day = 1\<rparr> + (d - 1)"

definition go_date :: "int \<Rightarrow> int \<Rightarrow> int \<Rightarrow> instant" where
  "go_date y m d = (date_day y m d - epoch_day) * ns_per_day"

definition civil_of :: "instant \<Rightarrow> civil" where
  "civil_of t = civil_of_day (t div ns_per_day + epoch_day)"

abbreviation year_of :: "instant \<Rightarrow> int" where
  "year_of t \<equiv> Year (civil_of t)"

abbreviation month_of :: "instant \<Rightarrow> int" where
  "month_of t \<equiv> Month (civil_of t)"

abbreviation day_of :: "instant \<Rightarrow> int" where
  "day_of t \<equiv> Day (civil_of t)"

text \<open>\<open>t.AddDate(0, months, days)\<close> of a midnight, and \<open>t.YearDay()\<close>.\<close>

definition AddDate :: "instant \<Rightarrow> int \<Rightarrow> int \<Rightarrow> instant" where
  "AddDate t months days =
     go_date (year_of t) (wrap64 (month_of t + months)) (wrap64 (day_of t + days)) + t mod ns_per_day"

definition YearDay :: "instant \<Rightarrow> int" where
  "YearDay t = t div ns_per_day + epoch_day - days_before_year (year_of t) + 1"

definition TruncateDay :: "instant \<Rightarrow> instant" where
  "TruncateDay t = t - t mod ns_per_day"

text \<open>\<open>t.Sub(u)\<close> saturates at the 64-bit nanosecond count; \<open>Hours\<close> divides towards zero.\<close>

definition saturate64 :: "int \<Rightarrow> int" where
  "saturate64 n = max (- 9223372036854775808) (min 9223372036854775807 n)"

definition ns_per_hour :: int where
  "ns_per_hour = 3600000000000"

definition Hours :: "int \<Rightarrow> f64" where
  "Hours d =
     (let h = rat_trunc (of_int d / of_int ns_per_hour); r = d - h * ns_per_hour
      in fadd (f64_of_int h) (fdiv (f64_of_int r) (Fin (of_int ns_per_hour))))"

subsection \<open>Date serials\<close>

definition timeToSerial :: "instant \<Rightarrow> f64" where
  "timeToSerial t = fdiv (Hours (saturate64 t)) (Fin 24)"

definition serialToTime :: "f64 \<Rightarrow> instant" where
  "serialToTime serial = f64_to_int (fmul (fmul serial (Fin 24)) (Fin (of_int ns_per_hour)))"

text \<open>The ISO layout \<open>2006-01-02\<close>, written and read.\<close>

definition format_iso :: "instant \<Rightarrow> string" where
  "format_iso t =
     (if year_of t < 0 then ''-'' else []) @ pad_left 4 (digits10 \<bar>year_of t\<bar>) @ ''-'' @
     pad_left 2 (digits10 (month_of t)) @ ''-'' @ pad_left 2 (digits10 (day_of t))"

definition parse_iso :: "string \<Rightarrow> instant option" where
  "parse_iso s =
     (if length s = 10 \<and> s ! 4 = CHR ''-'' \<and> s ! 7 = CHR ''-'' \<and>
         list_all IsDigit (take 4 s @ take 2 (drop 5 s) @ drop 8 s)
      then let c = \<lparr>Year = digits_value (take 4 s), Month = digits_value (take 2 (drop 5 s)),
                    Day = digits_value (drop 8 s)\<rparr>
           in if valid_civil c then Some (go_date (Year c) (Month c) (Day c)) else None
      else None)"

definition SerialDate :: "f64 \<Rightarrow> string" where
  "SerialDate serial = format_iso (serialToTime serial)"

definition DateSerial :: "string \<Rightarrow> f64 option" where
  "DateSerial s = map_option timeToSerial (parse_iso (TrimSpace s))"

subsection \<open>Whole-day serials are exact\<close>

text \<open>
  292 years of nanoseconds fit in 64 bits: day numbers up to \<open>day_limit\<close> either side of
  the epoch (1607-09-18 to 2192-04-14) convert without loss.
\<close>

definition day_limit :: int where
  "day_limit = 106751"

lemma ns_per_day_pos [simp]: "0 < ns_per_day" "ns_per_day \<noteq> 0"
  by (simp_all add: ns_per_day_def)

lemma fdiv_int:
  assumes "q * n = m" and "n \<noteq> 0" and "\<bar>q\<bar> \<le> 9007199254740992" and "m = 0 \<longrightarrow> 0 < n"
  shows "fdiv (Fin (of_int m)) (Fin (of_int n)) = Fin (of_int q)"
proof (cases "m = 0")
  case True
  with assms show ?thesis by (simp add: fdiv_def Let_def zero_of_def)
next
  case False
  have "rat_of_int m / of_int n = of_int q"
    using assms(1,2) by (metis nonzero_mult_div_cancel_right of_int_0_eq_iff of_int_mult)
  with False assms(2,3) show ?thesis by (simp add: fdiv_def Let_def round64_int)
qed

lemma rat_trunc_of_int [simp]: "rat_trunc (of_int n) = n"
  by (simp add: rat_trunc_def flip: of_int_minus)

lemma fmul_Fin_representable:
  assumes "representable (p * q)" and "p * q = 0 \<longrightarrow> (0 \<le> p \<longleftrightarrow> 0 \<le> q)"
  shows "fmul (Fin p) (Fin q) = Fin (p * q)"
  using assms by (auto simp: fmul_def Let_def zero_of_def round64_representable)

lemma timeToSerial_day:
  assumes "\<bar>n\<bar> \<le> day_limit"
  shows "timeToSerial (n * ns_per_day) = Fin (of_int n)"
proof -
  have n: "\<bar>n\<bar> \<le> 106751" using assms by (simp add: day_limit_def)
  then have sat: "saturate64 (n * ns_per_day) = n * ns_per_day"
    by (simp add: saturate64_def ns_per_day_def)
  have "rat_of_int (n * ns_per_day) / of_int ns_per_hour = of_int (24 * n)"
    by (simp add: ns_per_day_def ns_per_hour_def)
  then have "rat_trunc (of_int (n * ns_per_day) / of_int ns_per_hour) = 24 * n"
    by (simp only: rat_trunc_of_int)
  then have "Hours (n * ns_per_day) = Fin (of_int (24 * n))"
    using n fadd_int [of "24 * n" 0]
    by (simp add: Hours_def Let_def ns_per_day_def ns_per_hour_def fdiv_def zero_of_def)
  then show ?thesis
    using n fdiv_int [of n 24 "24 * n"] by (simp add: timeToSerial_def sat)
qed

lemma serialToTime_day:
  assumes "\<bar>n\<bar> \<le> day_limit"
  shows "serialToTime (Fin (of_int n)) = n * ns_per_day"
proof -
  have n: "\<bar>n\<bar> \<le> 106751" using assms by (simp add: day_limit_def)
  have 1: "fmul (Fin (of_int n)) (Fin 24) = Fin (of_int (24 * n))"
    using n representable_int [of "24 * n"] fmul_Fin_representable [of "of_int n" 24]
    by (simp add: mult.commute)
  have "rat_of_int (24 * n) * of_int ns_per_hour = of_int (n * 1318359375) * rpow 2 16"
    by (simp add: ns_per_hour_def rpow_int)
  moreover have "\<bar>n * 1318359375\<bar> < 9007199254740992" using n by linarith
  ultimately have "representable (of_int (24 * n) * of_int ns_per_hour)"
    unfolding representable_def by (intro exI [of _ "n * 1318359375"] exI [of _ 16]) simp
  then have "fmul (Fin (of_int (24 * n))) (Fin (of_int ns_per_hour)) = Fin (of_int (24 * n * ns_per_hour))"
    by (subst fmul_Fin_representable) (auto simp: ns_per_hour_def)
  then have "serialToTime (Fin (of_int n)) = f64_to_int (Fin (of_int (24 * n * ns_per_hour)))"
    by (simp add: serialToTime_def 1)
  also have "\<dots> = 24 * n * ns_per_hour"
    using n by (intro f64_to_int_of_int) (simp_all add: ns_per_hour_def)
  finally show ?thesis by (simp add: ns_per_day_def ns_per_hour_def)
qed

lemma date_day_valid:
  "valid_civil c \<Longrightarrow> date_day (Year c) (Month c) (Day c) = day_number c"
  by (simp add: date_day_def day_number_def valid_civil_def)

lemma civil_of_go_date: "civil_of (go_date y m d) = civil_of_day (date_day y m d)"
  by (simp add: civil_of_def go_date_def)

lemma civil_of_go_date_valid:
  assumes "valid_civil c"
  shows "civil_of (go_date (Year c) (Month c) (Day c)) = c"
  using assms by (simp add: civil_of_go_date date_day_valid civil_of_day_day_number)

text \<open>The date a date serial stands for is the date it was made from.\<close>

lemma serial_round_trip:
  assumes "\<bar>date_day y m d - epoch_day\<bar> \<le> day_limit"
  shows "timeToSerial (go_date y m d) = Fin (of_int (date_day y m d - epoch_day))"
    and "serialToTime (timeToSerial (go_date y m d)) = go_date y m d"
  using timeToSerial_day [OF assms] serialToTime_day [OF assms] by (simp_all add: go_date_def)

lemma length_digits10_le:
  "0 \<le> n \<Longrightarrow> n < 10 ^ k \<Longrightarrow> 0 < k \<Longrightarrow> length (digits10 n) \<le> k"
proof (induction n arbitrary: k rule: digits10.induct)
  case (1 n)
  show ?case
  proof (cases "n < 10")
    case True
    then show ?thesis using "1.prems" by (simp add: digits10.simps [of n])
  next
    case False
    then obtain j where k: "k = Suc j" "0 < j"
      using "1.prems" by (cases k; cases "k - 1") auto
    with "1.prems" have "n div 10 < 10 ^ j" by simp
    then have "length (digits10 (n div 10)) \<le> j" using 1 False k by simp
    then show ?thesis using False k by (simp add: digits10.simps [of n])
  qed
qed

lemma digits_value_zeros: "digits_value (replicate k (CHR ''0'') @ s) = digits_value s"
proof -
  have "foldl (\<lambda>v c. 10 * v + digit_value c) 0 (replicate k (CHR ''0'')) = 0"
    by (induction k) (simp_all add: digit_value_def code_of_def)
  then show ?thesis by (simp add: digits_value_def)
qed

lemma pad_left_digits:
  assumes "0 \<le> n" and "n < 10 ^ k" and "0 < k"
  shows "length (pad_left k (digits10 n)) = k" and "digits_value (pad_left k (digits10 n)) = n"
    and "list_all IsDigit (pad_left k (digits10 n))"
  using assms length_digits10_le [OF assms] digits10_digits [of n]
  by (auto simp: pad_left_def digits_value_zeros digits_value_digits10 list_all_iff IsDigit_def code_of_def)

lemma parse_iso_parts:
  assumes "length a = 4" "length b = 2" "length c = 2" "list_all IsDigit a" "list_all IsDigit b"
    "list_all IsDigit c"
  shows "parse_iso (a @ ''-'' @ b @ ''-'' @ c) =
    (let v = \<lparr>Year = digits_value a, Month = digits_value b, Day = digits_value c\<rparr>
     in if valid_civil v then Some (go_date (Year v) (Month v) (Day v)) else None)"
  using assms by (simp add: parse_iso_def nth_append Let_def)

lemma days_in_month_le: "days_in_month y m \<le> 31"
  by (simp add: days_in_month_def)

lemma parse_format_iso:
  assumes "0 \<le> year_of t" and "year_of t \<le> 9999"
  shows "parse_iso (format_iso t) = Some (TruncateDay t)"
proof -
  let ?c = "civil_of t"
  have v: "valid_civil ?c" by (simp add: civil_of_def civil_of_day_valid)
  then have r: "0 \<le> Month ?c" "Month ?c < 10 ^ 2" "0 \<le> Day ?c" "Day ?c < 10 ^ 2"
    using days_in_month_le [of "Year ?c" "Month ?c"] by (simp_all add: valid_civil_def)
  have y: "Year ?c < 10 ^ 4" using assms by simp
  note Y = pad_left_digits [OF assms(1) y] and M = pad_left_digits [OF r(1,2)]
    and D = pad_left_digits [OF r(3,4)]
  have f: "format_iso t = pad_left 4 (digits10 (Year ?c)) @ ''-'' @
      pad_left 2 (digits10 (Month ?c)) @ ''-'' @ pad_left 2 (digits10 (Day ?c))"
    using assms(1) by (simp add: format_iso_def)
  have g: "go_date (Year ?c) (Month ?c) (Day ?c) = TruncateDay t"
    using v by (simp add: go_date_def date_day_valid civil_of_def day_number_civil_of_day
        TruncateDay_def minus_mod_eq_div_mult)
  show ?thesis
    unfolding f by (subst parse_iso_parts) (use v in \<open>simp_all add: Y M D Let_def g valid_civil_def\<close>)
qed

lemma format_iso_trimmed:
  assumes "0 \<le> year_of t" and "year_of t \<le> 9999"
  shows "TrimSpace (format_iso t) = format_iso t"
proof -
  let ?c = "civil_of t"
  have v: "valid_civil ?c" by (simp add: civil_of_def civil_of_day_valid)
  then have r: "0 \<le> Day ?c" "Day ?c < 10 ^ 2"
    using days_in_month_le [of "Year ?c" "Month ?c"] by (simp_all add: valid_civil_def)
  let ?y = "pad_left 4 (digits10 (Year ?c))" and ?d = "pad_left 2 (digits10 (Day ?c))"
  have y: "Year ?c < 10 ^ 4" using assms by simp
  have ne: "?y \<noteq> []" "?d \<noteq> []" by (simp_all add: pad_left_def)
  have dig: "list_all IsDigit ?y" "list_all IsDigit ?d"
    using pad_left_digits(3) [OF assms(1) y] pad_left_digits(3) [OF r] by simp_all
  then have "IsDigit (hd ?y)" "IsDigit (last ?d)" using ne by (auto simp: list_all_iff)
  then show ?thesis
    using ne assms(1) by (intro TrimSpace_id) (auto simp: format_iso_def digit_not_space)
qed

lemma civil_of_day_year_le:
  assumes "n < days_before_year (y + 1)"
  shows "Year (civil_of_day n) \<le> y"
  using assms year_of_day_bounds(1) [of n] days_before_year_mono [of "y + 1" "year_of_day n"]
  by (cases "year_of_day n \<le> y"; cases "year_of_day n = y + 1") (auto simp: civil_of_day_def Let_def)

lemma civil_of_day_year_ge:
  assumes "days_before_year y \<le> n"
  shows "y \<le> Year (civil_of_day n)"
  using assms year_of_day_bounds(2) [of n] days_before_year_mono [of "year_of_day n + 1" "y"]
  by (cases "y \<le> year_of_day n"; cases "year_of_day n + 1 = y") (auto simp: civil_of_day_def Let_def)

lemma epoch_day_eq: "epoch_day = 693593"
  by code_simp

lemma year_of_serial:
  assumes "\<bar>n\<bar> \<le> day_limit"
  shows "1607 \<le> year_of (n * ns_per_day)" and "year_of (n * ns_per_day) \<le> 2192"
proof -
  have "days_before_year 1607 = 586579" "days_before_year (2192 + 1) = 800612" by code_simp+
  then show "1607 \<le> year_of (n * ns_per_day)" "year_of (n * ns_per_day) \<le> 2192"
    using assms civil_of_day_year_ge [of 1607 "n + epoch_day"] civil_of_day_year_le [of "n + epoch_day" 2192]
    by (simp_all add: civil_of_def epoch_day_eq day_limit_def)
qed


text \<open>
  C38. A date-format cell written out as its ISO date and read back is the same cell: for every
  whole serial between 1607-09-18 and 2192-04-14 \<open>DateSerial\<close> inverts \<open>SerialDate\<close>.
\<close>

theorem date_serial_round_trip:
  assumes "\<bar>n\<bar> \<le> day_limit"
  shows "DateSerial (SerialDate (Fin (of_int n))) = Some (Fin (of_int n))"
proof -
  have "0 \<le> year_of (n * ns_per_day)" "year_of (n * ns_per_day) \<le> 9999"
    using year_of_serial [OF assms] by simp_all
  then show ?thesis
    using assms by (simp add: DateSerial_def SerialDate_def serialToTime_day format_iso_trimmed
        parse_format_iso TruncateDay_def timeToSerial_day)
qed

theorem date_serial_round_trip_witness:
  "\<bar>45351\<bar> \<le> day_limit \<and> DateSerial (SerialDate (Fin 45351)) = Some (Fin 45351)"
  using date_serial_round_trip [of 45351] by (simp add: day_limit_def)

text \<open>
  Past the reach of a 64-bit nanosecond count \<open>Sub\<close> saturates: 1 January 2200 and 1 January 2300 have
  the same date serial.
\<close>

lemma date_serial_saturates: "timeToSerial (go_date 2200 1 1) = timeToSerial (go_date 2300 1 1)"
proof -
  have "date_day 2200 1 1 - epoch_day = 109575" "date_day 2300 1 1 - epoch_day = 146099" by code_simp+
  then have "9223372036854775807 \<le> go_date 2200 1 1" "9223372036854775807 \<le> go_date 2300 1 1"
    by (simp_all add: go_date_def ns_per_day_def)
  then show ?thesis by (simp add: timeToSerial_def saturate64_def)
qed

end
