(* ===== verification/Criteria.thy ===== *)
theory Criteria
  imports Values GoTime
begin

text \<open>
  Criteria of the conditional aggregations (\<open>internal/formula/criteria.go\<close>): parsing a
  criterion, wildcards and matching, with the member-code helpers built on them
  (\<open>membercode.go\<close>, and \<open>memberCode\<close> of \<open>dimension.go\<close>). The backtracking wildcard
  matcher is proved equal to a recursive specification.
\<close>

subsection \<open>Wildcards\<close>

datatype wildToken = wildLiteral char | wildAny | wildOne

text \<open>The \<open>r\<close> field of a token: a wildcard leaves it the zero rune.\<close>

fun token_rune :: "wildToken \<Rightarrow> char" where
  "token_rune (wildLiteral r) = r"
| "token_rune _ = CHR 0x00"

definition escapable :: "char \<Rightarrow> bool" where
  "escapable r \<longleftrightarrow> r = CHR ''*'' \<or> r = CHR ''?'' \<or> r = CHR ''~''"

fun compile_runes :: "string \<Rightarrow> wildToken list" where
  "compile_runes [] = []"
| "compile_runes [r] =
     [if r = CHR ''*'' then wildAny else if r = CHR ''?'' then wildOne else wildLiteral r]"
| "compile_runes (r # s # rs) =
     (if r = CHR ''~'' \<and> escapable s then wildLiteral s # compile_runes rs
      else (if r = CHR ''*'' then wildAny else if r = CHR ''?'' then wildOne else wildLiteral r)
        # compile_runes (s # rs))"

definition is_wild :: "wildToken \<Rightarrow> bool" where
  "is_wild t \<longleftrightarrow> t = wildAny \<or> t = wildOne"

definition compileWildcard :: "string \<Rightarrow> wildToken list \<times> bool" where
  "compileWildcard pattern = (let toks = compile_runes (ToUpper pattern) in (toks, list_ex is_wild toks))"

definition unescapeWildcard :: "string \<Rightarrow> string" where
  "unescapeWildcard pattern = map token_rune (fst (compileWildcard pattern))"

text \<open>
  The matcher: \<open>pix\<close> and \<open>tix\<close> index pattern and runes, \<open>star\<close> is the last \<open>*\<close> met and
  \<open>mark\<close> where its match ends so far. It ends because every step lets the \<open>*\<close>s still
  ahead shrink, or moves \<open>mark\<close>, or moves \<open>tix\<close>.
\<close>

definition matches_rune :: "wildToken \<Rightarrow> char \<Rightarrow> bool" where
  "matches_rune t c \<longleftrightarrow> t = wildOne \<or> t = wildLiteral c"

definition stars_from :: "wildToken list \<Rightarrow> nat \<Rightarrow> nat" where
  "stars_from p i = count_list (drop i p) wildAny"

definition stars_ahead :: "wildToken list \<Rightarrow> nat \<Rightarrow> nat option \<Rightarrow> nat" where
  "stars_ahead p pix star =
     (case star of None \<Rightarrow> Suc (stars_from p pix)
      | Some s \<Rightarrow> max (stars_from p pix) (stars_from p (s + 1)))"

lemma stars_from_Suc:
  "i < length p \<Longrightarrow> stars_from p i = stars_from p (i + 1) + (if p ! i = wildAny then 1 else 0)"
  by (simp add: stars_from_def Cons_nth_drop_Suc [symmetric])

function match_loop ::
  "wildToken list \<Rightarrow> string \<Rightarrow> nat \<Rightarrow> nat \<Rightarrow> nat option \<Rightarrow> nat \<Rightarrow> bool" where
  "match_loop p runes pix tix star mark =
     (if tix < length runes then
        if pix < length p \<and> matches_rune (p ! pix) (runes ! tix)
        then match_loop p runes (pix + 1) (tix + 1) star mark
        else if pix < length p \<and> p ! pix = wildAny
        then match_loop p runes (pix + 1) tix (Some pix) tix
        else case star of
               Some s \<Rightarrow> match_loop p runes (s + 1) (mark + 1) star (mark + 1)
             | None \<Rightarrow> False
      else list_all (\<lambda>t. t = wildAny) (drop pix p))"
  by pat_completeness auto
termination
proof (relation "measures [\<lambda>(p, runes, pix, tix, star, mark). stars_ahead p pix star,
    \<lambda>(p, runes, pix, tix, star, mark). length runes - mark,
    \<lambda>(p, runes, pix, tix, star, mark). length runes - tix]", goal_cases)
  case 1
  show ?case by simp
next
  case (2 p runes pix tix star mark)
  then have "stars_ahead p (pix + 1) star \<le> stars_ahead p pix star"
    using stars_from_Suc [of pix p] by (auto simp: stars_ahead_def split: option.split)
  with 2(1) show ?case by auto
next
  case (3 p runes pix tix star mark)
  then have "stars_ahead p (pix + 1) (Some pix) < stars_ahead p pix star"
    using stars_from_Suc [of pix p] by (auto simp: stars_ahead_def split: option.split)
  then show ?case by simp
next
  case (4 p runes pix tix star mark s)
  then have "stars_ahead p (s + 1) star \<le> stars_ahead p pix star"
    by (simp add: stars_ahead_def)
  with 4(1) show ?case by auto
qed

declare match_loop.simps [simp del]

definition matchWildcard :: "wildToken list \<Rightarrow> string \<Rightarrow> bool" where
  "matchWildcard p runes = match_loop p runes 0 0 None 0"

subsection \<open>The wildcard matcher is correct\<close>

text \<open>What a pattern means: \<open>*\<close> is any runes, \<open>?\<close> any one rune, a literal itself.\<close>

fun wild_match :: "wildToken list \<Rightarrow> string \<Rightarrow> bool" where
  "wild_match [] runes = (runes = [])"
| "wild_match (wildAny # p) [] = wild_match p []"
| "wild_match (wildAny # p) (c # cs) = (wild_match p (c # cs) \<or> wild_match (wildAny # p) cs)"
| "wild_match (t # p) [] = False"
| "wild_match (t # p) (c # cs) = (matches_rune t c \<and> wild_match p cs)"

lemma wild_match_Any: "wild_match (wildAny # p) s \<longleftrightarrow> (\<exists>u v. s = u @ v \<and> wild_match p v)"
proof (induction s)
  case Nil
  then show ?case by simp
next
  case (Cons c cs)
  have "(\<exists>u v. c # cs = u @ v \<and> wild_match p v) \<longleftrightarrow>
      wild_match p (c # cs) \<or> (\<exists>u v. cs = u @ v \<and> wild_match p v)"
    by (metis Cons_eq_append_conv append_Cons)
  with Cons show ?case by simp
qed

lemma wild_match_token:
  "t \<noteq> wildAny \<Longrightarrow> wild_match (t # p) s \<longleftrightarrow> (\<exists>c cs. s = c # cs \<and> matches_rune t c \<and> wild_match p cs)"
  by (cases t; cases s) auto

lemma wild_match_Nil: "wild_match p [] \<longleftrightarrow> list_all (\<lambda>t. t = wildAny) p"
proof (induction p)
  case (Cons t p)
  then show ?case by (cases t) auto
qed simp

text \<open>A part of the pattern with no \<open>*\<close> consumes exactly as many runes as it has tokens.\<close>

lemma wild_match_segment:
  assumes "wildAny \<notin> set seg"
  shows "wild_match (seg @ p) s \<longleftrightarrow>
    length seg \<le> length s \<and> list_all2 matches_rune seg (take (length seg) s) \<and>
    wild_match p (drop (length seg) s)"
  using assms
proof (induction seg arbitrary: s)
  case Nil
  then show ?case by simp
next
  case (Cons t seg)
  have ne: "t \<noteq> wildAny" using Cons.prems by auto
  from Cons have IH: "wild_match (seg @ p) cs \<longleftrightarrow> length seg \<le> length cs \<and>
      list_all2 matches_rune seg (take (length seg) cs) \<and> wild_match p (drop (length seg) cs)" for cs
    by simp
  from ne show ?case by (cases s) (auto simp: wild_match_token IH)
qed

text \<open>
  The state the loop is in after a \<open>*\<close>: the tokens after it, \<open>seg\<close>, have matched the text
  from \<open>mark\<close> to \<open>tix\<close>.
\<close>

definition loop_inv :: "wildToken list \<Rightarrow> string \<Rightarrow> nat \<Rightarrow> nat \<Rightarrow> nat \<Rightarrow> nat \<Rightarrow> bool" where
  "loop_inv p runes pix tix s mark \<longleftrightarrow>
     (\<exists>seg u. drop (s + 1) p = seg @ drop pix p \<and> drop mark runes = u @ drop tix runes \<and>
        wildAny \<notin> set seg \<and> list_all2 matches_rune seg u)"

lemma loop_inv_start: "loop_inv p runes (s + 1) mark s mark"
  unfolding loop_inv_def by (intro exI [of _ "[]"]) simp

lemma loop_inv_step:
  assumes "loop_inv p runes pix tix s mark" and "pix < length p" and "tix < length runes"
    and "matches_rune (p ! pix) (runes ! tix)"
  shows "loop_inv p runes (pix + 1) (tix + 1) s mark"
proof -
  obtain seg u where i: "drop (s + 1) p = seg @ drop pix p" "drop mark runes = u @ drop tix runes"
    "wildAny \<notin> set seg" "list_all2 matches_rune seg u"
    using assms(1) by (auto simp: loop_inv_def)
  have "p ! pix \<noteq> wildAny" using assms(4) by (auto simp: matches_rune_def)
  moreover have "drop pix p = p ! pix # drop (pix + 1) p" "drop tix runes = runes ! tix # drop (tix + 1) runes"
    using assms(2,3) by (simp_all add: Cons_nth_drop_Suc)
  ultimately show ?thesis
    unfolding loop_inv_def using i assms(4)
    by (intro exI [of _ "seg @ [p ! pix]"] exI [of _ "u @ [runes ! tix]"]) (auto simp: list_all2_appendI)
qed

text \<open>With the segment matched, the rest of the pattern decides how the last \<open>*\<close> can match.\<close>

lemma segment_then:
  assumes "wildAny \<notin> set seg" and "list_all2 matches_rune seg u"
  shows "wild_match (seg @ p) (u @ v) \<longleftrightarrow> wild_match p v"
  using assms by (simp add: wild_match_segment list_all2_lengthD)

lemma star_segment_star:
  assumes "wildAny \<notin> set seg" and "list_all2 matches_rune seg u"
  shows "wild_match (wildAny # seg @ wildAny # p) (u @ v) \<longleftrightarrow> wild_match (wildAny # p) v"
proof
  assume "wild_match (wildAny # seg @ wildAny # p) (u @ v)"
  then obtain a b where ab: "u @ v = a @ b" "wild_match (seg @ wildAny # p) b"
    by (auto simp: wild_match_Any)
  then obtain c d where cd: "drop (length seg) b = c @ d" "wild_match p d" and le: "length seg \<le> length b"
    using assms(1) by (auto simp: wild_match_segment wild_match_Any)
  have "length u = length seg" using assms(2) by (simp add: list_all2_lengthD)
  then have "v = drop (length u) (a @ b)" using ab(1) by (metis append_eq_conv_conj)
  also have "\<dots> = drop (length u) (a @ take (length seg) b @ c @ d)"
    by (metis append_take_drop_id cd(1))
  also have "\<dots> = drop (length u) (a @ take (length seg) b) @ c @ d"
    using le \<open>length u = length seg\<close> by simp
  finally show "wild_match (wildAny # p) v"
    using cd(2) by (auto simp: wild_match_Any append_assoc [symmetric] simp del: append_assoc)
next
  assume "wild_match (wildAny # p) v"
  then have "wild_match (seg @ wildAny # p) (u @ v)" using assms by (simp add: segment_then)
  then show "wild_match (wildAny # seg @ wildAny # p) (u @ v)"
    unfolding wild_match_Any [of "seg @ wildAny # p"] by (metis append_Nil)
qed

lemma star_segment_end:
  assumes "wildAny \<notin> set seg" and "list_all2 matches_rune seg u"
  shows "wild_match (wildAny # seg @ p) u \<longleftrightarrow> wild_match p []"
proof
  have len: "length u = length seg" using assms(2) by (simp add: list_all2_lengthD)
  assume "wild_match (wildAny # seg @ p) u"
  then obtain a b where ab: "u = a @ b" "wild_match (seg @ p) b" by (auto simp: wild_match_Any)
  then have "length seg \<le> length b" "wild_match p (drop (length seg) b)"
    using assms(1) by (auto simp: wild_match_segment)
  with ab(1) len show "wild_match p []" by auto
next
  assume "wild_match p []"
  then have "wild_match (seg @ p) u" using segment_then [OF assms, of p "[]"] by simp
  then show "wild_match (wildAny # seg @ p) u"
    unfolding wild_match_Any by (metis append_Nil)
qed

text \<open>What the loop returns, before the first \<open>*\<close> and after one.\<close>

lemma mismatch:
  assumes "tix < length runes" and "\<not> (pix < length p \<and> matches_rune (p ! pix) (runes ! tix))"
    and "\<not> (pix < length p \<and> p ! pix = wildAny)"
  shows "\<not> wild_match (drop pix p) (drop tix runes)"
proof (cases "pix < length p")
  case True
  then have "drop pix p = p ! pix # drop (pix + 1) p" by (simp add: Cons_nth_drop_Suc)
  moreover have "drop tix runes = runes ! tix # drop (tix + 1) runes"
    using assms(1) by (simp add: Cons_nth_drop_Suc)
  ultimately show ?thesis using assms True by (auto simp: wild_match_token)
next
  case False
  then show ?thesis using assms(1) by simp
qed

lemma match_loop_correct:
  assumes "\<And>s. star = Some s \<Longrightarrow> loop_inv p runes pix tix s mark"
  shows "match_loop p runes pix tix star mark \<longleftrightarrow>
    (case star of None \<Rightarrow> wild_match (drop pix p) (drop tix runes)
     | Some s \<Rightarrow> wild_match (wildAny # drop (s + 1) p) (drop mark runes))"
  using assms
proof (induction p runes pix tix star mark rule: match_loop.induct)
  case (1 p runes pix tix star mark)
  note inv = "1.prems" and unfold = match_loop.simps [of p runes pix tix star mark]
  consider (fin) "\<not> tix < length runes"
    | (rune) "tix < length runes" "pix < length p \<and> matches_rune (p ! pix) (runes ! tix)"
    | (any) "tix < length runes" "\<not> (pix < length p \<and> matches_rune (p ! pix) (runes ! tix))"
        "pix < length p \<and> p ! pix = wildAny"
    | (miss) "tix < length runes" "\<not> (pix < length p \<and> matches_rune (p ! pix) (runes ! tix))"
        "\<not> (pix < length p \<and> p ! pix = wildAny)" by blast
  then show ?case
  proof cases
    case fin
    then have t: "drop tix runes = []" by simp
    show ?thesis
    proof (cases star)
      case None
      then show ?thesis using fin unfolding unfold by (simp add: wild_match_Nil t)
    next
      case (Some s)
      then obtain seg u where "drop (s + 1) p = seg @ drop pix p" "drop mark runes = u"
        "wildAny \<notin> set seg" "list_all2 matches_rune seg u"
        using inv [OF Some] t by (auto simp: loop_inv_def)
      then show ?thesis using fin Some unfolding unfold by (simp add: star_segment_end wild_match_Nil)
    qed
  next
    case rune
    have d: "drop pix p = p ! pix # drop (pix + 1) p" "drop tix runes = runes ! tix # drop (tix + 1) runes"
      using rune by (simp_all add: Cons_nth_drop_Suc)
    have ne: "p ! pix \<noteq> wildAny" using rune by (auto simp: matches_rune_def)
    have "match_loop p runes pix tix star mark = match_loop p runes (pix + 1) (tix + 1) star mark"
      using rune by (simp add: unfold)
    also have "\<dots> \<longleftrightarrow> (case star of None \<Rightarrow> wild_match (drop (pix + 1) p) (drop (tix + 1) runes)
        | Some s \<Rightarrow> wild_match (wildAny # drop (s + 1) p) (drop mark runes))"
      using rune inv by (intro "1.IH"(1)) (auto dest: loop_inv_step)
    finally show ?thesis using rune ne by (auto simp: d wild_match_token split: option.split)
  next
    case any
    have d: "drop pix p = wildAny # drop (pix + 1) p"
      using any(3) by (metis Cons_nth_drop_Suc Suc_eq_plus1)
    have "match_loop p runes pix tix star mark = match_loop p runes (pix + 1) tix (Some pix) tix"
      using any by (simp add: unfold matches_rune_def)
    also have "\<dots> \<longleftrightarrow> wild_match (wildAny # drop (pix + 1) p) (drop tix runes)"
      using any "1.IH"(2) loop_inv_start by simp
    also have "\<dots> \<longleftrightarrow> (case star of None \<Rightarrow> wild_match (drop pix p) (drop tix runes)
        | Some s \<Rightarrow> wild_match (wildAny # drop (s + 1) p) (drop mark runes))"
    proof (cases star)
      case None
      then show ?thesis by (simp add: d)
    next
      case (Some s)
      then obtain seg u where "drop (s + 1) p = seg @ wildAny # drop (pix + 1) p"
        "drop mark runes = u @ drop tix runes" "wildAny \<notin> set seg" "list_all2 matches_rune seg u"
        using inv [OF Some] d by (auto simp: loop_inv_def)
      then show ?thesis using Some by (simp add: star_segment_star)
    qed
    finally show ?thesis .
  next
    case miss
    note no = mismatch [OF miss]
    show ?thesis
    proof (cases star)
      case None
      then show ?thesis using miss no unfolding unfold by auto
    next
      case (Some s)
      then obtain seg u where i: "drop (s + 1) p = seg @ drop pix p" "drop mark runes = u @ drop tix runes"
        "wildAny \<notin> set seg" "list_all2 matches_rune seg u"
        using inv [OF Some] by (auto simp: loop_inv_def)
      then have "drop mark runes \<noteq> []" using miss(1) by simp
      then have m: "drop mark runes = runes ! mark # drop (mark + 1) runes"
        by (simp add: Cons_nth_drop_Suc)
      have "match_loop p runes pix tix star mark = match_loop p runes (s + 1) (mark + 1) (Some s) (mark + 1)"
        using miss Some unfolding unfold by auto
      also have "\<dots> \<longleftrightarrow> wild_match (wildAny # drop (s + 1) p) (drop (mark + 1) runes)"
        using miss Some "1.IH"(3) loop_inv_start by simp
      also have "\<dots> \<longleftrightarrow> wild_match (wildAny # drop (s + 1) p) (drop mark runes)"
      proof -
        have "\<not> wild_match (drop (s + 1) p) (drop mark runes)"
          unfolding i(1,2) using no segment_then [OF i(3,4)] by simp
        then show ?thesis by (simp add: m)
      qed
      finally show ?thesis using Some by simp
    qed
  qed
qed

text \<open>
  C35 The greedy matcher with a single backtracking point accepts a runes exactly when the
  pattern matches it, whatever stars the pattern has; it ends on every input.
\<close>

theorem matchWildcard_correct: "matchWildcard p runes = wild_match p runes"
  unfolding matchWildcard_def by (subst match_loop_correct) simp_all

subsection \<open>Member codes\<close>

text \<open>The member code a value names and whether it names one: a blank and an empty text do not.\<close>

fun memberCode :: "Value \<Rightarrow> string \<times> bool" where
  "memberCode BlankVal = ([], False)"
| "memberCode (NumberVal n) = (numberText n, True)"
| "memberCode v = (let s = Text v in (s, s \<noteq> []))"

subsection \<open>Criteria\<close>

datatype criterionOp = opEq | opNe | opLt | opLe | opGt | opGe

record criterion =
  op :: criterionOp
  operand :: string
  num :: f64
  isNum :: bool
  pattern :: "wildToken list"
  wildcards :: bool
  literal :: string

definition criterionOperators :: "(string \<times> criterionOp) list" where
  "criterionOperators =
     [(''<='', opLe), (''>='', opGe), (''<>'', opNe), (''<'', opLt), (''>'', opGt), (''='', opEq)]"

definition parseCriteriaNumber :: "string \<Rightarrow> f64 option" where
  "parseCriteriaNumber s =
     (case ParseFloat s of
        Some n \<Rightarrow> (if IsNaN n \<or> IsInf n then None else Some n)
      | None \<Rightarrow> None)"

definition parseCriteriaOperand :: "string \<Rightarrow> f64 option" where
  "parseCriteriaOperand s =
     (let t = TrimSpace s
      in if t = [] then None
         else case parseCriteriaNumber t of
                Some n \<Rightarrow> Some n
              | None \<Rightarrow> map_option timeToSerial (parse_iso t))"

text \<open>\<open>compile\<close> fills in the pattern, and the unescaped literal when it has no wildcard.\<close>

definition compile_criterion :: "criterionOp \<Rightarrow> string \<Rightarrow> f64 option \<Rightarrow> criterion" where
  "compile_criterion o1 s n =
     (let (p, w) = compileWildcard s
      in \<lparr>op = o1, operand = s, num = (case n of Some x \<Rightarrow> x | None \<Rightarrow> Fin 0), isNum = (n \<noteq> None),
          pattern = p, wildcards = w, literal = (if w then [] else unescapeWildcard s)\<rparr>)"

definition split_operator :: "string \<Rightarrow> criterionOp \<times> string" where
  "split_operator s =
     (case find (\<lambda>(prefix, _). HasPrefix s prefix) criterionOperators of
        Some (prefix, o1) \<Rightarrow> (o1, drop (length prefix) s)
      | None \<Rightarrow> (opEq, s))"

fun parseCriterion :: "Value \<Rightarrow> criterion" where
  "parseCriterion (NumberVal n) =
     (let n = (if is_zero n then Fin 0 else n) in compile_criterion opEq (numberText n) (Some n))"
| "parseCriterion (StringVal s) =
     (let (o1, rest) = split_operator s in compile_criterion o1 rest (parseCriteriaOperand rest))"
| "parseCriterion BlankVal = compile_criterion opEq [] (parseCriteriaOperand [])"
| "parseCriterion v = compile_criterion opEq (Text v) (parseCriteriaOperand (Text v))"

definition cmpFloat :: "f64 \<Rightarrow> f64 \<Rightarrow> int" where
  "cmpFloat a b = sign_of_less (flt a b) (flt b a)"

fun compareOrdered :: "criterionOp \<Rightarrow> int \<Rightarrow> bool" where
  "compareOrdered opEq cmp = (cmp = 0)"
| "compareOrdered opNe cmp = (cmp \<noteq> 0)"
| "compareOrdered opLt cmp = (cmp < 0)"
| "compareOrdered opLe cmp = (cmp \<le> 0)"
| "compareOrdered opGt cmp = (cmp > 0)"
| "compareOrdered opGe cmp = (cmp \<ge> 0)"

definition textEqual :: "criterion \<Rightarrow> string \<Rightarrow> bool" where
  "textEqual c s =
     (if \<not> wildcards c then EqualFold s (literal c) else matchWildcard (pattern c) (ToUpper s))"

definition matches :: "criterion \<Rightarrow> Value \<Rightarrow> bool" where
  "matches c candidate =
     (if IsError candidate then op c = opNe
      else if IsBlank candidate \<or> candidate = StringVal [] then
        (case op c of opEq \<Rightarrow> operand c = [] | opNe \<Rightarrow> operand c \<noteq> [] | _ \<Rightarrow> False)
      else if operand c = [] then op c = opNe
      else case candidate of
             NumberVal n \<Rightarrow>
               (if \<not> isNum c then op c = opNe
                else compareOrdered (op c) (cmpFloat (significant15 n) (significant15 (num c))))
           | _ \<Rightarrow>
             (let s = fst (memberCode candidate)
              in case op c of
                   opEq \<Rightarrow> textEqual c s
                 | opNe \<Rightarrow> \<not> textEqual c s
                 | _ \<Rightarrow> compareOrdered (op c) (str_compare (ToUpper s) (ToUpper (operand c)))))"

text \<open>\<open>membercode.go\<close>.\<close>

definition CriterionEqualsCode :: "Value \<Rightarrow> string \<Rightarrow> bool" where
  "CriterionEqualsCode v code =
     (if code = [] \<or> IsError v \<or> IsBlank v then False
      else let c = parseCriterion v
           in if op c \<noteq> opEq \<or> wildcards c then False else matches c (StringVal code))"

fun LiteralText :: "node \<Rightarrow> string option" where
  "LiteralText (StringLit s) = Some s"
| "LiteralText (NumberLit n) = Some (numberText n)"
| "LiteralText _ = None"

subsection \<open>What a criterion matches\<close>

lemma matches_text:
  assumes "s \<noteq> []" and "operand c \<noteq> []"
  shows "matches c (StringVal s) =
    (case op c of opEq \<Rightarrow> textEqual c s | opNe \<Rightarrow> \<not> textEqual c s
     | _ \<Rightarrow> compareOrdered (op c) (str_compare (ToUpper s) (ToUpper (operand c))))"
  using assms by (simp add: matches_def)

lemma matches_number:
  assumes "operand c \<noteq> []"
  shows "matches c (NumberVal n) =
    (if isNum c then compareOrdered (op c) (cmpFloat (significant15 n) (significant15 (num c)))
     else op c = opNe)"
  using assms by (simp add: matches_def)

text \<open>
  "<>" is the exact complement of "=": on every candidate (blank, text, number, error) a
  criterion with \<open>opNe\<close> matches precisely where the same criterion with \<open>opEq\<close> does not.
\<close>

theorem matches_Ne_Eq: "matches (c\<lparr>op := opNe\<rparr>) v \<longleftrightarrow> \<not> matches (c\<lparr>op := opEq\<rparr>) v"
proof -
  have t: "textEqual (c\<lparr>op := opNe\<rparr>) s = textEqual (c\<lparr>op := opEq\<rparr>) s" for s
    by (simp add: textEqual_def)
  show ?thesis by (cases v) (auto simp: matches_def Let_def t)
qed

text \<open>
  An ordering criterion never matches a blank, an empty text or an error, whatever its operand.
\<close>

lemma matches_ordering:
  "op c \<in> {opLt, opLe, opGt, opGe} \<Longrightarrow> v \<in> {BlankVal, StringVal [], ErrorVal e} \<Longrightarrow> \<not> matches c v"
  by (auto simp: matches_def)

lemma operand_compile [simp]:
  "operand (compile_criterion o1 s n) = s" "op (compile_criterion o1 s n) = o1"
  "isNum (compile_criterion o1 s n) = (n \<noteq> None)"
  "num (compile_criterion o1 s (Some x)) = x"
  "wildcards (compile_criterion o1 s n) = snd (compileWildcard s)"
  "pattern (compile_criterion o1 s n) = fst (compileWildcard s)"
  "\<not> snd (compileWildcard s) \<Longrightarrow> literal (compile_criterion o1 s n) = unescapeWildcard s"
  by (cases "compileWildcard s"; simp add: compile_criterion_def)+

text \<open>
  A criterion that names a member code names no other: if \<open>CriterionEqualsCode v code\<close>,
  the criterion \<open>v\<close> matches another code exactly when the codes differ in case only.
\<close>

theorem CriterionEqualsCode_exact:
  assumes "CriterionEqualsCode v code" and "other \<noteq> []"
  shows "matches (parseCriterion v) (StringVal other) \<longleftrightarrow> EqualFold other code"
proof -
  let ?c = "parseCriterion v"
  have c: "op ?c = opEq" "\<not> wildcards ?c" "matches ?c (StringVal code)" "code \<noteq> []"
    using assms(1) by (auto simp: CriterionEqualsCode_def Let_def split: if_splits)
  have o: "operand ?c \<noteq> []"
    using c(1,3,4) by (auto simp: matches_def)
  have "EqualFold code (literal ?c)"
    using c o by (simp add: matches_text textEqual_def)
  then show ?thesis
    using c(1,2) o assms(2) by (auto simp: matches_text textEqual_def EqualFold_def)
qed

theorem CriterionEqualsCode_exact_witness:
  "CriterionEqualsCode (StringVal ''=Emea'') ''EMEA'' \<and>
   (matches (parseCriterion (StringVal ''=Emea'')) (StringVal ''APAC'') \<longleftrightarrow> EqualFold ''APAC'' ''EMEA'')"
proof -
  have 1: "CriterionEqualsCode (StringVal ''=Emea'') ''EMEA''" by code_simp
  show ?thesis using CriterionEqualsCode_exact [OF 1, of "''APAC''"] 1 by simp
qed

end
