(* ===== verification/Context.thy ===== *)
theory Context
  imports Criteria
begin

text \<open>
  What an evaluation is given (\<open>EvalContext\<close> of \<open>eval.go\<close>, \<open>TimeEvalContext\<close> of
  \<open>time.go\<close>, \<open>DimEvalContext\<close> of \<open>dimension.go\<close>, \<open>PicklistCodec\<close> of \<open>picklist.go\<close>)
  and the shared ways a built-in reads its arguments.

  A nil pointer or func is \<open>None\<close>; a nil \<open>EvalContext\<close> behaves as the empty one. A Go map
  is the list of its entries in iteration order. The callbacks return values: their
  implementations evaluate through \<open>EvalNode\<close>, which recovers every panic.
  \<open>Dim.Memo\<close> is not a field: \<open>eval\<close> is the evaluation with memoisation off, and the memo is
  the explicit state of \<open>conditional_memo\<close>.
\<close>

subsection \<open>Contexts\<close>

text \<open>What the evaluator asks of the platform: \<open>math.Pow\<close> and the clock.\<close>

record platform =
  Pow :: "f64 \<Rightarrow> f64 \<Rightarrow> f64"
  Now :: instant

record TimePeriod =
  PeriodCode :: string
  Index :: int
  Start :: instant
  End :: instant

record TimeEvalContext =
  DimensionID :: string
  Granularity :: string
  FiscalYearStartMonth :: int
  Position :: int
  Periods :: "TimePeriod list"
  EvalAt :: "(node \<Rightarrow> int \<Rightarrow> Value) option"
  Summarize :: "(string \<Rightarrow> int list \<Rightarrow> FormulaError + f64 \<times> bool) option"
  Span :: "(string \<Rightarrow> (int \<times> int) option) option"
  depth :: int

record PicklistCodec =
  PickDim :: string
  CodeOf :: "(f64 \<Rightarrow> string option) option"
  KeyOf :: "(string \<Rightarrow> f64 option) option"

record DimMember =
  MemberCode :: string
  Properties :: "(string \<times> Value) list"

record DimEvalContext =
  Current :: "(string \<Rightarrow> FormulaError + string \<times> bool) option"
  Property :: "(string \<Rightarrow> string \<Rightarrow> Value) option"
  Parent :: "(string \<Rightarrow> FormulaError + string) option"
  Member :: "(string \<Rightarrow> string \<Rightarrow> FormulaError + string \<times> bool) option"
  Leaves :: "(string \<Rightarrow> FormulaError + DimMember list) option"
  Resolve :: "(string \<Rightarrow> (string \<times> string) list \<Rightarrow> FormulaError + f64 \<times> bool) option"
  CoordKey :: "(string list \<Rightarrow> string) option"
  Picklist :: "(string \<Rightarrow> PicklistCodec option) option"
  MetricDims :: "(string \<Rightarrow> string list option option) option"
    \<comment> \<open>\<open>Some None\<close>: a metric whose dimension slice is nil\<close>

record EvalContext =
  Vars :: "(string \<times> Value) list option"
  Blank :: "string list"
  Funcs :: "(string \<times> (node list \<Rightarrow> Value go list \<Rightarrow> Value go)) list"
  Time :: "TimeEvalContext option"
  Dim :: "DimEvalContext option"

definition empty_context :: EvalContext where
  "empty_context = \<lparr>Vars = None, Blank = [], Funcs = [], Time = None, Dim = None\<rparr>"

definition no_dim_context :: DimEvalContext where
  "no_dim_context = \<lparr>Current = None, Property = None, Parent = None, Member = None, Leaves = None,
     Resolve = None, CoordKey = None, Picklist = None, MetricDims = None\<rparr>"

text \<open>
  A built-in is called with the argument nodes and, for each, what evaluating it gives. Only
  the ones it reads can affect it, so an argument left unevaluated neither fails nor panics.
\<close>

type_synonym builtin = "platform \<Rightarrow> EvalContext \<Rightarrow> node list \<Rightarrow> Value go list \<Rightarrow> Value go"

subsection \<open>Reading arguments\<close>

definition fail :: "FormulaError \<Rightarrow> Value go" where
  "fail e = ret (ErrorVal e)"

definition requireArgCount :: "string \<Rightarrow> 'a list \<Rightarrow> int \<Rightarrow> int \<Rightarrow> FormulaError option" where
  "requireArgCount name args lo hi =
     (let n = int (length args)
      in if n < lo \<or> 0 \<le> hi \<and> hi < n
         then Some (errValue (name @ '': wrong number of arguments ('' @ show_int n @ '')''))
         else None)"

definition counted :: "string \<Rightarrow> 'a list \<Rightarrow> int \<Rightarrow> int \<Rightarrow> Value go \<Rightarrow> Value go" where
  "counted name args lo hi body =
     (case requireArgCount name args lo hi of Some e \<Rightarrow> fail e | None \<Rightarrow> body)"

text \<open>Evaluate one argument and hand its value on, unless it is an error.\<close>

definition on_value :: "Value go \<Rightarrow> (Value \<Rightarrow> Value go) \<Rightarrow> Value go" where
  "on_value x f = go_bind x (\<lambda>v. if IsError v then ret v else f v)"

text \<open>\<open>evalArgs\<close>: all values in order, or the first error.\<close>

fun evalArgs :: "Value go list \<Rightarrow> (Value + Value list) go" where
  "evalArgs [] = ret (Inr [])"
| "evalArgs (x # xs) =
     go_bind x (\<lambda>v. if IsError v then ret (Inl v)
       else go_bind (evalArgs xs) (\<lambda>r. case r of Inl e \<Rightarrow> ret (Inl e) | Inr vs \<Rightarrow> ret (Inr (v # vs))))"

definition on_values :: "Value go list \<Rightarrow> (Value list \<Rightarrow> Value go) \<Rightarrow> Value go" where
  "on_values xs f = go_bind (evalArgs xs) (\<lambda>r. case r of Inl e \<Rightarrow> ret e | Inr vs \<Rightarrow> f vs)"

definition on_number :: "Value \<Rightarrow> (f64 \<Rightarrow> Value go) \<Rightarrow> Value go" where
  "on_number v f = (case Number v of None \<Rightarrow> fail ErrValue | Some n \<Rightarrow> f n)"

text \<open>\<open>evalOperand\<close>: an identifier named in \<open>Blank\<close> reads blank, not the 0 it is bound as.\<close>

definition evalOperand :: "EvalContext \<Rightarrow> node \<Rightarrow> Value go \<Rightarrow> Value go" where
  "evalOperand ctx n v =
     (case n of Ident name \<Rightarrow> (if ToUpper name \<in> set (Blank ctx) then ret BlankVal else v) | _ \<Rightarrow> v)"

lemma on_value_simps [simp, eval_simps]:
  "on_value (panic r) f = panic r"
  "on_value (ret v) f = (if IsError v then ret v else f v)"
  by (simp_all add: on_value_def)

lemma on_values_ret [eval_simps]:
  "list_all (\<lambda>v. \<not> IsError v) vs \<Longrightarrow> on_values (map ret vs) f = f vs"
proof -
  assume "list_all (\<lambda>v. \<not> IsError v) vs"
  then have "evalArgs (map ret vs) = ret (Inr vs)" by (induction vs) auto
  then show ?thesis by (simp add: on_values_def)
qed

text \<open>The first error among the arguments is the result of an eager function.\<close>

lemma on_values_error:
  assumes "list_all (\<lambda>v. \<not> IsError v) vs" and "IsError e"
  shows "on_values (map ret vs @ ret e # xs) f = ret e"
proof -
  have "evalArgs (map ret vs @ ret e # xs) = ret (Inl e)"
    using assms by (induction vs) auto
  then show ?thesis by (simp add: on_values_def)
qed

lemma counted_ok [simp]:
  "requireArgCount name args lo hi = None \<Longrightarrow> counted name args lo hi body = body"
  by (simp add: counted_def)

lemma requireArgCount_None:
  "requireArgCount name args lo hi = None \<longleftrightarrow>
     lo \<le> int (length args) \<and> (0 \<le> hi \<longrightarrow> int (length args) \<le> hi)"
  by (auto simp: requireArgCount_def Let_def)

subsection \<open>Names as arguments\<close>

text \<open>Arguments that must be bare names (\<open>dimension.go\<close>), and the #N/A of a missing member.\<close>

fun describeNode :: "node \<Rightarrow> string" where
  "describeNode (DimProperty d p) = ''the property reference '' @ d @ ''.'' @ p"
| "describeNode (CallExpr name _) = ''a call to '' @ name"
| "describeNode (NumberLit _) = ''a literal''"
| "describeNode (StringLit _) = ''a literal''"
| "describeNode (BoolLit _) = ''a literal''"
| "describeNode _ = ''an expression''"

definition dimensionArg :: "node \<Rightarrow> string \<Rightarrow> FormulaError + string" where
  "dimensionArg n fn =
     (case n of
        Ident name \<Rightarrow> Inr name
      | _ \<Rightarrow> Inl (mk_error ''DIMENSION_ARGUMENT_REQUIRED''
          (fn @ '': expected a dimension name, got '' @ describeNode n)))"

definition sourceArg :: "node \<Rightarrow> string \<Rightarrow> FormulaError + string" where
  "sourceArg n fn =
     (case n of
        Ident name \<Rightarrow> Inr name
      | _ \<Rightarrow> Inl (mk_error ''SOURCE_MUST_BE_METRIC''
          (fn @ '': the source must be a metric name, got '' @ describeNode n)))"

definition MemberNotAvailable :: "string \<Rightarrow> FormulaError" where
  "MemberNotAvailable message = \<lparr>Code = ''#N/A'', Message = message, memberNotAvailable = True\<rparr>"

definition IsMemberNotAvailable :: "FormulaError \<Rightarrow> bool" where
  "IsMemberNotAvailable e = memberNotAvailable e"

definition on_ok :: "FormulaError + 'a \<Rightarrow> ('a \<Rightarrow> Value go) \<Rightarrow> Value go" where
  "on_ok r f = (case r of Inl e \<Rightarrow> fail e | Inr x \<Rightarrow> f x)"

lemma on_ok_simps [simp]: "on_ok (Inl e) f = fail e" "on_ok (Inr x) f = f x"
  by (simp_all add: on_ok_def)

end
