(* ===== verification/Scalar.thy ===== *)
theory Scalar
  imports Context
begin

text \<open>
  The scalar built-ins of \<open>internal/formula/functions.go\<close>: logic, mathematics, aggregation,
  text and dates, one definition per Go function. Each takes the argument nodes and what
  evaluating each of them gives (\<open>vals\<close>).
\<close>

subsection \<open>Logic\<close>

definition fnIF :: builtin where
  "fnIF pl ctx args vals =
     counted ''IF'' vals 2 3
       (on_value (vals ! 0) (\<lambda>cond.
          if Truth cond then vals ! 1
          else if length vals = 3 then vals ! 2
          else ret (BoolVal False)))"

fun ifs_loop :: "Value go list \<Rightarrow> Value go" where
  "ifs_loop (c # v # rest) = on_value c (\<lambda>cond. if Truth cond then v else ifs_loop rest)"
| "ifs_loop _ = fail ErrNA"

definition fnIFS :: builtin where
  "fnIFS pl ctx args vals =
     (if length vals < 2 \<or> length vals mod 2 \<noteq> 0
      then fail (errValue ''IFS: requires pairs of condition, value'')
      else ifs_loop vals)"

fun and_loop :: "Value go list \<Rightarrow> Value go" where
  "and_loop [] = ret (BoolVal True)"
| "and_loop (x # xs) = on_value x (\<lambda>v. if \<not> Truth v then ret (BoolVal False) else and_loop xs)"

definition fnAND :: builtin where
  "fnAND pl ctx args vals =
     (if vals = [] then fail (errValue ''AND: requires at least one argument'') else and_loop vals)"

fun or_loop :: "Value go list \<Rightarrow> Value go" where
  "or_loop [] = ret (BoolVal False)"
| "or_loop (x # xs) = on_value x (\<lambda>v. if Truth v then ret (BoolVal True) else or_loop xs)"

definition fnOR :: builtin where
  "fnOR pl ctx args vals =
     (if vals = [] then fail (errValue ''OR: requires at least one argument'') else or_loop vals)"

definition fnNOT :: builtin where
  "fnNOT pl ctx args vals =
     counted ''NOT'' vals 1 1 (on_value (vals ! 0) (\<lambda>v. ret (BoolVal (\<not> Truth v))))"

definition fnIFERROR :: builtin where
  "fnIFERROR pl ctx args vals =
     counted ''IFERROR'' vals 2 2
       (go_bind (vals ! 0) (\<lambda>v. if IsError v then vals ! 1 else ret v))"

definition fnISBLANK :: builtin where
  "fnISBLANK pl ctx args vals =
     counted ''ISBLANK'' vals 1 1
       (go_bind (evalOperand ctx (args ! 0) (vals ! 0)) (\<lambda>v.
          ret (BoolVal (IsBlank v \<or> v = StringVal []))))"

definition fnIFNA :: builtin where
  "fnIFNA pl ctx args vals =
     counted ''IFNA'' vals 2 2
       (go_bind (vals ! 0) (\<lambda>v.
          case v of ErrorVal e \<Rightarrow> (if Code e = ''#N/A'' then vals ! 1 else ret v) | _ \<Rightarrow> ret v))"

fun switch_loop :: "Value \<Rightarrow> Value go list \<Rightarrow> Value go" where
  "switch_loop expr (m # r # rest) =
     on_value m (\<lambda>matchVal.
       case compareValues expr matchVal of
         Inl e \<Rightarrow> fail e
       | Inr cmp \<Rightarrow> (if cmp = 0 then r else switch_loop expr rest))"
| "switch_loop expr [d] = d"
| "switch_loop expr [] = fail ErrNA"

definition fnSWITCH :: builtin where
  "fnSWITCH pl ctx args vals =
     (if length vals < 3 then fail (errValue ''SWITCH: requires at least 3 arguments'')
      else on_value (vals ! 0) (\<lambda>expr. switch_loop expr (tl vals)))"

subsection \<open>Mathematics\<close>

definition fnABS :: builtin where
  "fnABS pl ctx args vals =
     counted ''ABS'' vals 1 1
       (on_value (vals ! 0) (\<lambda>v. on_number v (\<lambda>n. ret (NumberVal (fabs n)))))"

definition fnINT :: builtin where
  "fnINT pl ctx args vals =
     counted ''INT'' vals 1 1
       (on_value (vals ! 0) (\<lambda>v. on_number v (\<lambda>n. ret (NumberVal (math_Floor n)))))"

definition fnROUND :: builtin where
  "fnROUND pl ctx args vals =
     counted ''ROUND'' vals 2 2
       (on_values vals (\<lambda>vs. on_number (vs ! 0) (\<lambda>n. on_number (vs ! 1) (\<lambda>places.
          ret (NumberVal (decimalRound n places roundHalfAway))))))"

definition fnROUNDUP :: builtin where
  "fnROUNDUP pl ctx args vals =
     counted ''ROUNDUP'' vals 2 2
       (on_values vals (\<lambda>vs. on_number (vs ! 0) (\<lambda>n. on_number (vs ! 1) (\<lambda>places.
          ret (NumberVal (decimalRound n places roundAway))))))"

definition fnROUNDDOWN :: builtin where
  "fnROUNDDOWN pl ctx args vals =
     counted ''ROUNDDOWN'' vals 2 2
       (on_values vals (\<lambda>vs. on_number (vs ! 0) (\<lambda>n. on_number (vs ! 1) (\<lambda>places.
          ret (NumberVal (decimalRound n places roundToward))))))"

text \<open>A significance that is no number is #DIV/0!, as a zero one.\<close>

definition on_significance :: "Value \<Rightarrow> (f64 \<Rightarrow> Value go) \<Rightarrow> Value go" where
  "on_significance v f =
     (case Number v of None \<Rightarrow> fail ErrDiv0 | Some sig \<Rightarrow> (if is_zero sig then fail ErrDiv0 else f sig))"

definition fnCEILING :: builtin where
  "fnCEILING pl ctx args vals =
     counted ''CEILING'' vals 2 2
       (on_values vals (\<lambda>vs. on_number (vs ! 0) (\<lambda>n. on_significance (vs ! 1) (\<lambda>sig.
          ret (NumberVal (significant15 (fmul (math_Ceil (significant15 (fdiv n sig))) sig)))))))"

definition fnFLOOR :: builtin where
  "fnFLOOR pl ctx args vals =
     counted ''FLOOR'' vals 2 2
       (on_values vals (\<lambda>vs. on_number (vs ! 0) (\<lambda>n. on_significance (vs ! 1) (\<lambda>sig.
          ret (NumberVal (significant15 (fmul (math_Floor (significant15 (fdiv n sig))) sig)))))))"

definition fnMOD :: builtin where
  "fnMOD pl ctx args vals =
     counted ''MOD'' vals 2 2
       (on_values vals (\<lambda>vs. on_number (vs ! 0) (\<lambda>n. on_number (vs ! 1) (\<lambda>d.
          if is_zero d then fail ErrDiv0
          else ret (NumberVal (fsub n (fmul (math_Floor (fdiv n d)) d)))))))"

text \<open>\<open>^\<close> and POWER: a power that is not finite is #NUM!.\<close>

definition power_value :: "platform \<Rightarrow> f64 \<Rightarrow> f64 \<Rightarrow> Value" where
  "power_value pl base e =
     (let result = Pow pl base e
      in if IsNaN result \<or> IsInf result then ErrorVal ErrNum else NumberVal result)"

definition fnPOWER :: builtin where
  "fnPOWER pl ctx args vals =
     counted ''POWER'' vals 2 2
       (on_values vals (\<lambda>vs. on_number (vs ! 0) (\<lambda>base. on_number (vs ! 1) (\<lambda>e.
          ret (power_value pl base e)))))"

definition fnSQRT :: builtin where
  "fnSQRT pl ctx args vals =
     counted ''SQRT'' vals 1 1
       (on_value (vals ! 0) (\<lambda>v. on_number v (\<lambda>n.
          if flt n (Fin 0) then fail ErrNum else ret (NumberVal (fsqrt n)))))"

subsection \<open>Aggregation\<close>

fun collectNumbers :: "Value go list \<Rightarrow> (Value + f64 list) go" where
  "collectNumbers [] = ret (Inr [])"
| "collectNumbers (x # xs) =
     go_bind x (\<lambda>v.
       if IsError v then ret (Inl v)
       else if IsBlank v then collectNumbers xs
       else case Number v of
              None \<Rightarrow> ret (Inl (ErrorVal ErrValue))
            | Some n \<Rightarrow> go_bind (collectNumbers xs) (\<lambda>r.
                case r of Inl e \<Rightarrow> ret (Inl e) | Inr ns \<Rightarrow> ret (Inr (n # ns))))"

definition on_numbers :: "Value go list \<Rightarrow> (f64 list \<Rightarrow> Value go) \<Rightarrow> Value go" where
  "on_numbers xs f = go_bind (collectNumbers xs) (\<lambda>r. case r of Inl e \<Rightarrow> ret e | Inr ns \<Rightarrow> f ns)"

definition fsum :: "f64 list \<Rightarrow> f64" where
  "fsum ns = foldl fadd (Fin 0) ns"

definition fnSUM :: builtin where
  "fnSUM pl ctx args vals = counted ''SUM'' vals 1 (-1) (on_numbers vals (\<lambda>ns. ret (NumberVal (fsum ns))))"

definition fnAVERAGE :: builtin where
  "fnAVERAGE pl ctx args vals =
     counted ''AVERAGE'' vals 1 (-1)
       (on_numbers vals (\<lambda>ns. if ns = [] then fail ErrDiv0
          else ret (NumberVal (fdiv (fsum ns) (f64_of_int (int (length ns)))))))"

definition fmin_list :: "f64 list \<Rightarrow> f64" where
  "fmin_list ns = foldl (\<lambda>m n. if flt n m then n else m) (hd ns) (tl ns)"

definition fmax_list :: "f64 list \<Rightarrow> f64" where
  "fmax_list ns = foldl (\<lambda>m n. if flt m n then n else m) (hd ns) (tl ns)"

definition fnMIN :: builtin where
  "fnMIN pl ctx args vals =
     counted ''MIN'' vals 1 (-1)
       (on_numbers vals (\<lambda>ns. ret (NumberVal (if ns = [] then Fin 0 else fmin_list ns))))"

definition fnMAX :: builtin where
  "fnMAX pl ctx args vals =
     counted ''MAX'' vals 1 (-1)
       (on_numbers vals (\<lambda>ns. ret (NumberVal (if ns = [] then Fin 0 else fmax_list ns))))"

fun count_loop :: "(Value \<Rightarrow> bool) \<Rightarrow> f64 \<Rightarrow> Value go list \<Rightarrow> Value go" where
  "count_loop P count [] = ret (NumberVal count)"
| "count_loop P count (x # xs) =
     go_bind x (\<lambda>v. count_loop P (if \<not> IsError v \<and> P v then fadd count (Fin 1) else count) xs)"

definition fnCOUNT :: builtin where
  "fnCOUNT pl ctx args vals =
     counted ''COUNT'' vals 1 (-1) (count_loop (\<lambda>v. Number v \<noteq> None \<and> \<not> IsBlank v) (Fin 0) vals)"

definition fnCOUNTA :: builtin where
  "fnCOUNTA pl ctx args vals =
     counted ''COUNTA'' vals 1 (-1) (count_loop (\<lambda>v. \<not> IsBlank v) (Fin 0) vals)"

subsection \<open>Text\<close>

fun concat_loop :: "string \<Rightarrow> Value go list \<Rightarrow> Value go" where
  "concat_loop sb [] = ret (StringVal sb)"
| "concat_loop sb (x # xs) = on_value x (\<lambda>v. concat_loop (sb @ Text v) xs)"

definition fnCONCAT :: builtin where
  "fnCONCAT pl ctx args vals = counted ''CONCAT'' vals 1 (-1) (concat_loop [] vals)"

fun join_loop :: "string \<Rightarrow> bool \<Rightarrow> string list \<Rightarrow> Value go list \<Rightarrow> Value go" where
  "join_loop delim ignoreEmpty parts [] = ret (StringVal (Join parts delim))"
| "join_loop delim ignoreEmpty parts (x # xs) =
     on_value x (\<lambda>v. join_loop delim ignoreEmpty
       (if ignoreEmpty \<and> Text v = [] then parts else parts @ [Text v]) xs)"

definition fnTEXTJOIN :: builtin where
  "fnTEXTJOIN pl ctx args vals =
     counted ''TEXTJOIN'' vals 3 (-1)
       (on_value (vals ! 0) (\<lambda>delim. on_value (vals ! 1) (\<lambda>ignoreEmpty.
          join_loop (Text delim) (Truth ignoreEmpty) [] (drop 2 vals))))"

definition fnLEN :: builtin where
  "fnLEN pl ctx args vals =
     counted ''LEN'' vals 1 1
       (on_value (vals ! 0) (\<lambda>v. ret (NumberVal (f64_of_int (int (length (Text v)))))))"

text \<open>The optional length of LEFT and RIGHT, 1 when it is not given.\<close>

definition on_length :: "Value go list \<Rightarrow> (int \<Rightarrow> Value go) \<Rightarrow> Value go" where
  "on_length vals f =
     (if length vals = 2
      then on_value (vals ! 1) (\<lambda>nv. on_number nv (\<lambda>num. f (f64_to_int num)))
      else f 1)"

definition fnLEFT :: builtin where
  "fnLEFT pl ctx args vals =
     counted ''LEFT'' vals 1 2
       (on_value (vals ! 0) (\<lambda>v. on_length vals (\<lambda>n.
          if n < 0 then fail ErrValue
          else let s = Text v; n = min n (int (length s)) in ret (StringVal (take (nat n) s)))))"

definition fnRIGHT :: builtin where
  "fnRIGHT pl ctx args vals =
     counted ''RIGHT'' vals 1 2
       (on_value (vals ! 0) (\<lambda>v. on_length vals (\<lambda>n.
          if n < 0 then fail ErrValue
          else let s = Text v; n = min n (int (length s))
               in ret (StringVal (drop (length s - nat n) s)))))"

text \<open>
  \<open>runes[start:end]\<close>: the slice expression panics on an end before the start. A length that
  \<open>int\<close> cannot hold becomes the least integer and gives such an end.
\<close>

definition slice :: "string \<Rightarrow> int \<Rightarrow> int \<Rightarrow> string go" where
  "slice s i j =
     (if j < 0 then panic (''runtime error: slice bounds out of range [:'' @ show_int j @ '']'')
      else if j < i then panic (''runtime error: slice bounds out of range ['' @ show_int i @ '':'' @ show_int j @ '']'')
      else ret (take (nat (j - i)) (drop (nat i) s)))"

definition fnMID :: builtin where
  "fnMID pl ctx args vals =
     counted ''MID'' vals 3 3
       (on_values vals (\<lambda>vs. on_number (vs ! 1) (\<lambda>startNum. on_number (vs ! 2) (\<lambda>numChars.
          if flt startNum (Fin 1) \<or> flt numChars (Fin 0)
          then fail (errValue ''MID: the start must be at least 1 and the length not negative'')
          else let s = Text (vs ! 0); start = wrap64 (f64_to_int startNum - 1)
               in if int (length s) \<le> start then ret (StringVal [])
                  else let j = wrap64 (start + f64_to_int numChars);
                           j = (if int (length s) < j then int (length s) else j)
                       in go_bind (slice s start j) (\<lambda>r. ret (StringVal r))))))"

definition fnUPPER :: builtin where
  "fnUPPER pl ctx args vals =
     counted ''UPPER'' vals 1 1 (on_value (vals ! 0) (\<lambda>v. ret (StringVal (ToUpper (Text v)))))"

definition fnLOWER :: builtin where
  "fnLOWER pl ctx args vals =
     counted ''LOWER'' vals 1 1 (on_value (vals ! 0) (\<lambda>v. ret (StringVal (ToLower (Text v)))))"

text \<open>\<open>strings.Fields\<close>: the maximal runs without white space.\<close>

function Fields :: "string \<Rightarrow> string list" where
  "Fields s =
     (let t = dropWhile IsSpace s
      in if t = [] then []
         else takeWhile (\<lambda>c. \<not> IsSpace c) t # Fields (dropWhile (\<lambda>c. \<not> IsSpace c) t))"
  by pat_completeness auto
termination
proof (relation "measure length", goal_cases)
  case (2 s t)
  obtain c cs where t: "dropWhile IsSpace s = c # cs" using 2 by (cases "dropWhile IsSpace s") simp_all
  then have "\<not> IsSpace c" by (metis hd_dropWhile list.distinct(1) list.sel(1))
  then have "length (dropWhile (\<lambda>c. \<not> IsSpace c) (c # cs)) < length (c # cs)"
    using length_dropWhile_le [of "\<lambda>c. \<not> IsSpace c" cs] by simp
  also have "length (c # cs) \<le> length s"
    using t length_dropWhile_le [of IsSpace s] by simp
  finally show ?case using 2 t by simp
qed simp

declare Fields.simps [simp del]

definition fnTRIM :: builtin where
  "fnTRIM pl ctx args vals =
     counted ''TRIM'' vals 1 1 (on_value (vals ! 0) (\<lambda>v. ret (StringVal (Join (Fields (Text v)) '' ''))))"

definition fixedFormat :: "string \<Rightarrow> int option" where
  "fixedFormat f =
     (if f = [] \<or> hd f \<noteq> CHR ''0'' \<and> hd f \<noteq> CHR ''#'' then None
      else if length f = 1 then Some 0
      else if f ! 1 \<noteq> CHR ''.'' \<or> length f = 2 then None
      else if list_all (\<lambda>r. r = CHR ''0'') (drop 2 f) then Some (int (length f) - 2) else None)"

text \<open>\<open>%04d\<close> and \<open>%02d\<close> of a number: the width counts the sign.\<close>

definition zero_padded :: "nat \<Rightarrow> int \<Rightarrow> string" where
  "zero_padded w n =
     (if n < 0 then CHR ''-'' # pad_left (w - 1) (digits10 (- n)) else pad_left w (digits10 n))"

fun formatDate :: "instant \<Rightarrow> string \<Rightarrow> string" where
  "formatDate t [] = []"
| "formatDate t (a # layout) =
     (if 3 \<le> length layout \<and> EqualFold (a # take 3 layout) ''yyyy''
      then zero_padded 4 (year_of t) @ formatDate t (drop 3 layout)
      else if 1 \<le> length layout \<and> EqualFold (a # take 1 layout) ''mm''
      then zero_padded 2 (month_of t) @ formatDate t (drop 1 layout)
      else if 1 \<le> length layout \<and> EqualFold (a # take 1 layout) ''dd''
      then zero_padded 2 (day_of t) @ formatDate t (drop 1 layout)
      else a # formatDate t layout)"

text \<open>\<open>strings.Index\<close>, and \<open>strings.Contains\<close> by it.\<close>

fun string_index :: "string \<Rightarrow> string \<Rightarrow> nat option" where
  "string_index [] sub = (if sub = [] then Some 0 else None)"
| "string_index (c # cs) sub =
     (if HasPrefix (c # cs) sub then Some 0 else map_option Suc (string_index cs sub))"

definition fnTEXT :: builtin where
  "fnTEXT pl ctx args vals =
     counted ''TEXT'' vals 2 2
       (on_values vals (\<lambda>vs.
          case Number (vs ! 0) of
            None \<Rightarrow> ret (StringVal (Text (vs ! 0)))
          | Some n \<Rightarrow>
              (let fmtStr = Text (vs ! 1)
               in case fixedFormat fmtStr of
                    Some decimals \<Rightarrow>
                      ret (StringVal (format_fixed (decimalRound n (f64_of_int decimals) roundHalfAway) decimals))
                  | None \<Rightarrow>
                      if string_index (ToUpper fmtStr) ''YYYY'' \<noteq> None
                      then ret (StringVal (formatDate (serialToTime n) fmtStr))
                      else ret (StringVal (numberText15 n)))))"

lemma string_index_bound: "string_index s sub = Some i \<Longrightarrow> i + length sub \<le> length s"
proof (induction s sub arbitrary: i rule: string_index.induct)
  case (2 c cs sub)
  show ?case
  proof (cases "HasPrefix (c # cs) sub")
    case True
    then obtain t where "c # cs = sub @ t" by (auto simp: HasPrefix_iff)
    then have "length (c # cs) = length sub + length t" by simp
    with True 2 show ?thesis by simp
  next
    case False
    with 2 show ?thesis by auto
  qed
qed (auto split: if_splits)

text \<open>
  The loop of SUBSTITUTE: every occurrence from the left is counted, the ones \<open>which\<close> selects
  are replaced. \<open>strings.ReplaceAll\<close> is the loop that selects them all.
\<close>

function substitute_loop :: "string \<Rightarrow> string \<Rightarrow> (int \<Rightarrow> bool) \<Rightarrow> int \<Rightarrow> string \<Rightarrow> string" where
  "substitute_loop old new which count s =
     (if old = [] then s
      else case string_index s old of
             None \<Rightarrow> s
           | Some i \<Rightarrow>
               (if which (count + 1) then take i s @ new else take (i + length old) s) @
               substitute_loop old new which (count + 1) (drop (i + length old) s))"
  by pat_completeness auto
termination
proof (relation "measure (\<lambda>(old, new, which, count, s). length s)", goal_cases)
  case (2 old new which count s i)
  then show ?case using string_index_bound [of s old i] by (cases old) auto
qed simp

declare substitute_loop.simps [simp del]

definition ReplaceAll :: "string \<Rightarrow> string \<Rightarrow> string \<Rightarrow> string" where
  "ReplaceAll s old new = substitute_loop old new (\<lambda>_. True) 0 s"

definition fnSUBSTITUTE :: builtin where
  "fnSUBSTITUTE pl ctx args vals =
     counted ''SUBSTITUTE'' vals 3 4
       (on_values vals (\<lambda>vs.
          let s = Text (vs ! 0); oldText = Text (vs ! 1); newText = Text (vs ! 2);
              bad = fail (errValue ''SUBSTITUTE: the instance must be a number of at least 1'')
          in if length vals = 4
             then case Number (vs ! 3) of
                    None \<Rightarrow> bad
                  | Some nthNum \<Rightarrow>
                      (if flt nthNum (Fin 1) then bad
                       else if oldText = [] then ret (StringVal s)
                       else let nth = f64_to_int nthNum
                            in ret (StringVal (substitute_loop oldText newText (\<lambda>count. count = nth) 0 s)))
             else if oldText = [] then ret (StringVal s)
             else ret (StringVal (ReplaceAll s oldText newText))))"

subsection \<open>Dates\<close>

definition fnTODAY :: builtin where
  "fnTODAY pl ctx args vals =
     counted ''TODAY'' vals 0 0 (ret (NumberVal (timeToSerial (TruncateDay (Now pl)))))"

definition fnDATE :: builtin where
  "fnDATE pl ctx args vals =
     counted ''DATE'' vals 3 3
       (on_values vals (\<lambda>vs. on_number (vs ! 0) (\<lambda>y. on_number (vs ! 1) (\<lambda>m. on_number (vs ! 2) (\<lambda>d.
          ret (NumberVal (timeToSerial (go_date (f64_to_int y) (f64_to_int m) (f64_to_int d)))))))))"

definition fnYEAR :: builtin where
  "fnYEAR pl ctx args vals =
     counted ''YEAR'' vals 1 1
       (on_value (vals ! 0) (\<lambda>v. on_number v (\<lambda>n. ret (NumberVal (f64_of_int (year_of (serialToTime n)))))))"

definition fnMONTH :: builtin where
  "fnMONTH pl ctx args vals =
     counted ''MONTH'' vals 1 1
       (on_value (vals ! 0) (\<lambda>v. on_number v (\<lambda>n. ret (NumberVal (f64_of_int (month_of (serialToTime n)))))))"

definition fnDAY :: builtin where
  "fnDAY pl ctx args vals =
     counted ''DAY'' vals 1 1
       (on_value (vals ! 0) (\<lambda>v. on_number v (\<lambda>n. ret (NumberVal (f64_of_int (day_of (serialToTime n)))))))"

definition fnDAYS :: builtin where
  "fnDAYS pl ctx args vals =
     counted ''DAYS'' vals 2 2
       (on_values vals (\<lambda>vs. on_number (vs ! 0) (\<lambda>e. on_number (vs ! 1) (\<lambda>s.
          ret (NumberVal (fsub e s))))))"

definition edate :: "instant \<Rightarrow> int \<Rightarrow> instant" where
  "edate t months =
     (let target = go_date (year_of t) (wrap64 (month_of t + months)) 1;
          last = day_of (AddDate target 1 (- 1));
          day = (if last < day_of t then last else day_of t)
      in go_date (year_of target) (month_of target) day)"

definition fnEDATE :: builtin where
  "fnEDATE pl ctx args vals =
     counted ''EDATE'' vals 2 2
       (on_values vals (\<lambda>vs. on_number (vs ! 0) (\<lambda>serial. on_number (vs ! 1) (\<lambda>months.
          ret (NumberVal (timeToSerial (edate (serialToTime serial) (f64_to_int months))))))))"

definition eomonth :: "instant \<Rightarrow> int \<Rightarrow> instant" where
  "eomonth t months = AddDate (go_date (year_of t) (month_of t) 1) (wrap64 (months + 1)) (- 1)"

definition fnEOMONTH :: builtin where
  "fnEOMONTH pl ctx args vals =
     counted ''EOMONTH'' vals 2 2
       (on_values vals (\<lambda>vs. on_number (vs ! 0) (\<lambda>serial. on_number (vs ! 1) (\<lambda>months.
          ret (NumberVal (timeToSerial (eomonth (serialToTime serial) (f64_to_int months))))))))"

definition fnDAYSINMONTH :: builtin where
  "fnDAYSINMONTH pl ctx args vals =
     counted ''DAYSINMONTH'' vals 2 2
       (on_values vals (\<lambda>vs. on_number (vs ! 0) (\<lambda>y. on_number (vs ! 1) (\<lambda>m.
          let month = f64_to_int m
          in if month < 1 \<or> 12 < month
             then fail (mk_error (Code ErrNum) (''DAYSINMONTH: month must be 1-12, got '' @ format_g m))
             else ret (NumberVal (f64_of_int (day_of (go_date (f64_to_int y) (month + 1) 0))))))))"

definition fnDAYSINYEAR :: builtin where
  "fnDAYSINYEAR pl ctx args vals =
     counted ''DAYSINYEAR'' vals 1 1
       (on_values vals (\<lambda>vs. on_number (vs ! 0) (\<lambda>y.
          if YearDay (go_date (f64_to_int y) 12 31) = 366 then ret (NumberVal (Fin 366))
          else ret (NumberVal (Fin 365)))))"

subsection \<open>The table\<close>

definition scalar_builtins :: "(string \<times> builtin) list" where
  "scalar_builtins =
     [(''IF'', fnIF), (''IFS'', fnIFS), (''AND'', fnAND), (''OR'', fnOR), (''NOT'', fnNOT),
      (''IFERROR'', fnIFERROR), (''IFNA'', fnIFNA), (''SWITCH'', fnSWITCH), (''ISBLANK'', fnISBLANK),
      (''ABS'', fnABS), (''INT'', fnINT), (''ROUND'', fnROUND), (''ROUNDUP'', fnROUNDUP),
      (''ROUNDDOWN'', fnROUNDDOWN), (''CEILING'', fnCEILING), (''FLOOR'', fnFLOOR), (''MOD'', fnMOD),
      (''POWER'', fnPOWER), (''SQRT'', fnSQRT),
      (''SUM'', fnSUM), (''AVERAGE'', fnAVERAGE), (''MIN'', fnMIN), (''MAX'', fnMAX),
      (''COUNT'', fnCOUNT), (''COUNTA'', fnCOUNTA),
      (''CONCAT'', fnCONCAT), (''TEXTJOIN'', fnTEXTJOIN), (''LEN'', fnLEN), (''LEFT'', fnLEFT),
      (''RIGHT'', fnRIGHT), (''MID'', fnMID), (''UPPER'', fnUPPER), (''LOWER'', fnLOWER),
      (''TRIM'', fnTRIM), (''TEXT'', fnTEXT), (''SUBSTITUTE'', fnSUBSTITUTE),
      (''TODAY'', fnTODAY), (''DATE'', fnDATE), (''YEAR'', fnYEAR), (''MONTH'', fnMONTH),
      (''DAY'', fnDAY), (''DAYS'', fnDAYS), (''EDATE'', fnEDATE), (''EOMONTH'', fnEOMONTH),
      (''DAYSINMONTH'', fnDAYSINMONTH), (''DAYSINYEAR'', fnDAYSINYEAR)]"

subsection \<open>MIN and MAX\<close>

text \<open>
  Running down a list and keeping the better of two elements. \<open>better\<close> is a strict order on the
  elements of \<open>ok\<close> in which two elements neither of which is better compare alike.
\<close>

locale selection =
  fixes better :: "'a \<Rightarrow> 'a \<Rightarrow> bool" and ok :: "'a \<Rightarrow> bool"
  assumes better_asym: "better x y \<Longrightarrow> \<not> better y x"
    and better_trans: "better x y \<Longrightarrow> better y z \<Longrightarrow> better x z"
    and better_cotrans: "ok y \<Longrightarrow> better x z \<Longrightarrow> better x y \<or> better y z"
begin

lemma foldl_best:
  assumes "ok m" and "\<And>n. n \<in> set ns \<Longrightarrow> ok n"
  shows "foldl (\<lambda>m n. if better n m then n else m) m ns \<in> insert m (set ns) \<and>
    (\<forall>n \<in> insert m (set ns). \<not> better n (foldl (\<lambda>m n. if better n m then n else m) m ns))"
  using assms
proof (induction ns arbitrary: m)
  case Nil
  then show ?case using better_asym by auto
next
  case (Cons n ns)
  let ?m = "if better n m then n else m"
  let ?r = "foldl (\<lambda>m n. if better n m then n else m) ?m ns"
  have IH: "?r \<in> insert ?m (set ns)" "\<And>k. k \<in> insert ?m (set ns) \<Longrightarrow> \<not> better k ?r"
    using Cons.IH [of ?m] Cons.prems by auto
  have "\<not> better n ?r \<and> \<not> better m ?r"
  proof (cases "better n m")
    case True
    with IH(2) [of n] better_trans [of n m ?r] show ?thesis by auto
  next
    case False
    with IH(2) [of m] better_cotrans [of m n ?r] Cons.prems(1) show ?thesis by auto
  qed
  moreover have "?r \<in> insert m (insert n (set ns))" using IH(1) by (auto split: if_splits)
  ultimately show ?case using IH(2) by simp
qed

lemma best_of_list:
  assumes "ns \<noteq> []" and "\<forall>n \<in> set ns. ok n"
  shows "foldl (\<lambda>m n. if better n m then n else m) (hd ns) (tl ns) \<in> set ns \<and>
    (\<forall>n \<in> set ns. \<not> better n (foldl (\<lambda>m n. if better n m then n else m) (hd ns) (tl ns)))"
  using assms foldl_best [of "hd ns" "tl ns"] by (cases ns) auto

end

interpretation least: selection flt "\<lambda>x. \<not> IsNaN x"
  by unfold_locales (blast dest: flt_asym flt_trans flt_cotrans)+

interpretation greatest: selection "\<lambda>x y. flt y x" "\<lambda>x. \<not> IsNaN x"
  by unfold_locales (blast dest: flt_asym flt_trans flt_cotrans)+

text \<open>
  MIN returns one of its numbers, and none of the others is below it; MAX returns one of its
  numbers, and none is above it (numbers other than NaN).
\<close>

theorem min_max_list:
  assumes "ns \<noteq> []" and "\<forall>n \<in> set ns. \<not> IsNaN n"
  shows "fmin_list ns \<in> set ns \<and> (\<forall>n \<in> set ns. \<not> flt n (fmin_list ns)) \<and>
    fmax_list ns \<in> set ns \<and> (\<forall>n \<in> set ns. \<not> flt (fmax_list ns) n)"
  using least.best_of_list [OF assms] greatest.best_of_list [OF assms]
  by (simp add: fmin_list_def fmax_list_def)

theorem min_max_list_witness:
  "fmin_list [Fin 3, Fin 1, F64_NegZero] \<in> set [Fin 3, Fin 1, F64_NegZero] \<and> \<not> flt (Fin 1) (fmin_list [Fin 3, Fin 1, F64_NegZero]) \<and> \<not> flt (fmax_list [Fin 3, Fin 1, F64_NegZero]) (Fin 3)"
  using min_max_list [of "[Fin 3, Fin 1, F64_NegZero]"] by simp

subsection \<open>MID\<close>

text \<open>
  MID with a whole start of at least 1 and a whole length of at least 0 is the substring it
  names, cut at the end of the text; it does not panic.
\<close>

theorem fnMID_substring:
  assumes "\<not> IsError v" and "1 \<le> i" and "i < 2 ^ 53" and "0 \<le> n" and "n < 2 ^ 53"
    and "int (length (Text v)) < 2 ^ 53"
  shows "fnMID pl ctx args [ret v, ret (NumberVal (Fin (of_int i))), ret (NumberVal (Fin (of_int n)))] =
    ret (StringVal (take (nat n) (drop (nat (i - 1)) (Text v))))"
proof -
  let ?s = "Text v"
  have c: "f64_to_int (Fin (of_int i)) = i" "f64_to_int (Fin (of_int n)) = n"
    using assms by (intro f64_to_int_of_int; simp)+
  have w: "wrap64 (i - 1) = i - 1" "wrap64 (i - 1 + n) = i - 1 + n"
    using assms by (intro wrap64_id; simp)+
  have g: "\<not> flt (Fin (of_int i)) (Fin 1)" "\<not> flt (Fin (of_int n)) (Fin 0)" using assms by simp_all
  have eval: "on_values [ret v, ret (NumberVal (Fin (of_int i))), ret (NumberVal (Fin (of_int n)))] f =
      f [v, NumberVal (Fin (of_int i)), NumberVal (Fin (of_int n))]" for f
    using assms(1) on_values_ret [of "[v, NumberVal (Fin (of_int i)), NumberVal (Fin (of_int n))]" f] by simp
  have "slice ?s (i - 1) (if int (length ?s) < i - 1 + n then int (length ?s) else i - 1 + n) =
      ret (take (nat n) (drop (nat (i - 1)) ?s))" if "i - 1 < int (length ?s)"
  proof (cases "int (length ?s) < i - 1 + n")
    case True
    have "take (nat (int (length ?s) - (i - 1))) (drop (nat (i - 1)) ?s) = take (nat n) (drop (nat (i - 1)) ?s)"
      using True that assms(2) by (simp add: nat_le_iff)
    with True that assms(2,4) show ?thesis by (simp add: slice_def)
  next
    case False
    with assms(2,4) show ?thesis by (simp add: slice_def)
  qed
  then show ?thesis
    using g by (auto simp: fnMID_def requireArgCount_None eval on_number_def c w Let_def nat_le_iff
        simp del: flt.simps f64_to_int.simps)
qed

definition demo_platform :: platform where
  "demo_platform = \<lparr>Pow = (\<lambda>x y. Fin 0), Now = 0\<rparr>"

theorem fnMID_substring_witness:
  "fnMID demo_platform empty_context [] [ret (StringVal ''abcdef''), ret (NumberVal (Fin (of_int 2))), ret (NumberVal (Fin (of_int 3)))] =
   ret (StringVal ''bcd'')"
  using fnMID_substring [of "StringVal ''abcdef''" 2 3 demo_platform empty_context "[]"] by simp

subsection \<open>Dates and their parts\<close>

text \<open>
  YEAR, MONTH and DAY read back what DATE was given: for every calendar date between
  1607-09-18 and 2192-04-14, the parts of the serial DATE returns are the date's own.
\<close>

theorem date_parts:
  assumes "valid_civil c" and "\<bar>day_number c - epoch_day\<bar> \<le> day_limit"
  shows "\<exists>s. fnDATE pl ctx args (map (\<lambda>i. ret (NumberVal (Fin (of_int i)))) [Year c, Month c, Day c]) =
      ret (NumberVal s) \<and>
    fnYEAR pl ctx args [ret (NumberVal s)] = ret (NumberVal (Fin (of_int (Year c)))) \<and>
    fnMONTH pl ctx args [ret (NumberVal s)] = ret (NumberVal (Fin (of_int (Month c)))) \<and>
    fnDAY pl ctx args [ret (NumberVal s)] = ret (NumberVal (Fin (of_int (Day c))))"
proof -
  let ?t = "go_date (Year c) (Month c) (Day c)"
  have d: "\<bar>date_day (Year c) (Month c) (Day c) - epoch_day\<bar> \<le> day_limit"
    using assms by (simp add: date_day_valid)
  have rt: "serialToTime (timeToSerial ?t) = ?t" by (rule serial_round_trip(2) [OF d])
  have civ: "civil_of ?t = c" by (rule civil_of_go_date_valid [OF assms(1)])
  have "?t = (day_number c - epoch_day) * ns_per_day" by (simp add: go_date_def date_day_valid assms(1))
  then have y: "1607 \<le> Year c" "Year c \<le> 2192"
    using year_of_serial [OF assms(2)] civ by simp_all
  have md: "1 \<le> Month c" "Month c \<le> 12" "1 \<le> Day c" "Day c \<le> 31"
    using assms(1) days_in_month_le [of "Year c" "Month c"] by (auto simp: valid_civil_def)
  have i: "f64_to_int (Fin (of_int k)) = k" if "0 \<le> k" "k \<le> 2192" for k
    using that by (intro f64_to_int_of_int) simp_all
  have "on_values (map (\<lambda>i. ret (NumberVal (Fin (of_int i)))) [Year c, Month c, Day c]) f =
      f (map (\<lambda>i. NumberVal (Fin (of_int i))) [Year c, Month c, Day c])" for f
    using on_values_ret [of "map (\<lambda>i. NumberVal (Fin (of_int i))) [Year c, Month c, Day c]" f] by simp
  then have "fnDATE pl ctx args (map (\<lambda>i. ret (NumberVal (Fin (of_int i)))) [Year c, Month c, Day c]) =
      ret (NumberVal (timeToSerial ?t))"
    using y md by (simp add: fnDATE_def requireArgCount_None on_number_def i del: f64_to_int.simps)
  then show ?thesis
    using y md by (intro exI [of _ "timeToSerial ?t"])
      (simp add: fnYEAR_def fnMONTH_def fnDAY_def requireArgCount_None on_number_def rt civ)
qed

theorem date_parts_witness:
  "\<exists>s. fnDATE demo_platform empty_context [] (map (\<lambda>i. ret (NumberVal (Fin (of_int i)))) [2024, 2, 29]) = ret (NumberVal s) \<and>
    fnYEAR demo_platform empty_context [] [ret (NumberVal s)] = ret (NumberVal (Fin (of_int 2024))) \<and>
    fnMONTH demo_platform empty_context [] [ret (NumberVal s)] = ret (NumberVal (Fin (of_int 2))) \<and>
    fnDAY demo_platform empty_context [] [ret (NumberVal s)] = ret (NumberVal (Fin (of_int 29)))"
proof -
  have "valid_civil \<lparr>Year = 2024, Month = 2, Day = 29\<rparr>"
    "\<bar>day_number \<lparr>Year = 2024, Month = 2, Day = 29\<rparr> - epoch_day\<bar> \<le> day_limit" by code_simp+
  from date_parts [OF this, of demo_platform empty_context "[]"] show ?thesis by simp
qed

subsection \<open>Month arithmetic\<close>

text \<open>The month \<open>k\<close> months after a given one, and the last day of a month.\<close>

definition add_months :: "int \<Rightarrow> int \<Rightarrow> int \<Rightarrow> int \<times> int" where
  "add_months y m k = (y + (m + k - 1) div 12, (m + k - 1) mod 12 + 1)"

lemma month_index:
  "m \<in> {1..12} \<Longrightarrow> m = 1 \<or> m = 2 \<or> m = 3 \<or> m = 4 \<or> m = 5 \<or> m = 6 \<or> m = 7 \<or> m = 8 \<or> m = 9 \<or> m = 10 \<or> m = 11 \<or> m = (12::int)"
  by simp presburger

lemma days_before_month_Suc:
  "1 \<le> m \<Longrightarrow> m < 12 \<Longrightarrow> days_before_month y (m + 1) = days_before_month y m + days_in_month y m"
  using month_index [of m] by (auto simp: days_before_month_def days_in_month_def)

lemma days_of_year: "days_before_month y 12 + days_in_month y 12 = days_in_year y"
  by (simp add: days_before_month_def days_in_month_def days_in_year_def)

text \<open>Day 0 of the month after is the last day of the month.\<close>

lemma date_day_last:
  "date_day y (m + 1) 0 =
     day_number \<lparr>Year = fst (add_months y m 0), Month = snd (add_months y m 0),
       Day = days_in_month (fst (add_months y m 0)) (snd (add_months y m 0))\<rparr>"
proof -
  define q r where "q = (m - 1) div 12" and "r = (m - 1) mod 12"
  then have r: "0 \<le> r" "r < 12" and am: "add_months y m 0 = (y + q, r + 1)"
    and dm: "m div 12 = q + (r + 1) div 12" "m mod 12 = (r + 1) mod 12"
    using div_add1_eq [of "m - 1" 1 12] mod_add_left_eq [of "m - 1" 12 1] by (simp_all add: add_months_def)
  show ?thesis
  proof (cases "r = 11")
    case True
    then have "date_day y (m + 1) 0 = days_before_year (y + q + 1) - 1"
      by (simp add: date_day_def day_number_def days_before_month_def dm add.assoc)
    also have "\<dots> = days_before_year (y + q) + days_in_year (y + q) - 1" by (simp only: days_before_year_Suc)
    finally show ?thesis
      using days_of_year [of "y + q"] True by (simp add: am day_number_def)
  next
    case False
    then have "m div 12 = q" "m mod 12 = r + 1" using dm r by simp_all
    moreover have "days_before_month (y + q) (r + 1 + 1) = days_before_month (y + q) (r + 1) + days_in_month (y + q) (r + 1)"
      using False r by (intro days_before_month_Suc) auto
    ultimately show ?thesis by (simp add: date_day_def am day_number_def)
  qed
qed

lemma days_in_month_pos: "1 \<le> days_in_month y m"
  by (simp add: days_in_month_def)

lemma civil_of_month_end:
  "civil_of (go_date y (m + 1) 0) =
     (let (Y, M) = add_months y m 0 in \<lparr>Year = Y, Month = M, Day = days_in_month Y M\<rparr>)"
proof -
  let ?c = "\<lparr>Year = fst (add_months y m 0), Month = snd (add_months y m 0),
       Day = days_in_month (fst (add_months y m 0)) (snd (add_months y m 0))\<rparr>"
  have "valid_civil ?c" by (simp add: valid_civil_def add_months_def days_in_month_pos)
  then show ?thesis
    by (simp add: civil_of_go_date date_day_last civil_of_day_day_number case_prod_beta)
qed

lemma civil_of_month_start:
  "civil_of (go_date y m 1) = (let (Y, M) = add_months y m 0 in \<lparr>Year = Y, Month = M, Day = 1\<rparr>)"
proof -
  let ?c = "\<lparr>Year = fst (add_months y m 0), Month = snd (add_months y m 0), Day = 1\<rparr>"
  have "valid_civil ?c" by (simp add: valid_civil_def add_months_def days_in_month_pos)
  moreover have "date_day y m 1 = day_number ?c" by (simp add: date_day_def add_months_def)
  ultimately show ?thesis by (simp add: civil_of_go_date civil_of_day_day_number case_prod_beta)
qed

lemma go_date_midnight: "go_date y m d mod ns_per_day = 0"
  by (simp add: go_date_def)

text \<open>
  EOMONTH is the last day of the month the given number of months away, and EDATE the same
  day of that month, or its last day where the month is shorter: 31 January plus one month is the
  end of February, never a day in March. (A shift of fewer than 2^61 months.)
\<close>

theorem edate_eomonth:
  assumes "\<bar>k\<bar> < 2 ^ 61"
  shows "civil_of (eomonth t k) =
      (let (Y, M) = add_months (year_of t) (month_of t) k in \<lparr>Year = Y, Month = M, Day = days_in_month Y M\<rparr>) \<and>
    civil_of (edate t k) =
      (let (Y, M) = add_months (year_of t) (month_of t) k
       in \<lparr>Year = Y, Month = M, Day = min (day_of t) (days_in_month Y M)\<rparr>)"
proof -
  let ?y = "year_of t" and ?m = "month_of t"
  have v: "valid_civil (civil_of t)" by (simp add: civil_of_def civil_of_day_valid)
  then have m: "1 \<le> ?m" "?m \<le> 12" "1 \<le> day_of t" by (simp_all add: valid_civil_def)
  have w: "wrap64 (k + 1) = k + 1" "wrap64 (?m + k) = ?m + k" "wrap64 (1 + (k + 1)) = 1 + (k + 1)"
    "wrap64 (?m + (k + 1)) = ?m + (k + 1)"
    using assms m by (intro wrap64_id; simp)+
  have ym: "add_months ?y ?m 0 = (?y, ?m)" using m by (simp add: add_months_def)
  have first: "civil_of (go_date ?y ?m 1) = \<lparr>Year = ?y, Month = ?m, Day = 1\<rparr>"
    using civil_of_month_start [of ?y ?m] by (simp add: ym)
  have "eomonth t k = go_date ?y (?m + k + 1) 0"
    by (simp add: eomonth_def AddDate_def first w go_date_midnight add.assoc)
  moreover have sh: "add_months ?y (?m + k) 0 = add_months ?y ?m k" by (simp add: add_months_def)
  ultimately have e: "civil_of (eomonth t k) =
      (let (Y, M) = add_months ?y ?m k in \<lparr>Year = Y, Month = M, Day = days_in_month Y M\<rparr>)"
    using civil_of_month_end [of ?y "?m + k"] by simp
  obtain Y M where YM: "add_months ?y ?m k = (Y, M)" by fastforce
  then have M: "1 \<le> M" "M \<le> 12" by (auto simp: add_months_def)
  let ?target = "go_date ?y (?m + k) 1"
  have target: "civil_of ?target = \<lparr>Year = Y, Month = M, Day = 1\<rparr>"
    using civil_of_month_start [of ?y "?m + k"] by (simp add: sh YM)
  have "AddDate ?target 1 (- 1) = go_date Y (M + 1) 0"
    using M by (simp add: AddDate_def target go_date_midnight)
  moreover have "add_months Y M 0 = (Y, M)" using M by (simp add: add_months_def)
  ultimately have last: "day_of (AddDate ?target 1 (- 1)) = days_in_month Y M"
    using civil_of_month_end [of Y M] by simp
  let ?c = "\<lparr>Year = Y, Month = M, Day = min (day_of t) (days_in_month Y M)\<rparr>"
  have "valid_civil ?c" using M m(3) days_in_month_pos [of Y M] by (simp add: valid_civil_def)
  moreover have "edate t k = go_date (Year ?c) (Month ?c) (Day ?c)"
    using last by (simp add: edate_def Let_def w target min_def)
  ultimately have "civil_of (edate t k) = ?c" by (metis civil_of_go_date_valid)
  with e YM show ?thesis by simp
qed

theorem edate_eomonth_witness:
  "civil_of (eomonth (go_date 2024 1 31) 1) = \<lparr>Year = 2024, Month = 2, Day = 29\<rparr> \<and>
   civil_of (edate (go_date 2024 1 31) 1) = \<lparr>Year = 2024, Month = 2, Day = 29\<rparr>"
proof -
  have "civil_of (go_date 2024 1 31) = \<lparr>Year = 2024, Month = 1, Day = 31\<rparr>" by code_simp
  then show ?thesis
    using edate_eomonth [of 1 "go_date 2024 1 31"] by (simp add: add_months_def days_in_month_def leap_def)
qed

end
