(* ===== verification/TimeFns.thy ===== *)
theory TimeFns
  imports Scalar
begin

text \<open>
  The time-series built-ins of \<open>internal/formula/time.go\<close>. The current period, the ordered
  periods and the evaluation of an expression at another period come from
  \<open>TimeEvalContext\<close>; its callbacks are parameters of the model. Dates of periods are UTC
  instants.
\<close>

subsection \<open>The time context\<close>

definition time_error :: "string \<Rightarrow> string \<Rightarrow> FormulaError" where
  "time_error c m = mk_error c m"

definition maxTimeDepth :: int where
  "maxTimeDepth = 256"

definition Child :: "TimeEvalContext \<Rightarrow> int \<Rightarrow> TimeEvalContext" where
  "Child t position = t\<lparr>Position := position, depth := depth t + 1\<rparr>"

definition InRange :: "TimeEvalContext \<Rightarrow> int \<Rightarrow> bool" where
  "InRange t position \<longleftrightarrow> 0 \<le> position \<and> position < int (length (Periods t))"

definition TimeFunctionNames :: "string list" where
  "TimeFunctionNames =
     [''PREVIOUS'', ''NEXT'', ''LAG'', ''LEAD'', ''OFFSET'', ''MOVINGSUM'',
      ''CUMULATE'', ''DECUMULATE'', ''MONTHTODATE'', ''QUARTERTODATE'', ''HALFYEARTODATE'', ''YEARTODATE'',
      ''MONTHVALUE'', ''QUARTERVALUE'', ''HALFYEARVALUE'', ''YEARVALUE'', ''TIMESUM'', ''START'', ''END'']"

definition IsTimeFunction :: "string \<Rightarrow> bool" where
  "IsTimeFunction name \<longleftrightarrow> ToUpper name \<in> set TimeFunctionNames"

text \<open>\<open>timeCtx\<close>: the time context with its \<open>EvalAt\<close>, unless it is missing or nested too deep.\<close>

definition timeCtx :: "EvalContext \<Rightarrow> string \<Rightarrow> FormulaError + TimeEvalContext \<times> (node \<Rightarrow> int \<Rightarrow> Value)" where
  "timeCtx ctx fn =
     (let missing = Inl (time_error ''TIME_CONTEXT_REQUIRED''
            (fn @ '' needs a time dimension: the metric is not dimensioned by a time dimension''))
      in case Time ctx of
           None \<Rightarrow> missing
         | Some t \<Rightarrow>
             (case EvalAt t of
                None \<Rightarrow> missing
              | Some evalAt \<Rightarrow>
                  if maxTimeDepth < depth t
                  then Inl (time_error ''TEMPORAL_CYCLE_NOT_CAUSAL''
                    (fn @ '': time evaluation nested '' @ show_int (depth t) @ '' levels deep '' @
                     [CHR 0xE2, CHR 0x80, CHR 0x94] @ '' a non-causal cycle''))
                  else Inr (t, evalAt)))"

definition on_time :: "EvalContext \<Rightarrow> string \<Rightarrow> (TimeEvalContext \<Rightarrow> (node \<Rightarrow> int \<Rightarrow> Value) \<Rightarrow> Value go) \<Rightarrow> Value go" where
  "on_time ctx fn f = (case timeCtx ctx fn of Inl e \<Rightarrow> fail e | Inr (t, evalAt) \<Rightarrow> f t evalAt)"

text \<open>Go's truncating integer division.\<close>

definition go_quot :: "int \<Rightarrow> int \<Rightarrow> int" where
  "go_quot a b = (if (a < 0) = (b < 0) then \<bar>a\<bar> div \<bar>b\<bar> else - (\<bar>a\<bar> div \<bar>b\<bar>))"

definition go_rem :: "int \<Rightarrow> int \<Rightarrow> int" where
  "go_rem a b = a - b * go_quot a b"

subsection \<open>Literal offsets and keywords\<close>

definition strip_minus :: "node \<Rightarrow> bool \<times> node" where
  "strip_minus n = (case n of UnaryExpr o1 e \<Rightarrow> (if o1 = ''-'' then (True, e) else (False, n)) | _ \<Rightarrow> (False, n))"

definition IsOffsetLiteral :: "node \<Rightarrow> bool" where
  "IsOffsetLiteral n = (case snd (strip_minus n) of NumberLit _ \<Rightarrow> True | _ \<Rightarrow> False)"

definition IntegerLiteral :: "node \<Rightarrow> string \<Rightarrow> FormulaError + int" where
  "IntegerLiteral n fn =
     (case strip_minus n of
        (neg, NumberLit v) \<Rightarrow>
          (if \<not> feq v (math_Trunc v)
           then Inl (time_error ''TIME_OFFSET_NOT_INTEGER''
             (fn @ '': the offset must be a whole number, got '' @ format_g v))
           else Inr (f64_to_int (fmul (Fin (if neg then - 1 else 1)) v)))
      | _ \<Rightarrow> Inl (time_error ''MOVING_WINDOW_NOT_LITERAL''
          (fn @ '': the window must be an integer literal (a metric, cell reference or expression is not supported)'')))"

definition keywordArg :: "node \<Rightarrow> string \<Rightarrow> string list \<Rightarrow> FormulaError + string" where
  "keywordArg n fn allowed =
     (case n of
        Ident name \<Rightarrow>
          (if ToUpper name \<in> set allowed then Inr (ToUpper name)
           else Inl (errValue (fn @ '': unknown keyword '' @ name @ '' (expected one of '' @ Join allowed '', '' @ '')'')))
      | _ \<Rightarrow> Inl (errValue (fn @ '': expected one of '' @ Join allowed '', '')))"

subsection \<open>Position functions\<close>

definition shiftOrZero :: "EvalContext \<Rightarrow> string \<Rightarrow> node list \<Rightarrow> int \<Rightarrow> Value go" where
  "shiftOrZero ctx fn args delta =
     counted fn args 1 1
       (on_time ctx fn (\<lambda>t evalAt.
          let target = wrap64 (Position t + delta)
          in if \<not> InRange t target then ret (NumberVal (Fin 0)) else ret (evalAt (args ! 0) target)))"

definition fnPREVIOUS :: builtin where
  "fnPREVIOUS pl ctx args vals = shiftOrZero ctx ''PREVIOUS'' args (- 1)"

definition fnNEXT :: builtin where
  "fnNEXT pl ctx args vals = shiftOrZero ctx ''NEXT'' args 1"

definition maxDynamicOffset :: int where
  "maxDynamicOffset = 1073741824"

definition describeValue :: "Value \<Rightarrow> string" where
  "describeValue v =
     (case v of StringVal s \<Rightarrow> ''the text '' @ go_quote s | BlankVal \<Rightarrow> ''a blank'' | _ \<Rightarrow> Text v)"

definition clamp_offset :: "f64 \<Rightarrow> f64" where
  "clamp_offset f =
     (let hi = Fin (of_int maxDynamicOffset); lo = Fin (- of_int maxDynamicOffset);
          f = (if flt hi f then hi else f)
      in if flt f lo then lo else f)"

definition offsetArg :: "node \<Rightarrow> Value go \<Rightarrow> string \<Rightarrow> (FormulaError + int) go" where
  "offsetArg n x fn =
     (if IsOffsetLiteral n then ret (IntegerLiteral n fn)
      else go_bind x (\<lambda>v.
        let bad = Inl (time_error ''TIME_OFFSET_NOT_INTEGER''
              (fn @ '': the offset must evaluate to a whole number, got '' @ describeValue v))
        in ret (case v of
             ErrorVal e \<Rightarrow> Inl e
           | StringVal _ \<Rightarrow> bad
           | _ \<Rightarrow>
             (case Number v of
                None \<Rightarrow> bad
              | Some f \<Rightarrow>
                  if \<not> feq f (math_Trunc f) \<or> IsNaN f \<or> IsInf f then bad
                  else Inr (f64_to_int (clamp_offset f))))))"

text \<open>The substitute is evaluated at the current period; strictness may ask for it by the sign of \<open>n\<close>.\<close>

definition lag_target :: "TimeEvalContext \<Rightarrow> int \<Rightarrow> int \<Rightarrow> int" where
  "lag_target t dir n = wrap64 (Position t + wrap64 (dir * n))"

definition lagLead :: "EvalContext \<Rightarrow> string \<Rightarrow> node list \<Rightarrow> Value go list \<Rightarrow> int \<Rightarrow> Value go" where
  "lagLead ctx fn args vals dir =
     counted fn args 3 (if fn = ''OFFSET'' then 3 else 4)
       (on_time ctx fn (\<lambda>t evalAt.
          go_bind (offsetArg (args ! 1) (vals ! 1) fn) (\<lambda>r. on_ok r (\<lambda>n.
            on_ok (if length args = 4 then keywordArg (args ! 3) fn [''NONSTRICT'', ''SEMISTRICT'', ''STRICT'']
                   else Inr ''NONSTRICT'') (\<lambda>mode.
              if mode = ''SEMISTRICT'' \<and> n < 0 \<or> mode = ''STRICT'' \<and> n \<le> 0 then vals ! 2
              else if \<not> InRange t (lag_target t dir n) then vals ! 2
              else ret (evalAt (args ! 0) (lag_target t dir n)))))))"

definition fnLAG :: builtin where
  "fnLAG pl ctx args vals = lagLead ctx ''LAG'' args vals (- 1)"

definition fnLEAD :: builtin where
  "fnLEAD pl ctx args vals = lagLead ctx ''LEAD'' args vals 1"

definition fnOFFSET :: builtin where
  "fnOFFSET pl ctx args vals = lagLead ctx ''OFFSET'' args vals 1"

subsection \<open>Moving range\<close>

text \<open>The accumulators of \<open>reduceWindow\<close>: sum, least, greatest and how many.\<close>

record reduction =
  r_sum :: f64
  r_lo :: f64
  r_hi :: f64
  r_count :: int

definition empty_reduction :: reduction where
  "empty_reduction = \<lparr>r_sum = Fin 0, r_lo = Fin 0, r_hi = Fin 0, r_count = 0\<rparr>"

definition reduce_step :: "reduction \<Rightarrow> f64 \<Rightarrow> reduction" where
  "reduce_step r n =
     \<lparr>r_sum = fadd (r_sum r) n,
      r_lo = (if r_count r = 0 \<or> flt n (r_lo r) then n else r_lo r),
      r_hi = (if r_count r = 0 \<or> flt (r_hi r) n then n else r_hi r),
      r_count = r_count r + 1\<rparr>"

fun reduce_loop :: "(int \<Rightarrow> Value) \<Rightarrow> reduction \<Rightarrow> int list \<Rightarrow> Value + reduction" where
  "reduce_loop evalAt r [] = Inr r"
| "reduce_loop evalAt r (i # is) =
     (let v = evalAt i
      in if IsError v then Inl v
         else case Number v of
                None \<Rightarrow> Inl (ErrorVal ErrValue)
              | Some n \<Rightarrow> reduce_loop evalAt (reduce_step r n) is)"

definition reduceWindow :: "TimeEvalContext \<Rightarrow> (node \<Rightarrow> int \<Rightarrow> Value) \<Rightarrow> node \<Rightarrow> int \<Rightarrow> int \<Rightarrow> string \<Rightarrow> Value" where
  "reduceWindow t evalAt source from to method =
     (let last = int (length (Periods t)) - 1
      in if to < from then NumberVal (Fin 0)
         else case reduce_loop (evalAt source) empty_reduction [max 0 from..min to last] of
                Inl e \<Rightarrow> e
              | Inr r \<Rightarrow>
                  if r_count r = 0 then NumberVal (Fin 0)
                  else if method = ''AVERAGE'' then NumberVal (fdiv (r_sum r) (f64_of_int (r_count r)))
                  else if method = ''MIN'' then NumberVal (r_lo r)
                  else if method = ''MAX'' then NumberVal (r_hi r)
                  else NumberVal (r_sum r))"

definition movingMethods :: "string list" where
  "movingMethods = [''SUM'', ''AVERAGE'', ''MIN'', ''MAX'']"

definition methodArg :: "node list \<Rightarrow> string \<Rightarrow> FormulaError + string" where
  "methodArg args fn = (if length args = 4 then keywordArg (args ! 3) fn movingMethods else Inr ''SUM'')"

definition fnMOVINGSUM :: builtin where
  "fnMOVINGSUM pl ctx args vals =
     (let fn = ''MOVINGSUM''
      in counted fn args 1 4
        (on_time ctx fn (\<lambda>t evalAt.
           on_ok (if 2 \<le> length args then map_sum id (\<lambda>s. wrap64 (Position t + s)) (IntegerLiteral (args ! 1) fn)
                  else Inr 0) (\<lambda>from.
           on_ok (if 3 \<le> length args then map_sum id (\<lambda>e. wrap64 (Position t + e)) (IntegerLiteral (args ! 2) fn)
                  else Inr (int (length (Periods t)) - 1)) (\<lambda>to.
           on_ok (methodArg args fn) (\<lambda>method.
             ret (reduceWindow t evalAt (args ! 0) from to method)))))))"

subsection \<open>Cumulative and difference\<close>

fun cumulate_loop :: "(int \<Rightarrow> Value) \<Rightarrow> (int \<Rightarrow> Value) option \<Rightarrow> f64 \<Rightarrow> int list \<Rightarrow> Value" where
  "cumulate_loop evalAt reset acc [] = NumberVal acc"
| "cumulate_loop evalAt reset acc (i # is) =
     (let r = (case reset of None \<Rightarrow> BoolVal False | Some at_reset \<Rightarrow> at_reset i)
      in if IsError r then r
         else let acc = (if Truth r then Fin 0 else acc); v = evalAt i
              in if IsError v then v
                 else case Number v of
                        None \<Rightarrow> ErrorVal ErrValue
                      | Some n \<Rightarrow> cumulate_loop evalAt reset (fadd acc n) is)"

definition fnCUMULATE :: builtin where
  "fnCUMULATE pl ctx args vals =
     counted ''CUMULATE'' args 1 2
       (on_time ctx ''CUMULATE'' (\<lambda>t evalAt.
          ret (cumulate_loop (evalAt (args ! 0)) (if length args = 2 then Some (evalAt (args ! 1)) else None) (Fin 0)
            [0..min (Position t) (int (length (Periods t)) - 1)])))"

definition fnDECUMULATE :: builtin where
  "fnDECUMULATE pl ctx args vals =
     counted ''DECUMULATE'' args 1 1
       (on_time ctx ''DECUMULATE'' (\<lambda>t evalAt.
          on_value (ret (evalAt (args ! 0) (Position t))) (\<lambda>cur. on_number cur (\<lambda>c.
            if Position t = 0 then ret (NumberVal c)
            else on_value (ret (evalAt (args ! 0) (wrap64 (Position t - 1)))) (\<lambda>prev. on_number prev (\<lambda>p.
              ret (NumberVal (fsub c p))))))))"

subsection \<open>Calendar intervals\<close>

datatype intervalLevel = levelMonth | levelQuarter | levelYear | levelHalfYear

fun granularityFits :: "intervalLevel \<Rightarrow> string \<Rightarrow> bool" where
  "granularityFits levelMonth gran = (gran = ''day'')"
| "granularityFits levelQuarter gran = (gran \<in> {''day'', ''week'', ''month''})"
| "granularityFits levelHalfYear gran = (gran \<in> {''day'', ''week'', ''month'', ''quarter''})"
| "granularityFits levelYear gran = (gran \<in> {''day'', ''week'', ''month'', ''quarter'', ''half_year''})"

definition fiscal_offset :: "int \<Rightarrow> instant \<Rightarrow> int" where
  "fiscal_offset fiscalStart d = go_rem ((month_of d - fiscalStart) + 12) 12"

definition fiscal_year :: "int \<Rightarrow> instant \<Rightarrow> int" where
  "fiscal_year fiscalStart d = (if month_of d < fiscalStart then year_of d - 1 else year_of d)"

definition intervalKey :: "intervalLevel \<Rightarrow> int \<Rightarrow> instant \<Rightarrow> string" where
  "intervalKey level fiscalStart d =
     (let fiscalStart = (if fiscalStart < 1 then 1 else fiscalStart);
          offset = fiscal_offset fiscalStart d; fy = fiscal_year fiscalStart d
      in case level of
           levelMonth \<Rightarrow> zero_padded 4 (year_of d) @ ''-'' @ zero_padded 2 (month_of d)
         | levelQuarter \<Rightarrow> ''FY'' @ zero_padded 4 fy @ ''-Q'' @ show_int (go_quot offset 3 + 1)
         | levelHalfYear \<Rightarrow> ''FY'' @ zero_padded 4 fy @ ''-H'' @ show_int (go_quot offset 6 + 1)
         | levelYear \<Rightarrow> ''FY'' @ zero_padded 4 fy)"

definition crosses_error :: "string \<Rightarrow> TimePeriod \<Rightarrow> FormulaError" where
  "crosses_error fn p =
     time_error ''INVALID_TIME_MEMBER'' (fn @ '': period '' @ PeriodCode p @ '' crosses an interval boundary'')"

definition too_coarse_error :: "string \<Rightarrow> TimeEvalContext \<Rightarrow> FormulaError" where
  "too_coarse_error fn t =
     time_error ''INVALID_TIME_MEMBER''
       (fn @ '': a '' @ Granularity t @ ''-granularity time dimension is too coarse for this function'')"

text \<open>
  The checks the *TODATE and *VALUE families share: the granularity, the current period, and
  that it lies in one interval. The result is the interval's key.
\<close>

definition current_interval :: "TimeEvalContext \<Rightarrow> string \<Rightarrow> intervalLevel \<Rightarrow> FormulaError + string" where
  "current_interval t fn level =
     (if \<not> granularityFits level (Granularity t) then Inl (too_coarse_error fn t)
      else if \<not> InRange t (Position t) then Inl (time_error ''TIME_CONTEXT_REQUIRED'' (fn @ '': no current period''))
      else let cur = Periods t ! nat (Position t);
               key = intervalKey level (FiscalYearStartMonth t) (Start cur)
           in if intervalKey level (FiscalYearStartMonth t) (End cur) \<noteq> key then Inl (crosses_error fn cur)
              else Inr key)"

fun todate_loop :: "(TimePeriod \<Rightarrow> string) \<Rightarrow> (TimePeriod \<Rightarrow> string) \<Rightarrow> string \<Rightarrow> string \<Rightarrow>
    TimePeriod list \<Rightarrow> (int \<Rightarrow> Value) \<Rightarrow> f64 \<Rightarrow> int list \<Rightarrow> Value" where
  "todate_loop ks ke fn key ps evalAt acc [] = NumberVal acc"
| "todate_loop ks ke fn key ps evalAt acc (i # is) =
     (let p = ps ! nat i
      in if ks p \<noteq> key then NumberVal acc
         else if ke p \<noteq> ks p then ErrorVal (crosses_error fn p)
         else let v = evalAt i
              in if IsError v then v
                 else case Number v of
                        None \<Rightarrow> ErrorVal ErrValue
                      | Some n \<Rightarrow> todate_loop ks ke fn key ps evalAt (fadd acc n) is)"

definition periodToDate :: "EvalContext \<Rightarrow> string \<Rightarrow> node list \<Rightarrow> intervalLevel \<Rightarrow> Value go" where
  "periodToDate ctx fn args level =
     counted fn args 1 1
       (on_time ctx fn (\<lambda>t evalAt. on_ok (current_interval t fn level) (\<lambda>key.
          ret (todate_loop (\<lambda>p. intervalKey level (FiscalYearStartMonth t) (Start p))
                 (\<lambda>p. intervalKey level (FiscalYearStartMonth t) (End p)) fn key (Periods t)
                 (evalAt (args ! 0)) (Fin 0) (rev [0..Position t])))))"

definition fnMONTHTODATE :: builtin where
  "fnMONTHTODATE pl ctx args vals = periodToDate ctx ''MONTHTODATE'' args levelMonth"

definition fnQUARTERTODATE :: builtin where
  "fnQUARTERTODATE pl ctx args vals = periodToDate ctx ''QUARTERTODATE'' args levelQuarter"

definition fnHALFYEARTODATE :: builtin where
  "fnHALFYEARTODATE pl ctx args vals = periodToDate ctx ''HALFYEARTODATE'' args levelHalfYear"

definition fnYEARTODATE :: builtin where
  "fnYEARTODATE pl ctx args vals = periodToDate ctx ''YEARTODATE'' args levelYear"

subsection \<open>Value over the containing interval\<close>

text \<open>The two loops that widen the current position to the whole interval.\<close>

fun widen_down :: "(nat \<Rightarrow> bool) \<Rightarrow> nat \<Rightarrow> nat" where
  "widen_down inInterval 0 = 0"
| "widen_down inInterval (Suc lo) = (if inInterval lo then widen_down inInterval lo else Suc lo)"

function widen_up :: "(nat \<Rightarrow> bool) \<Rightarrow> nat \<Rightarrow> nat \<Rightarrow> nat" where
  "widen_up inInterval n hi =
     (if hi + 1 < n \<and> inInterval (hi + 1) then widen_up inInterval n (hi + 1) else hi)"
  by pat_completeness auto
termination
  by (relation "measure (\<lambda>(inInterval, n, hi). n - hi)") auto

declare widen_up.simps [simp del]

definition intervalValue :: "EvalContext \<Rightarrow> string \<Rightarrow> node list \<Rightarrow> intervalLevel \<Rightarrow> Value go" where
  "intervalValue ctx fn args level =
     counted fn args 1 1
       (on_ok (sourceArg (args ! 0) fn) (\<lambda>source. on_time ctx fn (\<lambda>t evalAt.
          case Summarize t of
            None \<Rightarrow> fail (time_error ''TIME_CONTEXT_REQUIRED''
              (fn @ '' needs the metric's time summary, which this evaluation does not provide''))
          | Some summarize \<Rightarrow>
              on_ok (current_interval t fn level) (\<lambda>key.
                let inInterval = (\<lambda>i. intervalKey level (FiscalYearStartMonth t) (Start (Periods t ! i)) = key \<and>
                      intervalKey level (FiscalYearStartMonth t) (End (Periods t ! i)) = key);
                    lo = widen_down inInterval (nat (Position t));
                    hi = widen_up inInterval (length (Periods t)) (nat (Position t))
                in on_ok (summarize source (map int [lo..<Suc hi])) (\<lambda>(v, found).
                  ret (if \<not> found then BlankVal else NumberVal v))))))"

definition fnMONTHVALUE :: builtin where
  "fnMONTHVALUE pl ctx args vals = intervalValue ctx ''MONTHVALUE'' args levelMonth"

definition fnQUARTERVALUE :: builtin where
  "fnQUARTERVALUE pl ctx args vals = intervalValue ctx ''QUARTERVALUE'' args levelQuarter"

definition fnHALFYEARVALUE :: builtin where
  "fnHALFYEARVALUE pl ctx args vals = intervalValue ctx ''HALFYEARVALUE'' args levelHalfYear"

definition fnYEARVALUE :: builtin where
  "fnYEARVALUE pl ctx args vals = intervalValue ctx ''YEARVALUE'' args levelYear"

subsection \<open>TIMESUM\<close>

definition timeSpanArg :: "(string \<Rightarrow> (int \<times> int) option) \<Rightarrow> string \<Rightarrow> Value go \<Rightarrow> (Value + int \<times> int) go" where
  "timeSpanArg spanOf fn x =
     go_bind x (\<lambda>v.
       if IsError v then ret (Inl v)
       else let (code, ok) = memberCode v
            in if \<not> ok then ret (Inl (ErrorVal (MemberNotAvailable (fn @ '': the period is blank''))))
               else case spanOf code of
                      None \<Rightarrow> ret (Inl (ErrorVal (MemberNotAvailable
                        (fn @ '': the time dimension has no period '' @ go_quote code))))
                    | Some fl \<Rightarrow> ret (Inr fl))"

definition fnTIMESUM :: builtin where
  "fnTIMESUM pl ctx args vals =
     (let fn = ''TIMESUM''; n = length args
      in if n \<noteq> 1 \<and> n \<noteq> 3 \<and> n \<noteq> 4
         then fail (errValue (fn @ '': expected 1, 3 or 4 arguments (x [, start, end [, method]]), got '' @
                show_int (int n)))
         else on_time ctx fn (\<lambda>t evalAt.
           let reduce = (\<lambda>from to. on_ok (methodArg args fn) (\<lambda>method.
                 ret (reduceWindow t evalAt (args ! 0) from to method)))
           in if n < 3 then reduce 0 (int (length (Periods t)) - 1)
              else case Span t of
                     None \<Rightarrow> fail (time_error ''TIME_CONTEXT_REQUIRED''
                       (fn @ '' needs the time hierarchy, which this evaluation does not provide''))
                   | Some spanOf \<Rightarrow>
                       go_bind (timeSpanArg spanOf fn (vals ! 1)) (\<lambda>r1.
                         case r1 of Inl e \<Rightarrow> ret e
                         | Inr (first, _) \<Rightarrow>
                             go_bind (timeSpanArg spanOf fn (vals ! 2)) (\<lambda>r2.
                               case r2 of Inl e \<Rightarrow> ret e
                               | Inr (_, lst) \<Rightarrow> reduce first lst))))"

subsection \<open>Period dates\<close>

text \<open>The zero \<open>time.Time\<close>, 1 January of year 1.\<close>

definition zero_time :: instant where
  "zero_time = go_date 1 1 1"

definition periodDate :: "EvalContext \<Rightarrow> string \<Rightarrow> node list \<Rightarrow> bool \<Rightarrow> Value go" where
  "periodDate ctx fn args start =
     counted fn args 0 0
       (on_time ctx fn (\<lambda>t evalAt.
          if \<not> InRange t (Position t)
          then fail (time_error ''TIME_CONTEXT_REQUIRED'' (fn @ '': no current period''))
          else let p = Periods t ! nat (Position t); d = (if start then Start p else End p)
               in if d = zero_time
                  then fail (time_error ''INVALID_TIME_MEMBER'' (fn @ '': period '' @ PeriodCode p @ '' has no dates''))
                  else ret (NumberVal (timeToSerial (go_date (year_of d) (month_of d) (day_of d))))))"

definition fnSTART :: builtin where
  "fnSTART pl ctx args vals = periodDate ctx ''START'' args True"

definition fnEND :: builtin where
  "fnEND pl ctx args vals = periodDate ctx ''END'' args False"

definition time_builtins :: "(string \<times> builtin) list" where
  "time_builtins =
     [(''PREVIOUS'', fnPREVIOUS), (''NEXT'', fnNEXT), (''LAG'', fnLAG), (''LEAD'', fnLEAD),
      (''OFFSET'', fnOFFSET), (''MOVINGSUM'', fnMOVINGSUM), (''CUMULATE'', fnCUMULATE),
      (''DECUMULATE'', fnDECUMULATE), (''MONTHTODATE'', fnMONTHTODATE),
      (''QUARTERTODATE'', fnQUARTERTODATE), (''YEARTODATE'', fnYEARTODATE),
      (''HALFYEARTODATE'', fnHALFYEARTODATE), (''MONTHVALUE'', fnMONTHVALUE),
      (''QUARTERVALUE'', fnQUARTERVALUE), (''HALFYEARVALUE'', fnHALFYEARVALUE),
      (''YEARVALUE'', fnYEARVALUE), (''TIMESUM'', fnTIMESUM), (''START'', fnSTART), (''END'', fnEND)]"

subsection \<open>Windows\<close>

lemma reduce_loop_numbers:
  assumes "\<And>i. i \<in> set is1 \<Longrightarrow> Number (f i) = Some (val i)"
  shows "reduce_loop f r is1 = Inr (foldl reduce_step r (map val is1))"
  using assms
proof (induction is1 arbitrary: r)
  case (Cons i is1)
  have n: "Number (f i) = Some (val i)" using Cons.prems by simp
  then have "\<not> IsError (f i)" by (cases "f i") auto
  with n Cons show ?case by (simp add: Let_def)
qed simp

lemma foldl_reduce_step:
  "r_count r \<noteq> 0 \<Longrightarrow> 0 \<le> r_count r \<Longrightarrow> foldl reduce_step r ns =
     \<lparr>r_sum = foldl fadd (r_sum r) ns,
      r_lo = foldl (\<lambda>m n. if flt n m then n else m) (r_lo r) ns,
      r_hi = foldl (\<lambda>m n. if flt m n then n else m) (r_hi r) ns,
      r_count = r_count r + int (length ns)\<rparr>"
  by (induction ns arbitrary: r) (simp_all add: reduce_step_def)

lemma reduce_numbers:
  "ns \<noteq> [] \<Longrightarrow> foldl reduce_step empty_reduction ns =
     \<lparr>r_sum = fsum ns, r_lo = fmin_list ns, r_hi = fmax_list ns, r_count = int (length ns)\<rparr>"
  by (cases ns)
    (simp_all add: reduce_step_def empty_reduction_def foldl_reduce_step fsum_def fmin_list_def fmax_list_def)

text \<open>
  MOVINGSUM and TIMESUM reduce exactly the configured periods of the window: with a number
  \<open>val i\<close> at each of them the result is the sum, the average, the least or the greatest of those
  numbers (the same reductions SUM, AVERAGE, MIN and MAX make of their arguments), and 0 for
  every method when the window has no configured period.
\<close>

theorem reduceWindow_spec:
  assumes "\<And>i. from \<le> i \<Longrightarrow> i \<le> to \<Longrightarrow> 0 \<le> i \<Longrightarrow> i < int (length (Periods t)) \<Longrightarrow>
      Number (evalAt source i) = Some (val i)"
  shows "reduceWindow t evalAt source from to method =
    (let ns = map val [max 0 from..min to (int (length (Periods t)) - 1)]
     in NumberVal (if ns = [] then Fin 0
          else if method = ''AVERAGE'' then fdiv (fsum ns) (f64_of_int (int (length ns)))
          else if method = ''MIN'' then fmin_list ns
          else if method = ''MAX'' then fmax_list ns
          else fsum ns))"
proof -
  let ?is = "[max 0 from..min to (int (length (Periods t)) - 1)]"
  have "reduce_loop (evalAt source) empty_reduction ?is = Inr (foldl reduce_step empty_reduction (map val ?is))"
    by (rule reduce_loop_numbers) (use assms in auto)
  then have loop: "reduce_loop (evalAt source) empty_reduction ?is =
      Inr (if ?is = [] then empty_reduction
        else \<lparr>r_sum = fsum (map val ?is), r_lo = fmin_list (map val ?is), r_hi = fmax_list (map val ?is),
              r_count = int (length (map val ?is))\<rparr>)"
    using reduce_numbers [of "map val ?is"] by (simp only: map_is_Nil_conv split: if_split) simp
  have empty: "?is = []" if "to < from" using that by simp
  define xs where "xs = ?is"
  show ?thesis
    using loop empty unfolding reduceWindow_def Let_def xs_def [symmetric]
    by (cases "to < from"; cases "xs = []") (auto simp: empty_reduction_def)
qed

text \<open>Three monthly periods with the values 1, 2 and 3.\<close>

definition demo_time :: TimeEvalContext where
  "demo_time = \<lparr>DimensionID = ''time'', Granularity = ''month'', FiscalYearStartMonth = 4, Position = 2,
     Periods = map (\<lambda>m. \<lparr>PeriodCode = ''M'' @ show_int m, Index = m, Start = go_date 2024 m 1,
       End = go_date 2024 (m + 1) 0\<rparr>) [1, 2, 3],
     EvalAt = Some (\<lambda>n i. NumberVal (Fin (of_int (i + 1)))), Summarize = None, Span = None, depth = 0\<rparr>"

theorem reduceWindow_spec_witness:
  "reduceWindow demo_time (\<lambda>n i. NumberVal (Fin (of_int (i + 1)))) (Ident ''sales'') (- 1) 1 ''MAX'' =
   NumberVal (fmax_list (map (\<lambda>i. Fin (of_int (i + 1))) [0..1]))"
  using reduceWindow_spec [of "- 1" 1 demo_time "\<lambda>n i. NumberVal (Fin (of_int (i + 1)))" "Ident ''sales''"
      "\<lambda>i. Fin (of_int (i + 1))" "''MAX''"]
  by (simp add: demo_time_def Let_def)

subsection \<open>Running totals\<close>

lemma upto_snoc: "i \<le> (j :: int) \<Longrightarrow> [i..j] = [i..j - 1] @ [j]"
  by (rule upto_rec2)

lemma cumulate_exact:
  assumes "\<And>i. 0 \<le> i \<Longrightarrow> i \<le> p \<Longrightarrow> f i = NumberVal (Fin (of_int (z i)))"
    and "\<And>i. 0 \<le> i \<Longrightarrow> i \<le> p \<Longrightarrow> \<bar>\<Sum>j \<in> {0..i}. z j\<bar> \<le> 9007199254740992"
    and "- 1 \<le> q" and "q \<le> p"
  shows "cumulate_loop f None (Fin 0) [0..q] = NumberVal (Fin (of_int (\<Sum>j \<in> {0..q}. z j)))"
proof -
  have step: "cumulate_loop f None (Fin (of_int (\<Sum>j \<in> {0..<i}. z j))) [i..q] =
      NumberVal (Fin (of_int (\<Sum>j \<in> {0..q}. z j)))" if "0 \<le> i" "i \<le> q + 1" for i
    using that
  proof (induction "nat (q + 1 - i)" arbitrary: i)
    case 0
    then have "i = q + 1" by simp
    moreover have "{0..<q + 1} = {0..q}" by auto
    ultimately show ?case by simp
  next
    case (Suc n)
    then have i: "i \<le> q" by linarith
    have sum: "(\<Sum>j \<in> {0..i}. z j) = (\<Sum>j \<in> {0..<i}. z j) + z i"
    proof -
      have "{0..i} = insert i {0..<i}" using Suc.prems(1) by auto
      then show ?thesis by simp
    qed
    have "fadd (Fin (of_int (\<Sum>j \<in> {0..<i}. z j))) (Fin (of_int (z i))) = Fin (of_int (\<Sum>j \<in> {0..i}. z j))"
      unfolding sum using assms(2) [of i] i assms(4) Suc.prems(1) by (intro fadd_int) (simp add: sum)
    moreover have "{0..<i + 1} = {0..i}" by auto
    moreover have "cumulate_loop f None (Fin (of_int (\<Sum>j \<in> {0..<i + 1}. z j))) [i + 1..q] =
        NumberVal (Fin (of_int (\<Sum>j \<in> {0..q}. z j)))"
      using Suc.hyps(2) Suc.prems i by (intro Suc.hyps(1)) linarith+
    ultimately show ?case
      using i assms(1) [of i] assms(4) Suc.prems(1) by (simp add: upto_rec1 Let_def)
  qed
  from step [of 0] assms(3) show ?thesis by simp
qed

text \<open>
  DECUMULATE undoes CUMULATE: at every period, the difference of the running totals is the
  period's own value, for whole numbers whose running totals a float64 holds exactly.
\<close>

theorem decumulate_cumulate:
  assumes t: "timeCtx ctx ''DECUMULATE'' = Inr (t, evalAt)" and p: "0 \<le> Position t" "Position t < 2 ^ 62"
    and src: "\<And>i. 0 \<le> i \<Longrightarrow> i \<le> Position t \<Longrightarrow> evalAt x i = NumberVal (Fin (of_int (z i)))"
    and tot: "\<And>i. 0 \<le> i \<Longrightarrow> i \<le> Position t \<Longrightarrow> evalAt y i = cumulate_loop (evalAt x) None (Fin 0) [0..i]"
    and bnd: "\<And>i. 0 \<le> i \<Longrightarrow> i \<le> Position t \<Longrightarrow> \<bar>\<Sum>j \<in> {0..i}. z j\<bar> \<le> 9007199254740992"
    and bnd': "\<bar>z (Position t)\<bar> \<le> 9007199254740992"
  shows "fnDECUMULATE pl ctx [y] vals = ret (NumberVal (Fin (of_int (z (Position t)))))"
proof -
  let ?p = "Position t" and ?S = "\<lambda>i. \<Sum>j \<in> {0..i}. z j"
  have cum: "evalAt y i = NumberVal (Fin (of_int (?S i)))" if "0 \<le> i" "i \<le> ?p" for i
    using that cumulate_exact [of ?p "evalAt x" z i] src bnd by (simp add: tot)
  show ?thesis
  proof (cases "?p = 0")
    case True
    then show ?thesis
      using t cum [of 0] by (simp add: fnDECUMULATE_def requireArgCount_None on_time_def on_number_def)
  next
    case False
    have "{0..?p} = insert ?p {0..?p - 1}" using p by auto
    then have S: "?S ?p - ?S (?p - 1) = z ?p" by simp
    have "fsub (Fin (of_int (?S ?p))) (Fin (of_int (?S (?p - 1)))) = Fin (of_int (z ?p))"
      using fsub_int [of "?S ?p" "?S (?p - 1)"] bnd' bnd [of ?p] p by (simp add: S)
    moreover have "wrap64 (?p - 1) = ?p - 1" using p by (intro wrap64_id) simp_all
    ultimately show ?thesis
      using False p t cum [of ?p] cum [of "?p - 1"]
      by (simp add: fnDECUMULATE_def requireArgCount_None on_time_def on_number_def)
  qed
qed

theorem decumulate_cumulate_witness:
  "fnDECUMULATE demo_platform (empty_context\<lparr>Time := Some (demo_time\<lparr>EvalAt := Some (\<lambda>n i.
       if n = Ident ''x'' then NumberVal (Fin (of_int 5))
       else cumulate_loop (\<lambda>i. NumberVal (Fin (of_int 5))) None (Fin 0) [0..i])\<rparr>)\<rparr>)
     [CallExpr ''CUMULATE'' [Ident ''x'']] [] = ret (NumberVal (Fin (of_int 5)))"
proof -
  let ?at = "\<lambda>n i. if n = Ident ''x'' then NumberVal (Fin (of_int 5))
       else cumulate_loop (\<lambda>i. NumberVal (Fin (of_int 5))) None (Fin 0) [0..i]"
  let ?t = "demo_time\<lparr>EvalAt := Some ?at\<rparr>"
  have p: "Position ?t = 2" by (simp add: demo_time_def)
  have t: "timeCtx (empty_context\<lparr>Time := Some ?t\<rparr>) ''DECUMULATE'' = Inr (?t, ?at)"
    by (simp add: timeCtx_def demo_time_def maxTimeDepth_def Let_def)
  show ?thesis
    by (rule decumulate_cumulate [OF t, where x = "Ident ''x''" and z = "\<lambda>i. 5"]) (simp_all add: p)
qed

subsection \<open>Interval keys name intervals\<close>

lemma zero_padded_digits:
  assumes "0 \<le> a" and "a < 10 ^ k" and "0 < k"
  shows "length (zero_padded k a) = k" and "digits_value (zero_padded k a) = a"
  using pad_left_digits(1,2) [OF assms] assms(1) by (simp_all add: zero_padded_def)

lemma zero_padded_eq:
  assumes "0 \<le> a" and "a < 10 ^ k" and "0 \<le> b" and "b < 10 ^ k" and "0 < k"
  shows "zero_padded k a = zero_padded k b \<longleftrightarrow> a = b"
  using zero_padded_digits(2) [OF assms(1,2,5)] zero_padded_digits(2) [OF assms(3,4,5)] by metis

lemma zero_padded_inject:
  assumes "0 \<le> a" and "a < 10 ^ k" and "0 \<le> b" and "b < 10 ^ k" and "0 < k"
  shows "zero_padded k a @ s = zero_padded k b @ t \<longleftrightarrow> a = b \<and> s = t"
  using zero_padded_eq [OF assms] zero_padded_digits(1) [OF assms(1,2,5)] zero_padded_digits(1) [OF assms(3,4,5)]
  by (simp add: append_eq_append_conv)

lemma show_int_inject: "0 \<le> a \<Longrightarrow> 0 \<le> b \<Longrightarrow> show_int a = show_int b \<longleftrightarrow> a = b"
  by (simp add: show_int_def digits10_inject)

lemma month_bounds: "1 \<le> month_of d" "month_of d \<le> 12"
  using civil_of_day_valid [of "d div ns_per_day + epoch_day"] by (simp_all add: civil_of_def valid_civil_def)

lemma fiscal_offset_mod:
  assumes "1 \<le> fs" and "fs \<le> 12"
  shows "fiscal_offset fs d = (month_of d - fs) mod 12"
proof -
  have "0 \<le> month_of d - fs + 12" using month_bounds [of d] assms by simp
  then have "fiscal_offset fs d = (month_of d - fs + 12) mod 12"
    by (simp add: fiscal_offset_def go_rem_def go_quot_def minus_mult_div_eq_mod)
  then show ?thesis by simp
qed

text \<open>
  The interval a date lies in: its month, or its fiscal year with the quarter or half of it,
  counted from the fiscal year's first month.
\<close>

fun interval_of :: "intervalLevel \<Rightarrow> int \<Rightarrow> instant \<Rightarrow> int \<times> int" where
  "interval_of levelMonth fs d = (year_of d, month_of d)"
| "interval_of levelQuarter fs d = (fiscal_year fs d, ((month_of d - fs) mod 12) div 3)"
| "interval_of levelHalfYear fs d = (fiscal_year fs d, ((month_of d - fs) mod 12) div 6)"
| "interval_of levelYear fs d = (fiscal_year fs d, 0)"

text \<open>
  Two dates have the same interval key exactly when they lie in the same month, fiscal
  quarter, fiscal half-year or fiscal year: the text keys the *TODATE and *VALUE functions
  compare never confuse two intervals. (Years 1 to 9999, a fiscal year that starts in a month
  from 1 to 12.)
\<close>

theorem intervalKey_iff:
  assumes "1 \<le> fs" and "fs \<le> 12" and "1 \<le> year_of d" "year_of d \<le> 9999"
    and "1 \<le> year_of e" "year_of e \<le> 9999"
  shows "intervalKey level fs d = intervalKey level fs e \<longleftrightarrow> interval_of level fs d = interval_of level fs e"
proof -
  have fy: "0 \<le> fiscal_year fs d" "fiscal_year fs d < 10 ^ 4" "0 \<le> fiscal_year fs e" "fiscal_year fs e < 10 ^ 4"
    using assms(3-) by (auto simp: fiscal_year_def)
  have y: "0 \<le> year_of d" "year_of d < 10 ^ 4" "0 \<le> year_of e" "year_of e < 10 ^ 4" using assms(3-) by simp_all
  have m: "0 \<le> month_of d" "month_of d < 10 ^ 2" "0 \<le> month_of e" "month_of e < 10 ^ 2"
    using month_bounds [of d] month_bounds [of e] by simp_all
  have q: "go_quot (x mod 12) k = (x mod 12) div k" "0 \<le> (x mod 12) div k" if "0 < k" for x k :: int
    using that by (simp_all add: go_quot_def pos_imp_zdiv_nonneg_iff)
  have fs: "\<not> fs < 1" using assms(1) by simp
  note key = intervalKey_def Let_def fiscal_offset_mod [OF assms(1,2)] if_not_P [OF fs]
  have suffix: "zero_padded 4 a @ u @ show_int (x mod 12 div k + 1) = zero_padded 4 b @ u @ show_int (x' mod 12 div k + 1)
      \<longleftrightarrow> a = b \<and> x mod 12 div k = x' mod 12 div k"
    if "0 \<le> a" "a < 10 ^ 4" "0 \<le> b" "b < 10 ^ 4" "0 < k" for a b x x' k :: int and u
    using q(2) [OF that(5), of x] q(2) [OF that(5), of x']
    by (simp add: zero_padded_inject [OF that(1-4)] show_int_inject)
  show ?thesis
  proof (cases level)
    case levelMonth
    then show ?thesis
      using zero_padded_inject [OF y] zero_padded_eq [OF m] by (simp add: key)
  next
    case levelQuarter
    then show ?thesis using suffix [OF fy, of 3 "''-Q''"] by (simp add: key q)
  next
    case levelYear
    then show ?thesis using zero_padded_eq [OF fy] by (simp add: key)
  next
    case levelHalfYear
    then show ?thesis using suffix [OF fy, of 6 "''-H''"] by (simp add: key q)
  qed
qed

theorem intervalKey_iff_witness:
  "intervalKey levelQuarter 4 (go_date 2024 2 10) = intervalKey levelQuarter 4 (go_date 2024 3 31) \<longleftrightarrow>
   interval_of levelQuarter 4 (go_date 2024 2 10) = interval_of levelQuarter 4 (go_date 2024 3 31)"
proof -
  have "year_of (go_date 2024 2 10) = 2024" "year_of (go_date 2024 3 31) = 2024" by code_simp+
  then show ?thesis by (intro intervalKey_iff) simp_all
qed

subsection \<open>The *VALUE window is the whole interval around the period\<close>

lemma widen_down_le: "widen_down P n \<le> n"
  by (induction n) auto

lemma widen_down_in: "widen_down P n \<le> i \<Longrightarrow> i < n \<Longrightarrow> P i"
  by (induction n) (auto simp: less_Suc_eq split: if_splits)

lemma widen_down_max: "0 < widen_down P n \<Longrightarrow> \<not> P (widen_down P n - 1)"
  by (induction n) auto

lemma widen_up_spec:
  "hi < n \<Longrightarrow> hi \<le> widen_up P n hi \<and> widen_up P n hi < n \<and>
     (\<forall>i. hi < i \<longrightarrow> i \<le> widen_up P n hi \<longrightarrow> P i) \<and>
     (widen_up P n hi + 1 < n \<longrightarrow> \<not> P (widen_up P n hi + 1))"
proof (induction P n hi rule: widen_up.induct)
  case (1 P n hi)
  show ?case
  proof (cases "hi + 1 < n \<and> P (hi + 1)")
    case True
    with 1 have IH: "hi + 1 \<le> widen_up P n (hi + 1) \<and> widen_up P n (hi + 1) < n \<and>
        (\<forall>i. hi + 1 < i \<longrightarrow> i \<le> widen_up P n (hi + 1) \<longrightarrow> P i) \<and>
        (widen_up P n (hi + 1) + 1 < n \<longrightarrow> \<not> P (widen_up P n (hi + 1) + 1))" by simp
    have "widen_up P n hi = widen_up P n (hi + 1)" using True by (simp add: widen_up.simps [of P n hi])
    moreover have "P i" if "hi < i" "i \<le> widen_up P n (hi + 1)" for i
      using that IH True by (cases "i = hi + 1") auto
    ultimately show ?thesis using IH by auto
  next
    case False
    then show ?thesis using "1.prems" by (auto simp: widen_up.simps [of P n hi])
  qed
qed

text \<open>
  The positions YEARVALUE and its siblings summarise are the longest run of periods around
  the current one that lie wholly in its interval: every position of the run does, the current
  one is in it, and the neighbours just outside do not (or there are none).
\<close>

theorem value_window_maximal:
  assumes "pos < n" and "P pos"
  shows "widen_down P pos \<le> pos \<and> pos \<le> widen_up P n pos \<and> widen_up P n pos < n \<and>
    (\<forall>i \<in> {widen_down P pos..widen_up P n pos}. P i) \<and>
    (0 < widen_down P pos \<longrightarrow> \<not> P (widen_down P pos - 1)) \<and>
    (widen_up P n pos + 1 < n \<longrightarrow> \<not> P (widen_up P n pos + 1))"
proof -
  have "P i" if "widen_down P pos \<le> i" "i \<le> widen_up P n pos" for i
    using that widen_down_in [of P pos i] widen_up_spec [OF assms(1), of P] assms(2)
    by (cases i pos rule: linorder_cases) auto
  then show ?thesis
    using widen_down_le [of P pos] widen_down_max [of P pos] widen_up_spec [OF assms(1), of P] by simp
qed

theorem value_window_maximal_witness:
  "widen_down (\<lambda>i. i \<in> {2, 3, 4}) 3 \<le> 3 \<and> 3 \<le> widen_up (\<lambda>i. i \<in> {2, 3, 4}) 9 3 \<and>
   widen_up (\<lambda>i. i \<in> {2, 3, 4}) 9 3 < 9"
proof -
  have "(3 :: nat) < 9" "(\<lambda>i. i \<in> {2, 3, 4}) (3 :: nat)" by simp_all
  from value_window_maximal [where P = "\<lambda>i. i \<in> {2, 3, 4}", OF this] show ?thesis by blast
qed

end
