(* ===== verification/DimFns.thy ===== *)
theory DimFns
  imports Scalar "HOL-Library.AList" "HOL-Library.Word"
begin

text \<open>
  Dimensional references (\<open>internal/formula/dimension.go\<close>) and pick-lists
  (\<open>picklist.go\<close>): member properties, PARENT, LOOKUP and the conditional aggregations. The
  callbacks of \<open>DimEvalContext\<close>, which the calculation package supplies, are parameters.
\<close>

subsection \<open>Pick-lists\<close>

text \<open>64-bit FNV-1a, and the key a pick-list cell stores.\<close>

definition fnv1a :: "string \<Rightarrow> 64 word" where
  "fnv1a s = foldl (\<lambda>h c. xor h (of_nat (code_of c)) * 1099511628211) 14695981039346656037 s"

definition picklistKeyBase :: int where
  "picklistKeyBase = 1125899906842624"

definition PicklistKey :: "string \<Rightarrow> f64" where
  "PicklistKey code = f64_of_int (picklistKeyBase + uint (fnv1a code) mod picklistKeyBase)"

definition picklist :: "DimEvalContext option \<Rightarrow> string \<Rightarrow> PicklistCodec option" where
  "picklist d metric =
     (case d of None \<Rightarrow> None | Some d \<Rightarrow> (case Picklist d of None \<Rightarrow> None | Some f \<Rightarrow> f metric))"

definition no_members_error :: "string \<Rightarrow> PicklistCodec \<Rightarrow> FormulaError" where
  "no_members_error metric codec =
     errValue (metric @ '' is a pick-list of '' @ PickDim codec @ '', whose members this evaluation does not have'')"

definition decodeKey :: "PicklistCodec \<Rightarrow> string \<Rightarrow> f64 \<Rightarrow> Value" where
  "decodeKey codec metric key =
     (if is_zero key then BlankVal
      else case CodeOf codec of
             None \<Rightarrow> ErrorVal (no_members_error metric codec)
           | Some f \<Rightarrow>
               (case f key of
                  None \<Rightarrow> ErrorVal (MemberNotAvailable
                    (metric @ '' holds a member '' @ PickDim codec @ '' no longer has''))
                | Some code \<Rightarrow> StringVal code))"

definition decodePicklist :: "EvalContext \<Rightarrow> string \<Rightarrow> Value \<Rightarrow> Value" where
  "decodePicklist ctx metric v =
     (case v of
        NumberVal n \<Rightarrow>
          (case picklist (Dim ctx) metric of None \<Rightarrow> v | Some codec \<Rightarrow> decodeKey codec metric n)
      | _ \<Rightarrow> v)"

definition PicklistResult :: "PicklistCodec \<Rightarrow> string \<Rightarrow> Value \<Rightarrow> Value" where
  "PicklistResult codec metric v =
     (if IsError v \<or> IsBlank v then v
      else let (code, ok) = memberCode v
           in if \<not> ok then BlankVal
              else case KeyOf codec of
                     None \<Rightarrow> ErrorVal (no_members_error metric codec)
                   | Some f \<Rightarrow>
                       (case f (TrimSpace code) of
                          None \<Rightarrow> ErrorVal (MemberNotAvailable
                            (metric @ '' is a pick-list of '' @ PickDim codec @ '', which has no member '' @ go_quote code))
                        | Some key \<Rightarrow> NumberVal key))"

subsection \<open>Member properties\<close>

definition TypedPropertyValue :: "string \<Rightarrow> string \<Rightarrow> Value" where
  "TypedPropertyValue raw dataType =
     (let trimmed = TrimSpace raw; ty = ToLower (TrimSpace dataType)
      in if trimmed = [] then BlankVal
         else if ty = ''number'' then
           (case parseCriteriaNumber trimmed of
              None \<Rightarrow> ErrorVal (errValue (go_quote raw @ '' is not a number''))
            | Some n \<Rightarrow> NumberVal n)
         else if ty = ''date'' then
           (case parse_iso trimmed of
              None \<Rightarrow> ErrorVal (errValue (go_quote raw @ '' is not a yyyy-mm-dd date''))
            | Some d \<Rightarrow> NumberVal (timeToSerial d))
         else StringVal raw)"

definition dimCtx :: "EvalContext \<Rightarrow> string \<Rightarrow> FormulaError + DimEvalContext" where
  "dimCtx ctx fn =
     (case Dim ctx of
        None \<Rightarrow> Inl (mk_error ''DIM_CONTEXT_REQUIRED''
          (fn @ '' needs dimension member data, which this evaluation does not have''))
      | Some d \<Rightarrow> Inr d)"

definition dimCallbackMissing :: "string \<Rightarrow> string \<Rightarrow> FormulaError" where
  "dimCallbackMissing fn what =
     mk_error ''DIM_CONTEXT_REQUIRED'' (fn @ '' needs '' @ what @ '', which this evaluation does not provide'')"

definition evalDimProperty :: "EvalContext \<Rightarrow> string \<Rightarrow> string \<Rightarrow> Value" where
  "evalDimProperty ctx dm prop =
     (let name = dm @ ''.'' @ prop
      in case dimCtx ctx name of
           Inl e \<Rightarrow> ErrorVal e
         | Inr d \<Rightarrow>
             (case Property d of
                None \<Rightarrow> ErrorVal (dimCallbackMissing name ''member properties'')
              | Some f \<Rightarrow> f dm prop))"

definition fnPARENT :: builtin where
  "fnPARENT pl ctx args vals =
     (let fn = ''PARENT''
      in counted fn args 1 1
        (on_ok (dimensionArg (args ! 0) fn) (\<lambda>dm. on_ok (dimCtx ctx fn) (\<lambda>d.
           case Parent d of
             None \<Rightarrow> fail (dimCallbackMissing fn ''the member hierarchy'')
           | Some f \<Rightarrow> on_ok (f dm) (\<lambda>code. ret (if code = [] then BlankVal else StringVal code))))))"

subsection \<open>LOOKUP\<close>

definition errNotAvailable :: "string \<Rightarrow> string \<Rightarrow> string \<Rightarrow> FormulaError" where
  "errNotAvailable fn dm code =
     (if code = [] then MemberNotAvailable (fn @ '': the '' @ dm @ '' member is blank'')
      else MemberNotAvailable (fn @ '': '' @ dm @ '' has no member '' @ go_quote code))"

definition containsFold :: "string list \<Rightarrow> string \<Rightarrow> bool" where
  "containsFold list s = list_ex (\<lambda>x. EqualFold x s) list"

text \<open>The arguments after the source come as pairs: a dimension, and the value of its member.\<close>

fun pairs_of :: "'a list \<Rightarrow> ('a \<times> 'a) list" where
  "pairs_of (a # b # rest) = (a, b) # pairs_of rest"
| "pairs_of _ = []"

fun lookup_dims :: "string \<Rightarrow> string list \<Rightarrow> node list \<Rightarrow> FormulaError + string list" where
  "lookup_dims fn dims [] = Inr dims"
| "lookup_dims fn dims (n # ns) =
     (case dimensionArg n fn of
        Inl e \<Rightarrow> Inl e
      | Inr dm \<Rightarrow>
          if containsFold dims dm
          then Inl (errValue (fn @ '': dimension '' @ dm @ '' appears more than once''))
          else lookup_dims fn (dims @ [dm]) ns)"

fun lookup_members :: "string \<Rightarrow> (string \<Rightarrow> string \<Rightarrow> FormulaError + string \<times> bool) \<Rightarrow>
    (string \<times> string) list \<Rightarrow> (string \<times> Value go) list \<Rightarrow> (Value + (string \<times> string) list) go" where
  "lookup_members fn member overrides [] = ret (Inr overrides)"
| "lookup_members fn member overrides ((dm, x) # rest) =
     go_bind x (\<lambda>v.
       if IsError v then ret (Inl v)
       else let (code, ok) = memberCode v
            in if \<not> ok then ret (Inl (ErrorVal (errNotAvailable fn dm [])))
               else case member dm code of
                      Inl e \<Rightarrow> ret (Inl (ErrorVal e))
                    | Inr (canonical, exists) \<Rightarrow>
                        if \<not> exists then ret (Inl (ErrorVal (errNotAvailable fn dm code)))
                        else lookup_members fn member (AList.update dm canonical overrides) rest)"

definition fnLOOKUP :: builtin where
  "fnLOOKUP pl ctx args vals =
     (let fn = ''LOOKUP''
      in if length args < 3 \<or> length args mod 2 = 0
         then fail (errValue (fn @ '': expected a source followed by dimension, member pairs ('' @
                show_int (int (length args)) @ '' arguments)''))
         else on_ok (sourceArg (args ! 0) fn) (\<lambda>source.
           on_ok (lookup_dims fn [] (map fst (pairs_of (tl args)))) (\<lambda>dims.
           on_ok (dimCtx ctx fn) (\<lambda>d.
             case (Member d, Resolve d) of
               (Some member, Some resolve) \<Rightarrow>
                 go_bind (lookup_members fn member [] (zip dims (map snd (pairs_of (tl vals))))) (\<lambda>r.
                   case r of
                     Inl e \<Rightarrow> ret e
                   | Inr overrides \<Rightarrow>
                       on_ok (resolve source overrides) (\<lambda>(val, found).
                         case picklist (Some d) source of
                           Some codec \<Rightarrow> ret (if \<not> found then BlankVal else decodeKey codec source val)
                         | None \<Rightarrow> ret (NumberVal val)))
             | _ \<Rightarrow> fail (dimCallbackMissing fn ''dimensional reads'')))))"

subsection \<open>Conditional aggregation: arguments\<close>

definition DimensionalFunctionNames :: "string list" where
  "DimensionalFunctionNames =
     [''LOOKUP'', ''SUMIFS'', ''AVERAGEIFS'', ''MINIFS'', ''MAXIFS'', ''COUNTIFS'',
      ''SUMIF'', ''AVERAGEIF'', ''COUNTIF'']"

definition IsDimensionalFunction :: "string \<Rightarrow> bool" where
  "IsDimensionalFunction name \<longleftrightarrow> ToUpper name \<in> set DimensionalFunctionNames"

record criteriaRange =
  rdim :: string
  rprop :: string

definition rangeArg :: "node \<Rightarrow> string \<Rightarrow> FormulaError + criteriaRange" where
  "rangeArg n fn =
     (case n of
        Ident name \<Rightarrow> Inr \<lparr>rdim = name, rprop = []\<rparr>
      | DimProperty dm prop \<Rightarrow> Inr \<lparr>rdim = dm, rprop = prop\<rparr>
      | _ \<Rightarrow> Inl (mk_error ''DIMENSION_ARGUMENT_REQUIRED''
          (fn @ '': a criteria range must be a dimension, dimension.property or a metric, got '' @ describeNode n)))"

text \<open>
  \<open>conditionalShape\<close>: the source, if the function has one, and the (range, criterion) pairs.
  It only counts and splits, so it is stated for lists of anything.
\<close>

definition conditionalShape :: "string \<Rightarrow> 'a list \<Rightarrow> FormulaError + 'a option \<times> ('a \<times> 'a) list" where
  "conditionalShape fn args =
     (let n = length args;
          wrong = (\<lambda>what. Inl (errValue (fn @ '': expected '' @ what @ '', got '' @ show_int (int n) @ '' arguments'')))
      in if fn = ''COUNTIF'' then
           (if n \<noteq> 2 then wrong ''(range, criterion)'' else Inr (None, pairs_of args))
         else if fn = ''SUMIF'' \<or> fn = ''AVERAGEIF'' then
           (if n \<noteq> 3 then wrong ''(range, criterion, source)'' else Inr (Some (args ! 2), pairs_of (take 2 args)))
         else if fn = ''COUNTIFS'' then
           (if n < 2 \<or> n mod 2 \<noteq> 0 then wrong ''range, criterion pairs'' else Inr (None, pairs_of args))
         else
           (if n < 3 \<or> n mod 2 = 0 then wrong ''a source followed by range, criterion pairs''
            else Inr (Some (args ! 0), pairs_of (tl args))))"

record evaluatedCriterion =
  rng :: criteriaRange
  crit :: criterion
  raw :: Value
  metricDims :: "string list option"

definition isDimension :: "DimEvalContext \<Rightarrow> string \<Rightarrow> bool" where
  "isDimension d name =
     (case Current d of
        Some f \<Rightarrow> (case f name of Inl _ \<Rightarrow> False | Inr _ \<Rightarrow> True)
      | None \<Rightarrow>
          (case Leaves d of
             Some f \<Rightarrow> (case f name of Inl _ \<Rightarrow> False | Inr _ \<Rightarrow> True)
           | None \<Rightarrow> True))"

definition metricRange :: "DimEvalContext \<Rightarrow> criteriaRange \<Rightarrow> string list option option" where
  "metricRange d r =
     (case MetricDims d of
        None \<Rightarrow> None
      | Some f \<Rightarrow> (if rprop r \<noteq> [] \<or> isDimension d (rdim r) then None else f (rdim r)))"

definition add_dim :: "string list \<Rightarrow> string \<Rightarrow> string list" where
  "add_dim dimOrder dm = (if containsFold dimOrder dm then dimOrder else dimOrder @ [dm])"

fun eval_ranges :: "string \<Rightarrow> node list \<Rightarrow> FormulaError + criteriaRange list" where
  "eval_ranges fn [] = Inr []"
| "eval_ranges fn (n # ns) =
     (case rangeArg n fn of
        Inl e \<Rightarrow> Inl e
      | Inr r \<Rightarrow> (case eval_ranges fn ns of Inl e \<Rightarrow> Inl e | Inr rs \<Rightarrow> Inr (r # rs)))"

fun eval_criteria :: "DimEvalContext \<Rightarrow> evaluatedCriterion list \<Rightarrow> string list \<Rightarrow>
    (criteriaRange \<times> Value go) list \<Rightarrow> (Value + evaluatedCriterion list \<times> string list) go" where
  "eval_criteria d crits dimOrder [] = ret (Inr (crits, dimOrder))"
| "eval_criteria d crits dimOrder ((r, x) # rest) =
     go_bind x (\<lambda>v.
       if IsError v then ret (Inl v)
       else let c = \<lparr>rng = r, crit = parseCriterion v, raw = v, metricDims = None\<rparr>
            in case metricRange d r of
                 Some dims \<Rightarrow>
                   eval_criteria d (crits @ [c\<lparr>metricDims := dims\<rparr>])
                     (foldl add_dim dimOrder (case dims of None \<Rightarrow> [] | Some ds \<Rightarrow> ds)) rest
               | None \<Rightarrow> eval_criteria d (crits @ [c]) (add_dim dimOrder (rdim r)) rest)"

subsection \<open>Conditional aggregation: the computation\<close>

definition maxConditionalTuples :: nat where
  "maxConditionalTuples = 1000000"

definition is_metric_crit :: "evaluatedCriterion \<Rightarrow> bool" where
  "is_metric_crit c \<longleftrightarrow> metricDims c \<noteq> None"

definition memberProperty :: "DimMember \<Rightarrow> string \<Rightarrow> Value" where
  "memberProperty m prop =
     (case map_of (Properties m) (ToUpper prop) of
        Some v \<Rightarrow> v
      | None \<Rightarrow>
          (case find (\<lambda>(k, _). EqualFold k prop) (Properties m) of Some (_, v) \<Rightarrow> v | None \<Rightarrow> BlankVal))"

definition candidate_of :: "evaluatedCriterion \<Rightarrow> DimMember \<Rightarrow> Value" where
  "candidate_of c m =
     (if rprop (rng c) \<noteq> [] then memberProperty m (rprop (rng c)) else StringVal (MemberCode m))"

definition keeps_member :: "evaluatedCriterion list \<Rightarrow> string \<Rightarrow> DimMember \<Rightarrow> bool" where
  "keeps_member crits dm m =
     list_all (\<lambda>c. is_metric_crit c \<or> \<not> EqualFold (rdim (rng c)) dm \<or> matches (crit c) (candidate_of c m)) crits"

definition surviving :: "evaluatedCriterion list \<Rightarrow> string \<Rightarrow> DimMember list \<Rightarrow> string list" where
  "surviving crits dm leaves = map MemberCode (filter (keeps_member crits dm) leaves)"

fun fetch_leaves :: "(string \<Rightarrow> FormulaError + DimMember list) \<Rightarrow> string list \<Rightarrow> FormulaError + DimMember list list" where
  "fetch_leaves leaves [] = Inr []"
| "fetch_leaves leaves (dm # dims) =
     (case leaves dm of
        Inl e \<Rightarrow> Inl e
      | Inr ms \<Rightarrow> (case fetch_leaves leaves dims of Inl e \<Rightarrow> Inl e | Inr mss \<Rightarrow> Inr (ms # mss)))"

definition too_many_error :: "string \<Rightarrow> FormulaError" where
  "too_many_error fn =
     mk_error (Code ErrNum) (fn @ '': the criteria match more than '' @ show_int (int maxConditionalTuples) @ '' member combinations'')"

text \<open>
  The filter loop: per dimension the codes that survive its criteria, with the number of
  combinations so far. It stops at the first dimension nothing survives in, leaving the rest
  empty, and refuses a product over the limit.
\<close>

fun filter_dims :: "string \<Rightarrow> evaluatedCriterion list \<Rightarrow> nat \<Rightarrow> (string \<times> DimMember list) list \<Rightarrow>
    FormulaError + string list list \<times> nat" where
  "filter_dims fn crits tuples [] = Inr ([], tuples)"
| "filter_dims fn crits tuples ((dm, leaves) # rest) =
     (let ms = surviving crits dm leaves; tuples = tuples * length ms
      in if tuples = 0 then Inr (ms # map (\<lambda>_. []) rest, 0)
         else if maxConditionalTuples < tuples then Inl (too_many_error fn)
         else case filter_dims fn crits tuples rest of
                Inl e \<Rightarrow> Inl e
              | Inr (mss, n) \<Rightarrow> Inr (ms # mss, n))"

text \<open>The odometer: the last wheel turns fastest; \<open>None\<close> when every wheel has wrapped.\<close>

fun advance :: "nat list \<Rightarrow> nat list \<Rightarrow> nat list option" where
  "advance (i # idx) (n # sizes) =
     (case advance idx sizes of
        Some idx' \<Rightarrow> Some (i # idx')
      | None \<Rightarrow> (if i + 1 < n then Some ((i + 1) # map (\<lambda>_. 0) idx) else None))"
| "advance _ _ = None"

fun settings :: "nat list \<Rightarrow> nat" where
  "settings [] = 1"
| "settings (n # sizes) = max 1 n * settings sizes"

fun wheels_left :: "nat list \<Rightarrow> nat list \<Rightarrow> nat" where
  "wheels_left (i # idx) (n # sizes) = (max 1 n - 1 - i) * settings sizes + wheels_left idx sizes"
| "wheels_left _ _ = 0"

lemma settings_pos: "0 < settings sizes"
  by (induction sizes) auto

lemma wheels_left_zero: "\<forall>x \<in> set xs. x = 0 \<Longrightarrow> wheels_left xs sizes < settings sizes"
proof (induction xs sizes rule: wheels_left.induct)
  case (1 x xs n sizes)
  have "(max 1 n - 1) * settings sizes + settings sizes = max 1 n * settings sizes"
    by (metis Suc_diff_1 add.commute less_max_iff_disj mult_Suc zero_less_one)
  with 1 show ?case by simp
qed (simp_all only: wheels_left.simps settings_pos)

lemma advance_wheels: "advance idx sizes = Some idx' \<Longrightarrow> wheels_left idx' sizes < wheels_left idx sizes"
proof (induction idx sizes arbitrary: idx' rule: advance.induct)
  case (1 i idx n sizes)
  show ?case
  proof (cases "advance idx sizes")
    case (Some j)
    with 1 show ?thesis by auto
  next
    case None
    then have idx': "idx' = (i + 1) # map (\<lambda>_. 0) idx" and lt: "i + 1 < n"
      using "1.prems" by (auto split: if_splits)
    have z: "wheels_left (map (\<lambda>_. 0) idx) sizes < settings sizes" by (rule wheels_left_zero) simp
    have "n - Suc i = Suc (n - Suc (Suc i))" "max 1 n = n" using lt by simp_all
    then show ?thesis using z by (simp add: idx')
  qed
qed simp_all

text \<open>
  The tuple loop: \<open>body\<close> at the current combination, then turn the odometer. It ends when the
  odometer has wrapped, or at the first error.
\<close>

function tuple_loop :: "(string list \<Rightarrow> 's \<Rightarrow> 'e + 's) \<Rightarrow> string list list \<Rightarrow> nat list \<Rightarrow> 's \<Rightarrow> 'e + 's" where
  "tuple_loop body choices idx st =
     (case body (map2 (!) choices idx) st of
        Inl e \<Rightarrow> Inl e
      | Inr st' \<Rightarrow>
          (case advance idx (map length choices) of
             None \<Rightarrow> Inr st'
           | Some idx' \<Rightarrow> tuple_loop body choices idx' st'))"
  by pat_completeness auto
termination
  by (relation "measure (\<lambda>(body, choices, idx, st). wheels_left idx (map length choices))")
    (auto simp: advance_wheels)

declare tuple_loop.simps [simp del]

record aggregate =
  a_sum :: f64
  a_lo :: f64
  a_hi :: f64
  a_found :: int
  a_counted :: int

definition empty_aggregate :: aggregate where
  "empty_aggregate = \<lparr>a_sum = Fin 0, a_lo = Fin 0, a_hi = Fin 0, a_found = 0, a_counted = 0\<rparr>"

type_synonym resolver = "string \<Rightarrow> (string \<times> string) list \<Rightarrow> FormulaError + f64 \<times> bool"

definition own_overrides :: "string list \<Rightarrow> (string \<times> string) list \<Rightarrow> (string \<times> string) list" where
  "own_overrides dims overrides =
     (if length dims = length overrides then overrides
      else remdups (concat (map (\<lambda>dm. filter (\<lambda>(k, _). EqualFold k dm) overrides) dims)))"

definition metric_candidate :: "DimEvalContext \<Rightarrow> string \<Rightarrow> f64 \<times> bool \<Rightarrow> Value" where
  "metric_candidate d metric r =
     (case r of (v, found) \<Rightarrow>
        if \<not> found then BlankVal
        else case picklist (Some d) metric of
               Some codec \<Rightarrow> decodeKey codec metric v
             | None \<Rightarrow> NumberVal v)"

fun metricCriteriaMatch :: "DimEvalContext \<Rightarrow> resolver \<Rightarrow> evaluatedCriterion list \<Rightarrow> (string \<times> string) list \<Rightarrow>
    FormulaError + bool" where
  "metricCriteriaMatch d resolve [] overrides = Inr True"
| "metricCriteriaMatch d resolve (c # cs) overrides =
     (let dims = (case metricDims c of None \<Rightarrow> [] | Some ds \<Rightarrow> ds)
      in case resolve (rdim (rng c)) (own_overrides dims overrides) of
           Inl e \<Rightarrow> Inl e
         | Inr r \<Rightarrow>
             (if \<not> matches (crit c) (metric_candidate d (rdim (rng c)) r) then Inr False
              else metricCriteriaMatch d resolve cs overrides))"

text \<open>
  One combination: an intersection the source has no value at adds its value 0 to the sum and
  is not counted as found.
\<close>

definition tuple_step :: "DimEvalContext \<Rightarrow> resolver \<Rightarrow> string \<Rightarrow> bool \<Rightarrow> string list \<Rightarrow> evaluatedCriterion list \<Rightarrow>
    string list \<Rightarrow> aggregate \<Rightarrow> FormulaError + aggregate" where
  "tuple_step d resolve source counting dimOrder metricCrits codes st =
     (let overrides = zip dimOrder codes
      in case metricCriteriaMatch d resolve metricCrits overrides of
           Inl e \<Rightarrow> Inl e
         | Inr keep \<Rightarrow>
             if keep \<and> counting then Inr (st\<lparr>a_counted := a_counted st + 1, a_sum := fadd (a_sum st) (Fin 0)\<rparr>)
             else case (if keep then resolve source overrides else Inr (Fin 0, False)) of
                    Inl e \<Rightarrow> Inl e
                  | Inr (v, ok) \<Rightarrow>
                      Inr (st\<lparr>a_lo := (if ok \<and> (a_found st = 0 \<or> flt v (a_lo st)) then v else a_lo st),
                              a_hi := (if ok \<and> (a_found st = 0 \<or> flt (a_hi st) v) then v else a_hi st),
                              a_found := (if ok then a_found st + 1 else a_found st),
                              a_sum := fadd (a_sum st) v\<rparr>))"

definition aggregate_result :: "string \<Rightarrow> aggregate \<Rightarrow> Value" where
  "aggregate_result fn st =
     (if fn = ''COUNTIF'' \<or> fn = ''COUNTIFS'' then NumberVal (f64_of_int (a_counted st))
      else if fn = ''AVERAGEIFS'' \<or> fn = ''AVERAGEIF'' then
        (if a_found st = 0
         then ErrorVal (mk_error (Code ErrDiv0) (fn @ '': no matching member has a recorded value''))
         else NumberVal (fdiv (a_sum st) (f64_of_int (a_found st))))
      else if fn = ''MINIFS'' then NumberVal (if a_found st = 0 then Fin 0 else a_lo st)
      else if fn = ''MAXIFS'' then NumberVal (if a_found st = 0 then Fin 0 else a_hi st)
      else NumberVal (a_sum st))"

definition picklist_source_error :: "string \<Rightarrow> string \<Rightarrow> FormulaError" where
  "picklist_source_error fn source =
     errValue (fn @ '': '' @ source @ '' is a pick-list, whose members cannot be added up or compared as numbers '' @
       [CHR 0xE2, CHR 0x80, CHR 0x94] @ '' count them with COUNTIFS('' @ source @ '', ...)'')"

text \<open>
  Without \<open>Resolve\<close> only the COUNT forms over dimensions get past the check below; for the
  others \<open>conditional\<close> has refused a nil \<open>Resolve\<close> already (a source has a name).
\<close>

definition conditionalCompute :: "DimEvalContext \<Rightarrow> (string \<Rightarrow> FormulaError + DimMember list) \<Rightarrow> string \<Rightarrow>
    string \<Rightarrow> string list \<Rightarrow> evaluatedCriterion list \<Rightarrow> Value" where
  "conditionalCompute d leaves fn source dimOrder crits =
     (if picklist (Some d) source \<noteq> None then ErrorVal (picklist_source_error fn source)
      else let metricCrits = filter is_metric_crit crits; counting = (fn = ''COUNTIF'' \<or> fn = ''COUNTIFS'')
      in case fetch_leaves leaves dimOrder of
           Inl e \<Rightarrow> ErrorVal e
         | Inr leavesOf \<Rightarrow>
             (case filter_dims fn crits 1 (zip dimOrder leavesOf) of
                Inl e \<Rightarrow> ErrorVal e
              | Inr (choices, tuples) \<Rightarrow>
                  if counting \<and> metricCrits = [] then NumberVal (f64_of_int (int tuples))
                  else case Resolve d of
                         None \<Rightarrow> ErrorVal (dimCallbackMissing fn ''dimensional reads'')
                       | Some resolve \<Rightarrow>
                           if tuples = 0 then aggregate_result fn empty_aggregate
                           else case tuple_loop (tuple_step d resolve source counting dimOrder metricCrits) choices
                                       (map (\<lambda>_. 0) dimOrder) empty_aggregate of
                                  Inl e \<Rightarrow> ErrorVal e
                                | Inr st \<Rightarrow> aggregate_result fn st))"

subsection \<open>Memo keys\<close>

definition valueKey :: "Value \<Rightarrow> string" where
  "valueKey v =
     (case v of
        NumberVal n \<Rightarrow> ''n'' @ format_g n
      | StringVal s \<Rightarrow> ''s'' @ s
      | BoolVal _ \<Rightarrow> ''b'' @ Text v
      | BlankVal \<Rightarrow> ''_''
      | ErrorVal _ \<Rightarrow> ''e'' @ Text v)"

fun nodeKey :: "node \<Rightarrow> string" where
  "nodeKey (NumberLit v) = format_g v"
| "nodeKey (StringLit s) = go_quote s"
| "nodeKey (BoolLit b) = (if b then ''TRUE'' else ''FALSE'')"
| "nodeKey (Ident name) = ''{'' @ ToUpper name @ ''}''"
| "nodeKey (DimProperty dm prop) = ''{'' @ ToUpper dm @ ''}.{'' @ ToUpper prop @ ''}''"
| "nodeKey (UnaryExpr o1 e) = ''('' @ o1 @ nodeKey e @ '')''"
| "nodeKey (BinaryExpr o1 l r) = ''('' @ nodeKey l @ o1 @ nodeKey r @ '')''"
| "nodeKey (CallExpr name args) = name @ ''('' @ Join (map nodeKey args) '', '' @ '')''"

definition memoKeySeparator :: string where
  "memoKeySeparator = [CHR 0x1F]"

definition memoValueSeparator :: string where
  "memoValueSeparator = [CHR 0x1E]"

definition memo_key :: "string \<Rightarrow> node list \<Rightarrow> Value list \<Rightarrow> string \<Rightarrow> string" where
  "memo_key fn args raws coord =
     fn @ memoKeySeparator @ concat (map (\<lambda>a. nodeKey a @ memoKeySeparator) args) @
     concat (map (\<lambda>v. valueKey v @ memoValueSeparator) raws) @ memoKeySeparator @ coord"

subsection \<open>Conditional aggregation: the handler\<close>

type_synonym memo = "(string \<times> Value) list"

definition conditionalMemoCap :: nat where
  "conditionalMemoCap = 1048576"

text \<open>
  What \<open>conditional\<close> settles before it looks at the memo: the context, the source, the
  dimensions the criteria range over and the evaluated criteria.
\<close>

record call =
  c_dim :: DimEvalContext
  c_leaves :: "string \<Rightarrow> FormulaError + DimMember list"
  c_source :: string
  c_dims :: "string list"
  c_crits :: "evaluatedCriterion list"

definition conditional_prepare :: "EvalContext \<Rightarrow> string \<Rightarrow> node list \<Rightarrow> Value go list \<Rightarrow> (Value + call) go" where
  "conditional_prepare ctx fn args vals =
     (let stop = (\<lambda>e. ret (Inl (ErrorVal e)))
      in case conditionalShape fn (zip args vals) of
           Inl e \<Rightarrow> stop e
         | Inr (sourceNode, pairs) \<Rightarrow>
             (case (case sourceNode of None \<Rightarrow> Inr [] | Some (n, _) \<Rightarrow> sourceArg n fn) of
                Inl e \<Rightarrow> stop e
              | Inr source \<Rightarrow>
                  (case eval_ranges fn (map (fst \<circ> fst) pairs) of
                     Inl e \<Rightarrow> stop e
                   | Inr ranges \<Rightarrow>
                       (case dimCtx ctx fn of
                          Inl e \<Rightarrow> stop e
                        | Inr d \<Rightarrow>
                            (case Leaves d of
                               None \<Rightarrow> stop (dimCallbackMissing fn ''dimensional reads'')
                             | Some leaves \<Rightarrow>
                                 if source \<noteq> [] \<and> Resolve d = None
                                 then stop (dimCallbackMissing fn ''dimensional reads'')
                                 else go_bind (eval_criteria d [] [] (zip ranges (map (snd \<circ> snd) pairs))) (\<lambda>r.
                                   case r of
                                     Inl e \<Rightarrow> ret (Inl e)
                                   | Inr (crits, dimOrder) \<Rightarrow>
                                       ret (Inr \<lparr>c_dim = d, c_leaves = leaves, c_source = source,
                                                 c_dims = dimOrder, c_crits = crits\<rparr>)))))))"

definition call_compute :: "string \<Rightarrow> call \<Rightarrow> Value" where
  "call_compute fn c = conditionalCompute (c_dim c) (c_leaves c) fn (c_source c) (c_dims c) (c_crits c)"

definition call_key :: "string \<Rightarrow> node list \<Rightarrow> call \<Rightarrow> string option" where
  "call_key fn args c =
     map_option (\<lambda>f. memo_key fn args (map raw (c_crits c)) (f (c_dims c))) (CoordKey (c_dim c))"

text \<open>The whole handler, with the memo it reads and extends (\<open>None\<close>: memoisation is off).\<close>

definition conditional_memo :: "EvalContext \<Rightarrow> string \<Rightarrow> node list \<Rightarrow> Value go list \<Rightarrow> memo option \<Rightarrow>
    Value go \<times> memo option" where
  "conditional_memo ctx fn args vals memo =
     (case conditional_prepare ctx fn args vals of
        panic r \<Rightarrow> (panic r, memo)
      | ret (Inl e) \<Rightarrow> (ret e, memo)
      | ret (Inr c) \<Rightarrow>
          (case (memo, call_key fn args c) of
             (Some m, Some key) \<Rightarrow>
               (case map_of m key of
                  Some v \<Rightarrow> (ret v, memo)
                | None \<Rightarrow>
                    let v = call_compute fn c
                    in (ret v, Some (if length m < conditionalMemoCap then AList.update key v m else m)))
           | _ \<Rightarrow> (ret (call_compute fn c), memo)))"

definition conditional :: "EvalContext \<Rightarrow> string \<Rightarrow> node list \<Rightarrow> Value go list \<Rightarrow> Value go" where
  "conditional ctx fn args vals = fst (conditional_memo ctx fn args vals None)"

definition dim_builtins :: "(string \<times> builtin) list" where
  "dim_builtins =
     [(''PARENT'', fnPARENT), (''LOOKUP'', fnLOOKUP)] @
     map (\<lambda>fn. (fn, \<lambda>pl ctx args vals. conditional ctx fn args vals))
       [''SUMIFS'', ''AVERAGEIFS'', ''MINIFS'', ''MAXIFS'', ''COUNTIFS'', ''SUMIF'', ''AVERAGEIF'', ''COUNTIF'']"

subsection \<open>The tuple loop visits the cartesian product\<close>

text \<open>The specification: \<open>body\<close> at every tuple of a list in order, up to the first error.\<close>

fun fold_ok :: "('t \<Rightarrow> 's \<Rightarrow> 'e + 's) \<Rightarrow> 't list \<Rightarrow> 's \<Rightarrow> 'e + 's" where
  "fold_ok body [] st = Inr st"
| "fold_ok body (t # ts) st = (case body t st of Inl e \<Rightarrow> Inl e | Inr st' \<Rightarrow> fold_ok body ts st')"

text \<open>The tuples from an odometer setting on.\<close>

fun tuples_from :: "nat list \<Rightarrow> 'a list list \<Rightarrow> 'a list list" where
  "tuples_from (i # idx) (xs # xss) =
     map (Cons (xs ! i)) (tuples_from idx xss) @
     concat (map (\<lambda>x. map (Cons x) (product_lists xss)) (drop (i + 1) xs))"
| "tuples_from _ _ = [[]]"

definition in_bounds :: "nat list \<Rightarrow> 'a list list \<Rightarrow> bool" where
  "in_bounds idx xss \<longleftrightarrow> list_all2 (\<lambda>i xs. i < length xs) idx xss"

lemma tuples_from_zero:
  "list_all (\<lambda>xs. xs \<noteq> []) xss \<Longrightarrow> length idx = length xss \<Longrightarrow>
   tuples_from (map (\<lambda>_. 0) idx) xss = product_lists xss"
proof (induction xss arbitrary: idx)
  case (Cons xs xss)
  then obtain i jd where "idx = i # jd" "length jd = length xss" by (cases idx) auto
  with Cons show ?case by (cases xs) auto
qed simp

lemma in_bounds_nonempty: "in_bounds idx xss \<Longrightarrow> list_all (\<lambda>xs. xs \<noteq> []) xss \<and> length idx = length xss"
  unfolding in_bounds_def by (induction rule: list_all2_induct) auto

lemma advance_in_bounds:
  "in_bounds idx xss \<Longrightarrow> advance idx (map length xss) = Some idx' \<Longrightarrow> in_bounds idx' xss"
  unfolding in_bounds_def
proof (induction arbitrary: idx' rule: list_all2_induct)
  case (Cons i jd xs xss)
  have nz: "list_all2 (\<lambda>i xs. i < length xs) (map (\<lambda>_. 0) jd) xss"
    using Cons.hyps(2) by (auto simp: list_all2_conv_all_nth)
  from Cons nz show ?case by (auto split: option.splits if_splits)
qed simp

lemma tuples_from_step:
  "in_bounds idx xss \<Longrightarrow> tuples_from idx xss =
     map2 (!) xss idx # (case advance idx (map length xss) of None \<Rightarrow> [] | Some idx' \<Rightarrow> tuples_from idx' xss)"
proof -
  assume "in_bounds idx xss"
  then have "list_all2 (\<lambda>i xs. i < length xs) idx xss" by (simp add: in_bounds_def)
  then show ?thesis
  proof (induction rule: list_all2_induct)
    case Nil
    then show ?case by simp
  next
    case (Cons i jd xs xss)
    have ne: "tuples_from (map (\<lambda>_. 0) jd) xss = product_lists xss"
      using in_bounds_nonempty [of "jd" xss] Cons.hyps(2)
      by (intro tuples_from_zero) (simp_all add: in_bounds_def)
    show ?case
    proof (cases "advance jd (map length xss)")
      case (Some js)
      with Cons.IH show ?thesis by simp
    next
      case None
      then have one: "tuples_from jd xss = [map2 (!) xss jd]" using Cons.IH by simp
      show ?thesis
      proof (cases "Suc i < length xs")
        case True
        then have "drop (Suc i) xs = xs ! Suc i # drop (Suc (Suc i)) xs"
          by (simp add: Cons_nth_drop_Suc)
        with None True show ?thesis by (simp add: one ne)
      next
        case False
        then have "drop (Suc i) xs = []" by simp
        with None False show ?thesis by (simp add: one)
      qed
    qed
  qed
qed

lemma tuple_loop_from:
  "in_bounds idx choices \<Longrightarrow> tuple_loop body choices idx st = fold_ok body (tuples_from idx choices) st"
proof (induction body choices idx st rule: tuple_loop.induct)
  case (1 body choices idx st)
  show ?case
    using 1 advance_in_bounds [OF "1.prems"]
    by (auto simp: tuple_loop.simps [of body choices idx st] tuples_from_step [OF "1.prems"]
        split: sum.split option.split)
qed

lemma tuple_loop_product:
  assumes "list_all (\<lambda>xs. xs \<noteq> []) choices" and "length dims = length choices"
  shows "tuple_loop body choices (map (\<lambda>_. 0) dims) st = fold_ok body (product_lists choices) st"
proof -
  have "in_bounds (map (\<lambda>_. 0) dims) choices"
    using assms unfolding in_bounds_def
    by (intro list_all2I) (auto simp: list_all_iff set_zip all_set_conv_all_nth)
  then show ?thesis using assms by (simp add: tuple_loop_from tuples_from_zero)
qed

subsection \<open>The filter loop\<close>

definition survivors :: "evaluatedCriterion list \<Rightarrow> string list \<Rightarrow> DimMember list list \<Rightarrow> string list list" where
  "survivors crits dimOrder leavesOf = map2 (surviving crits) dimOrder leavesOf"

lemma filter_dims_ok:
  assumes "\<And>k. k \<le> length ds \<Longrightarrow>
      n * prod_list (take k (map (\<lambda>(dm, ls). length (surviving crits dm ls)) ds)) \<le> maxConditionalTuples"
    and "n \<noteq> 0"
  shows "\<exists>choices. filter_dims fn crits n ds =
      Inr (choices, n * prod_list (map (\<lambda>(dm, ls). length (surviving crits dm ls)) ds)) \<and>
    (prod_list (map (\<lambda>(dm, ls). length (surviving crits dm ls)) ds) \<noteq> 0 \<longrightarrow>
      choices = map (\<lambda>(dm, ls). surviving crits dm ls) ds)"
  using assms
proof (induction fn crits n ds rule: filter_dims.induct)
  case (1 fn crits tuples)
  then show ?case by simp
next
  case (2 fn crits n dm leaves rest)
  let ?m = "length (surviving crits dm leaves)" and ?len = "\<lambda>(dm, ls). length (surviving crits dm ls)"
  show ?case
  proof (cases "n * ?m = 0")
    case True
    then show ?thesis using "2.prems"(2) by simp
  next
    case False
    have le: "n * ?m \<le> maxConditionalTuples"
      using "2.prems"(1) [of 1] by simp
    have "\<And>k. k \<le> length rest \<Longrightarrow> n * ?m * prod_list (take k (map ?len rest)) \<le> maxConditionalTuples"
      using "2.prems"(1) [of "Suc _"] by (simp add: mult.assoc)
    from "2.IH" [OF refl refl False _ this False] le False
    show ?thesis by (auto simp: mult.assoc Let_def split: prod.splits)
  qed
qed

subsection \<open>The computation refines a fold over the product\<close>

definition conditional_spec :: "DimEvalContext \<Rightarrow> resolver \<Rightarrow> string \<Rightarrow> string \<Rightarrow> string list \<Rightarrow>
    evaluatedCriterion list \<Rightarrow> string list list \<Rightarrow> Value" where
  "conditional_spec d resolve fn source dimOrder crits choices =
     (case fold_ok (tuple_step d resolve source (fn = ''COUNTIF'' \<or> fn = ''COUNTIFS'') dimOrder
              (filter is_metric_crit crits)) (product_lists choices) empty_aggregate of
        Inl e \<Rightarrow> ErrorVal e
      | Inr st \<Rightarrow> aggregate_result fn st)"

lemma length_product_lists: "length (product_lists xss) = prod_list (map length xss)"
  by (induction xss) (simp_all add: length_concat comp_def sum_list_triv)

lemma fold_ok_counting:
  "fold_ok (tuple_step d resolve source True dimOrder []) ts st =
     Inr (st\<lparr>a_counted := a_counted st + int (length ts), a_sum := foldl fadd (a_sum st) (map (\<lambda>_. Fin 0) ts)\<rparr>)"
proof (induction ts arbitrary: st)
  case (Cons t ts)
  then show ?case by (simp add: tuple_step_def add.assoc)
qed simp

lemma fetch_leaves_length: "fetch_leaves leaves dims = Inr ls \<Longrightarrow> length ls = length dims"
  by (induction leaves dims arbitrary: ls rule: fetch_leaves.induct) (auto split: sum.splits)

lemma survivors_zip:
  "survivors crits dims ls = map (\<lambda>(dm, l). surviving crits dm l) (zip dims ls)"
  by (simp add: survivors_def)

lemma conditionalCompute_loop:
  assumes src: "picklist (Some d) source = None" and res: "Resolve d = Some resolve"
    and lv: "fetch_leaves leaves dimOrder = Inr leavesOf"
    and bound: "\<And>k. k \<le> length dimOrder \<Longrightarrow>
      prod_list (take k (map length (survivors crits dimOrder leavesOf))) \<le> maxConditionalTuples"
  shows "conditionalCompute d leaves fn source dimOrder crits =
    conditional_spec d resolve fn source dimOrder crits (survivors crits dimOrder leavesOf)"
proof -
  let ?ds = "zip dimOrder leavesOf" and ?S = "survivors crits dimOrder leavesOf"
  let ?n = "prod_list (map length ?S)" and ?counting = "fn = ''COUNTIF'' \<or> fn = ''COUNTIFS''"
  have len: "length leavesOf = length dimOrder" by (rule fetch_leaves_length [OF lv])
  have lens: "map length ?S = map (\<lambda>(dm, ls). length (surviving crits dm ls)) ?ds"
    by (simp add: survivors_zip case_prod_beta)
  have le: "1 * prod_list (take k (map (\<lambda>(dm, ls). length (surviving crits dm ls)) ?ds)) \<le> maxConditionalTuples"
    if "k \<le> length ?ds" for k
    using bound [of k] that len unfolding lens by simp
  from filter_dims_ok [OF le, of fn]
  obtain choices where f: "filter_dims fn crits 1 ?ds = Inr (choices, ?n)"
      and c: "?n \<noteq> 0 \<longrightarrow> choices = ?S"
    unfolding lens unfolding survivors_zip by auto
  have n: "length (product_lists ?S) = ?n" by (rule length_product_lists)
  show ?thesis
  proof (cases "?counting \<and> filter is_metric_crit crits = []")
    case True
    then show ?thesis
      using src res lv f n
      by (auto simp: conditionalCompute_def conditional_spec_def fold_ok_counting aggregate_result_def
          empty_aggregate_def Let_def)
  next
    case no: False
    show ?thesis
    proof (cases "?n = 0")
      case True
      then have "product_lists ?S = []" using n by simp
      with True no show ?thesis
        using src res lv f by (auto simp: conditionalCompute_def conditional_spec_def Let_def)
    next
      case False
      then have "list_all (\<lambda>xs. xs \<noteq> []) ?S"
        by (auto simp: list_all_iff prod_list_zero_iff)
      moreover have "length dimOrder = length ?S" using len by (simp add: survivors_def)
      ultimately show ?thesis
        using src res lv f c no False
        by (auto simp: conditionalCompute_def conditional_spec_def tuple_loop_product Let_def split: sum.split)
    qed
  qed
qed

text \<open>
  C6 Every conditional aggregation (SUMIFS, AVERAGEIFS, MINIFS, MAXIFS, COUNTIFS and the
  one-criterion forms) is a fold over the cartesian product of the members that survive the
  criteria of their dimension: the odometer loop visits every combination once, in order, and
  stops at the first error. The hypothesis is the guard on the number of combinations.
\<close>

theorem conditionalCompute_product:
  assumes src: "picklist (Some d) source = None" and res: "Resolve d = Some resolve"
    and lv: "fetch_leaves leaves dimOrder = Inr leavesOf"
    and bound: "\<And>k. k \<le> length dimOrder \<Longrightarrow>
      prod_list (take k (map length (survivors crits dimOrder leavesOf))) \<le> maxConditionalTuples"
  shows "conditionalCompute d leaves fn source dimOrder crits =
    conditional_spec d resolve fn source dimOrder crits (survivors crits dimOrder leavesOf)"
  using assms by (rule conditionalCompute_loop)

lemma fold_ok_sum:
  assumes "\<And>codes. resolve source (zip dimOrder codes) = Inr (val codes, found codes)"
  shows "\<exists>st'. fold_ok (tuple_step d resolve source False dimOrder []) ts st = Inr st' \<and>
    a_sum st' = foldl fadd (a_sum st) (map val ts) \<and>
    a_found st' = a_found st + int (length (filter found ts))"
proof (induction ts arbitrary: st)
  case (Cons t ts)
  obtain st1 where "tuple_step d resolve source False dimOrder [] t st = Inr st1"
    "a_sum st1 = fadd (a_sum st) (val t)"
    "a_found st1 = a_found st + (if found t then 1 else 0)"
    by (simp add: tuple_step_def assms)
  with Cons [of st1] show ?case by auto
qed simp

text \<open>
  SUMIFS over dimension criteria is the sum, in the order of the dimensions' members, of the
  source at every surviving combination; a combination with no recorded value contributes the 0
  it resolves to. AVERAGEIFS divides that sum by the number of combinations with a value, and is
  #DIV/0! when there is none.
\<close>

theorem conditional_sum_average:
  assumes src: "picklist (Some d) source = None" and res: "Resolve d = Some resolve"
    and lv: "fetch_leaves leaves dimOrder = Inr leavesOf"
    and bound: "\<And>k. k \<le> length dimOrder \<Longrightarrow>
      prod_list (take k (map length (survivors crits dimOrder leavesOf))) \<le> maxConditionalTuples"
    and dims: "filter is_metric_crit crits = []"
    and total: "\<And>codes. resolve source (zip dimOrder codes) = Inr (val codes, found codes)"
  shows "let ts = product_lists (survivors crits dimOrder leavesOf); recorded = filter found ts
    in conditionalCompute d leaves ''SUMIFS'' source dimOrder crits = NumberVal (fsum (map val ts)) \<and>
       conditionalCompute d leaves ''AVERAGEIFS'' source dimOrder crits =
         (if recorded = []
          then ErrorVal (mk_error ''#DIV/0!'' ''AVERAGEIFS: no matching member has a recorded value'')
          else NumberVal (fdiv (fsum (map val ts)) (f64_of_int (int (length recorded)))))"
proof -
  let ?ts = "product_lists (survivors crits dimOrder leavesOf)"
  obtain st where st: "fold_ok (tuple_step d resolve source False dimOrder []) ?ts empty_aggregate = Inr st"
    "a_sum st = fsum (map val ?ts)" "a_found st = int (length (filter found ?ts))"
    using fold_ok_sum [of resolve source dimOrder val found d ?ts empty_aggregate, OF total]
    by (auto simp: empty_aggregate_def fsum_def)
  note spec = conditionalCompute_loop [OF src res lv bound]
  show ?thesis
    using st dims by (simp add: spec conditional_spec_def aggregate_result_def Let_def error_defs)
qed

text \<open>A cell of a small model: two regions, of which EMEA has a recorded value.\<close>

definition demo_leaves :: "string \<Rightarrow> FormulaError + DimMember list" where
  "demo_leaves dm =
     (if EqualFold dm ''region''
      then Inr (map (\<lambda>c. \<lparr>MemberCode = c, Properties = []\<rparr>) [''EMEA'', ''APAC''])
      else Inl (errName dm))"

definition demo_resolve :: resolver where
  "demo_resolve metric o1 = (if map_of o1 ''region'' = Some ''EMEA'' then Inr (Fin 7, True) else Inr (Fin 0, False))"

definition demo_dim :: DimEvalContext where
  "demo_dim = no_dim_context\<lparr>Leaves := Some demo_leaves, Resolve := Some demo_resolve,
     CoordKey := Some (\<lambda>_. ''cell'')\<rparr>"

definition demo_crit :: evaluatedCriterion where
  "demo_crit = \<lparr>rng = \<lparr>rdim = ''region'', rprop = []\<rparr>, crit = parseCriterion (StringVal ''*A''),
     raw = StringVal ''*A'', metricDims = None\<rparr>"

lemma demo_facts:
  "picklist (Some demo_dim) ''sales'' = None" "Resolve demo_dim = Some demo_resolve"
  "fetch_leaves demo_leaves [''region''] =
     Inr [map (\<lambda>c. \<lparr>MemberCode = c, Properties = []\<rparr>) [''EMEA'', ''APAC'']]"
  by (simp_all add: demo_dim_def no_dim_context_def picklist_def demo_leaves_def)

lemma demo_survivors:
  "survivors [demo_crit] [''region''] [map (\<lambda>c. \<lparr>MemberCode = c, Properties = []\<rparr>) [''EMEA'', ''APAC'']] =
     [[''EMEA'']]"
  by code_simp

lemma demo_bound:
  "k \<le> length [''region''] \<Longrightarrow>
   prod_list (take k (map length (survivors [demo_crit] [''region'']
     [map (\<lambda>c. \<lparr>MemberCode = c, Properties = []\<rparr>) [''EMEA'', ''APAC'']]))) \<le> maxConditionalTuples"
  unfolding demo_survivors by (cases k) (simp_all add: maxConditionalTuples_def)

theorem conditionalCompute_product_witness:
  "conditionalCompute demo_dim demo_leaves ''MAXIFS'' ''sales'' [''region''] [demo_crit] =
   conditional_spec demo_dim demo_resolve ''MAXIFS'' ''sales'' [''region''] [demo_crit] [[''EMEA'']]"
  using conditionalCompute_product [OF demo_facts demo_bound] by (simp only: demo_survivors)

theorem conditional_sum_average_witness:
  "conditionalCompute demo_dim demo_leaves ''SUMIFS'' ''sales'' [''region''] [demo_crit] =
   NumberVal (fsum [Fin 7])"
proof -
  have total: "demo_resolve ''sales'' (zip [''region''] codes) =
      Inr (if codes \<noteq> [] \<and> hd codes = ''EMEA'' then Fin 7 else Fin 0, codes \<noteq> [] \<and> hd codes = ''EMEA'')" for codes
    by (cases codes) (auto simp: demo_resolve_def)
  have dims: "filter is_metric_crit [demo_crit] = []" by (simp add: is_metric_crit_def demo_crit_def)
  show ?thesis
    using conditional_sum_average [OF demo_facts demo_bound dims total]
    by (simp only: demo_survivors Let_def) simp
qed

subsection \<open>The order of the criteria\<close>

text \<open>
  The guard on the number of combinations is applied dimension by dimension, so it depends on
  the order of the criteria: over two dimensions of 1001 members each and a third nothing
  survives in, the aggregation is #NUM! when the third comes last, and sees no combination at
  all when it comes first.
\<close>

lemma tuple_guard_order_dependent:
  "filter_dims fn [] 1 [(a, replicate 1001 m), (b, replicate 1001 m), (c, [])] = Inl (too_many_error fn) \<and>
   filter_dims fn [] 1 [(c, []), (a, replicate 1001 m), (b, replicate 1001 m)] = Inr ([[], [], []], 0)"
  by (simp add: surviving_def keeps_member_def maxConditionalTuples_def Let_def)

subsection \<open>Memoisation\<close>

text \<open>
  One pass evaluates a sequence of conditional calls that share a memo. The key must decide the
  result: of two calls of the pass with the same key the computations agree.
\<close>

type_synonym cond_call = "EvalContext \<times> string \<times> node list \<times> Value go list"

definition prepared :: "cond_call \<Rightarrow> (string \<times> string \<times> call) option" where
  "prepared q =
     (case q of (ctx, fn, args, vals) \<Rightarrow>
        (case conditional_prepare ctx fn args vals of
           ret (Inr c) \<Rightarrow> map_option (\<lambda>key. (key, fn, c)) (call_key fn args c)
         | _ \<Rightarrow> None))"

definition keys_decide :: "cond_call set \<Rightarrow> bool" where
  "keys_decide pass \<longleftrightarrow>
     (\<forall>q \<in> pass. \<forall>q' \<in> pass. \<forall>key fn c fn' c'.
        prepared q = Some (key, fn, c) \<longrightarrow> prepared q' = Some (key, fn', c') \<longrightarrow>
        call_compute fn c = call_compute fn' c')"

definition memo_sound :: "cond_call set \<Rightarrow> memo \<Rightarrow> bool" where
  "memo_sound pass m \<longleftrightarrow>
     (\<forall>q \<in> pass. \<forall>key fn c v.
        prepared q = Some (key, fn, c) \<longrightarrow> map_of m key = Some v \<longrightarrow> v = call_compute fn c)"

fun run_pass :: "memo option \<Rightarrow> cond_call list \<Rightarrow> Value go list \<times> memo option" where
  "run_pass m [] = ([], m)"
| "run_pass m ((ctx, fn, args, vals) # qs) =
     (let (v, m') = conditional_memo ctx fn args vals m; (vs, m'') = run_pass m' qs in (v # vs, m''))"

lemma length_update: "length (AList.update k v m) \<le> Suc (length m)"
  by (induction m) auto

lemma conditional_memo_step:
  assumes "keys_decide pass" and "memo_sound pass m" and "length m \<le> conditionalMemoCap"
    and "(ctx, fn, args, vals) \<in> pass"
  shows "\<exists>m'. conditional_memo ctx fn args vals (Some m) = (conditional ctx fn args vals, Some m') \<and>
    memo_sound pass m' \<and> length m' \<le> conditionalMemoCap"
proof (cases "\<exists>c key. conditional_prepare ctx fn args vals = ret (Inr c) \<and> call_key fn args c = Some key")
  case False
  then show ?thesis
    using assms(2,3)
    by (auto simp: conditional_def conditional_memo_def split: go.splits sum.splits option.splits)
next
  case True
  then obtain c key where c: "conditional_prepare ctx fn args vals = ret (Inr c)"
    "call_key fn args c = Some key" by auto
  let ?v = "call_compute fn c"
  have p: "prepared (ctx, fn, args, vals) = Some (key, fn, c)" by (simp add: prepared_def c)
  have plain: "conditional ctx fn args vals = ret ?v"
    by (simp add: conditional_def conditional_memo_def c)
  show ?thesis
  proof (cases "map_of m key")
    case (Some v)
    then have "v = ?v" using assms(2,4) p by (auto simp: memo_sound_def)
    with Some c plain assms(2,3) show ?thesis by (simp add: conditional_memo_def)
  next
    case None
    let ?m' = "if length m < conditionalMemoCap then AList.update key ?v m else m"
    have "memo_sound pass ?m'"
      unfolding memo_sound_def
    proof (intro ballI allI impI)
      fix q k f c' v
      assume q: "q \<in> pass" "prepared q = Some (k, f, c')" "map_of ?m' k = Some v"
      show "v = call_compute f c'"
      proof (cases "k = key \<and> length m < conditionalMemoCap")
        case True
        then have "v = ?v" using q(3) by (simp add: update_conv)
        then show ?thesis using True assms(1,4) p q(1,2) unfolding keys_decide_def by blast
      next
        case False
        then have "map_of m k = Some v" using q(3) by (auto simp: update_conv split: if_splits)
        then show ?thesis using assms(2) q(1,2) by (auto simp: memo_sound_def)
      qed
    qed
    moreover have "length ?m' \<le> conditionalMemoCap"
      using assms(3) length_update [of key ?v m] by auto
    ultimately show ?thesis using None c plain by (simp add: conditional_memo_def Let_def)
  qed
qed

text \<open>
  As far as the keys decide the results, memoisation changes none: a pass of conditional aggregations
  that shares one memo, starting from an empty one, then gives every call the value it has with memoisation off, and the
  memo never holds more than \<open>conditionalMemoCap\<close> results. The next lemma shows that the keys do not always decide them.
\<close>

lemma memo_transparent:
  assumes "keys_decide (set qs)"
  shows "\<exists>m. run_pass (Some []) qs = (map (\<lambda>(ctx, fn, args, vals). conditional ctx fn args vals) qs, Some m) \<and>
    length m \<le> conditionalMemoCap"
proof -
  have "\<exists>m'. run_pass (Some m) ps = (map (\<lambda>(ctx, fn, args, vals). conditional ctx fn args vals) ps, Some m') \<and>
      length m' \<le> conditionalMemoCap"
    if "set ps \<subseteq> set qs" "memo_sound (set qs) m" "length m \<le> conditionalMemoCap" for ps m
    using that
  proof (induction ps arbitrary: m)
    case (Cons q ps)
    obtain ctx fn args vals where q: "q = (ctx, fn, args, vals)" by (cases q)
    with Cons.prems obtain m1 where m1:
      "conditional_memo ctx fn args vals (Some m) = (conditional ctx fn args vals, Some m1)"
      "memo_sound (set qs) m1" "length m1 \<le> conditionalMemoCap"
      using conditional_memo_step [OF assms, of m ctx fn args vals] by auto
    then show ?case using Cons.IH [of m1] Cons.prems(1) q by (auto split: prod.splits)
  qed simp
  from this [of qs "[]"] show ?thesis by (simp add: memo_sound_def)
qed

text \<open>
  The memo key does not separate the criteria's values from each other safely: a text that
  contains the value separator gives two different lists of criteria values one and the same key.
\<close>

lemma memo_key_collision:
  "[StringVal (''a'' @ memoValueSeparator @ ''sb''), StringVal ''c''] \<noteq>
     [StringVal ''a'', StringVal (''b'' @ memoValueSeparator @ ''sc'')] \<and>
   memo_key fn args [StringVal (''a'' @ memoValueSeparator @ ''sb''), StringVal ''c''] coord =
   memo_key fn args [StringVal ''a'', StringVal (''b'' @ memoValueSeparator @ ''sc'')] coord"
  by (simp add: memo_key_def valueKey_def memoValueSeparator_def)

subsection \<open>Pick-list keys\<close>

lemma PicklistKey_whole:
  "\<exists>k. PicklistKey code = Fin (of_int k) \<and> 2 ^ 50 \<le> k \<and> k < 2 ^ 51"
proof -
  let ?k = "picklistKeyBase + uint (fnv1a code) mod picklistKeyBase"
  have "0 \<le> uint (fnv1a code) mod picklistKeyBase" "uint (fnv1a code) mod picklistKeyBase < picklistKeyBase"
    by (simp_all add: picklistKeyBase_def)
  then have r: "picklistKeyBase \<le> ?k" "?k < 2 * picklistKeyBase" by linarith+
  then have "PicklistKey code = Fin (of_int ?k)"
    unfolding PicklistKey_def by (intro f64_of_int_exact) (simp add: picklistKeyBase_def)
  with r show ?thesis by (intro exI [of _ ?k]) (simp add: picklistKeyBase_def)
qed

text \<open>
  A pick-list key is a whole number of at least 2^50 and below 2^51, held exactly by a
  float64: it is never 0, the value that stands for "nothing chosen".
\<close>

theorem PicklistKey_range:
  "\<exists>k. PicklistKey code = Fin (of_int k) \<and> 2 ^ 50 \<le> k \<and> k < 2 ^ 51"
  by (rule PicklistKey_whole)

text \<open>
  The contract of a codec: a code is encoded as the key of a member that differs from it in case
  at most, a member's own code as its key, and a member's key is decoded to a member with that key.
\<close>

locale codec =
  fixes encode :: "string \<Rightarrow> f64 option" and decode :: "f64 \<Rightarrow> string option" and members :: "string set"
  assumes encode_member: "encode c = Some k \<Longrightarrow> \<exists>s \<in> members. k = PicklistKey s \<and> EqualFold s c"
    and encode_exact: "s \<in> members \<Longrightarrow> encode s = Some (PicklistKey s)"
    and decode_member: "s \<in> members \<Longrightarrow>
      \<exists>s' \<in> members. decode (PicklistKey s) = Some s' \<and> PicklistKey s' = PicklistKey s"
begin

lemma stored_reads_back:
  assumes "KeyOf cd = Some encode" and "CodeOf cd = Some decode" and "PicklistResult cd metric v = NumberVal k"
  shows "\<exists>s s'. s \<in> members \<and> EqualFold s (TrimSpace (fst (memberCode v))) \<and> s' \<in> members \<and>
    PicklistKey s' = PicklistKey s \<and> k = PicklistKey s \<and> decodeKey cd metric k = StringVal s'"
proof -
  from assms(1,3) have "encode (TrimSpace (fst (memberCode v))) = Some k"
    by (auto simp: PicklistResult_def Let_def split: if_splits option.splits prod.splits)
  then obtain s where s: "s \<in> members" "k = PicklistKey s" "EqualFold s (TrimSpace (fst (memberCode v)))"
    using encode_member by blast
  obtain s' where s': "s' \<in> members" "decode (PicklistKey s) = Some s'" "PicklistKey s' = PicklistKey s"
    using decode_member [OF s(1)] by blast
  obtain n where "PicklistKey s = Fin (of_int n)" "2 ^ 50 \<le> n" using PicklistKey_whole by blast
  then have "\<not> is_zero k" by (simp add: s(2) is_zero_def)
  then have "decodeKey cd metric k = StringVal s'" by (simp add: decodeKey_def assms(2) s s')
  with s s' show ?thesis by blast
qed

end

text \<open>
  The codec the calculation package builds from a dimension's member codes
  (\<open>internal/calculation/dimcontext.go\<close>, \<open>DimMetadata.Picklist\<close>), in the order the Go map
  yields them: of members with one key the last one is decoded, of codes equal but for case the
  first one is encoded.
\<close>

definition member_code :: "string list \<Rightarrow> f64 \<Rightarrow> string option" where
  "member_code codes key = map_of (rev (map (\<lambda>c. (PicklistKey c, c)) codes)) key"

definition member_key :: "string list \<Rightarrow> string \<Rightarrow> f64 option" where
  "member_key codes code =
     (if code \<in> set codes then Some (PicklistKey code)
      else map_option PicklistKey (find (\<lambda>s. ToUpper s = ToUpper code) codes))"

definition dimension_codec :: "string \<Rightarrow> string list \<Rightarrow> PicklistCodec" where
  "dimension_codec name codes =
     \<lparr>PickDim = name, CodeOf = Some (member_code codes), KeyOf = Some (member_key codes)\<rparr>"

interpretation member_codec: codec "member_key codes" "member_code codes" "set codes" for codes
proof
  fix c k assume "member_key codes c = Some k"
  then show "\<exists>s \<in> set codes. k = PicklistKey s \<and> EqualFold s c"
    by (auto simp: member_key_def EqualFold_ToUpper find_Some_iff split: if_splits)
next
  fix s assume s: "s \<in> set codes"
  then show "member_key codes s = Some (PicklistKey s)" by (simp add: member_key_def)
  from s have "member_code codes (PicklistKey s) \<noteq> None"
    by (simp add: member_code_def map_of_eq_None_iff image_image)
  then obtain s' where s': "member_code codes (PicklistKey s) = Some s'" by auto
  then have "(PicklistKey s, s') \<in> set (rev (map (\<lambda>c. (PicklistKey c, c)) codes))"
    unfolding member_code_def by (rule map_of_SomeD)
  then have "s' \<in> set codes" "PicklistKey s' = PicklistKey s" by auto
  with s' show "\<exists>s' \<in> set codes. member_code codes (PicklistKey s) = Some s' \<and> PicklistKey s' = PicklistKey s"
    by blast
qed

text \<open>
  A pick-list result that is stored is read back as the member it named: where no two
  members share a key, decoding the key \<open>PicklistResult\<close> stores gives a member code equal to the
  result's text up to case and surrounding blanks.
\<close>

theorem picklist_round_trip:
  assumes "PicklistResult (dimension_codec name codes) metric v = NumberVal k"
    and "inj_on PicklistKey (set codes)"
  shows "\<exists>s \<in> set codes. decodeKey (dimension_codec name codes) metric k = StringVal s \<and>
    EqualFold s (TrimSpace (fst (memberCode v)))"
proof -
  have "KeyOf (dimension_codec name codes) = Some (member_key codes)"
    "CodeOf (dimension_codec name codes) = Some (member_code codes)"
    by (simp_all add: dimension_codec_def)
  from member_codec.stored_reads_back [OF this assms(1)] show ?thesis
    using assms(2) by (metis inj_onD)
qed

lemma demo_codec:
  "PicklistResult (dimension_codec ''Status'' [''Draft'', ''Done'']) ''status'' (StringVal '' done'') =
     NumberVal (PicklistKey ''Done'')"
  by code_simp

lemma demo_keys: "PicklistKey ''Draft'' \<noteq> PicklistKey ''Done''"
  by code_simp

theorem picklist_round_trip_witness:
  "\<exists>s \<in> set [''Draft'', ''Done''].
     decodeKey (dimension_codec ''Status'' [''Draft'', ''Done'']) ''status'' (PicklistKey ''Done'') = StringVal s \<and>
     EqualFold s (TrimSpace (fst (memberCode (StringVal '' done''))))"
proof -
  have "inj_on PicklistKey (set [''Draft'', ''Done''])" using demo_keys by auto
  then show ?thesis by (rule picklist_round_trip [OF demo_codec])
qed

end
