(* ===== verification/Eval.thy ===== *)
theory Eval
  imports Grammar TimeFns DimFns
begin

text \<open>
  The evaluator (\<open>internal/formula/eval.go\<close>), the package's entry points (\<open>formula.go\<close>,
  \<open>EvalNode\<close> of \<open>time.go\<close>) and the table of built-ins with its queries (\<open>funcrefs.go\<close>).
\<close>

subsection \<open>Identifiers\<close>

definition lookup :: "EvalContext \<Rightarrow> string \<Rightarrow> Value option" where
  "lookup ctx name = (case Vars ctx of None \<Rightarrow> None | Some m \<Rightarrow> map_of m (ToUpper name))"

definition unboundDimension :: "EvalContext \<Rightarrow> string \<Rightarrow> Value option" where
  "unboundDimension ctx name =
     (case Dim ctx of
        None \<Rightarrow> None
      | Some d \<Rightarrow>
          (case Current d of
             None \<Rightarrow> None
           | Some f \<Rightarrow>
               (case f name of
                  Inl _ \<Rightarrow> None
                | Inr (code, pinned) \<Rightarrow> Some (if \<not> pinned then BlankVal else StringVal code))))"

definition eval_ident :: "EvalContext \<Rightarrow> string \<Rightarrow> Value" where
  "eval_ident ctx name =
     (case lookup ctx name of
        Some v \<Rightarrow> decodePicklist ctx name v
      | None \<Rightarrow>
          (case unboundDimension ctx name of
             Some v \<Rightarrow> v
           | None \<Rightarrow> ErrorVal (errName name)))"

subsection \<open>Operators\<close>

definition comparison_ops :: "string list" where
  "comparison_ops = [''='', ''<>'', ''<'', ''<='', ''>'', ''>='']"

definition compare_result :: "string \<Rightarrow> int \<Rightarrow> bool" where
  "compare_result o1 cmp =
     (if o1 = ''='' then cmp = 0
      else if o1 = ''<>'' then cmp \<noteq> 0
      else if o1 = ''<'' then cmp < 0
      else if o1 = ''<='' then cmp \<le> 0
      else if o1 = ''>'' then cmp > 0
      else cmp \<ge> 0)"

text \<open>Both operands are evaluated before either is tested for an error.\<close>

definition both :: "Value go \<Rightarrow> Value go \<Rightarrow> (Value \<Rightarrow> Value \<Rightarrow> Value go) \<Rightarrow> Value go" where
  "both x y f =
     go_bind x (\<lambda>left. go_bind y (\<lambda>right.
       if IsError left then ret left else if IsError right then ret right else f left right))"

definition arithmetic :: "platform \<Rightarrow> string \<Rightarrow> f64 \<Rightarrow> f64 \<Rightarrow> Value" where
  "arithmetic pl o1 l r =
     (if o1 = ''+'' then NumberVal (fadd l r)
      else if o1 = ''-'' then NumberVal (fsub l r)
      else if o1 = ''*'' then NumberVal (fmul l r)
      else if o1 = ''/'' then (if is_zero r then ErrorVal ErrDiv0 else NumberVal (fdiv l r))
      else if o1 = ''^'' then power_value pl l r
      else ErrorVal (errValue (''unknown operator '' @ o1)))"

definition evalBinary :: "platform \<Rightarrow> EvalContext \<Rightarrow> string \<Rightarrow> node \<Rightarrow> node \<Rightarrow> Value go \<Rightarrow> Value go \<Rightarrow> Value go" where
  "evalBinary pl ctx o1 l r x y =
     (if o1 \<in> set comparison_ops then
        both (evalOperand ctx l x) (evalOperand ctx r y) (\<lambda>left right.
          case compareValues left right of
            Inl e \<Rightarrow> fail e
          | Inr cmp \<Rightarrow> ret (BoolVal (compare_result o1 cmp)))
      else if o1 = ''&'' then both x y (\<lambda>left right. ret (StringVal (Text left @ Text right)))
      else both x y (\<lambda>left right.
        case (Number left, Number right) of
          (Some lnum, Some rnum) \<Rightarrow> ret (arithmetic pl o1 lnum rnum)
        | _ \<Rightarrow> fail ErrValue))"

definition evalUnary :: "string \<Rightarrow> Value go \<Rightarrow> Value go" where
  "evalUnary o1 x =
     on_value x (\<lambda>v. if o1 = ''-'' then on_number v (\<lambda>n. ret (NumberVal (fneg n))) else ret v)"

subsection \<open>Calls\<close>

definition builtins :: "(string \<times> builtin) list" where
  "builtins = scalar_builtins @ dim_builtins @ time_builtins"

definition evalCall :: "platform \<Rightarrow> EvalContext \<Rightarrow> string \<Rightarrow> node list \<Rightarrow> Value go list \<Rightarrow> Value go" where
  "evalCall pl ctx name args vals =
     (case map_of (Funcs ctx) name of
        Some fn \<Rightarrow> fn args vals
      | None \<Rightarrow>
          (case map_of builtins name of
             Some fn \<Rightarrow> fn pl ctx args vals
           | None \<Rightarrow> fail (mk_error ''#NAME?'' (''Unknown function: '' @ name))))"

subsection \<open>Evaluation\<close>

fun eval :: "platform \<Rightarrow> EvalContext \<Rightarrow> node \<Rightarrow> Value go" where
  "eval pl ctx (NumberLit v) = ret (NumberVal v)"
| "eval pl ctx (StringLit s) = ret (StringVal s)"
| "eval pl ctx (BoolLit b) = ret (BoolVal b)"
| "eval pl ctx (Ident name) = ret (eval_ident ctx name)"
| "eval pl ctx (DimProperty dm prop) = ret (evalDimProperty ctx dm prop)"
| "eval pl ctx (UnaryExpr o1 e) = evalUnary o1 (eval pl ctx e)"
| "eval pl ctx (BinaryExpr o1 l r) = evalBinary pl ctx o1 l r (eval pl ctx l) (eval pl ctx r)"
| "eval pl ctx (CallExpr name args) = evalCall pl ctx name args (map (eval pl ctx) args)"

definition safeEval :: "platform \<Rightarrow> EvalContext \<Rightarrow> node \<Rightarrow> Value" where
  "safeEval pl ctx n =
     (case eval pl ctx n of
        ret v \<Rightarrow> v
      | panic r \<Rightarrow> ErrorVal (errValue (''internal error while evaluating the formula: '' @ r)))"

definition EvalNode :: "platform \<Rightarrow> EvalContext \<Rightarrow> node \<Rightarrow> Value" where
  "EvalNode pl ctx n = safeEval pl ctx n"

subsection \<open>Entry points\<close>

text \<open>
  \<open>upperKeys\<close> copies a map under upper-cased keys, in the map's iteration order: of two keys
  that differ in case only the later one stays.
\<close>

definition upperKeys :: "(string \<times> Value) list \<Rightarrow> (string \<times> Value) list" where
  "upperKeys m = foldl (\<lambda>out (k, v). AList.update (ToUpper k) v out) [] m"

definition Eval :: "platform \<Rightarrow> string \<Rightarrow> (string \<times> Value) list option \<Rightarrow> string + Value" where
  "Eval pl s vars =
     (case parse s of
        Inl e \<Rightarrow> Inl e
      | Inr n \<Rightarrow> Inr (safeEval pl (empty_context\<lparr>Vars := map_option upperKeys vars\<rparr>) n))"

text \<open>\<open>EvalWithContext\<close> rebuilds a context that has variables; \<open>Blank\<close> is not carried over.\<close>

definition upper_context :: "EvalContext \<Rightarrow> EvalContext" where
  "upper_context ctx =
     (case Vars ctx of
        None \<Rightarrow> ctx
      | Some m \<Rightarrow> \<lparr>Vars = Some (upperKeys m), Blank = [], Funcs = Funcs ctx, Time = Time ctx, Dim = Dim ctx\<rparr>)"

definition EvalWithContext :: "platform \<Rightarrow> string \<Rightarrow> EvalContext \<Rightarrow> string + Value" where
  "EvalWithContext pl s ctx =
     (case parse s of Inl e \<Rightarrow> Inl e | Inr n \<Rightarrow> Inr (safeEval pl (upper_context ctx) n))"

datatype number_error = ParseError string | ResultError FormulaError

definition EvalNumber :: "platform \<Rightarrow> string \<Rightarrow> (string \<times> f64) list \<Rightarrow> number_error + f64" where
  "EvalNumber pl s vars =
     (case Eval pl s (Some (map (\<lambda>(k, v). (k, NumberVal v)) vars)) of
        Inl e \<Rightarrow> Inl (ParseError e)
      | Inr result \<Rightarrow>
          (case result of
             ErrorVal e \<Rightarrow> Inl (ResultError e)
           | _ \<Rightarrow> (case Number result of
                      None \<Rightarrow> Inl (ResultError (errValue ''formula did not produce a number''))
                    | Some n \<Rightarrow> Inr n)))"

definition Normalise :: "string \<Rightarrow> string" where
  "Normalise s = TrimPrefix (TrimSpace s) ''=''"

subsection \<open>The names of the built-ins\<close>

definition IsBuiltin :: "string \<Rightarrow> bool" where
  "IsBuiltin name \<longleftrightarrow> map_of builtins (ToUpper name) \<noteq> None"

definition BuiltinNames :: "string list" where
  "BuiltinNames = map fst builtins"

end
