(* ===== verification/Refs.thy ===== *)
theory Refs
  imports Eval
begin

text \<open>
  What a formula refers to and how it is checked and rewritten without evaluating it: the
  arity table and \<open>CheckArguments\<close> (\<open>internal/formula/arity.go\<close>), identifier and call
  extraction (\<open>refs.go\<close>, \<open>funcrefs.go\<close>) and renaming (\<open>rename.go\<close>).
\<close>

subsection \<open>Arity\<close>

definition arity :: "(string \<times> int \<times> int) list" where
  "arity =
     [(''IF'', 2, 3), (''IFS'', 2, -1), (''AND'', 1, -1), (''OR'', 1, -1), (''NOT'', 1, 1),
      (''IFERROR'', 2, 2), (''IFNA'', 2, 2), (''SWITCH'', 3, -1), (''ISBLANK'', 1, 1),
      (''ABS'', 1, 1), (''INT'', 1, 1), (''ROUND'', 2, 2), (''ROUNDUP'', 2, 2), (''ROUNDDOWN'', 2, 2),
      (''CEILING'', 2, 2), (''FLOOR'', 2, 2), (''MOD'', 2, 2), (''POWER'', 2, 2), (''SQRT'', 1, 1),
      (''SUM'', 1, -1), (''AVERAGE'', 1, -1), (''MIN'', 1, -1), (''MAX'', 1, -1), (''COUNT'', 1, -1),
      (''COUNTA'', 1, -1),
      (''CONCAT'', 1, -1), (''TEXTJOIN'', 3, -1), (''LEN'', 1, 1), (''LEFT'', 1, 2), (''RIGHT'', 1, 2),
      (''MID'', 3, 3), (''UPPER'', 1, 1), (''LOWER'', 1, 1), (''TRIM'', 1, 1), (''TEXT'', 2, 2),
      (''SUBSTITUTE'', 3, 4),
      (''TODAY'', 0, 0), (''DATE'', 3, 3), (''YEAR'', 1, 1), (''MONTH'', 1, 1), (''DAY'', 1, 1),
      (''DAYS'', 2, 2), (''EDATE'', 2, 2), (''EOMONTH'', 2, 2), (''DAYSINMONTH'', 2, 2),
      (''DAYSINYEAR'', 1, 1)]"

record AnalysisError =
  ACode :: string
  AMessage :: string

definition describeArity :: "int \<times> int \<Rightarrow> string" where
  "describeArity a =
     (case a of (lo, hi) \<Rightarrow>
        if hi = 0 then ''no arguments''
        else if hi < 0 then ''at least '' @ show_int lo
        else if lo = hi \<and> lo = 1 then ''1 argument''
        else if lo = hi then show_int lo @ '' arguments''
        else show_int lo @ '' to '' @ show_int hi @ '' arguments'')"

text \<open>The check of one call, by name and number of arguments.\<close>

definition call_arity :: "string \<Rightarrow> int \<Rightarrow> AnalysisError option" where
  "call_arity name k =
     (case map_of arity name of
        None \<Rightarrow> None
      | Some (lo, hi) \<Rightarrow>
          if k < lo \<or> 0 \<le> hi \<and> hi < k
          then Some \<lparr>ACode = Code ErrValue,
                 AMessage = name @ '': wrong number of arguments ('' @ show_int k @ ''); it takes '' @ describeArity (lo, hi)\<rparr>
          else if name = ''IFS'' \<and> k mod 2 \<noteq> 0
          then Some \<lparr>ACode = Code ErrValue,
                 AMessage = ''IFS: wrong number of arguments ('' @ show_int k @ ''); it takes condition, value pairs''\<rparr>
          else None)"

fun first_error :: "'e option list \<Rightarrow> 'e option" where
  "first_error [] = None"
| "first_error (None # es) = first_error es"
| "first_error (Some e # es) = Some e"

fun checkArity :: "node \<Rightarrow> AnalysisError option" where
  "checkArity (UnaryExpr _ e) = checkArity e"
| "checkArity (BinaryExpr _ l r) = first_error [checkArity l, checkArity r]"
| "checkArity (CallExpr name args) =
     first_error (call_arity name (int (length args)) # map checkArity args)"
| "checkArity _ = None"

datatype check_error = SyntaxError string | ArityError AnalysisError

definition CheckArguments :: "string \<Rightarrow> check_error option" where
  "CheckArguments s =
     (case parse s of Inl e \<Rightarrow> Some (SyntaxError e) | Inr n \<Rightarrow> map_option ArityError (checkArity n))"

subsection \<open>References\<close>

definition isKeywordArg :: "string \<Rightarrow> nat \<Rightarrow> bool" where
  "isKeywordArg name i \<longleftrightarrow> name \<in> {''LAG'', ''LEAD'', ''MOVINGSUM'', ''TIMESUM''} \<and> i = 3"

text \<open>The names seen so far, upper-cased, and the names collected, as first written.\<close>

type_synonym names = "string list \<times> string list"

definition see :: "string \<Rightarrow> names \<Rightarrow> names" where
  "see name st = (case st of (seen, out) \<Rightarrow>
     if ToUpper name \<in> set seen then (seen, out) else (ToUpper name # seen, out @ [name]))"

fun walkIdents :: "node \<Rightarrow> names \<Rightarrow> names"
  and walkIdentArgs :: "string \<Rightarrow> nat \<Rightarrow> node list \<Rightarrow> names \<Rightarrow> names" where
  "walkIdents (Ident name) st = see name st"
| "walkIdents (UnaryExpr _ e) st = walkIdents e st"
| "walkIdents (BinaryExpr _ l r) st = walkIdents r (walkIdents l st)"
| "walkIdents (CallExpr name args) st = walkIdentArgs name 0 args st"
| "walkIdents _ st = st"
| "walkIdentArgs name i [] st = st"
| "walkIdentArgs name i (a # as) st =
     walkIdentArgs name (i + 1) as (if isKeywordArg name i then st else walkIdents a st)"

definition ExtractIdents :: "string \<Rightarrow> string + string list" where
  "ExtractIdents s = (case parse s of Inl e \<Rightarrow> Inl e | Inr n \<Rightarrow> Inr (snd (walkIdents n ([], []))))"

definition ExtractRefs :: "string \<Rightarrow> string + string list" where
  "ExtractRefs s = ExtractIdents s"

fun walkCalls :: "node \<Rightarrow> names \<Rightarrow> names"
  and walkCallArgs :: "node list \<Rightarrow> names \<Rightarrow> names" where
  "walkCalls (UnaryExpr _ e) st = walkCalls e st"
| "walkCalls (BinaryExpr _ l r) st = walkCalls r (walkCalls l st)"
| "walkCalls (CallExpr name args) st = walkCallArgs args (see name st)"
| "walkCalls _ st = st"
| "walkCallArgs [] st = st"
| "walkCallArgs (a # as) st = walkCallArgs as (walkCalls a st)"

definition ExtractCalls :: "string \<Rightarrow> string + string list" where
  "ExtractCalls s = (case parse s of Inl e \<Rightarrow> Inl e | Inr n \<Rightarrow> Inr (snd (walkCalls n ([], []))))"

subsection \<open>Renaming\<close>

text \<open>
  Both renamings copy the source between the tokens they replace: \<open>last\<close> is the position up
  to which the source is already in the output.
\<close>

definition source_slice :: "string \<Rightarrow> nat \<Rightarrow> nat \<Rightarrow> string" where
  "source_slice src i j = take (j - i) (drop i src)"

record rewrite =
  out :: string
  lastPos :: nat
  changed :: bool

definition property_step :: "string \<Rightarrow> string \<Rightarrow> string \<Rightarrow> string \<Rightarrow> rewrite \<Rightarrow> Token \<Rightarrow> rewrite" where
  "property_step src dm oldProp newProp b t =
     (if Type t \<noteq> tokDotted \<or> \<not> EqualFold (Token.Dim t) dm \<or> \<not> EqualFold (Prop t) oldProp then b
      else let propStart = Pos t + length (Val t) - length (Prop t)
           in \<lparr>out = out b @ source_slice src (lastPos b) propStart @ newProp,
               lastPos = propStart + length (Prop t), changed = True\<rparr>)"

definition finish_rewrite :: "string \<Rightarrow> rewrite \<Rightarrow> string \<times> bool" where
  "finish_rewrite src b = (if \<not> changed b then (src, False) else (out b @ drop (lastPos b) src, True))"

definition RenameProperty :: "string \<Rightarrow> string \<Rightarrow> string \<Rightarrow> string \<Rightarrow> string \<times> bool" where
  "RenameProperty src dm oldProp newProp =
     finish_rewrite src (foldl (property_step src dm oldProp newProp)
       \<lparr>out = [], lastPos = 0, changed = False\<rparr> (lex src))"

definition ident_step :: "string \<Rightarrow> string \<Rightarrow> string \<Rightarrow> rewrite \<Rightarrow> Token \<Rightarrow> Token option \<Rightarrow> rewrite" where
  "ident_step src old new b t next =
     (if Type t \<noteq> tokIdent \<or> \<not> EqualFold (Val t) old then b
      else if next \<noteq> None \<and> Type (the next) = tokLParen then b
      else let width = length (Val t) + (if Pos t < length src \<and> src ! Pos t = CHR 0x7B then 2 else 0)
           in \<lparr>out = out b @ source_slice src (lastPos b) (Pos t) @ QuoteName new,
               lastPos = Pos t + width, changed = True\<rparr>)"

fun ident_loop :: "string \<Rightarrow> string \<Rightarrow> string \<Rightarrow> rewrite \<Rightarrow> Token list \<Rightarrow> rewrite" where
  "ident_loop src old new b [] = b"
| "ident_loop src old new b (t # ts) =
     ident_loop src old new (ident_step src old new b t (case ts of [] \<Rightarrow> None | u # _ \<Rightarrow> Some u)) ts"

definition RenameIdent :: "string \<Rightarrow> string \<Rightarrow> string \<Rightarrow> string \<times> bool" where
  "RenameIdent src old new =
     finish_rewrite src (ident_loop src old new \<lparr>out = [], lastPos = 0, changed = False\<rparr> (lex src))"

end
