(* ===== verification/Analyze.thy ===== *)
theory Analyze
  imports Refs
begin

text \<open>
  Semantic analysis of a formula (\<open>internal/formula/analyze.go\<close>): one walk over the syntax
  tree that records, for every name the formula reads, the window of periods it is read at,
  together with the property references, dimension arguments and dimensional calls. The
  analyzer's mutable fields are the record \<open>analyzer\<close>, threaded through the walk; an
  \<open>AnalysisError\<close> ends it.
\<close>

subsection \<open>Data\<close>

record ReferenceUse =
  Name :: string
  MinTimeOffset :: int
  MaxTimeOffset :: int
  UnboundedPast :: bool
  UnboundedFuture :: bool
  Dimensional :: bool
  OverriddenDims :: "string list"

record PropertyRef =
  PDim :: string
  PProperty :: string

datatype ArgKind = ArgLiteral | ArgMemberLocal | ArgValueDependent

record DimensionalArg =
  ArgDim :: string
  ArgProperty :: string
  ArgK :: ArgKind
  ArgValue :: Value
  ArgNames :: "string list"
  ArgExpr :: node

record DimensionalCall =
  CallFunc :: string
  CallSource :: string
  CallDims :: "string list"
  CallMembers :: "DimensionalArg list"
  CallCriteria :: "DimensionalArg list"

record TimeSumCall =
  Ranged :: bool
  SumStart :: "DimensionalArg option"
  SumEnd :: "DimensionalArg option"

definition IsDirect :: "ReferenceUse \<Rightarrow> bool" where
  "IsDirect r \<longleftrightarrow>
     MinTimeOffset r = 0 \<and> MaxTimeOffset r = 0 \<and> \<not> UnboundedPast r \<and> \<not> UnboundedFuture r"

definition LiteralCode :: "DimensionalArg \<Rightarrow> string \<times> bool" where
  "LiteralCode a =
     (if ArgK a \<noteq> ArgLiteral \<or> IsError (ArgValue a) then ([], False) else memberCode (ArgValue a))"

text \<open>The window of source offsets, 64-bit integers.\<close>

record window =
  wmin :: int
  wmax :: int
  unbPast :: bool
  unbFuture :: bool

definition shift :: "window \<Rightarrow> int \<Rightarrow> window" where
  "shift w k = w\<lparr>wmin := wrap64 (wmin w + k), wmax := wrap64 (wmax w + k)\<rparr>"

definition widen :: "window \<Rightarrow> int \<Rightarrow> int \<Rightarrow> bool \<Rightarrow> bool \<Rightarrow> window" where
  "widen w a b past future =
     \<lparr>wmin = wrap64 (wmin w + a), wmax = wrap64 (wmax w + b),
      unbPast = (unbPast w \<or> past), unbFuture = (unbFuture w \<or> future)\<rparr>"

definition zero_window :: window where
  "zero_window = \<lparr>wmin = 0, wmax = 0, unbPast = False, unbFuture = False\<rparr>"

text \<open>\<open>refs\<close> and \<open>order\<close> together: the references in the order they were first met.\<close>

record analyzer =
  refs :: "ReferenceUse list"
  calls :: "string list"
  usesTime :: bool
  servedFromRows :: bool
  propRefs :: "PropertyRef list"
  dimArgs :: "string list"
  dimCalls :: "DimensionalCall list"
  timeSums :: "TimeSumCall list"
  rangeNames :: "string list"

definition empty_analyzer :: analyzer where
  "empty_analyzer = \<lparr>refs = [], calls = [], usesTime = False, servedFromRows = False, propRefs = [],
     dimArgs = [], dimCalls = [], timeSums = [], rangeNames = []\<rparr>"

subsection \<open>Recording\<close>

definition new_ref :: "string \<Rightarrow> window \<Rightarrow> ReferenceUse" where
  "new_ref name w = \<lparr>Name = name, MinTimeOffset = wmin w, MaxTimeOffset = wmax w,
     UnboundedPast = unbPast w, UnboundedFuture = unbFuture w, Dimensional = False, OverriddenDims = []\<rparr>"

definition join_ref :: "window \<Rightarrow> ReferenceUse \<Rightarrow> ReferenceUse" where
  "join_ref w r = r\<lparr>MinTimeOffset := (if wmin w < MinTimeOffset r then wmin w else MinTimeOffset r),
     MaxTimeOffset := (if MaxTimeOffset r < wmax w then wmax w else MaxTimeOffset r),
     UnboundedPast := (UnboundedPast r \<or> unbPast w),
     UnboundedFuture := (UnboundedFuture r \<or> unbFuture w)\<rparr>"

definition has_ref :: "string \<Rightarrow> ReferenceUse list \<Rightarrow> bool" where
  "has_ref name rs \<longleftrightarrow> list_ex (\<lambda>r. ToUpper (Name r) = ToUpper name) rs"

definition update_ref :: "string \<Rightarrow> (ReferenceUse \<Rightarrow> ReferenceUse) \<Rightarrow> ReferenceUse list \<Rightarrow> ReferenceUse list" where
  "update_ref name f rs = map (\<lambda>r. if ToUpper (Name r) = ToUpper name then f r else r) rs"

definition ref :: "string \<Rightarrow> window \<Rightarrow> analyzer \<Rightarrow> analyzer" where
  "ref name w a =
     a\<lparr>refs := (if has_ref name (refs a) then update_ref name (join_ref w) (refs a)
               else refs a @ [new_ref name w])\<rparr>"

definition add_fold :: "string \<Rightarrow> string list \<Rightarrow> string list" where
  "add_fold s list = (if containsFold list s then list else list @ [s])"

definition call_name :: "string \<Rightarrow> analyzer \<Rightarrow> analyzer" where
  "call_name name a = a\<lparr>calls := add_fold name (calls a)\<rparr>"

definition propertyRef :: "string \<Rightarrow> string \<Rightarrow> analyzer \<Rightarrow> analyzer" where
  "propertyRef dm prop a =
     (if list_ex (\<lambda>p. EqualFold (PDim p) dm \<and> EqualFold (PProperty p) prop) (propRefs a) then a
      else a\<lparr>propRefs := propRefs a @ [\<lparr>PDim = dm, PProperty = prop\<rparr>]\<rparr>)"

definition note_dimension :: "string \<Rightarrow> analyzer \<Rightarrow> analyzer" where
  "note_dimension dm a = a\<lparr>dimArgs := add_fold dm (dimArgs a)\<rparr>"

definition note_range :: "string \<Rightarrow> analyzer \<Rightarrow> analyzer" where
  "note_range dm a = a\<lparr>rangeNames := add_fold dm (rangeNames a)\<rparr>"

definition override_dims :: "string list \<Rightarrow> ReferenceUse \<Rightarrow> ReferenceUse" where
  "override_dims dims r = r\<lparr>Dimensional := True, OverriddenDims := foldl (\<lambda>ds d. add_fold d ds) (OverriddenDims r) dims\<rparr>"

definition dimensionalRef :: "string \<Rightarrow> window \<Rightarrow> string list \<Rightarrow> analyzer \<Rightarrow> analyzer" where
  "dimensionalRef source w dims a =
     (let a = ref source w a in a\<lparr>refs := update_ref source (override_dims dims) (refs a)\<rparr>)"

subsection \<open>Classification of arguments\<close>

definition maxArgKind :: "ArgKind \<Rightarrow> ArgKind \<Rightarrow> ArgKind" where
  "maxArgKind a b =
     (if a = ArgValueDependent \<or> b = ArgValueDependent then ArgValueDependent
      else if a = ArgMemberLocal \<or> b = ArgMemberLocal then ArgMemberLocal else ArgLiteral)"

fun classifyNode :: "node \<Rightarrow> string list \<Rightarrow> ArgKind \<times> string list"
  and classifyArgs :: "node list \<Rightarrow> ArgKind \<Rightarrow> string list \<Rightarrow> ArgKind \<times> string list" where
  "classifyNode (NumberLit _) names = (ArgLiteral, names)"
| "classifyNode (StringLit _) names = (ArgLiteral, names)"
| "classifyNode (BoolLit _) names = (ArgLiteral, names)"
| "classifyNode (Ident name) names = (ArgMemberLocal, add_fold name names)"
| "classifyNode (DimProperty dm _) names = (ArgMemberLocal, add_fold dm names)"
| "classifyNode (UnaryExpr _ e) names = classifyNode e names"
| "classifyNode (BinaryExpr _ l r) names =
     (let (k1, names) = classifyNode l names; (k2, names) = classifyNode r names
      in (maxArgKind k1 k2, names))"
| "classifyNode (CallExpr name args) names =
     (if name = ''PARENT'' then
        (case args of [Ident dm] \<Rightarrow> (ArgMemberLocal, add_fold dm names) | _ \<Rightarrow> (ArgValueDependent, names))
      else if IsTimeFunction name \<or> IsDimensionalFunction name \<or> name = ''TODAY'' \<or> \<not> IsBuiltin name
      then (ArgValueDependent, names)
      else classifyArgs args ArgLiteral names)"
| "classifyArgs [] akind names = (akind, names)"
| "classifyArgs (a # as) akind names =
     (let (k, names) = classifyNode a names in classifyArgs as (maxArgKind akind k) names)"

text \<open>A literal argument carries its constant value, computed in the empty context.\<close>

definition classifyArg :: "platform \<Rightarrow> node \<Rightarrow> string \<Rightarrow> string \<Rightarrow> DimensionalArg" where
  "classifyArg pl n dm prop =
     (let (akind, names) = classifyNode n []
      in \<lparr>ArgDim = dm, ArgProperty = prop, ArgK = akind,
          ArgValue = (if akind = ArgLiteral then EvalNode pl empty_context n else NumberVal (Fin 0)),
          ArgNames = names, ArgExpr = n\<rparr>)"

subsection \<open>The walk\<close>

type_synonym walker = "window \<Rightarrow> analyzer \<Rightarrow> AnalysisError + analyzer"

definition andThen :: "'e + 'a \<Rightarrow> ('a \<Rightarrow> 'e + 'b) \<Rightarrow> 'e + 'b" where
  "andThen r f = (case r of Inl e \<Rightarrow> Inl e | Inr x \<Rightarrow> f x)"

lemma andThen_simps [simp]: "andThen (Inl e) f = Inl e" "andThen (Inr x) f = f x"
  by (simp_all add: andThen_def)

definition toAnalysisError :: "FormulaError + 'a \<Rightarrow> AnalysisError + 'a" where
  "toAnalysisError r = map_sum (\<lambda>e. \<lparr>ACode = Code e, AMessage = Message e\<rparr>) id r"

definition value_error :: "string \<Rightarrow> AnalysisError" where
  "value_error m = \<lparr>ACode = ''#VALUE!'', AMessage = m\<rparr>"

definition argCount :: "string \<Rightarrow> node list \<Rightarrow> nat \<Rightarrow> nat \<Rightarrow> AnalysisError + unit" where
  "argCount name args lo hi =
     (if length args < lo \<or> hi < length args
      then Inl (value_error (name @ '': wrong number of arguments ('' @ show_int (int (length args)) @ '')''))
      else Inr ())"

definition literalOffset :: "node \<Rightarrow> string \<Rightarrow> AnalysisError + int" where
  "literalOffset n fn = toAnalysisError (IntegerLiteral n fn)"

definition keyword :: "node \<Rightarrow> string \<Rightarrow> string list \<Rightarrow> AnalysisError + string" where
  "keyword n fn allowed = toAnalysisError (keywordArg n fn allowed)"

definition strictnesses :: "string list" where
  "strictnesses = [''NONSTRICT'', ''SEMISTRICT'', ''STRICT'']"

definition analysisSource :: "node \<Rightarrow> string \<Rightarrow> AnalysisError + string" where
  "analysisSource n fn = toAnalysisError (sourceArg n fn)"

definition optional_keyword :: "node list \<Rightarrow> string \<Rightarrow> string list \<Rightarrow> AnalysisError + unit" where
  "optional_keyword args fn allowed =
     (if length args = 4 then andThen (keyword (args ! 3) fn allowed) (\<lambda>_. Inr ()) else Inr ())"

definition serve_rows :: "analyzer \<Rightarrow> analyzer" where
  "serve_rows a = a\<lparr>servedFromRows := True\<rparr>"

definition walkDynamicOffset :: "string \<Rightarrow> node list \<Rightarrow> walker list \<Rightarrow> walker" where
  "walkDynamicOffset name args ws w a =
     andThen (optional_keyword args name strictnesses) (\<lambda>_.
     andThen ((ws ! 0) (widen w 0 0 True True) (serve_rows a)) (\<lambda>a.
     andThen ((ws ! 1) w a) (\<lambda>a. (ws ! 2) w a)))"

definition walkLag :: "string \<Rightarrow> node list \<Rightarrow> walker list \<Rightarrow> walker" where
  "walkLag name args ws w a =
     andThen (argCount name args 3 (if name = ''OFFSET'' then 3 else 4)) (\<lambda>_.
       if \<not> IsOffsetLiteral (args ! 1) then walkDynamicOffset name args ws w a
       else andThen (literalOffset (args ! 1) name) (\<lambda>k.
         andThen (optional_keyword args name strictnesses) (\<lambda>_.
         andThen ((ws ! 0) (shift w (if name = ''LAG'' then wrap64 (- k) else k)) a) (\<lambda>a. (ws ! 2) w a))))"

definition movingWindow :: "node list \<Rightarrow> string \<Rightarrow> window \<Rightarrow> AnalysisError + window" where
  "movingWindow args name w =
     (if length args = 1 then Inr (widen w 0 0 True True)
      else andThen (literalOffset (args ! 1) name) (\<lambda>start.
        if length args = 2 then Inr (widen w start start False True)
        else andThen (literalOffset (args ! 2) name) (\<lambda>end.
          let src = widen w (min start end) (max start end) False False
          in andThen (optional_keyword args name movingMethods) (\<lambda>_. Inr src))))"

definition timesum_error :: "node list \<Rightarrow> AnalysisError" where
  "timesum_error args =
     value_error (''TIMESUM: expected 1, 3 or 4 arguments (x [, start, end [, method]]), got '' @ show_int (int (length args)))"

definition walkTimeSum :: "platform \<Rightarrow> node list \<Rightarrow> walker list \<Rightarrow> walker" where
  "walkTimeSum pl args ws w a =
     (let k = length args
      in if k \<noteq> 1 \<and> k \<noteq> 3 \<and> k \<noteq> 4 then Inl (timesum_error args)
         else let slot = length (timeSums a); call = \<lparr>Ranged = (3 \<le> k), SumStart = None, SumEnd = None\<rparr>;
                  a = serve_rows a; a = a\<lparr>timeSums := timeSums a @ [call]\<rparr>
         in andThen (optional_keyword args ''TIMESUM'' movingMethods) (\<lambda>_.
            andThen ((ws ! 0) (widen w 0 0 True True) a) (\<lambda>a.
              if k < 3 then Inr a
              else andThen ((ws ! 1) w a) (\<lambda>a. andThen ((ws ! 2) w a) (\<lambda>a.
                Inr (a\<lparr>timeSums := (timeSums a)[slot := call\<lparr>SumStart := Some (classifyArg pl (args ! 1) [] []),
                                                       SumEnd := Some (classifyArg pl (args ! 2) [] [])\<rparr>]\<rparr>))))))"

definition walkTimeCall :: "platform \<Rightarrow> string \<Rightarrow> node list \<Rightarrow> walker list \<Rightarrow> walker" where
  "walkTimeCall pl name args ws w a =
     (if name = ''PREVIOUS'' then andThen (argCount name args 1 1) (\<lambda>_. (ws ! 0) (shift w (- 1)) a)
      else if name = ''NEXT'' then andThen (argCount name args 1 1) (\<lambda>_. (ws ! 0) (shift w 1) a)
      else if name \<in> {''LAG'', ''LEAD'', ''OFFSET''} then walkLag name args ws w a
      else if name = ''MOVINGSUM'' then
        andThen (argCount name args 1 4) (\<lambda>_. andThen (movingWindow args name w) (\<lambda>src. (ws ! 0) src a))
      else if name = ''CUMULATE'' then
        andThen (argCount name args 1 2) (\<lambda>_. andThen ((ws ! 0) (widen w 0 0 True False) a) (\<lambda>a.
          if length args = 2 then (ws ! 1) (widen w 0 0 True False) a else Inr a))
      else if name = ''DECUMULATE'' then
        andThen (argCount name args 1 1) (\<lambda>_. (ws ! 0) (widen w (- 1) 0 False False) a)
      else if name \<in> {''MONTHTODATE'', ''QUARTERTODATE'', ''HALFYEARTODATE'', ''YEARTODATE''} then
        andThen (argCount name args 1 1) (\<lambda>_. (ws ! 0) (widen w 0 0 True False) a)
      else if name \<in> {''MONTHVALUE'', ''QUARTERVALUE'', ''HALFYEARVALUE'', ''YEARVALUE''} then
        andThen (argCount name args 1 1) (\<lambda>_. andThen (analysisSource (args ! 0) name) (\<lambda>source.
          Inr (dimensionalRef source (widen w 0 0 True True) [] (serve_rows a))))
      else if name = ''TIMESUM'' then walkTimeSum pl args ws w a
      else if name \<in> {''START'', ''END''} then andThen (argCount name args 0 0) (\<lambda>_. Inr a)
      else Inl \<lparr>ACode = ''#NAME?'', AMessage = ''unsupported time function '' @ name\<rparr>)"

text \<open>Walk the expressions paired with a dimension in order, collecting their classifications.\<close>

fun walk_members :: "platform \<Rightarrow> (string \<times> node \<times> walker) list \<Rightarrow> window \<Rightarrow> DimensionalArg list \<Rightarrow>
    analyzer \<Rightarrow> AnalysisError + DimensionalArg list \<times> analyzer" where
  "walk_members pl [] w ms a = Inr (ms, a)"
| "walk_members pl ((dm, n, wk) # rest) w ms a =
     andThen (wk w (note_dimension dm a)) (\<lambda>a. walk_members pl rest w (ms @ [classifyArg pl n dm []]) a)"

fun walk_criteria :: "platform \<Rightarrow> (criteriaRange \<times> node \<times> walker) list \<Rightarrow> window \<Rightarrow> DimensionalArg list \<Rightarrow>
    analyzer \<Rightarrow> AnalysisError + DimensionalArg list \<times> analyzer" where
  "walk_criteria pl [] w cs a = Inr (cs, a)"
| "walk_criteria pl ((r, n, wk) # rest) w cs a =
     (let a = note_dimension (rdim r) a;
          a = (if rprop r \<noteq> [] then propertyRef (rdim r) (rprop r) a else note_range (rdim r) a)
      in andThen (wk w a) (\<lambda>a. walk_criteria pl rest w (cs @ [classifyArg pl n (rdim r) (rprop r)]) a))"

definition empty_call :: DimensionalCall where
  "empty_call = \<lparr>CallFunc = [], CallSource = [], CallDims = [], CallMembers = [], CallCriteria = []\<rparr>"

definition walkLookup :: "platform \<Rightarrow> string \<Rightarrow> node list \<Rightarrow> walker list \<Rightarrow> walker" where
  "walkLookup pl name args ws w a =
     (if length args < 3 \<or> length args mod 2 = 0
      then Inl (value_error (''LOOKUP: expected a source followed by dimension, member pairs ('' @
             show_int (int (length args)) @ '' arguments)''))
      else andThen (analysisSource (args ! 0) name) (\<lambda>source.
        andThen (toAnalysisError (lookup_dims name [] (map fst (pairs_of (tl args))))) (\<lambda>dims.
          let a = dimensionalRef source w dims (serve_rows a); slot = length (dimCalls a);
              a = a\<lparr>dimCalls := dimCalls a @ [empty_call]\<rparr>;
              members = map snd (pairs_of (tl (zip args ws)))
          in andThen (walk_members pl (zip dims members) w [] a) (\<lambda>(ms, a).
            Inr (a\<lparr>dimCalls := (dimCalls a)[slot := \<lparr>CallFunc = name, CallSource = source, CallDims = dims,
                    CallMembers = ms, CallCriteria = []\<rparr>]\<rparr>)))))"

definition walkConditional :: "platform \<Rightarrow> string \<Rightarrow> node list \<Rightarrow> walker list \<Rightarrow> walker" where
  "walkConditional pl name args ws w a =
     andThen (toAnalysisError (conditionalShape name (zip args ws))) (\<lambda>(sourceNode, pairs).
     andThen (case sourceNode of None \<Rightarrow> Inr [] | Some (n, _) \<Rightarrow> analysisSource n name) (\<lambda>source.
     andThen (toAnalysisError (eval_ranges name (map (fst \<circ> fst) pairs))) (\<lambda>ranges.
       let dims = foldl add_dim [] (map rdim ranges); a = serve_rows a;
           a = (if source \<noteq> [] then dimensionalRef source w dims a else a);
           slot = length (dimCalls a); a = a\<lparr>dimCalls := dimCalls a @ [empty_call]\<rparr>
       in andThen (walk_criteria pl (zip ranges (map snd pairs)) w [] a) (\<lambda>(cs, a).
         Inr (a\<lparr>dimCalls := (dimCalls a)[slot := \<lparr>CallFunc = name, CallSource = source, CallDims = dims,
                 CallMembers = [], CallCriteria = cs\<rparr>]\<rparr>)))))"

definition walkDimCall :: "platform \<Rightarrow> string \<Rightarrow> node list \<Rightarrow> walker list \<Rightarrow> walker" where
  "walkDimCall pl name args ws w a =
     (if name = ''PARENT'' then
        andThen (argCount name args 1 1) (\<lambda>_. andThen (toAnalysisError (dimensionArg (args ! 0) name)) (\<lambda>dm.
          Inr (note_dimension dm a)))
      else if name = ''LOOKUP'' then walkLookup pl name args ws w a
      else walkConditional pl name args ws w a)"

fun walk_all :: "walker list \<Rightarrow> walker" where
  "walk_all [] w a = Inr a"
| "walk_all (wk # ws) w a = andThen (wk w a) (\<lambda>a. walk_all ws w a)"

definition walkCall :: "platform \<Rightarrow> string \<Rightarrow> node list \<Rightarrow> walker list \<Rightarrow> walker" where
  "walkCall pl name args ws w a =
     (let a = call_name name a
      in if IsTimeFunction name then walkTimeCall pl name args ws w (a\<lparr>usesTime := True\<rparr>)
         else if name = ''PARENT'' \<or> IsDimensionalFunction name then walkDimCall pl name args ws w a
         else walk_all ws w a)"

fun walk :: "platform \<Rightarrow> node \<Rightarrow> walker" where
  "walk pl (Ident name) = (\<lambda>w a. Inr (ref name w a))"
| "walk pl (DimProperty dm prop) = (\<lambda>w a. Inr (propertyRef dm prop a))"
| "walk pl (UnaryExpr _ e) = walk pl e"
| "walk pl (BinaryExpr _ l r) = (\<lambda>w a. andThen (walk pl l w a) (\<lambda>a. walk pl r w a))"
| "walk pl (CallExpr name args) = walkCall pl name args (map (walk pl) args)"
| "walk pl _ = (\<lambda>w a. Inr a)"

definition AnalyzeNode :: "platform \<Rightarrow> node \<Rightarrow> AnalysisError + analyzer" where
  "AnalyzeNode pl n = walk pl n zero_window empty_analyzer"

datatype analyze_error = AnalyzeSyntax string | AnalyzeSemantic AnalysisError

definition Analyze :: "platform \<Rightarrow> string \<Rightarrow> analyze_error + analyzer" where
  "Analyze pl s =
     (case parse s of Inl e \<Rightarrow> Inl (AnalyzeSyntax e) | Inr n \<Rightarrow> map_sum AnalyzeSemantic id (AnalyzeNode pl n))"

end
