(* ===== verification/TimeDim.thy ===== *)
theory TimeDim
  imports TimeFns "HOL-Library.Product_Lexorder" "HOL-Library.List_Lexorder" "HOL-Library.Char_ord"
    "HOL-Library.Multiset"
begin

text \<open>
  The time dimension of \<open>internal/timedim/timedim.go\<close>: its configuration, what a well-formed
  period and a well-formed set of periods are, the interval keys, the period generator, the
  leaf/aggregate hierarchy of members, and the renumbering of the leaf periods.

  The checks return the error message or the value they accept; every error has the code
  INVALID_TIME_MEMBER. The rows of a dimension are a list: \<open>LoadConfig\<close> and \<open>LoadMembers\<close> read
  them from the database, and \<open>ValidateAndReindex\<close> is what the transaction does to them. The
  database's order on texts is the parameter \<open>collate\<close>.
\<close>

subsection \<open>Configuration\<close>

record Config =
  c_Type :: string
  c_Granularity :: string
  c_FiscalYearStartMonth :: int

definition Granularities :: "string list" where
  "Granularities = [''day'', ''week'', ''month'', ''quarter'', ''half_year'', ''year'', ''custom'']"

definition TimeSummaries :: "string list" where
  "TimeSummaries = [''sum'', ''average'', ''min'', ''max'', ''first'', ''last'', ''none'']"

definition ValidTimeSummary :: "string \<Rightarrow> bool" where
  "ValidTimeSummary s \<longleftrightarrow> s \<in> set TimeSummaries"

definition validGranularity :: "string \<Rightarrow> bool" where
  "validGranularity g \<longleftrightarrow> g \<in> set Granularities"

definition show_list :: "string list \<Rightarrow> string" where
  "show_list xs = ''['' @ Join xs '' '' @ '']''"

definition ValidateConfig :: "Config \<Rightarrow> string + Config" where
  "ValidateConfig c0 =
     (let c = (if c_Type c0 = [] then c0\<lparr>c_Type := ''standard''\<rparr> else c0)
      in if c_Type c = ''standard'' then
           if c_Granularity c \<noteq> [] \<or> c_FiscalYearStartMonth c \<noteq> 0
           then Inl ''time_granularity and fiscal_year_start_month apply only to a time dimension''
           else Inr c
         else if c_Type c = ''time'' then
           if \<not> validGranularity (c_Granularity c)
           then Inl (''time_granularity is required for a time dimension (one of '' @ show_list Granularities @ '')'')
           else if c_FiscalYearStartMonth c < 1 \<or> 12 < c_FiscalYearStartMonth c
           then Inl ''fiscal_year_start_month is required for a time dimension (1-12)''
           else Inr c
         else Inl (''dimension_type must be '' @ go_quote ''standard'' @ '' or '' @ go_quote ''time''))"

subsection \<open>Periods\<close>

record Period =
  p_Code :: string
  p_Start :: instant
  p_End :: instant

definition ParseDate :: "string \<Rightarrow> string + instant" where
  "ParseDate s =
     (case parse_iso s of
        None \<Rightarrow> Inl (''invalid date '' @ go_quote s @ '' (want YYYY-MM-DD)'')
      | Some t \<Rightarrow> Inr t)"

definition ymd :: "instant \<Rightarrow> string" where
  "ymd t = format_iso t"

definition period_key :: "Period \<Rightarrow> instant \<times> instant \<times> string" where
  "period_key p = (p_Start p, p_End p, p_Code p)"

definition SortPeriods :: "Period list \<Rightarrow> Period list" where
  "SortPeriods ps = sort_key period_key ps"

definition monthsFromFiscalStart :: "instant \<Rightarrow> int \<Rightarrow> int" where
  "monthsFromFiscalStart t fiscalStart =
     (let fiscalStart = (if fiscalStart < 1 then 1 else fiscalStart)
      in go_rem ((month_of t - fiscalStart) + 12) 12)"

text \<open>\<open>AddDate\<close> with a number of years.\<close>

definition AddYears :: "instant \<Rightarrow> int \<Rightarrow> int \<Rightarrow> instant" where
  "AddYears t years days =
     go_date (year_of t + years) (month_of t) (wrap64 (day_of t + days)) + t mod ns_per_day"

definition ValidatePeriod :: "Config \<Rightarrow> Period \<Rightarrow> string option" where
  "ValidatePeriod cfg p =
     (let g = c_Granularity cfg; q = go_quote (p_Code p); s = p_Start p; e = p_End p;
          months = monthsFromFiscalStart s (c_FiscalYearStartMonth cfg)
      in if e < s then Some (''period '' @ q @ '' ends ('' @ ymd e @ '') before it starts ('' @ ymd s @ '')'')
         else if g = ''custom'' then None
         else if g = ''day'' then
           (if e \<noteq> s then Some (''period '' @ q @ '': a day period must start and end on the same date'') else None)
         else if g = ''week'' then
           (if e \<noteq> AddDate s 0 6 then Some (''period '' @ q @ '': a week period must span exactly 7 days'') else None)
         else if g = ''month'' then
           (if day_of s \<noteq> 1 \<or> e \<noteq> AddDate s 1 (- 1)
            then Some (''period '' @ q @ '': a month period must run from the 1st to the last day of one month'') else None)
         else if g = ''quarter'' then
           (if day_of s \<noteq> 1 \<or> go_rem months 3 \<noteq> 0 \<or> e \<noteq> AddDate s 3 (- 1)
            then Some (''period '' @ q @ '': a quarter period must start on a fiscal quarter boundary and span 3 months'') else None)
         else if g = ''half_year'' then
           (if day_of s \<noteq> 1 \<or> go_rem months 6 \<noteq> 0 \<or> e \<noteq> AddDate s 6 (- 1)
            then Some (''period '' @ q @ '': a half-year period must start on a fiscal half-year boundary and span 6 months'') else None)
         else if g = ''year'' then
           (if day_of s \<noteq> 1 \<or> months \<noteq> 0 \<or> e \<noteq> AddYears s 1 (- 1)
            then Some (''period '' @ q @ '': a year period must start in fiscal month '' @
              show_int (c_FiscalYearStartMonth cfg) @ '' and span 12 months'') else None)
         else Some (''unknown time granularity '' @ go_quote g))"

definition overlap_error :: "Period \<Rightarrow> Period \<Rightarrow> string" where
  "overlap_error prev cur =
     ''periods '' @ go_quote (p_Code prev) @ '' ('' @ ymd (p_Start prev) @ ''..'' @ ymd (p_End prev) @ '') and '' @
     go_quote (p_Code cur) @ '' ('' @ ymd (p_Start cur) @ ''..'' @ ymd (p_End cur) @ '') overlap''"

definition gap_error :: "Config \<Rightarrow> Period \<Rightarrow> Period \<Rightarrow> string" where
  "gap_error cfg prev cur =
     ''gap between periods '' @ go_quote (p_Code prev) @ '' (ends '' @ ymd (p_End prev) @ '') and '' @
     go_quote (p_Code cur) @ '' (starts '' @ ymd (p_Start cur) @ ''): a '' @ c_Granularity cfg @
     '' dimension must be contiguous''"

fun neighbours :: "Config \<Rightarrow> Period list \<Rightarrow> string option" where
  "neighbours cfg (prev # cur # ps) =
     (if p_Start cur \<le> p_End prev then Some (overlap_error prev cur)
      else if c_Granularity cfg \<noteq> ''custom'' \<and> p_Start cur \<noteq> AddDate (p_End prev) 0 1
      then Some (gap_error cfg prev cur)
      else neighbours cfg (cur # ps))"
| "neighbours cfg ps = None"

text \<open>\<open>ps\<close> is sorted in place: the result is the sorted slice.\<close>

fun first_invalid :: "Config \<Rightarrow> Period list \<Rightarrow> string option" where
  "first_invalid cfg [] = None"
| "first_invalid cfg (p # ps) = (case ValidatePeriod cfg p of Some e \<Rightarrow> Some e | None \<Rightarrow> first_invalid cfg ps)"

definition ValidatePeriods :: "Config \<Rightarrow> Period list \<Rightarrow> string + Period list" where
  "ValidatePeriods cfg ps =
     (case first_invalid cfg ps of
        Some e \<Rightarrow> Inl e
      | None \<Rightarrow> (let sorted = SortPeriods ps
                in case neighbours cfg sorted of Some e \<Rightarrow> Inl e | None \<Rightarrow> Inr sorted))"

subsection \<open>Interval keys\<close>

definition fiscalYearAndOffset :: "instant \<Rightarrow> int \<Rightarrow> int \<times> int" where
  "fiscalYearAndOffset t fiscalStart0 =
     (let fiscalStart = (if fiscalStart0 < 1 then 1 else fiscalStart0);
          offset = monthsFromFiscalStart t fiscalStart;
          fy = (if month_of t < fiscalStart then year_of t - 1 else year_of t)
      in (fy, offset))"

text \<open>The levels are those of \<open>internal/formula/time.go\<close>, which mirrors them.\<close>

fun intervalKeyAt :: "intervalLevel \<Rightarrow> int \<Rightarrow> instant \<Rightarrow> string" where
  "intervalKeyAt levelMonth fiscalStart t = zero_padded 4 (year_of t) @ ''-'' @ zero_padded 2 (month_of t)"
| "intervalKeyAt levelQuarter fiscalStart t =
     (let (fy, offset) = fiscalYearAndOffset t fiscalStart
      in ''FY'' @ zero_padded 4 fy @ ''-Q'' @ show_int (go_quot offset 3 + 1))"
| "intervalKeyAt levelHalfYear fiscalStart t =
     (let (fy, offset) = fiscalYearAndOffset t fiscalStart
      in ''FY'' @ zero_padded 4 fy @ ''-H'' @ show_int (go_quot offset 6 + 1))"
| "intervalKeyAt levelYear fiscalStart t =
     (let (fy, offset) = fiscalYearAndOffset t fiscalStart in ''FY'' @ zero_padded 4 fy)"

definition IntervalKey :: "intervalLevel \<Rightarrow> int \<Rightarrow> Period \<Rightarrow> string option" where
  "IntervalKey level fiscalStart p =
     (let ks = intervalKeyAt level fiscalStart (p_Start p); ke = intervalKeyAt level fiscalStart (p_End p)
      in if ks \<noteq> ke then None else Some ks)"

fun GranularityFitsLevel :: "intervalLevel \<Rightarrow> string \<Rightarrow> bool" where
  "GranularityFitsLevel levelMonth gran = (gran = ''day'')"
| "GranularityFitsLevel levelQuarter gran = (gran = ''day'' \<or> gran = ''week'' \<or> gran = ''month'')"
| "GranularityFitsLevel levelHalfYear gran =
     (gran = ''day'' \<or> gran = ''week'' \<or> gran = ''month'' \<or> gran = ''quarter'')"
| "GranularityFitsLevel levelYear gran =
     (gran = ''day'' \<or> gran = ''week'' \<or> gran = ''month'' \<or> gran = ''quarter'' \<or> gran = ''half_year'')"

subsection \<open>The period generator\<close>

definition format_month :: "instant \<Rightarrow> string" where
  "format_month t =
     (if year_of t < 0 then ''-'' else []) @ pad_left 4 (digits10 \<bar>year_of t\<bar>) @ ''-'' @
     pad_left 2 (digits10 (month_of t))"

text \<open>One turn of the loop: the code of the period that starts at \<open>cur\<close> and where the next starts.\<close>

definition next_period :: "Config \<Rightarrow> instant \<Rightarrow> string + string \<times> instant" where
  "next_period cfg cur =
     (let g = c_Granularity cfg; fs = c_FiscalYearStartMonth cfg; months = monthsFromFiscalStart cur fs;
          (fy, off) = fiscalYearAndOffset cur fs
      in if g = ''day'' then Inr (ymd cur, AddDate cur 0 1)
         else if g = ''week'' then Inr (ymd cur, AddDate cur 0 7)
         else if g = ''month'' then
           (if day_of cur \<noteq> 1 then Inl ''start must be the first day of a month''
            else Inr (format_month cur, AddDate cur 1 0))
         else if g = ''quarter'' then
           (if day_of cur \<noteq> 1 \<or> go_rem months 3 \<noteq> 0 then Inl ''start must be the first day of a fiscal quarter''
            else Inr (''FY'' @ zero_padded 4 fy @ ''-Q'' @ show_int (go_quot off 3 + 1), AddDate cur 3 0))
         else if g = ''half_year'' then
           (if day_of cur \<noteq> 1 \<or> go_rem months 6 \<noteq> 0 then Inl ''start must be the first day of a fiscal half-year''
            else Inr (''FY'' @ zero_padded 4 fy @ ''-H'' @ show_int (go_quot off 6 + 1), AddDate cur 6 0))
         else if g = ''year'' then
           (if day_of cur \<noteq> 1 \<or> months \<noteq> 0 then Inl ''start must be the first day of a fiscal year''
            else Inr (''FY'' @ zero_padded 4 fy, AddYears cur 1 0))
         else Inl (''unknown time granularity '' @ go_quote g))"

function generate_loop :: "Config \<Rightarrow> instant \<Rightarrow> instant \<Rightarrow> Period list \<Rightarrow> string + Period list" where
  "generate_loop cfg finish cur out =
     (if finish < cur then Inr out
      else case next_period cfg cur of
             Inl e \<Rightarrow> Inl e
           | Inr (code, nxt) \<Rightarrow>
               (let out' = out @ [\<lparr>p_Code = code, p_Start = cur, p_End = AddDate nxt 0 (- 1)\<rparr>]
                in if 10000 < length out' then Inl ''too many periods (limit 10000)''
                   else generate_loop cfg finish nxt out'))"
  by pat_completeness auto
termination
  by (relation "measure (\<lambda>(cfg, finish, cur, out). 10001 - length out)") auto

declare generate_loop.simps [simp del]

definition GeneratePeriods :: "Config \<Rightarrow> instant \<Rightarrow> instant \<Rightarrow> string + Period list" where
  "GeneratePeriods cfg start finish =
     (if c_Granularity cfg = ''custom'' then Inl ''custom granularity has no period generator''
      else if finish < start then Inl ''end before start''
      else generate_loop cfg finish start [])"

subsection \<open>The hierarchy of a time dimension\<close>

record MemberShape =
  s_ID :: string
  s_Code :: string
  s_ParentID :: string
  s_Start :: "instant option"
  s_End :: "instant option"

definition byID :: "MemberShape list \<Rightarrow> string \<Rightarrow> MemberShape option" where
  "byID members i = map_of (rev (map (\<lambda>m. (s_ID m, m)) members)) i"

definition hasChildren :: "MemberShape list \<Rightarrow> string \<Rightarrow> bool" where
  "hasChildren members i \<longleftrightarrow> list_ex (\<lambda>m. s_ParentID m \<noteq> [] \<and> s_ParentID m = i) members"

definition em_dash :: string where
  "em_dash = [CHR 0xE2, CHR 0x80, CHR 0x94]"

text \<open>The loop over the members: the leaf period of a dated one, nothing for an aggregate.\<close>

definition hierarchy_member :: "MemberShape list \<Rightarrow> MemberShape \<Rightarrow> string + Period list" where
  "hierarchy_member members m =
     (if (s_Start m = None) \<noteq> (s_End m = None)
      then Inl (''period '' @ go_quote (s_Code m) @ '' needs both period_start and period_end'')
      else if s_Start m \<noteq> None \<and> hasChildren members (s_ID m)
      then Inl (''period '' @ go_quote (s_Code m) @ '' has child periods, so it is an aggregate and cannot carry its own dates '' @
        em_dash @ '' its range comes from its children'')
      else case (if s_ParentID m = [] then None
                 else case byID members (s_ParentID m) of
                        None \<Rightarrow> Some (''period '' @ go_quote (s_Code m) @ '': parent not found in this dimension'')
                      | Some p \<Rightarrow>
                          if s_Start p \<noteq> None
                          then Some (''period '' @ go_quote (s_Code m) @ '' cannot be a child of '' @ go_quote (s_Code p) @
                            '': a dated period is a leaf; make '' @ go_quote (s_Code p) @ '' an aggregate (no dates) first'')
                          else None) of
             Some e \<Rightarrow> Inl e
           | None \<Rightarrow>
               (case (s_Start m, s_End m) of
                  (Some s, Some e) \<Rightarrow> Inr [\<lparr>p_Code = s_Code m, p_Start = s, p_End = e\<rparr>]
                | _ \<Rightarrow> Inr []))"

fun hierarchy_loop :: "MemberShape list \<Rightarrow> MemberShape list \<Rightarrow> string + Period list" where
  "hierarchy_loop members [] = Inr []"
| "hierarchy_loop members (m # ms) =
     (case hierarchy_member members m of
        Inl e \<Rightarrow> Inl e
      | Inr ps \<Rightarrow> (case hierarchy_loop members ms of Inl e \<Rightarrow> Inl e | Inr qs \<Rightarrow> Inr (ps @ qs)))"

definition ValidateHierarchy :: "Config \<Rightarrow> MemberShape list \<Rightarrow> string + Period list" where
  "ValidateHierarchy cfg members =
     (case hierarchy_loop members members of Inl e \<Rightarrow> Inl e | Inr leaves \<Rightarrow> ValidatePeriods cfg leaves)"

text \<open>The rows of the dimension: a member and its ordinal, which an aggregate does not have.\<close>

record MemberRow =
  r_Shape :: MemberShape
  r_TimeIndex :: "nat option"

definition row_key :: "(string \<Rightarrow> 'c::linorder) \<Rightarrow> MemberRow \<Rightarrow> instant \<times> instant \<times> 'c" where
  "row_key collate r =
     (the (s_Start (r_Shape r)), the (s_End (r_Shape r)), collate (s_Code (r_Shape r)))"

definition dated_row :: "MemberRow \<Rightarrow> bool" where
  "dated_row r \<longleftrightarrow> s_Start (r_Shape r) \<noteq> None"

text \<open>The statement that renumbers: every dated row gets its row number in the order of the dates.\<close>

definition reindex :: "(string \<Rightarrow> 'c::linorder) \<Rightarrow> MemberRow list \<Rightarrow> MemberRow list" where
  "reindex collate rows =
     (let ordered = sort_key (row_key collate) (filter dated_row rows);
          idx = map_of (zip (map (\<lambda>r. s_ID (r_Shape r)) ordered) [0..<length ordered])
      in map (\<lambda>r. case idx (s_ID (r_Shape r)) of None \<Rightarrow> r | Some i \<Rightarrow> r\<lparr>r_TimeIndex := Some i\<rparr>) rows)"

definition ValidateAndReindex :: "(string \<Rightarrow> 'c::linorder) \<Rightarrow> Config \<Rightarrow> MemberRow list \<Rightarrow> string + MemberRow list" where
  "ValidateAndReindex collate cfg rows =
     (if c_Type cfg \<noteq> ''time'' then
        if list_ex dated_row rows
        then Inl ''a standard dimension's members cannot carry period dates'' else Inr rows
      else case ValidateHierarchy cfg (map r_Shape rows) of
             Inl e \<Rightarrow> Inl e
           | Inr _ \<Rightarrow> Inr (reindex collate rows))"

subsection \<open>Adding days, months and years\<close>

lemma date_day_plus: "date_day y m (d + k) = date_day y m d + k"
  by (simp add: date_day_def)

lemma go_date_plus: "go_date y m (d + k) = go_date y m d + k * ns_per_day"
  by (simp add: go_date_def date_day_plus algebra_simps)

lemma go_date_civil: "go_date (year_of t) (month_of t) (day_of t) + t mod ns_per_day = t"
proof -
  have "valid_civil (civil_of t)" by (simp add: civil_of_def civil_of_day_valid)
  then have "go_date (year_of t) (month_of t) (day_of t) = (t div ns_per_day) * ns_per_day"
    by (simp add: go_date_def date_day_valid) (simp add: civil_of_def day_number_civil_of_day)
  then show ?thesis by simp
qed

lemma day_bounds: "1 \<le> day_of d" "day_of d \<le> 31"
  using civil_of_day_valid [of "d div ns_per_day + epoch_day"] days_in_month_le [of "year_of d" "month_of d"]
  by (simp_all add: civil_of_def valid_civil_def)

lemma AddDate_days:
  assumes "\<bar>k\<bar> < 2 ^ 62"
  shows "AddDate t 0 k = t + k * ns_per_day"
proof -
  have "wrap64 (day_of t + k) = day_of t + k" "wrap64 (month_of t) = month_of t"
    using assms day_bounds [of t] month_bounds [of t] by (intro wrap64_id; simp)+
  then have "AddDate t 0 k = go_date (year_of t) (month_of t) (day_of t) + t mod ns_per_day + k * ns_per_day"
    by (simp add: AddDate_def go_date_plus)
  then show ?thesis by (simp add: go_date_civil)
qed

text \<open>From the first of a month: the first of the month \<open>k\<close> months on, and the day before it.\<close>

lemma AddDate_months:
  assumes "day_of t = 1" and "\<bar>k\<bar> < 2 ^ 62" and "\<bar>d\<bar> < 2 ^ 62"
  shows "AddDate t k d = go_date (year_of t) (month_of t + k) 1 + t mod ns_per_day + d * ns_per_day"
proof -
  have "wrap64 (1 + d) = 1 + d" "wrap64 (month_of t + k) = month_of t + k"
    using assms month_bounds [of t] by (intro wrap64_id; simp)+
  then show ?thesis using go_date_plus [of _ _ 1 d] assms(1) by (simp add: AddDate_def)
qed

lemma date_day_year: "date_day (y + 1) m d = date_day y (m + 12) d"
  using div_add_self2 [of 12 "m - 1"] mod_add_self2 [of "m - 1" 12]
  by (simp add: date_day_def algebra_simps)

lemma AddYears_months:
  assumes "day_of t = 1" and "\<bar>d\<bar> < 2 ^ 62"
  shows "AddYears t 1 d = go_date (year_of t) (month_of t + 12) 1 + t mod ns_per_day + d * ns_per_day"
proof -
  have "wrap64 (1 + d) = 1 + d" using assms by (intro wrap64_id) simp_all
  then show ?thesis
    using go_date_plus [of _ _ 1 d] assms(1) by (simp add: AddYears_def go_date_def date_day_year)
qed

lemma next_month_later: "date_day y m 1 < date_day y (m + 1) 1"
proof -
  obtain Y M where ym: "add_months y m 0 = (Y, M)" by fastforce
  then have "date_day y m 1 = day_number \<lparr>Year = Y, Month = M, Day = 1\<rparr>"
    by (auto simp: date_day_def add_months_def)
  moreover have "date_day y (m + 1) 1 = day_number \<lparr>Year = Y, Month = M, Day = days_in_month Y M\<rparr> + 1"
    using date_day_last [of y m] date_day_plus [of y "m + 1" 0 1] by (simp add: ym)
  ultimately show ?thesis using days_in_month_pos [of Y M] by (simp add: day_number_def)
qed

lemma months_later: "0 < k \<Longrightarrow> date_day y m 1 < date_day y (m + int k) 1"
proof (induction k)
  case (Suc k)
  show ?case
  proof (cases "k = 0")
    case False
    with Suc.IH have "date_day y m 1 < date_day y (m + int k) 1" by simp
    also have "\<dots> < date_day y (m + int k + 1) 1" by (rule next_month_later)
    finally show ?thesis by (simp add: algebra_simps)
  qed (use next_month_later in simp)
qed simp

lemma first_of_month:
  assumes "day_of t = 1" and "0 < k"
  shows "t + ns_per_day \<le> go_date (year_of t) (month_of t + int k) 1 + t mod ns_per_day"
proof -
  have "t = go_date (year_of t) (month_of t) 1 + t mod ns_per_day"
    using go_date_civil [of t] assms(1) by simp
  moreover have "go_date (year_of t) (month_of t) 1 + ns_per_day \<le> go_date (year_of t) (month_of t + int k) 1"
    using months_later [OF assms(2), of "year_of t" "month_of t"] less_imp_le [OF ns_per_day_pos(1)]
      mult_right_mono [of "date_day (year_of t) (month_of t) 1 - epoch_day + 1"
        "date_day (year_of t) (month_of t + int k) 1 - epoch_day" ns_per_day]
    by (simp add: go_date_def algebra_simps)
  ultimately show ?thesis by linarith
qed

subsection \<open>Generated periods are well-formed\<close>

lemma ValidatePeriod_None:
  "ValidatePeriod cfg p = None \<longleftrightarrow> p_Start p \<le> p_End p \<and>
     (let g = c_Granularity cfg; s = p_Start p; e = p_End p;
          months = monthsFromFiscalStart s (c_FiscalYearStartMonth cfg)
      in g = ''custom'' \<or> g = ''day'' \<and> e = s \<or> g = ''week'' \<and> e = AddDate s 0 6
       \<or> g = ''month'' \<and> day_of s = 1 \<and> e = AddDate s 1 (- 1)
       \<or> g = ''quarter'' \<and> day_of s = 1 \<and> go_rem months 3 = 0 \<and> e = AddDate s 3 (- 1)
       \<or> g = ''half_year'' \<and> day_of s = 1 \<and> go_rem months 6 = 0 \<and> e = AddDate s 6 (- 1)
       \<or> g = ''year'' \<and> day_of s = 1 \<and> months = 0 \<and> e = AddYears s 1 (- 1))"
proof -
  have if_None: "(if b then x else y) = None \<longleftrightarrow> b \<and> x = None \<or> \<not> b \<and> y = None" for b and x y :: "string option"
    by simp
  show ?thesis
    by (simp only: ValidatePeriod_def Let_def if_None option.distinct simp_thms not_less) auto
qed

text \<open>The period the loop adds is valid for the granularity, and ends the day before the next starts.\<close>

lemma next_period_valid:
  assumes "next_period cfg cur = Inr (code, nxt)"
  shows "ValidatePeriod cfg \<lparr>p_Code = code, p_Start = cur, p_End = nxt - ns_per_day\<rparr> = None"
    and "cur + ns_per_day \<le> nxt"
proof -
  let ?first = "\<lambda>k. go_date (year_of cur) (month_of cur + k) 1 + cur mod ns_per_day"
  note d = AddDate_days [of 1 cur, simplified] AddDate_days [of 6 cur, simplified] AddDate_days [of 7 cur, simplified]
  have m: "AddDate cur 1 0 = ?first 1" "AddDate cur 1 (- 1) = ?first 1 - ns_per_day"
    "AddDate cur 3 0 = ?first 3" "AddDate cur 3 (- 1) = ?first 3 - ns_per_day"
    "AddDate cur 6 0 = ?first 6" "AddDate cur 6 (- 1) = ?first 6 - ns_per_day"
    "AddYears cur 1 0 = ?first 12" "AddYears cur 1 (- 1) = ?first 12 - ns_per_day" if "day_of cur = 1"
    by (simp_all add: AddDate_months [OF that] AddYears_months [OF that])
  have later: "cur + ns_per_day \<le> ?first 1" "cur + ns_per_day \<le> ?first 3"
    "cur + ns_per_day \<le> ?first 6" "cur + ns_per_day \<le> ?first 12" if "day_of cur = 1"
    using first_of_month [OF that, of 1] first_of_month [OF that, of 3] first_of_month [OF that, of 6]
      first_of_month [OF that, of 12] by simp_all
  let ?g = "c_Granularity cfg" and ?months = "monthsFromFiscalStart cur (c_FiscalYearStartMonth cfg)"
  consider "?g = ''day''" "nxt = AddDate cur 0 1" | "?g = ''week''" "nxt = AddDate cur 0 7"
    | "?g = ''month''" "day_of cur = 1" "nxt = AddDate cur 1 0"
    | "?g = ''quarter''" "day_of cur = 1" "go_rem ?months 3 = 0" "nxt = AddDate cur 3 0"
    | "?g = ''half_year''" "day_of cur = 1" "go_rem ?months 6 = 0" "nxt = AddDate cur 6 0"
    | "?g = ''year''" "day_of cur = 1" "?months = 0" "nxt = AddYears cur 1 0"
    using assms unfolding next_period_def Let_def case_prod_beta
    by (simp split: if_split_asm)
  then have "cur + ns_per_day \<le> nxt \<and>
      ValidatePeriod cfg \<lparr>p_Code = code, p_Start = cur, p_End = nxt - ns_per_day\<rparr> = None"
  proof cases
    case 1
    then show ?thesis by (simp add: ValidatePeriod_None d)
  next
    case 2
    then show ?thesis using ns_per_day_pos(1) by (simp add: ValidatePeriod_None d del: ns_per_day_pos)
  next
    case 3
    then show ?thesis using later(1) by (simp add: ValidatePeriod_None m(1,2))
  next
    case 4
    then show ?thesis using later(2) by (simp add: ValidatePeriod_None m(3,4))
  next
    case 5
    then show ?thesis using later(3) by (simp add: ValidatePeriod_None m(5,6))
  next
    case 6
    then show ?thesis using later(4) by (simp add: ValidatePeriod_None m(7,8))
  qed
  then show "ValidatePeriod cfg \<lparr>p_Code = code, p_Start = cur, p_End = nxt - ns_per_day\<rparr> = None"
    and "cur + ns_per_day \<le> nxt" by simp_all
qed

text \<open>What the loop keeps: valid periods, each starting the day after the one before it ends.\<close>

fun contiguous :: "Period list \<Rightarrow> instant \<Rightarrow> bool" where
  "contiguous [] nxt = True"
| "contiguous (p # ps) nxt =
     (p_Start p \<le> p_End p \<and> p_End p + ns_per_day = (case ps of [] \<Rightarrow> nxt | q # _ \<Rightarrow> p_Start q) \<and> contiguous ps nxt)"

lemma contiguous_snoc:
  "contiguous (ps @ [p]) nxt \<longleftrightarrow> contiguous ps (p_Start p) \<and> p_Start p \<le> p_End p \<and> p_End p + ns_per_day = nxt"
proof (induction ps)
  case (Cons q ps)
  then show ?case by (cases ps) auto
qed simp

lemma contiguous_neighbours: "contiguous ps nxt \<Longrightarrow> neighbours cfg ps = None"
proof (induction cfg ps rule: neighbours.induct)
  case (1 cfg prev cur ps)
  have "p_End prev < p_End prev + ns_per_day" by simp
  with 1 show ?case using AddDate_days [of 1 "p_End prev"] by (auto simp del: ns_per_day_pos)
qed simp_all

lemma contiguous_start_le: "contiguous (p # ps) nxt \<Longrightarrow> q \<in> set ps \<Longrightarrow> p_Start p < p_Start q"
proof (induction ps arbitrary: p)
  case (Cons r ps)
  then have "p_Start p < p_Start r"
    using ns_per_day_pos(1) by (simp del: ns_per_day_pos) 
  with Cons show ?case by fastforce
qed simp

lemma contiguous_sorted: "contiguous ps nxt \<Longrightarrow> sorted (map period_key ps)"
proof (induction ps)
  case (Cons p ps)
  then have "contiguous ps nxt" by simp
  moreover have "period_key p \<le> period_key q" if "q \<in> set ps" for q
    using contiguous_start_le [OF Cons.prems that] by (simp add: period_key_def less_eq_prod_def)
  ultimately show ?case using Cons.IH by simp
qed simp

lemma first_invalid_None: "first_invalid cfg ps = None \<longleftrightarrow> (\<forall>p \<in> set ps. ValidatePeriod cfg p = None)"
  by (induction ps) (auto split: option.split)

lemma generate_loop_invariant:
  assumes "generate_loop cfg finish cur out = Inr ps" and "contiguous out cur"
    and "\<forall>p \<in> set out. ValidatePeriod cfg p = None" and "length out \<le> 10000"
  shows "\<exists>nxt. contiguous ps nxt \<and> finish < nxt \<and> (\<forall>p \<in> set ps. ValidatePeriod cfg p = None) \<and>
    length ps \<le> 10000 \<and> (\<exists>more. ps = out @ more \<and> (more = [] \<longrightarrow> finish < cur))"
  using assms
proof (induction cfg finish cur out rule: generate_loop.induct)
  case (1 cfg finish cur out)
  show ?case
  proof (cases "finish < cur")
    case True
    with 1 show ?thesis by (auto simp: generate_loop.simps [of cfg finish cur])
  next
    case False
    with "1.prems"(1) obtain code nxt where np: "next_period cfg cur = Inr (code, nxt)"
      by (auto simp: generate_loop.simps [of cfg finish cur] split: sum.splits)
    let ?p = "\<lparr>p_Code = code, p_Start = cur, p_End = nxt - ns_per_day\<rparr>"
    have p: "AddDate nxt 0 (- 1) = nxt - ns_per_day" using AddDate_days [of "- 1" nxt] by simp
    have len: "\<not> 10000 < length (out @ [?p])"
      and rest: "generate_loop cfg finish nxt (out @ [?p]) = Inr ps"
      using "1.prems"(1) False np p by (auto simp: generate_loop.simps [of cfg finish cur] Let_def split: if_splits)
    have "\<exists>end'. contiguous ps end' \<and> finish < end' \<and> (\<forall>p \<in> set ps. ValidatePeriod cfg p = None) \<and>
        length ps \<le> 10000 \<and> (\<exists>more. ps = (out @ [?p]) @ more \<and> (more = [] \<longrightarrow> finish < nxt))"
      using "1.prems"(2,3) len rest next_period_valid [OF np]
      by (intro "1.IH" [OF False np refl]) (auto simp: p contiguous_snoc)
    then show ?thesis by auto
  qed
qed

lemma generate_loop_start:
  assumes "generate_loop cfg finish start [] = Inr ps" and "\<not> finish < start" and "ps \<noteq> []"
  shows "p_Start (hd ps) = start"
proof -
  from assms(1,2) obtain code nxt where np: "next_period cfg start = Inr (code, nxt)"
    and rest: "generate_loop cfg finish nxt [\<lparr>p_Code = code, p_Start = start, p_End = AddDate nxt 0 (- 1)\<rparr>] = Inr ps"
    by (auto simp: generate_loop.simps [of cfg finish start] Let_def split: sum.splits)
  have p: "AddDate nxt 0 (- 1) = nxt - ns_per_day" using AddDate_days [of "- 1" nxt] by simp
  from generate_loop_invariant [OF rest] next_period_valid [OF np] show ?thesis by (auto simp: p)
qed

text \<open>
  C32 The periods the generator makes are always accepted: they pass \<open>ValidatePeriods\<close> as they are
  (already in order), the first starts at the requested start, the last ends on or after the
  requested end, and there are at most 10000.
\<close>

theorem generated_periods_valid:
  assumes "GeneratePeriods cfg start finish = Inr ps"
  shows "ValidatePeriods cfg ps = Inr ps \<and> ps \<noteq> [] \<and> p_Start (hd ps) = start \<and>
    finish < AddDate (p_End (last ps)) 0 1 \<and> length ps \<le> 10000"
proof -
  have loop: "generate_loop cfg finish start [] = Inr ps" and le: "\<not> finish < start"
    using assms by (auto simp: GeneratePeriods_def split: if_splits)
  from generate_loop_invariant [OF loop] le obtain nxt where inv: "contiguous ps nxt" "finish < nxt"
    "\<forall>p \<in> set ps. ValidatePeriod cfg p = None" "length ps \<le> 10000" "ps \<noteq> []"
    by auto
  have hd: "p_Start (hd ps) = start"
    using loop le inv(5) by (rule generate_loop_start)
  have "SortPeriods ps = ps"
    unfolding SortPeriods_def by (rule sort_key_id_if_sorted) (rule contiguous_sorted [OF inv(1)])
  then have "ValidatePeriods cfg ps = Inr ps"
    using contiguous_neighbours [OF inv(1)] inv(3) by (simp add: ValidatePeriods_def first_invalid_None [THEN iffD2])
  moreover have "p_End (last ps) + ns_per_day = nxt"
    using inv(1,5) contiguous_snoc [of "butlast ps" "last ps" nxt] by simp
  ultimately show ?thesis using inv hd AddDate_days [of 1 "p_End (last ps)"] by simp
qed

definition demo_quarters :: Config where
  "demo_quarters = \<lparr>c_Type = ''time'', c_Granularity = ''quarter'', c_FiscalYearStartMonth = 4\<rparr>"

definition demo_period :: Period where
  "demo_period = \<lparr>p_Code = ''FY2024-Q1'', p_Start = go_date 2024 4 1, p_End = go_date 2024 6 30\<rparr>"

theorem generated_periods_valid_witness:
  "GeneratePeriods demo_quarters (go_date 2024 4 1) (go_date 2024 5 15) = Inr [demo_period] \<and>
   ValidatePeriods demo_quarters [demo_period] = Inr [demo_period]"
proof -
  have np: "next_period demo_quarters (go_date 2024 4 1) = Inr (''FY2024-Q1'', go_date 2024 7 1)" by code_simp
  have ends: "\<not> go_date 2024 5 15 < go_date 2024 4 1" "go_date 2024 5 15 < go_date 2024 7 1"
    "AddDate (go_date 2024 7 1) 0 (- 1) = go_date 2024 6 30" "c_Granularity demo_quarters \<noteq> ''custom''" by code_simp+
  have "GeneratePeriods demo_quarters (go_date 2024 4 1) (go_date 2024 5 15) = Inr [demo_period]"
    by (simp add: GeneratePeriods_def generate_loop.simps np ends demo_period_def)
  with generated_periods_valid [OF this] show ?thesis by simp
qed

subsection \<open>The two definitions of an interval agree\<close>

text \<open>
  The interval keys and granularity rules of the time dimension and of the formula engine, two
  separate pieces of code that must stay in step, are the same functions: a period lies in one
  interval for the importer and the editor exactly when it does for the *TODATE and *VALUE
  functions.
\<close>

theorem interval_keys_agree:
  "intervalKeyAt level fiscalStart t = intervalKey level fiscalStart t \<and>
   GranularityFitsLevel level gran = granularityFits level gran \<and>
   (IntervalKey level fiscalStart p = None \<longleftrightarrow>
      intervalKey level fiscalStart (p_End p) \<noteq> intervalKey level fiscalStart (p_Start p))"
proof -
  have key: "intervalKeyAt level fiscalStart t = intervalKey level fiscalStart t" for t
    by (cases level) (simp_all add: intervalKey_def fiscalYearAndOffset_def monthsFromFiscalStart_def
        fiscal_offset_def fiscal_year_def Let_def)
  have "GranularityFitsLevel level gran = granularityFits level gran" by (cases level) simp_all
  moreover have "IntervalKey level fiscalStart p = None \<longleftrightarrow>
      intervalKey level fiscalStart (p_End p) \<noteq> intervalKey level fiscalStart (p_Start p)"
    unfolding IntervalKey_def Let_def key by auto
  ultimately show ?thesis using key by blast
qed

subsection \<open>Accepted periods and the ordinal\<close>

lemma neighbours_disjoint:
  assumes "neighbours cfg ps = None" and "\<forall>p \<in> set ps. p_Start p \<le> p_End p"
  shows "sorted_wrt (\<lambda>p q. p_End p < p_Start q) ps"
  using assms
proof (induction cfg ps rule: neighbours.induct)
  case (1 cfg prev cur ps)
  then have IH: "sorted_wrt (\<lambda>p q. p_End p < p_Start q) (cur # ps)" and lt: "p_End prev < p_Start cur"
    by (auto split: if_splits)
  from "1.prems"(2) have "p_Start cur \<le> p_End cur" by simp
  with IH lt show ?case by fastforce
qed simp_all

lemma ValidatePeriods_accepts:
  assumes "ValidatePeriods cfg ps = Inr qs"
  shows "qs = SortPeriods ps" and "\<forall>p \<in> set ps. p_Start p \<le> p_End p"
    and "sorted_wrt (\<lambda>p q. p_End p < p_Start q) qs"
proof -
  have none: "first_invalid cfg ps = None" and nb: "neighbours cfg (SortPeriods ps) = None"
    and qs: "qs = SortPeriods ps"
    using assms by (auto simp: ValidatePeriods_def Let_def split: option.splits)
  show "qs = SortPeriods ps" by (fact qs)
  show le: "\<forall>p \<in> set ps. p_Start p \<le> p_End p" using none by (simp add: first_invalid_None ValidatePeriod_None)
  show "sorted_wrt (\<lambda>p q. p_End p < p_Start q) qs"
    using neighbours_disjoint [OF nb] le by (simp add: qs SortPeriods_def)
qed

text \<open>Two lists of periods in order of their starts, one of them disjoint, are the same list.\<close>

lemma disjoint_order_unique:
  assumes "sorted_wrt (\<lambda>p q. p_End p < p_Start q) qs" and "\<forall>p \<in> set qs. p_Start p \<le> p_End p"
    and "mset ps = mset qs" and "sorted (map p_Start ps)"
  shows "ps = qs"
proof -
  have strict: "sorted_wrt (<) (map p_Start qs)"
    unfolding sorted_wrt_map by (rule sorted_wrt_mono_rel [OF _ assms(1)]) (use assms(2) in fastforce)
  then have "sorted (map p_Start qs)" "distinct (map p_Start qs)"
    by (simp_all add: strict_sorted_iff)
  moreover have "mset (map p_Start ps) = mset (map p_Start qs)" using assms(3) by simp
  ultimately have "map p_Start ps = map p_Start qs"
    using assms(4) by (metis properties_for_sort)
  moreover have "inj_on p_Start (set ps \<union> set qs)"
    using \<open>distinct (map p_Start qs)\<close> mset_eq_setD [OF assms(3)] by (simp add: distinct_map)
  ultimately show ?thesis by (rule map_inj_on)
qed

definition row_period :: "MemberRow \<Rightarrow> Period" where
  "row_period r = \<lparr>p_Code = s_Code (r_Shape r), p_Start = the (s_Start (r_Shape r)), p_End = the (s_End (r_Shape r))\<rparr>"

lemma hierarchy_loop_leaves:
  "hierarchy_loop members (map r_Shape rows) = Inr leaves \<Longrightarrow> leaves = map row_period (filter dated_row rows)"
proof (induction rows arbitrary: leaves)
  case (Cons r rows)
  then obtain ps qs where ps: "hierarchy_member members (r_Shape r) = Inr ps" and
    "hierarchy_loop members (map r_Shape rows) = Inr qs" "leaves = ps @ qs"
    by (auto split: sum.splits)
  moreover from ps have "ps = (if dated_row r then [row_period r] else [])"
    by (auto simp: hierarchy_member_def dated_row_def row_period_def split: if_splits option.splits)
  ultimately show ?case using Cons.IH by simp
qed simp

lemma sorted_map_fst: "sorted ps \<Longrightarrow> sorted (map fst ps)"
  by (induction ps) (auto simp: less_eq_prod_def)

text \<open>The rows in the order of the renumbering are the validated leaves.\<close>

lemma reindex_order:
  fixes collate :: "string \<Rightarrow> 'c::linorder"
  assumes "ValidateHierarchy cfg (map r_Shape rows) = Inr leaves"
  shows "map row_period (sort_key (row_key collate) (filter dated_row rows)) = leaves"
    and "sorted_wrt (\<lambda>p q. p_End p < p_Start q) leaves" and "\<forall>p \<in> set leaves. p_Start p \<le> p_End p"
proof -
  let ?rs = "filter dated_row rows" and ?os = "sort_key (row_key collate) (filter dated_row rows)"
  from assms have v: "ValidatePeriods cfg (map row_period ?rs) = Inr leaves"
    by (auto simp: ValidateHierarchy_def split: sum.splits dest!: hierarchy_loop_leaves)
  note acc = ValidatePeriods_accepts [OF v]
  have ms: "mset (map row_period ?os) = mset leaves" by (simp add: acc(1) SortPeriods_def)
  then have le: "\<forall>p \<in> set leaves. p_Start p \<le> p_End p"
    using acc(2) by (metis mset_map mset_sort set_mset_mset)
  have "sorted (map (row_key collate) ?os)" by (rule sorted_sort_key)
  then have "sorted (map fst (map (row_key collate) ?os))"
    by (rule sorted_map_fst)
  then have "sorted (map p_Start (map row_period ?os))"
    by (simp add: row_key_def row_period_def comp_def)
  with acc(3) le ms show "map row_period ?os = leaves" by (intro disjoint_order_unique)
  show "sorted_wrt (\<lambda>p q. p_End p < p_Start q) leaves" by (fact acc(3))
  show "\<forall>p \<in> set leaves. p_Start p \<le> p_End p" by (fact le)
qed

text \<open>What the statement does to a row, by its place in the order.\<close>

lemma reindex_rows:
  fixes collate :: "string \<Rightarrow> 'c::linorder"
  assumes "distinct (map (\<lambda>r. s_ID (r_Shape r)) rows)"
  defines "os \<equiv> sort_key (row_key collate) (filter dated_row rows)"
  shows "\<exists>f. reindex collate rows = map f rows \<and> (\<forall>i < length os. f (os ! i) = (os ! i)\<lparr>r_TimeIndex := Some i\<rparr>) \<and>
    (\<forall>r \<in> set rows. \<not> dated_row r \<longrightarrow> f r = r)"
proof -
  let ?id = "\<lambda>r. s_ID (r_Shape r)"
  let ?idx = "map_of (zip (map ?id os) [0..<length os])"
  let ?f = "\<lambda>r. case ?idx (?id r) of None \<Rightarrow> r | Some i \<Rightarrow> r\<lparr>r_TimeIndex := Some i\<rparr>"
  have os: "set os = {r \<in> set rows. dated_row r}" by (auto simp: os_def)
  have "distinct (map ?id (filter dated_row rows))" using assms(1) by (rule distinct_map_filter)
  moreover have perm: "mset (map ?id (filter dated_row rows)) = mset (map ?id os)" by (simp add: os_def)
  ultimately have d: "distinct (map ?id os)"
    using mset_eq_imp_distinct_iff by blast
  have "?f (os ! i) = (os ! i)\<lparr>r_TimeIndex := Some i\<rparr>" if "i < length os" for i
    using map_of_zip_nth [of "map ?id os" "[0..<length os]" i] d that by simp
  moreover have "?f r = r" if "r \<in> set rows" "\<not> dated_row r" for r
  proof -
    have "?id r \<notin> set (map ?id os)"
      using that os assms(1) by (auto simp: distinct_map inj_on_def)
    then have "?idx (?id r) = None" by (simp add: map_of_zip_is_None)
    then show ?thesis by (simp only: option.case)
  qed
  moreover have "reindex collate rows = map ?f rows" by (simp add: reindex_def os_def)
  ultimately show ?thesis by blast
qed

text \<open>
  C34. After a time dimension has been written, its ordinal is the chronological order: the rows
  themselves are unchanged, the leaf periods are numbered 0, 1, 2, ... without a gap or a
  repetition, one period has a smaller number than another exactly when it ends before the other
  starts, and aggregate periods are not renumbered. This holds whatever the database's order on
  texts, on which the renumbering statement falls back for equal dates.
\<close>

theorem reindex_chronological:
  fixes collate :: "string \<Rightarrow> 'c::linorder"
  assumes "ValidateAndReindex collate cfg rows = Inr rows'" and "c_Type cfg = ''time''"
    and "distinct (map (\<lambda>r. s_ID (r_Shape r)) rows)"
  shows "map r_Shape rows' = map r_Shape rows \<and>
    r_TimeIndex ` {r \<in> set rows'. dated_row r} = Some ` {..<length (filter dated_row rows)} \<and>
    (\<forall>r \<in> set rows'. \<forall>s \<in> set rows'. dated_row r \<longrightarrow> dated_row s \<longrightarrow>
       (the (r_TimeIndex r) < the (r_TimeIndex s) \<longleftrightarrow> p_End (row_period r) < p_Start (row_period s))) \<and>
    (\<forall>i < length rows. \<not> dated_row (rows ! i) \<longrightarrow> rows' ! i = rows ! i)"
proof -
  define os where "os = sort_key (row_key collate) (filter dated_row rows)"
  from assms(1,2) obtain leaves where v: "ValidateHierarchy cfg (map r_Shape rows) = Inr leaves"
    and rows': "rows' = reindex collate rows"
    by (auto simp: ValidateAndReindex_def split: sum.splits)
  note ord = reindex_order(1) [OF v, of collate, folded os_def] reindex_order(2,3) [OF v]
  from reindex_rows [OF assms(3), of collate] rows' obtain f where f: "rows' = map f rows"
    "\<And>i. i < length os \<Longrightarrow> f (os ! i) = (os ! i)\<lparr>r_TimeIndex := Some i\<rparr>"
    "\<And>r. r \<in> set rows \<Longrightarrow> \<not> dated_row r \<Longrightarrow> f r = r"
    by (auto simp: os_def)
  have os: "set os = {r \<in> set rows. dated_row r}" "length os = length (filter dated_row rows)"
    by (auto simp: os_def)
  have shape: "r_Shape (f r) = r_Shape r" if "r \<in> set rows" for r
  proof (cases "dated_row r")
    case True
    with that os(1) obtain i where "i < length os" "os ! i = r" by (metis (mono_tags, lifting) in_set_conv_nth mem_Collect_eq)
    then show ?thesis using f(2) [of i] by simp
  qed (use f(3) [OF that] in simp)
  then have dated: "dated_row (f r) \<longleftrightarrow> dated_row r" "row_period (f r) = row_period r" if "r \<in> set rows" for r
    using that by (simp_all add: dated_row_def row_period_def)
  have place: "\<exists>i < length os. r = f (os ! i) \<and> r_TimeIndex r = Some i \<and> row_period r = leaves ! i"
    if "r \<in> set rows'" "dated_row r" for r
  proof -
    from that f(1) dated(1) obtain r0 where r0: "r0 \<in> set os" "r = f r0" "r0 \<in> set rows" using os(1) by auto
    then obtain i where "i < length os" "r0 = os ! i" by (auto simp: in_set_conv_nth)
    with r0 f(2) [of i] dated(2) [of r0] ord(1) show ?thesis by (auto intro!: exI [of _ i])
  qed
  have idx: "f (os ! i) \<in> {r \<in> set rows'. dated_row r}" if "i < length os" for i
    using nth_mem [OF that] os(1) f(1) dated(1) by auto
  have "r_TimeIndex ` {r \<in> set rows'. dated_row r} = Some ` {..<length os}"
    using place idx f(2) by (force simp: image_iff)
  moreover have "the (r_TimeIndex r) < the (r_TimeIndex s) \<longleftrightarrow> p_End (row_period r) < p_Start (row_period s)"
    if "r \<in> set rows'" "s \<in> set rows'" "dated_row r" "dated_row s" for r s
  proof -
    from place [OF that(1,3)] place [OF that(2,4)] obtain i j where ij: "i < length leaves" "j < length leaves"
      "r_TimeIndex r = Some i" "r_TimeIndex s = Some j" "row_period r = leaves ! i" "row_period s = leaves ! j"
      by (auto simp flip: ord(1))
    have le: "p_Start (leaves ! k) \<le> p_End (leaves ! k)" if "k < length leaves" for k using ord(3) that by simp
    show ?thesis
      using sorted_wrt_nth_less [OF ord(2), of i j] sorted_wrt_nth_less [OF ord(2), of j i] le [OF ij(1)] le [OF ij(2)] ij
      by (cases i j rule: linorder_cases) auto
  qed
  moreover have "rows' ! i = rows ! i" if "i < length rows" "\<not> dated_row (rows ! i)" for i
    using that f(1,3) by simp
  moreover have "map r_Shape rows' = map r_Shape rows" using f(1) shape by simp
  ultimately show ?thesis using os(2) by auto
qed

definition demo_rows :: "MemberRow list" where
  "demo_rows =
     [\<lparr>r_Shape = \<lparr>s_ID = ''2'', s_Code = ''Q2'', s_ParentID = ''0'', s_Start = Some (go_date 2024 7 1),
        s_End = Some (go_date 2024 9 30)\<rparr>, r_TimeIndex = None\<rparr>,
      \<lparr>r_Shape = \<lparr>s_ID = ''0'', s_Code = ''FY'', s_ParentID = [], s_Start = None, s_End = None\<rparr>, r_TimeIndex = None\<rparr>,
      \<lparr>r_Shape = \<lparr>s_ID = ''1'', s_Code = ''Q1'', s_ParentID = ''0'', s_Start = Some (go_date 2024 4 1),
        s_End = Some (go_date 2024 6 30)\<rparr>, r_TimeIndex = Some 5\<rparr>]"

theorem reindex_chronological_witness:
  "ValidateAndReindex id demo_quarters demo_rows = Inr (reindex id demo_rows) \<and>
   r_TimeIndex ` {r \<in> set (reindex id demo_rows). dated_row r} = Some ` {..<2}"
proof -
  have v: "ValidateAndReindex id demo_quarters demo_rows = Inr (reindex id demo_rows)" by code_simp
  have h: "c_Type demo_quarters = ''time''" "distinct (map (\<lambda>r. s_ID (r_Shape r)) demo_rows)"
    "length (filter dated_row demo_rows) = 2" by (simp_all add: demo_quarters_def demo_rows_def dated_row_def)
  from reindex_chronological [OF v h(1,2)] v h(3) show ?thesis by simp
qed

end
