(* ===== verification/Rollup.thy ===== *)
theory Rollup
  imports Refs TimeDim
begin

text \<open>
  Resolving a metric at a combination of members: \<open>internal/rollup\<close> (\<open>rollup.go\<close>, \<open>index.go\<close>,
  \<open>calcmember.go\<close>).

  A map of dimensions is a function to an optional dimension. A combination (\<open>combo\<close>: dimension
  ID to member code) is an association list with one entry per dimension. A \<open>RawValue\<close> is called
  with its own state, which stands for what its closure captures. A Go result \<open>(value, ok, err)\<close> is
  an error or a value with its \<open>ok\<close> flag. \<open>resolve\<close> counts \<open>depth\<close> down: it is called with
  \<open>maxDepth + 1\<close> levels left and fails when none is.
\<close>

subsection \<open>Dimensions and their members\<close>

record Member =
  m_ID :: string
  m_Code :: string
  m_ParentCode :: string
  m_Properties :: "(string \<times> string) list"
  m_TimeIndex :: int

definition IsLeafPeriod :: "Member \<Rightarrow> bool" where
  "IsLeafPeriod m \<longleftrightarrow> 0 \<le> m_TimeIndex m"

record CalculatedMember =
  k_Code :: string
  k_Formula :: string

record Dimension =
  d_ID :: string
  d_ParentDimensionID :: string
  d_SourceDimensionID :: string
  d_SourceProperty :: string
  d_Members :: "Member list"
  d_IsTime :: bool
  d_Calculated :: "CalculatedMember list"

type_synonym dimensions = "string \<Rightarrow> Dimension option"
type_synonym combo = "(string \<times> string) list"

text \<open>The index of a dimension: its members by code (the first of each) and by parent code.\<close>

record memberIndex =
  byCode :: "string \<Rightarrow> nat option"
  children :: "string \<Rightarrow> Member list"

definition index_member :: "memberIndex \<Rightarrow> nat \<times> Member \<Rightarrow> memberIndex" where
  "index_member p im =
     (let (i, m) = im;
          p1 = (if byCode p (m_Code m) = None then p\<lparr>byCode := (byCode p)(m_Code m := Some i)\<rparr> else p)
      in if m_ParentCode m = [] then p1
         else p1\<lparr>children := (children p1)(m_ParentCode m := children p1 (m_ParentCode m) @ [m])\<rparr>)"

definition dim_index :: "Dimension \<Rightarrow> memberIndex" where
  "dim_index d =
     foldl index_member \<lparr>byCode = (\<lambda>_. None), children = (\<lambda>_. [])\<rparr> (List.enumerate 0 (d_Members d))"

definition childrenOf :: "Dimension \<Rightarrow> string \<Rightarrow> Member list" where
  "childrenOf d parentCode = (if parentCode = [] then [] else children (dim_index d) parentCode)"

definition findMember :: "Dimension \<Rightarrow> string \<Rightarrow> Member option" where
  "findMember d code = map_option (\<lambda>i. d_Members d ! i) (byCode (dim_index d) code)"

definition FindMember :: "Dimension option \<Rightarrow> string \<Rightarrow> Member option" where
  "FindMember d code = (case d of None \<Rightarrow> None | Some d \<Rightarrow> findMember d code)"

text \<open>The leaves: members nothing is under; on a time dimension only dated periods count.\<close>

definition allLeafCodes :: "Dimension option \<Rightarrow> string list" where
  "allLeafCodes d =
     (case d of
        None \<Rightarrow> []
      | Some d \<Rightarrow>
          (let parents = filter (\<lambda>c. c \<noteq> []) (map m_ParentCode (d_Members d))
           in map m_Code (filter (\<lambda>m. m_Code m \<notin> set parents \<and> (d_IsTime d \<longrightarrow> IsLeafPeriod m)) (d_Members d))))"

definition LeafCodes :: "Dimension option \<Rightarrow> string list" where
  "LeafCodes d = allLeafCodes d"

subsection \<open>Subtrees\<close>

text \<open>One pass of the closure: a member whose parent is in joins, and is seen by the members after it.\<close>

definition subtree_step :: "string list \<Rightarrow> Member \<Rightarrow> string list" where
  "subtree_step inn m =
     (if m_Code m \<notin> set inn \<and> m_ParentCode m \<noteq> [] \<and> m_ParentCode m \<in> set inn then m_Code m # inn else inn)"

definition subtree_pass :: "Member list \<Rightarrow> string list \<Rightarrow> string list" where
  "subtree_pass ms inn = foldl subtree_step inn ms"

lemma subtree_step_mono: "set inn \<subseteq> set (subtree_step inn m)"
  by (auto simp: subtree_step_def)

lemma subtree_pass_mono: "set inn \<subseteq> set (subtree_pass ms inn)"
  unfolding subtree_pass_def
  by (induction ms arbitrary: inn) (use subtree_step_mono in fastforce)+

lemma subtree_pass_codes: "set (subtree_pass ms inn) \<subseteq> set inn \<union> m_Code ` set ms"
  unfolding subtree_pass_def
  by (induction ms arbitrary: inn) (fastforce simp: subtree_step_def split: if_splits)+

lemma subtree_pass_grows: "subtree_pass ms inn \<noteq> inn \<Longrightarrow> \<exists>m \<in> set ms. m_Code m \<in> set (subtree_pass ms inn) - set inn"
  unfolding subtree_pass_def
proof (induction ms arbitrary: inn)
  case (Cons m ms)
  show ?case
  proof (cases "subtree_step inn m = inn")
    case True
    with Cons show ?thesis by fastforce
  next
    case False
    then have "m_Code m \<notin> set inn" "m_Code m \<in> set (subtree_step inn m)" by (auto simp: subtree_step_def split: if_splits)
    moreover have "set (subtree_step inn m) \<subseteq> set (foldl subtree_step (subtree_step inn m) ms)"
      using subtree_pass_mono by (simp add: subtree_pass_def)
    ultimately show ?thesis by auto
  qed
qed simp

function subtree_close :: "Member list \<Rightarrow> string list \<Rightarrow> string list" where
  "subtree_close ms inn = (let inn' = subtree_pass ms inn in if inn' = inn then inn else subtree_close ms inn')"
  by pat_completeness auto
termination
proof (relation "measure (\<lambda>(ms, inn). card (m_Code ` set ms - set inn))", goal_cases)
  case (2 ms inn inn')
  then obtain m where "m \<in> set ms" "m_Code m \<in> set inn' - set inn" using subtree_pass_grows by blast
  with subtree_pass_mono [of inn ms] 2(1) show ?case
    by (auto intro!: psubset_card_mono)
qed simp

declare subtree_close.simps [simp del]

definition SubtreeCodes :: "Dimension option \<Rightarrow> string \<Rightarrow> string list option" where
  "SubtreeCodes d code =
     (case d of
        None \<Rightarrow> None
      | Some dm \<Rightarrow>
          (case findMember dm code of
             None \<Rightarrow> None
           | Some _ \<Rightarrow>
               (let inn = subtree_close (d_Members dm) [code]
                in Some (code # map m_Code (filter (\<lambda>m. m_Code m \<noteq> code \<and> m_Code m \<in> set inn) (d_Members dm))))))"

definition LeafDescendants :: "Dimension option \<Rightarrow> string \<Rightarrow> string list option" where
  "LeafDescendants d code =
     map_option (\<lambda>subtree. filter (\<lambda>c. c \<in> set subtree) (allLeafCodes d)) (SubtreeCodes d code)"

fun first_members :: "string list \<Rightarrow> Member list \<Rightarrow> Member list" where
  "first_members inn [] = []"
| "first_members inn (m # ms) =
     (if m_Code m \<in> set inn then m # first_members (removeAll (m_Code m) inn) ms else first_members inn ms)"

definition leafPeriods :: "Dimension \<Rightarrow> string \<Rightarrow> Member list" where
  "leafPeriods d code =
     sort_key m_TimeIndex
       (first_members (case LeafDescendants (Some d) code of None \<Rightarrow> [] | Some cs \<Rightarrow> cs) (d_Members d))"

subsection \<open>How dimensions relate\<close>

definition maxDepth :: nat where
  "maxDepth = 10"

definition sortedKeys :: "combo \<Rightarrow> string list" where
  "sortedKeys m = sort (map fst m)"

fun dimensionChainTo :: "dimensions \<Rightarrow> nat \<Rightarrow> string \<Rightarrow> string \<Rightarrow> string list option" where
  "dimensionChainTo dims 0 fromID ancestorID = None"
| "dimensionChainTo dims (Suc n) fromID ancestorID =
     (if fromID = ancestorID then Some [fromID]
      else case dims fromID of
             None \<Rightarrow> None
           | Some d \<Rightarrow>
               if d_ParentDimensionID d = [] then None
               else map_option ((#) fromID) (dimensionChainTo dims n (d_ParentDimensionID d) ancestorID))"

definition chain_to :: "dimensions \<Rightarrow> string \<Rightarrow> string \<Rightarrow> string list option" where
  "chain_to dims fromID ancestorID = dimensionChainTo dims (Suc maxDepth) fromID ancestorID"

fun chain_loop :: "dimensions \<Rightarrow> nat \<Rightarrow> string \<Rightarrow> string \<Rightarrow> bool" where
  "chain_loop dims 0 fromID ancestorID = False"
| "chain_loop dims (Suc k) fromID ancestorID =
     (case dims fromID of
        None \<Rightarrow> False
      | Some d \<Rightarrow>
          if d_ParentDimensionID d = [] then False
          else if d_ParentDimensionID d = ancestorID then True
          else chain_loop dims k (d_ParentDimensionID d) ancestorID)"

definition chainReaches :: "dimensions \<Rightarrow> string \<Rightarrow> string \<Rightarrow> bool" where
  "chainReaches dims fromID ancestorID = chain_loop dims maxDepth fromID ancestorID"

datatype relationKind =
    relationNone
  | relationChildChain "string list"
  | relationParentChain "string list"
  | relationProperty

definition long_chain :: "string list option \<Rightarrow> string list option" where
  "long_chain c = (case c of Some xs \<Rightarrow> if 1 < length xs then Some xs else None | None \<Rightarrow> None)"

definition relation :: "dimensions \<Rightarrow> string \<Rightarrow> string \<Rightarrow> relationKind" where
  "relation dims ownDimID otherDimID =
     (if ownDimID = otherDimID then relationNone
      else case long_chain (chain_to dims ownDimID otherDimID) of
             Some ch \<Rightarrow> relationChildChain ch
           | None \<Rightarrow>
               (case long_chain (chain_to dims otherDimID ownDimID) of
                  Some ch \<Rightarrow> relationParentChain ch
                | None \<Rightarrow>
                    (case dims otherDimID of
                       Some other \<Rightarrow>
                         if d_SourceDimensionID other = ownDimID \<and> d_SourceProperty other \<noteq> []
                         then relationProperty else relationNone
                     | None \<Rightarrow> relationNone)))"

definition Relates :: "dimensions \<Rightarrow> string \<Rightarrow> string \<Rightarrow> bool" where
  "Relates dims ownDimID otherDimID =
     (if ownDimID = otherDimID then True
      else case dims ownDimID of
             None \<Rightarrow> False
           | Some _ \<Rightarrow>
               (case dims otherDimID of
                  None \<Rightarrow> False
                | Some other \<Rightarrow>
                    chainReaches dims ownDimID otherDimID \<or> chainReaches dims otherDimID ownDimID \<or>
                    d_SourceDimensionID other = ownDimID \<and> d_SourceProperty other \<noteq> []))"

fun descend :: "dimensions \<Rightarrow> string list \<Rightarrow> string list \<Rightarrow> string list" where
  "descend dims current [] = current"
| "descend dims current (i # levels) =
     (case dims i of
        None \<Rightarrow> []
      | Some d \<Rightarrow>
          descend dims
            (map m_Code (filter (\<lambda>m. m_ParentCode m \<noteq> [] \<and> m_ParentCode m \<in> set current) (d_Members d))) levels)"

definition descendantsInChain :: "dimensions \<Rightarrow> string list \<Rightarrow> Member \<Rightarrow> string list" where
  "descendantsInChain dims ch ancestor = descend dims [m_Code ancestor] (rev (butlast ch))"

fun ancestorCodeInChain :: "dimensions \<Rightarrow> string list \<Rightarrow> Member \<Rightarrow> string" where
  "ancestorCodeInChain dims (i # j # ch) current =
     (if m_ParentCode current = [] then []
      else case dims j of
             None \<Rightarrow> []
           | Some d \<Rightarrow>
               (case findMember d (m_ParentCode current) of
                  None \<Rightarrow> []
                | Some nxt \<Rightarrow> ancestorCodeInChain dims (j # ch) nxt))"
| "ancestorCodeInChain dims ch current = m_Code current"

definition PropertyValue :: "(string \<times> string) list \<Rightarrow> string \<Rightarrow> string" where
  "PropertyValue props name =
     (case map_of props name of
        Some v \<Rightarrow> v
      | None \<Rightarrow> (case List.find (\<lambda>(k, v). EqualFold k name) props of Some (k, v) \<Rightarrow> v | None \<Rightarrow> []))"

text \<open>\<open>None\<close>: no pinned dimension relates to the metric's own one.\<close>

fun relate_pinned :: "dimensions \<Rightarrow> string \<Rightarrow> Dimension \<Rightarrow> combo \<Rightarrow> string list \<Rightarrow> string list option" where
  "relate_pinned dims ownDimID ownDim cmb [] = None"
| "relate_pinned dims ownDimID ownDim cmb (pinnedDimID # rest) =
     (let next = relate_pinned dims ownDimID ownDim cmb rest
      in if pinnedDimID = ownDimID then next
         else case (dims pinnedDimID, map_of cmb pinnedDimID) of
                (Some pinnedDim, Some pinnedCode) \<Rightarrow>
                  (case findMember pinnedDim pinnedCode of
                     None \<Rightarrow> next
                   | Some pinned \<Rightarrow>
                       (case relation dims ownDimID pinnedDimID of
                          relationChildChain ch \<Rightarrow> Some (descendantsInChain dims ch pinned)
                        | relationParentChain ch \<Rightarrow>
                            (let code = ancestorCodeInChain dims ch pinned
                             in Some (if code = [] then [] else [code]))
                        | relationProperty \<Rightarrow>
                            Some (map m_Code (filter
                              (\<lambda>m. PropertyValue (m_Properties m) (d_SourceProperty pinnedDim) = pinnedCode) (d_Members ownDim)))
                        | relationNone \<Rightarrow> next))
              | _ \<Rightarrow> next)"

definition relate :: "dimensions \<Rightarrow> string \<Rightarrow> combo \<Rightarrow> string list option" where
  "relate dims ownDimID cmb =
     (case dims ownDimID of
        None \<Rightarrow> None
      | Some ownDim \<Rightarrow> relate_pinned dims ownDimID ownDim cmb (sortedKeys cmb))"

subsection \<open>Combinations\<close>

fun product_loop :: "combo list \<Rightarrow> (string \<times> string list) list \<Rightarrow> combo list" where
  "product_loop combos [] = combos"
| "product_loop combos ((i, codes) # rest) =
     (if codes = [] then []
      else product_loop (concat (map (\<lambda>prefix. map (\<lambda>code. AList.update i code prefix) codes) combos)) rest)"

definition cartesianProduct :: "string list \<Rightarrow> string list list \<Rightarrow> combo list" where
  "cartesianProduct dimIDs codeSets = product_loop [[]] (zip dimIDs codeSets)"

definition LeafCombos :: "dimensions \<Rightarrow> string list \<Rightarrow> combo list" where
  "LeafCombos dims dimIDs = cartesianProduct dimIDs (map (\<lambda>i. allLeafCodes (dims i)) dimIDs)"

definition half_max_int64 :: int where
  "half_max_int64 = 4611686018427387903"

fun combo_count :: "dimensions \<Rightarrow> int \<Rightarrow> string list \<Rightarrow> int" where
  "combo_count dims n [] = n"
| "combo_count dims n (i # dimIDs) =
     (let leaves = int (length (allLeafCodes (dims i)))
      in if leaves = 0 then 0
         else if half_max_int64 div leaves < n then half_max_int64
         else combo_count dims (wrap64 (n * leaves)) dimIDs)"

definition LeafComboCount :: "dimensions \<Rightarrow> string list \<Rightarrow> int" where
  "LeafComboCount dims dimIDs = combo_count dims 1 dimIDs"

text \<open>The lattice of all members, checked against the limit dimension by dimension.\<close>

fun lattice :: "dimensions \<Rightarrow> int \<Rightarrow> nat \<Rightarrow> string list \<Rightarrow> string list list option" where
  "lattice dims maxCombos tot [] = Some []"
| "lattice dims maxCombos tot (i # dimIDs) =
     (case dims i of
        None \<Rightarrow> None
      | Some d \<Rightarrow>
          if d_Members d = [] then None
          else (let codes = map m_Code (d_Members d); tot' = tot * length codes
                in if 0 < maxCombos \<and> maxCombos < int tot' then None
                   else map_option ((#) codes) (lattice dims maxCombos tot' dimIDs)))"

definition all_leaf :: "dimensions \<Rightarrow> string list \<Rightarrow> combo \<Rightarrow> bool" where
  "all_leaf dims dimIDs c \<longleftrightarrow>
     list_all (\<lambda>i. (case map_of c i of None \<Rightarrow> [] | Some code \<Rightarrow> code) \<in> set (allLeafCodes (dims i))) dimIDs"

definition RollupCombos :: "dimensions \<Rightarrow> string list \<Rightarrow> int \<Rightarrow> combo list" where
  "RollupCombos dims dimIDs maxCombos =
     (if dimIDs = [] then []
      else case lattice dims maxCombos 1 dimIDs of
             None \<Rightarrow> []
           | Some allCodes \<Rightarrow> filter (\<lambda>c. \<not> all_leaf dims dimIDs c) (cartesianProduct dimIDs allCodes))"

subsection \<open>Combining values\<close>

definition combineAgg :: "f64 list \<Rightarrow> string \<Rightarrow> f64" where
  "combineAgg vals rule =
     (if rule \<in> {''formula'', ''rate'', ''average''} then
        if vals = [] then Fin 0 else fdiv (fsum vals) (f64_of_int (int (length vals)))
      else if rule = ''count'' then foldl (\<lambda>n v. if is_zero v then n else fadd n (Fin 1)) (Fin 0) vals
      else fsum vals)"

definition CombineAgg :: "f64 list \<Rightarrow> string \<Rightarrow> f64" where
  "CombineAgg vals rule = combineAgg vals rule"

definition CombineTime :: "f64 list \<Rightarrow> string \<Rightarrow> f64" where
  "CombineTime vals rule =
     (if vals = [] then Fin 0
      else if rule = ''average'' then fdiv (fsum vals) (f64_of_int (int (length vals)))
      else if rule = ''min'' then fmin_list vals
      else if rule = ''max'' then fmax_list vals
      else if rule = ''first'' then hd vals
      else if rule = ''last'' then last vals
      else fsum vals)"

definition CombineTimeOver :: "f64 list \<Rightarrow> nat \<Rightarrow> string \<Rightarrow> f64" where
  "CombineTimeOver vals periods rule =
     (if rule = ''average'' \<and> length vals < periods
      then fdiv (fsum vals) (f64_of_int (int periods))
      else CombineTime vals rule)"

definition Aggregates :: "string \<Rightarrow> bool" where
  "Aggregates rule \<longleftrightarrow> rule \<noteq> ''none''"

subsection \<open>Reading a metric\<close>

datatype rollup_error = ErrDepthExceeded | ErrNoValue | ErrConflictingOverrides string string string | ErrFetch string

type_synonym reading = "rollup_error + f64 \<times> bool"
type_synonym 's RawValue = "string \<Rightarrow> combo \<Rightarrow> 's \<Rightarrow> reading \<times> 's"

fun noValue :: "reading \<Rightarrow> reading" where
  "noValue (Inl ErrNoValue) = Inr (Fin 0, False)"
| "noValue r = r"

definition pinned_code :: "combo \<Rightarrow> string \<Rightarrow> string" where
  "pinned_code cmb i = (case map_of cmb i of None \<Rightarrow> [] | Some code \<Rightarrow> code)"

definition exact_combo :: "string list \<Rightarrow> combo \<Rightarrow> combo" where
  "exact_combo ids cmb = foldl (\<lambda>c i. AList.update i (pinned_code cmb i) c) [] ids"

text \<open>
  \<open>recorded\<close> is what the \<open>tracked\<close> closures note: whether a fetch answered with a value. Every
  reader returns it beside its result, for the fetches it made.
\<close>

type_synonym answer = "reading \<times> bool"

definition track :: "reading \<times> 's \<Rightarrow> answer \<times> 's" where
  "track rs = (case rs of (r, s) \<Rightarrow> ((r, case r of Inr (_, ok) \<Rightarrow> ok | Inl _ \<Rightarrow> False), s))"

definition first_expandable :: "dimensions \<Rightarrow> combo \<Rightarrow> string option" where
  "first_expandable dims cmb =
     List.find (\<lambda>i. case dims i of None \<Rightarrow> False | Some d \<Rightarrow> childrenOf d (pinned_code cmb i) \<noteq> []) (sortedKeys cmb)"

text \<open>
  The children of an expanded member. \<open>skip_unrecorded\<close> is \<open>timeParent\<close>: a period counts when its
  answer is a recorded value (\<open>resolveRecorded\<close>); any other child counts unless it has no value at all.
\<close>

definition keep_child :: "bool \<Rightarrow> answer \<Rightarrow> f64 list \<Rightarrow> rollup_error + f64 list" where
  "keep_child timeParent a vals =
     (case a of
        (Inl ErrNoValue, _) \<Rightarrow> Inr vals
      | (Inl e, _) \<Rightarrow> Inl e
      | (Inr (v, ok), recorded) \<Rightarrow> Inr (if timeParent \<and> \<not> (ok \<and> recorded) then vals else vals @ [v]))"

fun child_loop :: "(combo \<Rightarrow> 's \<Rightarrow> answer \<times> 's) \<Rightarrow> bool \<Rightarrow> combo list \<Rightarrow> f64 list \<Rightarrow> bool \<Rightarrow> 's \<Rightarrow>
    ((rollup_error + f64 list) \<times> bool) \<times> 's" where
  "child_loop rec timeParent [] vals recorded s = ((Inr vals, recorded), s)"
| "child_loop rec timeParent (c # cs) vals recorded s =
     (case rec c s of (a, s') \<Rightarrow>
        (case keep_child timeParent a vals of
           Inl e \<Rightarrow> ((Inl e, recorded \<or> snd a), s')
         | Inr vals' \<Rightarrow> child_loop rec timeParent cs vals' (recorded \<or> snd a) s'))"

text \<open>The second tier: the metric's own dimensions, related to the combination.\<close>

definition own_codes :: "dimensions \<Rightarrow> combo \<Rightarrow> string \<Rightarrow> string list" where
  "own_codes dims cmb i =
     (case map_of cmb i of
        Some code \<Rightarrow> [code]
      | None \<Rightarrow> (case relate dims i cmb of Some codes \<Rightarrow> codes | None \<Rightarrow> allLeafCodes (dims i)))"

definition combined :: "string \<Rightarrow> f64 list \<Rightarrow> reading" where
  "combined aggRule vals = (if vals = [] then Inl ErrNoValue else Inr (combineAgg vals aggRule, True))"

definition read_own :: "dimensions \<Rightarrow> 's RawValue \<Rightarrow> string \<Rightarrow> string list \<Rightarrow> string \<Rightarrow> combo \<Rightarrow> 's \<Rightarrow> answer \<times> 's" where
  "read_own dims fetch metricID metricDimIDs aggRule cmb s =
     (if list_all (\<lambda>i. map_of cmb i \<noteq> None) metricDimIDs
      then track (fetch metricID (exact_combo metricDimIDs cmb) s)
      else let combos = cartesianProduct metricDimIDs (map (own_codes dims cmb) metricDimIDs)
           in if combos = [] then ((Inr (Fin 0, True), False), s)
              else (case child_loop (\<lambda>c s. track (fetch metricID c s)) False combos [] False s of
                      ((Inl e, recorded), s') \<Rightarrow> ((Inl e, recorded), s')
                    | ((Inr vals, recorded), s') \<Rightarrow> ((combined aggRule vals, recorded), s')))"

definition expand :: "dimensions \<Rightarrow> string \<Rightarrow> string \<Rightarrow> combo \<Rightarrow> string \<Rightarrow> (combo \<Rightarrow> 's \<Rightarrow> answer \<times> 's) \<Rightarrow> 's \<Rightarrow> answer \<times> 's" where
  "expand dims aggRule timeSummary cmb dimID rec s =
     (case dims dimID of
        None \<Rightarrow> ((Inr (Fin 0, False), False), s)
      | Some d \<Rightarrow>
          (let code = pinned_code cmb dimID; timeParent = (d_IsTime d \<and> timeSummary \<noteq> [])
           in if timeParent \<and> timeSummary = ''none'' then ((Inr (Fin 0, False), False), s)
              else let cs = map m_Code (if timeParent then leafPeriods d code else childrenOf d code)
                   in (case child_loop rec timeParent (map (\<lambda>c. AList.update dimID c cmb) cs) [] False s of
                         ((Inl e, recorded), s') \<Rightarrow> ((Inl e, recorded), s')
                       | ((Inr vals, recorded), s') \<Rightarrow>
                           ((if \<not> timeParent then combined aggRule vals
                             else if vals = [] then Inr (Fin 0, False)
                             else Inr (CombineTimeOver vals (length cs) timeSummary, True), recorded), s'))))"

fun resolve :: "dimensions \<Rightarrow> 's RawValue \<Rightarrow> string \<Rightarrow> string list \<Rightarrow> string \<Rightarrow> string \<Rightarrow> nat \<Rightarrow> combo \<Rightarrow> 's \<Rightarrow> answer \<times> 's" where
  "resolve dims fetch metricID metricDimIDs aggRule timeSummary 0 cmb s = ((Inl ErrDepthExceeded, False), s)"
| "resolve dims fetch metricID metricDimIDs aggRule timeSummary (Suc n) cmb s =
     (if metricDimIDs = [] then track (fetch metricID [] s)
      else case first_expandable dims cmb of
             Some dimID \<Rightarrow>
               expand dims aggRule timeSummary cmb dimID
                 (resolve dims fetch metricID metricDimIDs aggRule timeSummary n) s
           | None \<Rightarrow> read_own dims fetch metricID metricDimIDs aggRule cmb s)"

subsection \<open>Flat reading\<close>

definition flatRule :: "string \<Rightarrow> bool \<Rightarrow> bool" where
  "flatRule aggRule flatSum =
     (if aggRule \<in> {''average'', ''count''} then True
      else if aggRule \<in> {''formula'', ''rate''} then False
      else flatSum)"

definition trivialCombo :: "dimensions \<Rightarrow> string list \<Rightarrow> combo \<Rightarrow> bool" where
  "trivialCombo dims metricDimIDs cmb \<longleftrightarrow>
     list_all (\<lambda>(i, code). case dims i of None \<Rightarrow> True | Some d \<Rightarrow> childrenOf d code = []) cmb \<and>
     list_all (\<lambda>i. map_of cmb i \<noteq> None) metricDimIDs"

definition comboKey :: "combo \<Rightarrow> string" where
  "comboKey cmb =
     concat (map (\<lambda>k. k @ ''='' @ pinned_code cmb k @ [CHR 0x00]) (sortedKeys cmb))"

text \<open>The leaves read so far by key, with the error they answered, and the recorded values.\<close>

type_synonym 's collected = "'s \<times> (string \<times> rollup_error option) list \<times> f64 list"

fun collect :: "'s RawValue \<Rightarrow> 's collected RawValue" where
  "collect fetch metricID leaf (s, seen, vals) =
     (case map_of seen (comboKey leaf) of
        Some prev \<Rightarrow> ((case prev of None \<Rightarrow> Inr (Fin 0, False) | Some e \<Rightarrow> Inl e), (s, seen, vals))
      | None \<Rightarrow>
          (case fetch metricID leaf s of
             (Inl ErrNoValue, s') \<Rightarrow> (Inl ErrNoValue, (s', (comboKey leaf, Some ErrNoValue) # seen, vals))
           | (Inl e, s') \<Rightarrow> (Inl e, (s', seen, vals))
           | (Inr (v, ok), s') \<Rightarrow>
               (Inr (Fin 0, False), (s', (comboKey leaf, None) # seen, if ok then vals @ [v] else vals))))"

type_synonym flat_answer = "rollup_error + f64 \<times> bool \<times> bool"

definition resolveFlat :: "dimensions \<Rightarrow> 's RawValue \<Rightarrow> string \<Rightarrow> string list \<Rightarrow> string \<Rightarrow> bool \<Rightarrow> combo \<Rightarrow> 's \<Rightarrow> flat_answer \<times> 's" where
  "resolveFlat dims fetch metricID metricDimIDs aggRule inReduction cmb s =
     (if metricDimIDs = [] \<or> trivialCombo dims metricDimIDs cmb then
        (case fetch metricID (exact_combo metricDimIDs cmb) s of
           (r, s') \<Rightarrow>
             (case noValue r of
                Inl e \<Rightarrow> (Inl e, s')
              | Inr (v, ok) \<Rightarrow> (Inr (if ok \<and> inReduction then combineAgg [v] aggRule else v, ok, ok), s')))
      else
        (case resolve dims (collect fetch) metricID metricDimIDs ''sum'' [] (Suc maxDepth) cmb (s, [], []) of
           ((Inl ErrNoValue, _), (s', _, _)) \<Rightarrow> (Inr (Fin 0, False, False), s')
         | ((Inl e, _), (s', _, _)) \<Rightarrow> (Inl e, s')
         | ((Inr _, _), (s', _, vals)) \<Rightarrow> (Inr (combineAgg vals aggRule, True, vals \<noteq> []), s')))"

subsection \<open>The readers\<close>

definition own_dims :: "dimensions \<Rightarrow> string list \<Rightarrow> string list" where
  "own_dims dims metricDimIDs =
     filter (\<lambda>i. case dims i of Some d \<Rightarrow> \<not> d_IsTime d | None \<Rightarrow> True) metricDimIDs"

definition leafCombo :: "dimensions \<Rightarrow> string list \<Rightarrow> combo \<Rightarrow> bool" where
  "leafCombo dims metricDimIDs cmb \<longleftrightarrow>
     list_all (\<lambda>i. case map_of cmb i of
                     None \<Rightarrow> False
                   | Some code \<Rightarrow> (case dims i of None \<Rightarrow> True | Some d \<Rightarrow> childrenOf d code = []))
       (own_dims dims metricDimIDs) \<and>
     list_all (\<lambda>(i, _). i \<in> set (own_dims dims metricDimIDs) \<or>
         (case dims i of None \<Rightarrow> True | Some d \<Rightarrow> d_IsTime d) \<or>
         list_all (\<lambda>own. \<not> Relates dims own i) (own_dims dims metricDimIDs)) cmb"

definition LeafCombo :: "dimensions \<Rightarrow> string list \<Rightarrow> combo \<Rightarrow> bool" where
  "LeafCombo dims metricDimIDs cmb = leafCombo dims metricDimIDs cmb"

definition drop_recorded :: "flat_answer \<times> 's \<Rightarrow> reading \<times> 's" where
  "drop_recorded a = (case a of (Inl e, s) \<Rightarrow> (Inl e, s) | (Inr (v, ok, _), s) \<Rightarrow> (Inr (v, ok), s))"

definition Resolve :: "dimensions \<Rightarrow> 's RawValue \<Rightarrow> string \<Rightarrow> string list \<Rightarrow> string \<Rightarrow> combo \<Rightarrow> 's \<Rightarrow> reading \<times> 's" where
  "Resolve dims fetch metricID metricDimIDs aggRule cmb s =
     (if aggRule = ''none'' \<and> \<not> leafCombo dims metricDimIDs cmb then (Inr (Fin 0, False), s)
      else if flatRule aggRule False
      then drop_recorded (resolveFlat dims fetch metricID metricDimIDs aggRule False cmb s)
      else (case resolve dims fetch metricID metricDimIDs aggRule [] (Suc maxDepth) cmb s of
              ((r, _), s') \<Rightarrow> (noValue r, s')))"

text \<open>\<open>one\<close> of \<open>resolveTime\<close>: the combination with its time dimension at a leaf period or absent.\<close>

definition resolve_one :: "dimensions \<Rightarrow> 's RawValue \<Rightarrow> string \<Rightarrow> string list \<Rightarrow> string \<Rightarrow> bool \<Rightarrow> combo \<Rightarrow> string \<Rightarrow> bool \<Rightarrow> 's \<Rightarrow> flat_answer \<times> 's" where
  "resolve_one dims fetch metricID metricDimIDs aggRule flat cmb ts inReduction s =
     (if flat then resolveFlat dims fetch metricID metricDimIDs aggRule inReduction cmb s
      else (case resolve dims fetch metricID metricDimIDs aggRule ts (Suc maxDepth) cmb s of
              ((r, recorded), s') \<Rightarrow>
                (case noValue r of Inl e \<Rightarrow> (Inl e, s') | Inr (v, ok) \<Rightarrow> (Inr (v, ok, recorded), s'))))"

fun period_loop :: "(combo \<Rightarrow> 's \<Rightarrow> flat_answer \<times> 's) \<Rightarrow> combo list \<Rightarrow> f64 list \<Rightarrow> 's \<Rightarrow> (rollup_error + f64 list) \<times> 's" where
  "period_loop one [] vals s = (Inr vals, s)"
| "period_loop one (c # cs) vals s =
     (case one c s of
        (Inl e, s') \<Rightarrow> (Inl e, s')
      | (Inr (v, ok, recorded), s') \<Rightarrow> period_loop one cs (if ok \<and> recorded then vals @ [v] else vals) s')"

definition time_axis :: "dimensions \<Rightarrow> string list \<Rightarrow> Dimension option" where
  "time_axis dims metricDimIDs =
     Option.bind (List.find (\<lambda>i. case dims i of Some d \<Rightarrow> d_IsTime d | None \<Rightarrow> False) metricDimIDs) dims"

definition resolveTime :: "dimensions \<Rightarrow> 's RawValue \<Rightarrow> string \<Rightarrow> string list \<Rightarrow> string \<Rightarrow> string \<Rightarrow> bool \<Rightarrow> combo \<Rightarrow> 's \<Rightarrow> reading \<times> 's" where
  "resolveTime dims fetch metricID metricDimIDs aggRule timeSummary0 flatSum cmb s =
     (if aggRule = ''none'' \<and> \<not> leafCombo dims metricDimIDs cmb then (Inr (Fin 0, False), s)
      else let one = resolve_one dims fetch metricID metricDimIDs aggRule (flatRule aggRule flatSum)
           in case time_axis dims metricDimIDs of
                None \<Rightarrow> drop_recorded (one cmb [] False s)
              | Some axis \<Rightarrow>
                  (let timeSummary = (if timeSummary0 = [] then ''sum'' else timeSummary0);
                       reduce = (\<lambda>periods s.
                         if timeSummary = ''none'' then (Inr (Fin 0, False), s)
                         else (case period_loop (\<lambda>c. one c timeSummary True)
                                  (map (\<lambda>p. AList.update (d_ID axis) (m_Code p) cmb) periods) [] s of
                                 (Inl e, s') \<Rightarrow> (Inl e, s')
                               | (Inr vals, s') \<Rightarrow>
                                   (if vals = [] then Inr (Fin 0, False)
                                    else Inr (CombineTimeOver vals (length periods) timeSummary, True), s')))
                   in case map_of cmb (d_ID axis) of
                        Some code \<Rightarrow>
                          if findMember axis code = None \<or> childrenOf axis code = []
                          then drop_recorded (one cmb timeSummary False s)
                          else if aggRule \<in> {''formula'', ''rate''}
                          then (case resolve dims fetch metricID metricDimIDs aggRule timeSummary (Suc maxDepth) cmb s of
                                  ((r, _), s') \<Rightarrow> (noValue r, s'))
                          else reduce (leafPeriods axis code) s
                      | None \<Rightarrow> reduce (sort_key m_TimeIndex (filter IsLeafPeriod (d_Members axis))) s))"

definition ResolveTime :: "dimensions \<Rightarrow> 's RawValue \<Rightarrow> string \<Rightarrow> string list \<Rightarrow> string \<Rightarrow> string \<Rightarrow> combo \<Rightarrow> 's \<Rightarrow> reading \<times> 's" where
  "ResolveTime dims fetch metricID metricDimIDs aggRule timeSummary cmb s =
     resolveTime dims fetch metricID metricDimIDs aggRule timeSummary False cmb s"

definition ResolveTimeFlat :: "dimensions \<Rightarrow> 's RawValue \<Rightarrow> string \<Rightarrow> string list \<Rightarrow> string \<Rightarrow> string \<Rightarrow> combo \<Rightarrow> 's \<Rightarrow> reading \<times> 's" where
  "ResolveTimeFlat dims fetch metricID metricDimIDs aggRule timeSummary cmb s =
     resolveTime dims fetch metricID metricDimIDs aggRule timeSummary True cmb s"

fun tracked :: "'s RawValue \<Rightarrow> ('s \<times> bool) RawValue" where
  "tracked fetch metricID c (s, recorded) =
     (case fetch metricID c s of
        (Inr (v, ok), s') \<Rightarrow> (Inr (v, ok), (s', recorded \<or> ok))
      | (Inl e, s') \<Rightarrow> (Inl e, (s', recorded)))"

definition ResolveTimeRecorded :: "dimensions \<Rightarrow> 's RawValue \<Rightarrow> string \<Rightarrow> string list \<Rightarrow> string \<Rightarrow> string \<Rightarrow> combo \<Rightarrow> 's \<Rightarrow> reading \<times> 's" where
  "ResolveTimeRecorded dims fetch metricID metricDimIDs aggRule timeSummary cmb s =
     (case ResolveTime dims (tracked fetch) metricID metricDimIDs aggRule timeSummary cmb (s, False) of
        (Inl e, (s', _)) \<Rightarrow> (Inl e, s')
      | (Inr (v, ok), (s', recorded)) \<Rightarrow> (Inr (if ok \<and> recorded then (v, True) else (Fin 0, False)), s'))"

subsection \<open>Reading a source at other members\<close>

definition relatedOwn :: "dimensions \<Rightarrow> string list \<Rightarrow> string \<Rightarrow> string list" where
  "relatedOwn dims sourceDimIDs dimID = filter (\<lambda>own. Relates dims own dimID) sourceDimIDs"

definition claims :: "dimensions \<Rightarrow> string list \<Rightarrow> string \<Rightarrow> string list" where
  "claims dims sourceDimIDs dimID =
     (if dimID \<in> set sourceDimIDs then [dimID] else relatedOwn dims sourceDimIDs dimID)"

fun claim_own :: "string \<Rightarrow> string list \<Rightarrow> (string \<times> string) list \<Rightarrow> rollup_error + (string \<times> string) list" where
  "claim_own dimID [] claimedBy = Inr claimedBy"
| "claim_own dimID (own # owns) claimedBy =
     (case map_of claimedBy own of
        Some prev \<Rightarrow> Inl (ErrConflictingOverrides prev dimID own)
      | None \<Rightarrow> claim_own dimID owns ((own, dimID) # claimedBy))"

fun claim_all :: "dimensions \<Rightarrow> string list \<Rightarrow> string list \<Rightarrow> (string \<times> string) list \<Rightarrow> rollup_error + (string \<times> string) list" where
  "claim_all dims sourceDimIDs [] claimedBy = Inr claimedBy"
| "claim_all dims sourceDimIDs (dimID # rest) claimedBy =
     (case claim_own dimID (claims dims sourceDimIDs dimID) claimedBy of
        Inl e \<Rightarrow> Inl e
      | Inr claimedBy' \<Rightarrow> claim_all dims sourceDimIDs rest claimedBy')"

text \<open>The pins an override displaces.\<close>

definition displace :: "dimensions \<Rightarrow> string list \<Rightarrow> combo \<Rightarrow> string \<Rightarrow> combo" where
  "displace dims sourceDimIDs pins dimID =
     filter (\<lambda>(pinned, _). pinned = dimID \<or>
       list_all (\<lambda>own. \<not> Relates dims own pinned) (relatedOwn dims sourceDimIDs dimID)) pins"

definition NormalizeCombo :: "dimensions \<Rightarrow> string list \<Rightarrow> combo \<Rightarrow> combo \<Rightarrow> rollup_error + combo" where
  "NormalizeCombo dims sourceDimIDs cmb overrides =
     (case claim_all dims sourceDimIDs (sortedKeys overrides) [] of
        Inl e \<Rightarrow> Inl e
      | Inr _ \<Rightarrow>
          (let kept = filter (\<lambda>(i, _). relatedOwn dims sourceDimIDs i \<noteq> []) cmb;
               cleared = foldl (displace dims sourceDimIDs) kept (sortedKeys overrides)
           in Inr (foldl (\<lambda>pins (i, code). if relatedOwn dims sourceDimIDs i \<noteq> [] then AList.update i code pins else pins)
                     cleared overrides)))"

subsection \<open>Calculated members\<close>

definition CalculatedCode :: "Dimension option \<Rightarrow> string \<Rightarrow> CalculatedMember option" where
  "CalculatedCode d code =
     (case d of None \<Rightarrow> None | Some d \<Rightarrow> List.find (\<lambda>c. EqualFold (k_Code c) code) (d_Calculated d))"

fun read_refs :: "(string \<Rightarrow> string + f64 \<times> bool) \<Rightarrow> string list \<Rightarrow> (string \<times> Value) list \<Rightarrow> bool \<Rightarrow>
    string + (string \<times> Value) list \<times> bool" where
  "read_refs get [] vars anyValue = Inr (vars, anyValue)"
| "read_refs get (ref # refs) vars anyValue =
     (case get ref of
        Inl e \<Rightarrow> Inl e
      | Inr (v, ok) \<Rightarrow> read_refs get refs (AList.update ref (NumberVal v) vars) (anyValue \<or> ok))"

definition EvalCalculated :: "platform \<Rightarrow> string \<Rightarrow> string \<Rightarrow> (string \<Rightarrow> string + f64 \<times> bool) \<Rightarrow> string + f64 \<times> bool" where
  "EvalCalculated pl formula metricFormat get =
     (case ExtractRefs formula of
        Inl _ \<Rightarrow> Inr (Fin 0, False)
      | Inr refs \<Rightarrow>
          (case read_refs get refs [] False of
             Inl e \<Rightarrow> Inl e
           | Inr (vars, anyValue) \<Rightarrow>
               if refs \<noteq> [] \<and> \<not> anyValue then Inr (Fin 0, False)
               else (case EvalWithContext pl formula
                            (empty_context\<lparr>Vars := Some vars,
                               Funcs := [(''METRICFORMAT'', \<lambda>_ _. ret (StringVal metricFormat))]\<rparr>) of
                       Inl _ \<Rightarrow> Inr (Fin 0, False)
                     | Inr res \<Rightarrow>
                         if IsError res then Inr (Fin 0, False)
                         else (case Number res of Some n \<Rightarrow> Inr (n, True) | None \<Rightarrow> Inr (Fin 0, False)))))"

subsection \<open>The index answers what a scan of the members would\<close>

lemma index_fold:
  "byCode (foldl index_member p (List.enumerate n ms)) c =
     (case byCode p c of Some i \<Rightarrow> Some i
      | None \<Rightarrow> (case List.find (\<lambda>(i, m). m_Code m = c) (List.enumerate n ms) of None \<Rightarrow> None | Some (i, m) \<Rightarrow> Some i))"
  "children (foldl index_member p (List.enumerate n ms)) c =
     children p c @ (if c = [] then [] else filter (\<lambda>m. m_ParentCode m = c) ms)"
  by (induction ms arbitrary: n p)
    (auto simp: index_member_def Let_def split: option.splits prod.splits)

lemma childrenOf_scan:
  "childrenOf d c = (if c = [] then [] else filter (\<lambda>m. m_ParentCode m = c) (d_Members d))"
  by (simp add: childrenOf_def dim_index_def index_fold)

lemma find_enumerate:
  "map_option (\<lambda>(i, m). ms ! (i - n)) (List.find (\<lambda>(i, m). P m) (List.enumerate n ms)) = List.find P ms"
proof (induction ms arbitrary: n)
  case (Cons m ms)
  have "List.find (\<lambda>(i, m). P m) (List.enumerate (Suc n) ms) = Some (i, x) \<Longrightarrow> Suc n \<le> i" for i x
    by (auto simp: find_Some_iff nth_enumerate_eq)
  with Cons [of "Suc n"] show ?case
    by (cases "List.find (\<lambda>(i, m). P m) (List.enumerate (Suc n) ms)") (fastforce simp: nth_Cons')+
qed simp

lemma findMember_scan: "findMember d c = List.find (\<lambda>m. m_Code m = c) (d_Members d)"
  using find_enumerate [of "d_Members d" 0 "\<lambda>m. m_Code m = c"]
  by (cases "List.find (\<lambda>(i, m). m_Code m = c) (List.enumerate 0 (d_Members d))")
    (auto simp: findMember_def dim_index_def index_fold)

text \<open>
  The member index is exact: the children it lists under a code are the members whose parent
  it is, in the dimension's order, and the member it finds by code is the first with that code.
\<close>

theorem index_exact:
  "childrenOf d c = (if c = [] then [] else filter (\<lambda>m. m_ParentCode m = c) (d_Members d)) \<and>
   findMember d c = List.find (\<lambda>m. m_Code m = c) (d_Members d)"
  using childrenOf_scan findMember_scan by blast

subsection \<open>A subtree is what the parent links reach\<close>

definition child_of :: "Member list \<Rightarrow> (string \<times> string) set" where
  "child_of ms = {(p, c). \<exists>m \<in> set ms. p \<noteq> [] \<and> m_ParentCode m = p \<and> m_Code m = c}"

lemma subtree_step_sound:
  assumes "m \<in> set ms" and "set inn \<subseteq> (child_of ms)\<^sup>* `` {code}"
  shows "set (subtree_step inn m) \<subseteq> (child_of ms)\<^sup>* `` {code}"
proof -
  have "(code, m_Code m) \<in> (child_of ms)\<^sup>*" if p: "m_ParentCode m \<in> set inn" "m_ParentCode m \<noteq> []"
  proof -
    have "(code, m_ParentCode m) \<in> (child_of ms)\<^sup>*" using p(1) assms(2) by blast
    moreover have "(m_ParentCode m, m_Code m) \<in> child_of ms" using p(2) assms(1) by (auto simp: child_of_def)
    ultimately show ?thesis by (rule rtrancl_into_rtrancl)
  qed
  with assms(2) show ?thesis by (auto simp: subtree_step_def)
qed

lemma subtree_pass_sound:
  assumes "set ms' \<subseteq> set ms" and "set inn \<subseteq> (child_of ms)\<^sup>* `` {code}"
  shows "set (subtree_pass ms' inn) \<subseteq> (child_of ms)\<^sup>* `` {code}"
  using assms unfolding subtree_pass_def
proof (induction ms' arbitrary: inn)
  case (Cons m ms')
  then show ?case using subtree_step_sound [of m ms inn code] by simp
qed simp

lemma subtree_pass_fixed:
  assumes "subtree_pass ms inn = inn" and "m \<in> set ms" and "m_ParentCode m \<noteq> []" and "m_ParentCode m \<in> set inn"
  shows "m_Code m \<in> set inn"
proof -
  from assms(2) obtain xs ys where ms: "ms = xs @ m # ys" by (auto simp: in_set_conv_decomp)
  have "set inn \<subseteq> set (subtree_pass xs inn)" by (rule subtree_pass_mono)
  then have "m_Code m \<in> set (subtree_step (subtree_pass xs inn) m)"
    using assms(3,4) by (auto simp: subtree_step_def)
  also have "\<dots> \<subseteq> set (subtree_pass ys (subtree_step (subtree_pass xs inn) m))" by (rule subtree_pass_mono)
  also have "\<dots> = set inn" using assms(1) by (simp add: ms subtree_pass_def)
  finally show ?thesis .
qed

lemma subtree_close_reachable:
  assumes "set inn \<subseteq> (child_of ms)\<^sup>* `` {code}" and "code \<in> set inn"
  shows "set (subtree_close ms inn) = (child_of ms)\<^sup>* `` {code}"
  using assms
proof (induction ms inn rule: subtree_close.induct)
  case (1 ms inn)
  show ?case
  proof (cases "subtree_pass ms inn = inn")
    case True
    have "c \<in> set inn" if "(code, c) \<in> (child_of ms)\<^sup>*" for c
      using that
    proof (induction rule: rtrancl_induct)
      case (step b c)
      then show ?case using subtree_pass_fixed [OF True] by (auto simp: child_of_def)
    qed (rule "1.prems"(2))
    with True "1.prems"(1) show ?thesis by (auto simp: subtree_close.simps [of ms inn])
  next
    case False
    with 1 show ?thesis
      using subtree_pass_sound [of ms ms inn code] subtree_pass_mono [of inn ms]
      by (auto simp: subtree_close.simps [of ms inn])
  qed
qed

text \<open>
  C33 \<open>SubtreeCodes\<close> is the whole subtree and nothing else: for a member of the dimension it lists
  exactly the codes its chain of parent links reaches, the member first, also when the links are
  cyclic; \<open>LeafDescendants\<close> are the dimension's leaves among them.
\<close>

theorem SubtreeCodes_reachable:
  assumes "findMember d code \<noteq> None"
  shows "\<exists>cs. SubtreeCodes (Some d) code = Some cs \<and> hd cs = code \<and>
    set cs = (child_of (d_Members d))\<^sup>* `` {code} \<and>
    LeafDescendants (Some d) code =
      Some (filter (\<lambda>c. (code, c) \<in> (child_of (d_Members d))\<^sup>*) (allLeafCodes (Some d)))"
proof -
  let ?inn = "subtree_close (d_Members d) [code]"
  let ?cs = "code # map m_Code (filter (\<lambda>m. m_Code m \<noteq> code \<and> m_Code m \<in> set ?inn) (d_Members d))"
  have cs: "SubtreeCodes (Some d) code = Some ?cs"
    using assms by (auto simp: SubtreeCodes_def Let_def)
  have reach: "set ?inn = (child_of (d_Members d))\<^sup>* `` {code}" by (rule subtree_close_reachable) auto
  have "c \<in> m_Code ` set (d_Members d)" if "(code, c) \<in> (child_of (d_Members d))\<^sup>*" "c \<noteq> code" for c
    using that by (cases rule: rtrancl.cases) (auto simp: child_of_def)
  then have set: "set ?cs = (child_of (d_Members d))\<^sup>* `` {code}" using reach by auto
  with cs show ?thesis by (auto simp: LeafDescendants_def)
qed

definition demo_region :: Dimension where
  "demo_region = \<lparr>d_ID = ''region'', d_ParentDimensionID = [], d_SourceDimensionID = [], d_SourceProperty = [],
     d_Members = [\<lparr>m_ID = ''1'', m_Code = ''World'', m_ParentCode = [], m_Properties = [], m_TimeIndex = 0\<rparr>,
       \<lparr>m_ID = ''2'', m_Code = ''EMEA'', m_ParentCode = ''World'', m_Properties = [], m_TimeIndex = 0\<rparr>,
       \<lparr>m_ID = ''3'', m_Code = ''APAC'', m_ParentCode = ''World'', m_Properties = [], m_TimeIndex = 0\<rparr>],
     d_IsTime = False, d_Calculated = []\<rparr>"

theorem SubtreeCodes_reachable_witness:
  "findMember demo_region ''World'' \<noteq> None \<and>
   (\<exists>cs. SubtreeCodes (Some demo_region) ''World'' = Some cs \<and> set cs = (child_of (d_Members demo_region))\<^sup>* `` {''World''})"
proof -
  have m: "findMember demo_region ''World'' \<noteq> None" by (simp add: findMember_scan demo_region_def)
  from SubtreeCodes_reachable [OF m] m show ?thesis by blast
qed

subsection \<open>Relations between dimensions\<close>

lemma chain_loop_iff:
  "fromID \<noteq> ancestorID \<Longrightarrow>
     chain_loop dims n fromID ancestorID \<longleftrightarrow> dimensionChainTo dims (Suc n) fromID ancestorID \<noteq> None"
proof (induction n arbitrary: fromID)
  case (Suc n)
  then show ?case by (cases "dims fromID") auto
qed (auto split: option.split)

lemma chain_nonempty: "dimensionChainTo dims n fromID ancestorID = Some c \<Longrightarrow> c \<noteq> []"
  by (cases n) (auto split: option.splits if_splits)

lemma long_chain_iff:
  assumes "fromID \<noteq> ancestorID"
  shows "long_chain (chain_to dims fromID ancestorID) \<noteq> None \<longleftrightarrow> chainReaches dims fromID ancestorID"
proof -
  have "1 < length c" if c: "dimensionChainTo dims (Suc maxDepth) fromID ancestorID = Some c" for c
  proof -
    from c assms have "\<exists>r p. c = fromID # r \<and> dimensionChainTo dims maxDepth p ancestorID = Some r"
      by (auto split: option.splits if_splits)
    with chain_nonempty show ?thesis by fastforce
  qed
  then show ?thesis
    using chain_loop_iff [OF assms, of dims maxDepth]
    unfolding long_chain_def chain_to_def chainReaches_def
    by (cases "dimensionChainTo dims (Suc maxDepth) fromID ancestorID") (simp_all del: dimensionChainTo.simps)
qed

text \<open>
  The shortcut and the rule agree: \<open>Relates\<close>, which every cell read uses and which builds no
  chains, holds exactly when the dimensions are the same one or \<open>relation\<close> finds a relation
  between two known dimensions.
\<close>

theorem Relates_iff_relation:
  "Relates dims own other \<longleftrightarrow>
     own = other \<or> dims own \<noteq> None \<and> dims other \<noteq> None \<and> relation dims own other \<noteq> relationNone"
proof (cases "own = other")
  case False
  then show ?thesis
    using long_chain_iff [OF False, of dims] long_chain_iff [of other own dims]
    by (cases "long_chain (chain_to dims own other)"; cases "long_chain (chain_to dims other own)")
      (auto simp: Relates_def relation_def split: option.splits)
qed (simp add: Relates_def)

subsection \<open>Products of member sets\<close>

lemma update_fresh: "i \<notin> set (map fst ps) \<Longrightarrow> AList.update i v ps = ps @ [(i, v)]"
  by (induction ps) auto

lemma concat_concat_map: "concat (concat (map g xs)) = concat (map (\<lambda>x. concat (g x)) xs)"
  by (induction xs) simp_all

lemma le_div_iff_int:
  fixes n h l :: int
  assumes "0 < l"
  shows "n \<le> h div l \<longleftrightarrow> n * l \<le> h"
proof
  assume "n \<le> h div l"
  then have "n * l \<le> (h div l) * l" using assms by (intro mult_right_mono) auto
  also have "\<dots> \<le> h" using assms by (metis mult.commute mult_div_mod_eq le_add_same_cancel1 pos_mod_sign)
  finally show "n * l \<le> h" .
next
  assume "n * l \<le> h"
  then have "(n * l) div l \<le> h div l" using assms by (rule zdiv_mono1)
  then show "n \<le> h div l" using assms by simp
qed

lemma product_loop_eq:
  assumes "distinct (map fst ks)" and "\<And>p. p \<in> set ps \<Longrightarrow> set (map fst p) \<inter> set (map fst ks) = {}"
  shows "product_loop ps ks = concat (map (\<lambda>p. map (\<lambda>cs. p @ zip (map fst ks) cs) (product_lists (map snd ks))) ps)"
  using assms
proof (induction ks arbitrary: ps)
  case (Cons k ks)
  obtain i codes where k: "k = (i, codes)" by fastforce
  show ?case
  proof (cases "codes = []")
    case True
    then show ?thesis by (simp add: k)
  next
    case False
    let ?ps = "concat (map (\<lambda>p. map (\<lambda>code. p @ [(i, code)]) codes) ps)"
    have "concat (map (\<lambda>prefix. map (\<lambda>code. AList.update i code prefix) codes) ps) = ?ps"
      using Cons.prems(2) by (auto simp: k update_fresh intro!: arg_cong [where f = concat])
    moreover have "product_loop ?ps ks =
        concat (map (\<lambda>p. map (\<lambda>cs. p @ zip (map fst ks) cs) (product_lists (map snd ks))) ?ps)"
    proof (rule Cons.IH)
      show "distinct (map fst ks)" using Cons.prems(1) by simp
      show "set (map fst p) \<inter> set (map fst ks) = {}" if "p \<in> set ?ps" for p
      proof -
        from that obtain q code where "q \<in> set ps" "p = q @ [(i, code)]" by auto
        with Cons.prems(2) [of q] Cons.prems(1) show ?thesis by (simp add: k)
      qed
    qed
    ultimately show ?thesis using False
      by (simp add: k map_concat comp_def concat_concat_map)
  qed
qed simp

lemma cartesianProduct_eq:
  assumes "distinct ids" and "length codeSets = length ids"
  shows "cartesianProduct ids codeSets = map (zip ids) (product_lists codeSets)"
  unfolding cartesianProduct_def using assms by (subst product_loop_eq) simp_all

lemma in_cartesianProduct:
  assumes "distinct ids" and "length codeSets = length ids"
  shows "c \<in> set (cartesianProduct ids codeSets) \<longleftrightarrow>
    (\<exists>cs. c = zip ids cs \<and> list_all2 (\<lambda>x codes. x \<in> set codes) cs codeSets)"
  using assms by (auto simp: cartesianProduct_eq product_lists_set)

lemma length_product_lists_prod: "length (product_lists xss) = prod_list (map length xss)"
  by (simp add: length_product_lists foldr_map comp_def prod_list.eq_foldr)

lemma LeafComboCount_prod:
  assumes "\<forall>i \<in> set ids. allLeafCodes (dims i) \<noteq> []"
  shows "LeafComboCount dims ids = min half_max_int64 (prod_list (map (\<lambda>i. int (length (allLeafCodes (dims i)))) ids))"
proof -
  let ?len = "\<lambda>i. int (length (allLeafCodes (dims i)))"
  have "combo_count dims n js = min half_max_int64 (n * prod_list (map ?len js))"
    if "\<forall>i \<in> set js. allLeafCodes (dims i) \<noteq> []" "0 < n" "n \<le> half_max_int64" for n js
    using that
  proof (induction js arbitrary: n)
    case (Cons i js)
    let ?l = "?len i" and ?P = "prod_list (map ?len js)"
    have l: "0 < ?l" using Cons.prems(1) by simp
    have P: "1 \<le> ?P" using Cons.prems(1) by (induction js) (auto simp: int_one_le_iff_zero_less)
    show ?case
    proof (cases "half_max_int64 div ?l < n")
      case True
      then have "half_max_int64 < n * ?l" using le_div_iff_int [OF l, of n] by (simp add: not_le [symmetric])
      also have "n * ?l * 1 \<le> n * ?l * ?P" using P l Cons.prems(2) by (intro mult_left_mono) auto
      finally show ?thesis using True l by (simp add: Let_def algebra_simps)
    next
      case False
      then have le: "n * ?l \<le> half_max_int64" using le_div_iff_int [OF l, of n half_max_int64] by simp
      then have "wrap64 (n * ?l) = n * ?l"
        using l Cons.prems(2) by (intro wrap64_id) (auto simp: half_max_int64_def intro: order_trans [of _ 0])
      then show ?thesis
        using False l le Cons by (simp add: Let_def algebra_simps)
    qed
  qed simp
  from this [OF assms, of 1] show ?thesis by (simp add: LeafComboCount_def half_max_int64_def)
qed

lemma length_LeafCombos:
  assumes "distinct ids"
  shows "int (length (LeafCombos dims ids)) = prod_list (map (\<lambda>i. int (length (allLeafCodes (dims i)))) ids)"
  using assms by (simp add: LeafCombos_def cartesianProduct_eq length_product_lists_prod comp_def)
    (induction ids, simp_all)

text \<open>
  C39. \<open>LeafComboCount\<close> is the number of combinations \<open>LeafCombos\<close> would build, capped: the 64-bit
  product never wraps, and the count stops at half the largest 64-bit integer. (Dimensions with
  at least one leaf each.)
\<close>

theorem LeafComboCount_exact:
  assumes "distinct ids" and "\<forall>i \<in> set ids. allLeafCodes (dims i) \<noteq> []"
  shows "LeafComboCount dims ids = min half_max_int64 (int (length (LeafCombos dims ids)))"
  using LeafComboCount_prod [OF assms(2)] length_LeafCombos [OF assms(1), of dims] by simp

theorem LeafComboCount_exact_witness:
  "LeafComboCount (\<lambda>i. if i = ''region'' then Some demo_region else None) [''region''] = 2"
  using LeafComboCount_exact [of "[''region'']" "\<lambda>i. if i = ''region'' then Some demo_region else None"]
  by (simp add: LeafCombos_def cartesianProduct_def allLeafCodes_def demo_region_def Let_def half_max_int64_def)

text \<open>
  C40. \<open>RollupCombos\<close> is the complement of \<open>LeafCombos\<close> in the lattice of all members: when the
  lattice is within the limit, a combination is listed exactly when it names a member of every
  dimension and is not a combination of leaves.
\<close>

theorem RollupCombos_complement:
  assumes "distinct ids" and "ids \<noteq> []" and "lattice dims maxCombos 1 ids = Some allCodes"
  shows "set (RollupCombos dims ids maxCombos) = set (cartesianProduct ids allCodes) - set (LeafCombos dims ids) \<and>
    allCodes = map (\<lambda>i. map m_Code (d_Members (the (dims i)))) ids"
proof -
  have lat: "cs = map (\<lambda>i. map m_Code (d_Members (the (dims i)))) js" if "lattice dims maxCombos t js = Some cs" for t js cs
    using that by (induction js arbitrary: t cs) (auto simp: Let_def split: option.splits if_splits)
  note codes = lat [OF assms(3)]
  have len: "length allCodes = length ids" by (simp add: codes)
  have "all_leaf dims ids c \<longleftrightarrow> c \<in> set (LeafCombos dims ids)" if "c \<in> set (cartesianProduct ids allCodes)" for c
  proof -
    from that assms(1) len obtain cs where cs: "c = zip ids cs" "length cs = length ids"
      by (auto simp: in_cartesianProduct dest: list_all2_lengthD)
    have look: "map_of (zip ids cs) (ids ! k) = Some (cs ! k)" if "k < length ids" for k
      using map_of_zip_nth [of ids cs k] cs(2) assms(1) that by simp
    have inj: "ds = cs" if "zip ids cs = zip ids ds" "length ds = length ids" for ds
      using that cs(2) by (metis map_snd_zip)
    have "c \<in> set (LeafCombos dims ids) \<longleftrightarrow> list_all2 (\<lambda>x codes. x \<in> set codes) cs (map (\<lambda>i. allLeafCodes (dims i)) ids)"
      unfolding LeafCombos_def cs(1) in_cartesianProduct [OF assms(1) length_map]
      using inj list_all2_lengthD by fastforce
    also have "\<dots> \<longleftrightarrow> (\<forall>k < length ids. cs ! k \<in> set (allLeafCodes (dims (ids ! k))))"
      using cs(2) by (simp add: list_all2_conv_all_nth)
    also have "\<dots> \<longleftrightarrow> all_leaf dims ids c"
      using look by (auto simp: all_leaf_def list_all_length cs(1))
    finally show ?thesis by simp
  qed
  with assms(2,3) codes show ?thesis by (auto simp: RollupCombos_def)
qed

theorem RollupCombos_complement_witness:
  "set (RollupCombos (\<lambda>i. if i = ''region'' then Some demo_region else None) [''region''] 10) =
   set (cartesianProduct [''region''] [[''World'', ''EMEA'', ''APAC'']]) -
   set (LeafCombos (\<lambda>i. if i = ''region'' then Some demo_region else None) [''region''])"
proof -
  have "lattice (\<lambda>i. if i = ''region'' then Some demo_region else None) 10 1 [''region''] =
      Some [[''World'', ''EMEA'', ''APAC'']]" by (simp add: demo_region_def Let_def)
  from RollupCombos_complement [OF _ _ this] show ?thesis by simp
qed

subsection \<open>Normalising a combination\<close>

lemma map_of_filter_keys: "map_of (filter (\<lambda>(k, _). P k) ps) i = (if P i then map_of ps i else None)"
  by (induction ps) auto

lemma map_of_displaced:
  "map_of (foldl (displace dims src) pins os) i =
     (if \<forall>o1 \<in> set os. i = o1 \<or> (\<forall>own \<in> set (relatedOwn dims src o1). \<not> Relates dims own i)
      then map_of pins i else None)"
proof (induction os arbitrary: pins)
  case (Cons o1 os)
  have "map_of (displace dims src pins o1) i =
      (if i = o1 \<or> (\<forall>own \<in> set (relatedOwn dims src o1). \<not> Relates dims own i) then map_of pins i else None)"
    unfolding displace_def map_of_filter_keys list_all_iff ..
  then show ?case unfolding foldl.simps Cons.IH by auto
qed simp

lemma map_of_overridden:
  assumes "distinct (map fst ov)"
  shows "map_of (foldl (\<lambda>pins (i, code). if P i then AList.update i code pins else pins) pins ov) i =
     (case map_of ov i of Some c \<Rightarrow> if P i then Some c else map_of pins i | None \<Rightarrow> map_of pins i)"
  using assms
proof (induction ov arbitrary: pins)
  case (Cons kc ov)
  obtain k c where kc: "kc = (k, c)" by fastforce
  then have "map_of ov k = None" using Cons.prems by (auto simp: map_of_eq_None_iff)
  with Cons kc show ?case by (auto simp: update_conv' split: option.split)
qed simp

lemma distinct_keys_filter: "distinct (map fst ps) \<Longrightarrow> distinct (map fst (filter P ps))"
  by (rule distinct_map_filter)

lemma set_sortedKeys [simp]: "set (sortedKeys cmb) = fst ` set cmb"
  by (simp add: sortedKeys_def)

lemma distinct_sortedKeys [simp]: "distinct (sortedKeys cmb) \<longleftrightarrow> distinct (map fst cmb)"
  by (simp add: sortedKeys_def)

lemma NormalizeCombo_map_of:
  assumes "NormalizeCombo dims src cmb overrides = Inr nrm" and "distinct (map fst overrides)"
  shows "map_of nrm i =
    (if relatedOwn dims src i = [] then None
     else case map_of overrides i of
            Some code \<Rightarrow> Some code
          | None \<Rightarrow>
              if \<exists>o1 \<in> fst ` set overrides. \<exists>own \<in> set (relatedOwn dims src o1). Relates dims own i
              then None else map_of cmb i)"
proof -
  let ?kept = "filter (\<lambda>(i, _). relatedOwn dims src i \<noteq> []) cmb"
  have nrm: "nrm = foldl (\<lambda>pins (i, code). if relatedOwn dims src i \<noteq> [] then AList.update i code pins else pins)
      (foldl (displace dims src) ?kept (sortedKeys overrides)) overrides"
    using assms(1) by (auto simp: NormalizeCombo_def Let_def split: sum.splits)
  have look: "map_of nrm i = (case map_of overrides i of
        Some c \<Rightarrow> if relatedOwn dims src i \<noteq> [] then Some c else map_of (foldl (displace dims src) ?kept (sortedKeys overrides)) i
      | None \<Rightarrow> map_of (foldl (displace dims src) ?kept (sortedKeys overrides)) i)"
    unfolding nrm map_of_overridden [OF assms(2)] ..
  show ?thesis
  proof (cases "map_of overrides i")
    case None
    then have "i \<noteq> o1" if "o1 \<in> fst ` set overrides" for o1 using that by (auto simp: map_of_eq_None_iff)
    then have "(\<forall>o1 \<in> fst ` set overrides. i = o1 \<or> (\<forall>own \<in> set (relatedOwn dims src o1). \<not> Relates dims own i)) \<longleftrightarrow>
        \<not> (\<exists>o1 \<in> fst ` set overrides. \<exists>own \<in> set (relatedOwn dims src o1). Relates dims own i)" by blast
    then show ?thesis by (simp add: look None map_of_displaced map_of_filter_keys)
  next
    case (Some c)
    then show ?thesis by (simp add: look map_of_displaced map_of_filter_keys)
  qed
qed

text \<open>
  C29 What \<open>NormalizeCombo\<close> returns, dimension by dimension: no pin on a dimension unrelated to the
  source; the override where there is one; otherwise the cell's own pin, unless an override on
  another dimension selects members of the same dimension of the source.
\<close>

theorem NormalizeCombo_spec:
  assumes "NormalizeCombo dims src cmb overrides = Inr nrm" and "distinct (map fst overrides)"
  shows "map_of nrm i =
    (if relatedOwn dims src i = [] then None
     else case map_of overrides i of
            Some code \<Rightarrow> Some code
          | None \<Rightarrow>
              if \<exists>o1 \<in> fst ` set overrides. \<exists>own \<in> set (relatedOwn dims src o1). Relates dims own i
              then None else map_of cmb i)"
  using assms by (rule NormalizeCombo_map_of)

lemma claim_own_iff:
  assumes "distinct owns"
  shows "if set owns \<inter> dom (map_of cb) = {} then \<exists>cb'. claim_own dimID owns cb = Inr cb' \<and> dom (map_of cb') = dom (map_of cb) \<union> set owns
    else \<exists>e. claim_own dimID owns cb = Inl e"
  using assms
proof (induction owns arbitrary: cb)
  case (Cons own owns)
  show ?case
  proof (cases "map_of cb own")
    case None
    then show ?thesis using Cons.IH [of "(own, dimID) # cb"] Cons.prems by (auto split: if_splits)
  qed (auto simp: dom_def)
qed simp

lemma distinct_claims: "distinct src \<Longrightarrow> distinct (claims dims src i)"
  by (simp add: claims_def relatedOwn_def)

lemma disjoint_insert_iff:
  assumes "x \<notin> S" and "C x \<inter> D = {}"
  shows "(\<forall>y \<in> S. C y \<inter> (D \<union> C x) = {}) \<and> (\<forall>y \<in> S. \<forall>z \<in> S. y \<noteq> z \<longrightarrow> C y \<inter> C z = {}) \<longleftrightarrow>
    (\<forall>y \<in> insert x S. C y \<inter> D = {}) \<and> (\<forall>y \<in> insert x S. \<forall>z \<in> insert x S. y \<noteq> z \<longrightarrow> C y \<inter> C z = {})"
proof -
  have ne: "y \<noteq> x" if "y \<in> S" for y using that assms(1) by blast
  have "(\<forall>y \<in> insert x S. \<forall>z \<in> insert x S. y \<noteq> z \<longrightarrow> C y \<inter> C z = {}) \<longleftrightarrow>
      (\<forall>y \<in> S. C y \<inter> C x = {}) \<and> (\<forall>y \<in> S. \<forall>z \<in> S. y \<noteq> z \<longrightarrow> C y \<inter> C z = {})"
    by (simp add: ne ne [symmetric] Int_commute [of "C x"] ball_conj_distrib cong: ball_cong)
  moreover have "(\<forall>y \<in> S. C y \<inter> (D \<union> C x) = {}) \<longleftrightarrow> (\<forall>y \<in> S. C y \<inter> D = {}) \<and> (\<forall>y \<in> S. C y \<inter> C x = {})"
    by (simp add: Int_Un_distrib ball_conj_distrib)
  ultimately show ?thesis using assms(2) by simp
qed

lemma claim_all_iff:
  assumes "distinct os" and "distinct src"
  shows "(\<exists>cb'. claim_all dims src os cb = Inr cb') \<longleftrightarrow>
    (\<forall>o1 \<in> set os. set (claims dims src o1) \<inter> dom (map_of cb) = {}) \<and>
    (\<forall>o1 \<in> set os. \<forall>o2 \<in> set os. o1 \<noteq> o2 \<longrightarrow> set (claims dims src o1) \<inter> set (claims dims src o2) = {})"
  using assms(1)
proof (induction os arbitrary: cb)
  case (Cons o1 os)
  note own = claim_own_iff [OF distinct_claims [OF assms(2)], of dims o1 cb o1]
  show ?case
  proof (cases "set (claims dims src o1) \<inter> dom (map_of cb) = {}")
    case True
    with own obtain cb' where "claim_own o1 (claims dims src o1) cb = Inr cb'"
      "dom (map_of cb') = dom (map_of cb) \<union> set (claims dims src o1)" by auto
    then have "(\<exists>cb'. claim_all dims src (o1 # os) cb = Inr cb') \<longleftrightarrow>
        (\<forall>o2 \<in> set os. set (claims dims src o2) \<inter> (dom (map_of cb) \<union> set (claims dims src o1)) = {}) \<and>
        (\<forall>o2 \<in> set os. \<forall>o3 \<in> set os. o2 \<noteq> o3 \<longrightarrow> set (claims dims src o2) \<inter> set (claims dims src o3) = {})"
      using Cons.IH [of cb'] Cons.prems by simp
    also note disjoint_insert_iff [of o1 "set os" "\<lambda>o1. set (claims dims src o1)", OF _ True]
    finally show ?thesis using Cons.prems by simp
  next
    case False
    with own show ?thesis by auto
  qed
qed simp

lemma NormalizeCombo_refuses:
  assumes "distinct (map fst overrides)" and "distinct src"
  shows "(\<exists>e. NormalizeCombo dims src cmb overrides = Inl e) \<longleftrightarrow>
    (\<exists>o1 \<in> fst ` set overrides. \<exists>o2 \<in> fst ` set overrides. o1 \<noteq> o2 \<and>
       set (claims dims src o1) \<inter> set (claims dims src o2) \<noteq> {})"
proof -
  have "(\<exists>e. NormalizeCombo dims src cmb overrides = Inl e) \<longleftrightarrow> \<not> (\<exists>cb. claim_all dims src (sortedKeys overrides) [] = Inr cb)"
    by (cases "claim_all dims src (sortedKeys overrides) []") (simp_all add: NormalizeCombo_def Let_def)
  then show ?thesis using claim_all_iff [of "sortedKeys overrides" src dims "[]"] assms by auto
qed

text \<open>
  C30. \<open>NormalizeCombo\<close> refuses exactly the conflicting requests: it fails if and only if two of the
  overridden dimensions select members of the same dimension of the source.
\<close>

theorem NormalizeCombo_conflict:
  assumes "distinct (map fst overrides)" and "distinct src"
  shows "(\<exists>e. NormalizeCombo dims src cmb overrides = Inl e) \<longleftrightarrow>
    (\<exists>o1 \<in> fst ` set overrides. \<exists>o2 \<in> fst ` set overrides. o1 \<noteq> o2 \<and>
       set (claims dims src o1) \<inter> set (claims dims src o2) \<noteq> {})"
  using assms by (rule NormalizeCombo_refuses)

text \<open>A read that pins every dimension of its source does not depend on the cell it is made from.\<close>

lemma NormalizeCombo_pinned:
  assumes "distinct (map fst overrides)" and "distinct src" and "fst ` set overrides = set src"
  shows "\<exists>nrm. NormalizeCombo dims src cmb overrides = Inr nrm \<and> map_of nrm = map_of overrides"
proof -
  have "set (claims dims src o1) = {o1}" if "o1 \<in> set src" for o1 using that by (simp add: claims_def)
  then obtain nrm where nrm: "NormalizeCombo dims src cmb overrides = Inr nrm"
    using NormalizeCombo_refuses [OF assms(1,2), of dims cmb] assms(3)
    by (cases "NormalizeCombo dims src cmb overrides") auto
  have self: "own \<in> set (relatedOwn dims src own)" if "own \<in> set src" for own
    using that by (simp add: relatedOwn_def Relates_def)
  have "map_of nrm i = map_of overrides i" for i
  proof (cases "map_of overrides i")
    case None
    then have "\<exists>o1 \<in> fst ` set overrides. \<exists>own \<in> set (relatedOwn dims src o1). Relates dims own i"
      if "relatedOwn dims src i \<noteq> []"
    proof -
      from that obtain own where "own \<in> set src" "Relates dims own i" by (auto simp: relatedOwn_def filter_empty_conv)
      with self assms(3) show ?thesis by blast
    qed
    with None show ?thesis by (simp add: NormalizeCombo_map_of [OF nrm assms(1)])
  next
    case (Some c)
    then have "i \<in> set src" using assms(3) by (metis map_of_SomeD image_eqI fst_conv)
    with self have "relatedOwn dims src i \<noteq> []" by fastforce
    with Some show ?thesis by (simp add: NormalizeCombo_map_of [OF nrm assms(1)])
  qed
  with nrm show ?thesis by blast
qed

definition demo_dims :: dimensions where
  "demo_dims i =
     (if i = ''region'' then Some demo_region
      else if i = ''country'' then Some (demo_region\<lparr>d_ID := ''country'', d_ParentDimensionID := ''region'', d_Members := []\<rparr>)
      else None)"

theorem NormalizeCombo_spec_witness:
  "\<exists>nrm. NormalizeCombo demo_dims [''country''] [(''country'', ''FR''), (''currency'', ''EUR'')] [(''region'', ''EMEA'')] = Inr nrm \<and>
     map_of nrm ''region'' = Some ''EMEA'' \<and> map_of nrm ''country'' = None \<and> map_of nrm ''currency'' = None"
proof -
  have rel: "Relates demo_dims ''country'' ''region''" "\<not> Relates demo_dims ''country'' ''currency''"
    by code_simp+
  have own: "relatedOwn demo_dims [''country''] ''region'' = [''country'']"
    "relatedOwn demo_dims [''country''] ''currency'' = []" "relatedOwn demo_dims [''country''] ''country'' = [''country'']"
    using rel by (simp_all add: relatedOwn_def Relates_def)
  obtain nrm where n: "NormalizeCombo demo_dims [''country''] [(''country'', ''FR''), (''currency'', ''EUR'')] [(''region'', ''EMEA'')] = Inr nrm"
    by (simp add: NormalizeCombo_def sortedKeys_def claims_def own)
  from NormalizeCombo_spec [OF n] own n show ?thesis by (auto simp: Relates_def)
qed

theorem NormalizeCombo_conflict_witness:
  "\<exists>e. NormalizeCombo demo_dims [''country''] [] [(''country'', ''FR''), (''region'', ''EMEA'')] = Inl e"
proof -
  have "Relates demo_dims ''country'' ''region''" by code_simp
  then have "set (claims demo_dims [''country''] ''country'') \<inter> set (claims demo_dims [''country''] ''region'') \<noteq> {}"
    by (simp add: claims_def relatedOwn_def)
  then show ?thesis
    using NormalizeCombo_conflict [of "[(''country'', ''FR''), (''region'', ''EMEA'')]" "[''country'']" demo_dims "[]"] by auto
qed

subsection \<open>A combination is a map\<close>

text \<open>Two lists of the same entries, one per dimension, are the same combination to every reader.\<close>

definition same_combo :: "combo \<Rightarrow> combo \<Rightarrow> bool" where
  "same_combo c c' \<longleftrightarrow> set c = set c' \<and> distinct (map fst c) \<and> distinct (map fst c')"

lemma same_combo_map_of: "same_combo c c' \<Longrightarrow> map_of c = map_of c'"
  unfolding same_combo_def by (metis map_of_eqI map_of_inject_set set_map)

lemma same_combo_iff: "distinct (map fst c) \<Longrightarrow> distinct (map fst c') \<Longrightarrow> same_combo c c' \<longleftrightarrow> map_of c = map_of c'"
  by (simp add: same_combo_def map_of_inject_set)

lemma same_combo_update: "same_combo c c' \<Longrightarrow> same_combo (AList.update i v c) (AList.update i v c')"
  using same_combo_map_of [of c c']
  by (simp add: same_combo_iff distinct_update update_conv' same_combo_def [of c c'])

lemma same_combo_keys: "same_combo c c' \<Longrightarrow> sortedKeys c = sortedKeys c'"
  unfolding same_combo_def sortedKeys_def
  by (intro sorted_distinct_set_unique) simp_all

lemma relate_pinned_same: "map_of c = map_of c' \<Longrightarrow> relate_pinned dims i d c ks = relate_pinned dims i d c' ks"
  by (induction ks) (simp_all add: Let_def)

lemma reads_same:
  assumes "same_combo c c'"
  shows "first_expandable dims c = first_expandable dims c'" and "own_codes dims c i = own_codes dims c' i"
    and "exact_combo ids c = exact_combo ids c'" and "pinned_code c = pinned_code c'"
    and "trivialCombo dims ids c = trivialCombo dims ids c'" and "leafCombo dims ids c = leafCombo dims ids c'"
proof -
  note m = same_combo_map_of [OF assms] and k = same_combo_keys [OF assms]
  show p: "pinned_code c = pinned_code c'" by (rule ext) (simp add: pinned_code_def m)
  show "first_expandable dims c = first_expandable dims c'" unfolding first_expandable_def k p ..
  show "own_codes dims c i = own_codes dims c' i"
    by (simp add: own_codes_def m relate_def k relate_pinned_same [OF m] split: option.split)
  show "exact_combo ids c = exact_combo ids c'" unfolding exact_combo_def p ..
  show "trivialCombo dims ids c = trivialCombo dims ids c'"
    using assms by (simp add: trivialCombo_def m list_all_iff same_combo_def)
  show "leafCombo dims ids c = leafCombo dims ids c'"
    using assms by (simp add: leafCombo_def m list_all_iff same_combo_def)
qed

lemma child_loop_same:
  assumes "\<And>c c' s. same_combo c c' \<Longrightarrow> rec c s = rec' c' s" and "same_combo c c'"
  shows "child_loop rec tp (map (\<lambda>v. AList.update i v c) cs) vals r s =
    child_loop rec' tp (map (\<lambda>v. AList.update i v c') cs) vals r s"
proof (induction cs arbitrary: vals r s)
  case (Cons v cs)
  then show ?case
    by (simp add: assms(1) [OF same_combo_update [OF assms(2)]] split: prod.split sum.split)
qed simp

lemma resolve_same:
  assumes "same_combo c c'"
  shows "resolve dims fetch metricID ids rule ts n c s = resolve dims fetch metricID ids rule ts n c' s"
  using assms
proof (induction n arbitrary: c c' s)
  case (Suc n)
  note r = reads_same [OF Suc.prems]
  have own: "own_codes dims c = own_codes dims c'" by (rule ext) (rule r(2))
  have "read_own dims fetch metricID ids rule c s = read_own dims fetch metricID ids rule c' s"
    unfolding read_own_def same_combo_map_of [OF Suc.prems] r(3) own ..
  moreover have "expand dims rule ts c i (resolve dims fetch metricID ids rule ts n) s =
      expand dims rule ts c' i (resolve dims fetch metricID ids rule ts n) s" for i
    unfolding expand_def r(4) Let_def
    by (subst child_loop_same [where rec' = "resolve dims fetch metricID ids rule ts n", OF Suc.IH Suc.prems]) simp_all
  ultimately show ?case by (simp add: r(1) split: option.split)
qed simp

lemma resolve_one_same:
  assumes "same_combo c c'"
  shows "resolve_one dims fetch metricID ids rule flat c ts r s = resolve_one dims fetch metricID ids rule flat c' ts r s"
  by (simp add: resolve_one_def resolveFlat_def reads_same(3,5) [OF assms] resolve_same [OF assms])

lemma period_loop_same:
  assumes "\<And>c c' s. same_combo c c' \<Longrightarrow> one c s = one c' s" and "same_combo c c'"
  shows "period_loop one (map (\<lambda>p. AList.update i (f p) c) ps) vals s = period_loop one (map (\<lambda>p. AList.update i (f p) c') ps) vals s"
proof (induction ps arbitrary: vals s)
  case (Cons p ps)
  have "one (AList.update i (f p) c) s = one (AList.update i (f p) c') s"
    by (rule assms(1)) (rule same_combo_update [OF assms(2)])
  with Cons show ?case by (simp split: prod.split sum.split)
qed simp

lemma resolveTime_same:
  assumes "same_combo c c'"
  shows "resolveTime dims fetch metricID ids rule ts flatSum c s = resolveTime dims fetch metricID ids rule ts flatSum c' s"
proof -
  note one = resolve_one_same [of _ _ dims fetch metricID ids rule "flatRule rule flatSum"]
  have loop: "period_loop (\<lambda>c. resolve_one dims fetch metricID ids rule (flatRule rule flatSum) c ts' True)
      (map (\<lambda>p. AList.update i (m_Code p) c) ps) [] s =
    period_loop (\<lambda>c. resolve_one dims fetch metricID ids rule (flatRule rule flatSum) c ts' True)
      (map (\<lambda>p. AList.update i (m_Code p) c') ps) [] s" for ts' i ps s
    by (rule period_loop_same [OF _ assms]) (rule one)
  show ?thesis
    unfolding resolveTime_def Let_def reads_same(6) [OF assms] one [OF assms] resolve_same [OF assms]
      same_combo_map_of [OF assms] loop ..
qed

subsection \<open>The leaves a read touches\<close>

text \<open>
  The coordinates \<open>resolve\<close> fetches under a combination, in order, when no time summary applies;
  \<open>None\<close> when the expansion is deeper than \<open>maxDepth\<close>.
\<close>

fun concat_some :: "'a list option list \<Rightarrow> 'a list option" where
  "concat_some [] = Some []"
| "concat_some (x # xs) = (case (x, concat_some xs) of (Some a, Some b) \<Rightarrow> Some (a @ b) | _ \<Rightarrow> None)"

definition own_reads :: "dimensions \<Rightarrow> string list \<Rightarrow> combo \<Rightarrow> combo list" where
  "own_reads dims ids cmb =
     (if list_all (\<lambda>i. map_of cmb i \<noteq> None) ids then [exact_combo ids cmb]
      else cartesianProduct ids (map (own_codes dims cmb) ids))"

fun leaf_reads :: "dimensions \<Rightarrow> string list \<Rightarrow> nat \<Rightarrow> combo \<Rightarrow> combo list option" where
  "leaf_reads dims ids 0 cmb = None"
| "leaf_reads dims ids (Suc n) cmb =
     (case first_expandable dims cmb of
        Some i \<Rightarrow>
          (case dims i of
             None \<Rightarrow> Some []
           | Some d \<Rightarrow> concat_some (map (\<lambda>m. leaf_reads dims ids n (AList.update i (m_Code m) cmb))
                          (childrenOf d (pinned_code cmb i))))
      | None \<Rightarrow> Some (own_reads dims ids cmb))"

text \<open>What a sequence of fetches answers, and the state it leaves.\<close>

fun answers :: "'s RawValue \<Rightarrow> string \<Rightarrow> combo list \<Rightarrow> 's \<Rightarrow> reading list" where
  "answers fetch i [] s = []"
| "answers fetch i (c # cs) s = fst (fetch i c s) # answers fetch i cs (snd (fetch i c s))"

definition after :: "'s RawValue \<Rightarrow> string \<Rightarrow> combo list \<Rightarrow> 's \<Rightarrow> 's" where
  "after fetch i cs s = foldl (\<lambda>s c. snd (fetch i c s)) s cs"

lemma answers_append: "answers fetch i (cs @ ds) s = answers fetch i cs s @ answers fetch i ds (after fetch i cs s)"
  by (induction cs arbitrary: s) (simp_all add: after_def)

text \<open>
  A reader that never fails: it answers a value or that there is none. This is what the values a
  recalculation has prefetched give.
\<close>

locale reader =
  fixes fetch :: "'s RawValue" and inv :: "'s \<Rightarrow> bool"
  assumes answers_softly: "inv s \<Longrightarrow>
    \<exists>s'. inv s' \<and> (fetch i c s = (Inl ErrNoValue, s') \<or> (\<exists>v ok. fetch i c s = (Inr (v, ok), s')))"
begin

lemma after_inv: "inv s \<Longrightarrow> inv (after fetch i cs s)"
proof (induction cs arbitrary: s)
  case (Cons c cs)
  then have "inv (snd (fetch i c s))" using answers_softly [of s i c] by auto
  with Cons.IH show ?case by (simp add: after_def)
qed (simp add: after_def)

text \<open>One read that answers as \<open>L\<close> is read: the state after it, and "no value" only if all of \<open>L\<close> has none.\<close>

definition reads_all :: "string \<Rightarrow> (combo \<Rightarrow> 's \<Rightarrow> answer \<times> 's) \<Rightarrow> combo \<Rightarrow> combo list \<Rightarrow> bool" where
  "reads_all i rec c L \<longleftrightarrow> (\<forall>s. inv s \<longrightarrow> snd (rec c s) = after fetch i L s \<and>
     (\<forall>e. fst (fst (rec c s)) = Inl e \<longrightarrow> e = ErrNoValue \<and> set (answers fetch i L s) \<subseteq> {Inl ErrNoValue}))"

lemma reads_allD:
  assumes "reads_all i rec c L" and "inv s"
  obtains a k where "rec c s = ((a, k), after fetch i L s)"
    and "\<And>e. a = Inl e \<Longrightarrow> e = ErrNoValue \<and> set (answers fetch i L s) \<subseteq> {Inl ErrNoValue}"
  using assms unfolding reads_all_def by (metis prod.collapse)

lemma child_loop_reads:
  assumes "list_all2 (reads_all i rec) cs Ls" and "inv s"
  shows "\<exists>vals' r'. child_loop rec False cs vals r s = ((Inr vals', r'), after fetch i (concat Ls) s) \<and>
    length vals \<le> length vals' \<and>
    (vals' = [] \<longrightarrow> set (answers fetch i (concat Ls) s) \<subseteq> {Inl ErrNoValue})"
  using assms
proof (induction cs Ls arbitrary: vals r s rule: list_all2_induct)
  case (Cons c cs L Ls)
  let ?s' = "after fetch i L s"
  obtain a k where rec: "rec c s = ((a, k), ?s')"
    and soft: "\<And>e. a = Inl e \<Longrightarrow> e = ErrNoValue \<and> set (answers fetch i L s) \<subseteq> {Inl ErrNoValue}"
    using reads_allD [OF Cons.hyps(1) Cons.prems] by blast
  have app: "after fetch i (concat (L # Ls)) s = after fetch i (concat Ls) ?s'"
    "answers fetch i (concat (L # Ls)) s = answers fetch i L s @ answers fetch i (concat Ls) ?s'"
    by (simp_all add: after_def answers_append)
  have inv': "inv ?s'" by (rule after_inv [OF Cons.prems])
  show ?case
  proof (cases a)
    case (Inl e)
    then show ?thesis
      using Cons.IH [OF inv', of vals "r \<or> k"] soft [of e] unfolding app by (auto simp: rec keep_child_def)
  next
    case (Inr vo)
    then show ?thesis
      using Cons.IH [OF inv', of "vals @ [fst vo]" "r \<or> k"] unfolding app
      by (fastforce simp: rec keep_child_def split: prod.splits)
  qed
qed (simp add: after_def)

lemma fetch_reads: "reads_all i (\<lambda>c s. track (fetch i c s)) c [c]"
  unfolding reads_all_def
proof (intro allI impI)
  fix s
  assume "inv s"
  then show "snd (track (fetch i c s)) = after fetch i [c] s \<and>
      (\<forall>e. fst (fst (track (fetch i c s))) = Inl e \<longrightarrow> e = ErrNoValue \<and> set (answers fetch i [c] s) \<subseteq> {Inl ErrNoValue})"
    using answers_softly [of s i c] by (auto simp: track_def after_def)
qed

lemma read_own_reads:
  assumes "ids \<noteq> []"
  shows "reads_all i (read_own dims fetch i ids rule) c (own_reads dims ids c)"
proof (cases "list_all (\<lambda>i. map_of c i \<noteq> None) ids")
  case True
  then have "read_own dims fetch i ids rule c = (\<lambda>s. track (fetch i (exact_combo ids c) s))"
    by (intro ext) (simp add: read_own_def)
  with True fetch_reads [of i "exact_combo ids c"] show ?thesis by (simp add: reads_all_def own_reads_def)
next
  case False
  let ?cs = "cartesianProduct ids (map (own_codes dims c) ids)"
  have L: "own_reads dims ids c = ?cs" using False by (simp add: own_reads_def)
  have ones: "list_all2 (reads_all i (\<lambda>c s. track (fetch i c s))) ?cs (map (\<lambda>c. [c]) ?cs)"
    by (simp add: list_all2_map2 list_all2_same fetch_reads)
  show ?thesis
    unfolding reads_all_def L
  proof (intro allI impI)
    fix s
    assume "inv s"
    from child_loop_reads [OF ones this, of "[]" False] obtain vals r where
      "child_loop (\<lambda>c s. track (fetch i c s)) False ?cs [] False s = ((Inr vals, r), after fetch i ?cs s)"
      "vals = [] \<longrightarrow> set (answers fetch i ?cs s) \<subseteq> {Inl ErrNoValue}" by auto
    then show "snd (read_own dims fetch i ids rule c s) = after fetch i ?cs s \<and>
      (\<forall>e. fst (fst (read_own dims fetch i ids rule c s)) = Inl e \<longrightarrow>
         e = ErrNoValue \<and> set (answers fetch i ?cs s) \<subseteq> {Inl ErrNoValue})"
      using False unfolding read_own_def Let_def by (auto simp: combined_def after_def)
  qed
qed

lemma concat_some_map:
  "concat_some (map f xs) = Some L \<Longrightarrow> \<exists>Ls. L = concat Ls \<and> list_all2 (\<lambda>x l. f x = Some l) xs Ls"
proof (induction xs arbitrary: L)
  case (Cons x xs)
  then obtain a b where ab: "f x = Some a" "concat_some (map f xs) = Some b" "L = a @ b"
    by (auto split: option.splits)
  with Cons.IH obtain Ls where "b = concat Ls" "list_all2 (\<lambda>x l. f x = Some l) xs Ls" by blast
  with ab have "L = concat (a # Ls)" "list_all2 (\<lambda>x l. f x = Some l) (x # xs) (a # Ls)" by simp_all
  then show ?case by blast
qed simp

lemma resolve_reads:
  assumes "ids \<noteq> []" and "leaf_reads dims ids n c = Some L"
  shows "reads_all i (resolve dims fetch i ids rule [] n) c L"
  using assms(2)
proof (induction n arbitrary: c L)
  case (Suc n)
  show ?case
  proof (cases "first_expandable dims c")
    case None
    then have L: "L = own_reads dims ids c" using Suc.prems by simp
    have "resolve dims fetch i ids rule [] (Suc n) c = read_own dims fetch i ids rule c"
      using None assms(1) by (intro ext) simp
    with read_own_reads [OF assms(1), of i dims rule c] show ?thesis unfolding reads_all_def L by (simp only:)
  next
    case (Some k)
    then obtain d where d: "dims k = Some d" "childrenOf d (pinned_code c k) \<noteq> []"
      unfolding first_expandable_def by (auto simp: find_Some_iff split: option.splits)
    let ?cs = "map (\<lambda>m. AList.update k (m_Code m) c) (childrenOf d (pinned_code c k))"
    from Suc.prems Some d have "concat_some (map (leaf_reads dims ids n) ?cs) = Some L" by (simp add: comp_def)
    then obtain Ls where L: "L = concat Ls" and Ls: "list_all2 (\<lambda>x l. leaf_reads dims ids n x = Some l) ?cs Ls"
      using concat_some_map by blast
    from Ls have "list_all2 (reads_all i (resolve dims fetch i ids rule [] n)) ?cs Ls"
      by (rule list_all2_mono) (rule Suc.IH)
    then have loop: "\<exists>vals r. child_loop (resolve dims fetch i ids rule [] n) False ?cs [] False s = ((Inr vals, r), after fetch i L s) \<and>
        (vals = [] \<longrightarrow> set (answers fetch i L s) \<subseteq> {Inl ErrNoValue})" if "inv s" for s
      using child_loop_reads [where vals = "[]"] L that by blast
    show ?thesis
      unfolding reads_all_def
    proof (intro allI impI)
      fix s
      assume "inv s"
      from loop [OF this] obtain vals r where
        "child_loop (resolve dims fetch i ids rule [] n) False ?cs [] False s = ((Inr vals, r), after fetch i L s)"
        "vals = [] \<longrightarrow> set (answers fetch i L s) \<subseteq> {Inl ErrNoValue}" by blast
      then show "snd (resolve dims fetch i ids rule [] (Suc n) c s) = after fetch i L s \<and>
        (\<forall>e. fst (fst (resolve dims fetch i ids rule [] (Suc n) c s)) = Inl e \<longrightarrow>
           e = ErrNoValue \<and> set (answers fetch i L s) \<subseteq> {Inl ErrNoValue})"
        using Some d assms(1) by (simp add: expand_def Let_def comp_def combined_def)
    qed
  qed
qed simp

end

text \<open>Collecting the distinct leaves of a reader is a reader.\<close>

definition collect_inv :: "('s \<Rightarrow> bool) \<Rightarrow> 's collected \<Rightarrow> bool" where
  "collect_inv ok st \<longleftrightarrow> ok (fst st) \<and> snd ` set (fst (snd st)) \<subseteq> {None, Some ErrNoValue}"

lemma collect_reader:
  fixes fetch :: "'s RawValue"
  assumes "reader fetch ok"
  shows "reader (collect fetch) (collect_inv ok)"
proof
  fix st :: "'s collected" and i c
  obtain s seen vals where st: "st = (s, seen, vals)" by (cases st) auto
  assume "collect_inv ok st"
  then have s: "ok s" and seen: "snd ` set seen \<subseteq> {None, Some ErrNoValue}" by (simp_all add: collect_inv_def st)
  have prev: "x = None \<or> x = Some ErrNoValue" if "map_of seen k = Some x" for k x
  proof -
    have "x \<in> snd ` set seen" using map_of_SomeD [OF that] by (rule rev_image_eqI) simp
    from subsetD [OF seen this] show ?thesis by simp
  qed
  show "\<exists>s'. collect_inv ok s' \<and> (collect fetch i c st = (Inl ErrNoValue, s') \<or> (\<exists>v b. collect fetch i c st = (Inr (v, b), s')))"
  proof (cases "map_of seen (comboKey c)")
    case None
    from reader.answers_softly [OF assms s, of i c] show ?thesis
      using None seen by (auto simp: st collect_inv_def)
  next
    case (Some x)
    with prev [OF this] s seen show ?thesis by (auto simp: st collect_inv_def)
  qed
qed

subsection \<open>Flat totals count every leaf once\<close>

text \<open>The values a collection holds: those recorded at the leaves, at the first visit of each key.\<close>

fun flat_values :: "(combo \<Rightarrow> reading) \<Rightarrow> string list \<Rightarrow> combo list \<Rightarrow> f64 list" where
  "flat_values f seen [] = []"
| "flat_values f seen (c # cs) =
     (if comboKey c \<in> set seen then flat_values f seen cs
      else (case f c of Inr (v, True) \<Rightarrow> [v] | _ \<Rightarrow> []) @ flat_values f (comboKey c # seen) cs)"

lemma collected_values:
  assumes soft: "\<forall>c. f c = Inl ErrNoValue \<or> (\<exists>v ok. f c = Inr (v, ok))"
  shows "\<exists>seen'. after (collect (\<lambda>_ c s. (f c, s))) i L (s, seen, vals) = (s, seen', vals @ flat_values f (map fst seen) L)"
proof (induction L arbitrary: seen vals)
  case (Cons c L)
  have look: "comboKey c \<in> set (map fst seen) \<longleftrightarrow> map_of seen (comboKey c) \<noteq> None"
    by (metis map_of_eq_None_iff set_map)
  show ?case
  proof (cases "map_of seen (comboKey c)")
    case None
    then have fresh: "comboKey c \<notin> set (map fst seen)" using look by simp
    from soft have "f c = Inl ErrNoValue \<or> (\<exists>v ok. f c = Inr (v, ok))" by blast
    then show ?thesis
    proof (elim disjE exE)
      assume "f c = Inl ErrNoValue"
      with None fresh Cons.IH [of "(comboKey c, Some ErrNoValue) # seen" vals] show ?thesis
        by (simp add: after_def)
    next
      fix v ok
      assume "f c = Inr (v, ok)"
      with None fresh Cons.IH [of "(comboKey c, None) # seen" "if ok then vals @ [v] else vals"] show ?thesis
        by (cases ok) (simp_all add: after_def)
    qed
  next
    case (Some x)
    then have "comboKey c \<in> set (map fst seen)" using look by simp
    with Some Cons.IH [of seen vals] show ?thesis by (simp add: after_def)
  qed
qed (simp add: after_def)

lemma no_answers_no_values:
  assumes "set (answers (collect (\<lambda>_ c s. (f c, s))) i L (s, seen, vals)) \<subseteq> {Inl ErrNoValue}"
  shows "snd (snd (after (collect (\<lambda>_ c s. (f c, s))) i L (s, seen, vals))) = vals"
  using assms
proof (induction L arbitrary: seen vals)
  case (Cons c L)
  then show ?case by (auto simp: after_def split: option.splits sum.splits rollup_error.splits prod.splits)
qed (simp add: after_def)

text \<open>
  C31 Averages and counts are flat: above the leaves, an average or a count combines the recorded
  values of all leaf coordinates under the combination once, in the order they are reached;
  a coordinate reached twice counts once, and one with no value is left out. With no recorded
  value the total is the combination of nothing and is marked unrecorded.
\<close>

theorem resolveFlat_once:
  assumes soft: "\<forall>c. f c = Inl ErrNoValue \<or> (\<exists>v ok. f c = Inr (v, ok))"
    and "ids \<noteq> []" and "\<not> trivialCombo dims ids cmb"
    and "leaf_reads dims ids (Suc maxDepth) cmb = Some L"
  shows "\<exists>ok. resolveFlat dims (\<lambda>_ c s. (f c, s)) metricID ids rule inReduction cmb s =
      (Inr (combineAgg (flat_values f [] L) rule, ok, flat_values f [] L \<noteq> []), s) \<and>
    (flat_values f [] L \<noteq> [] \<longrightarrow> ok)"
proof -
  let ?fetch = "\<lambda>_ c s. (f c, s)" and ?V = "flat_values f [] L"
  have "reader ?fetch (\<lambda>_. True)" by unfold_locales (use soft in blast)
  note col = collect_reader [OF this]
  have inv: "collect_inv (\<lambda>_. True) (s, [], [])" by (simp add: collect_inv_def)
  from reader.reads_allD [OF col reader.resolve_reads [OF col assms(2,4)] inv]
  obtain a k where res: "resolve dims (collect ?fetch) metricID ids ''sum'' [] (Suc maxDepth) cmb (s, [], []) =
      ((a, k), after (collect ?fetch) metricID L (s, [], []))"
    and none: "\<And>e. a = Inl e \<Longrightarrow> e = ErrNoValue \<and>
      set (answers (collect ?fetch) metricID L (s, [], [])) \<subseteq> {Inl ErrNoValue}" by metis
  obtain seen' where st: "after (collect ?fetch) metricID L (s, [], []) = (s, seen', ?V)"
    using collected_values [OF soft, where i = metricID and L = L and s = s and seen = "[]" and vals = "[]"] by auto
  have empty: "combineAgg [] rule = Fin 0" by (simp add: combineAgg_def fsum_def)
  show ?thesis
  proof (cases a)
    case (Inl e)
    with none no_answers_no_values [of f metricID L s "[]" "[]"] st have "e = ErrNoValue" "?V = []" by auto
    with Inl res st empty assms(2,3) show ?thesis by (simp add: resolveFlat_def) blast
  next
    case (Inr v)
    with res st assms(2,3) show ?thesis by (simp add: resolveFlat_def) blast
  qed
qed

theorem resolveFlat_once_witness:
  "\<exists>ok. resolveFlat demo_dims (\<lambda>_ c s. (Inr (Fin 5, True), s)) ''sales'' [''region''] ''average'' False [(''region'', ''World'')] () =
     (Inr (combineAgg [Fin 5, Fin 5] ''average'', ok, True), ())"
proof -
  have reads: "leaf_reads demo_dims [''region''] (Suc maxDepth) [(''region'', ''World'')] =
      Some [[(''region'', ''EMEA'')], [(''region'', ''APAC'')]]" by code_simp
  have vals: "flat_values (\<lambda>c. Inr (Fin 5, True)) [] [[(''region'', ''EMEA'')], [(''region'', ''APAC'')]] = [Fin 5, Fin 5]"
    by code_simp
  have nt: "\<not> trivialCombo demo_dims [''region''] [(''region'', ''World'')]" by code_simp
  show ?thesis
    using resolveFlat_once [OF _ _ nt reads, of "\<lambda>c. Inr (Fin 5, True)" "''sales''" "''average''" False "()"]
    unfolding vals by auto
qed

subsection \<open>The depth limit\<close>

definition chain_dim :: "string \<Rightarrow> Dimension" where
  "chain_dim i = \<lparr>d_ID = i, d_ParentDimensionID = [], d_SourceDimensionID = [], d_SourceProperty = [],
     d_Members = map (\<lambda>(c, p). \<lparr>m_ID = c, m_Code = c, m_ParentCode = p, m_Properties = [], m_TimeIndex = 0\<rparr>)
       [(''a'', []), (''b'', ''a''), (''c'', ''b''), (''d'', ''c''), (''e'', ''d'')],
     d_IsTime = False, d_Calculated = []\<rparr>"

text \<open>
  The depth limit counts every expansion of a read, not the levels of one hierarchy: a metric
  read at the roots of three dimensions of four levels each, none of them cyclic or deeper than
  the limit, fails with \<open>ErrDepthExceeded\<close>.
\<close>

lemma depth_is_shared:
  "fst (Resolve (\<lambda>i. Some (chain_dim i)) (\<lambda>_ c s. (Inr (Fin 1, True), s)) ''m'' [''x'', ''y'', ''z''] ''sum''
     [(''x'', ''a''), (''y'', ''a''), (''z'', ''a'')] ()) = Inl ErrDepthExceeded \<and>
   fst (Resolve (\<lambda>i. Some (chain_dim i)) (\<lambda>_ c s. (Inr (Fin 1, True), s)) ''m'' [''x'', ''y'', ''z''] ''sum''
     [(''x'', ''a''), (''y'', ''a''), (''z'', ''e'')] ()) = Inr (Fin 1, True)"
  by code_simp

end
