(* ===== verification/ComboKey.thy ===== *)
theory ComboKey
  imports Rollup
begin

text \<open>
  The keys recorded values are stored under: \<open>dimKey\<close> writes a combination as JSON, \<open>keyOf\<close> reads
  the text of a database row back into such a key (\<open>internal/calculation/store.go\<close>). Both have a
  direct path for plain texts and fall back to \<open>encoding/json\<close>. Its \<open>Marshal\<close> of a map of strings is
  \<open>go_json_marshal\<close>, byte for byte and for every byte string: escapes for the control characters, for
  \<open><\<close>, \<open>>\<close>, \<open>&\<close> and for the line separators U+2028 and U+2029, and \<open>\ufffd\<close> for a byte that is not valid
  UTF-8. \<open>dimKey\<close> falls back to \<open>json_marshal\<close>, which leaves invalid bytes as they are. The two agree on
  valid UTF-8 (\<open>json_marshal_go\<close>), which every \<open>text\<close> and \<open>jsonb\<close> value of a PostgreSQL database in UTF-8
  is, and the identifiers and codes of a combination come from there. \<open>Unmarshal\<close> is a parameter. The nil
  map, which no caller passes, is not told apart from the empty one.
\<close>

subsection \<open>Writing\<close>

definition plainJSON :: "string \<Rightarrow> bool" where
  "plainJSON s \<longleftrightarrow>
     list_all (\<lambda>c. 0x20 \<le> code_of c \<and> code_of c \<le> 0x7e \<and> c \<notin> {CHR 0x22, CHR 0x5C, CHR ''<'', CHR ''>'', CHR ''&''}) s"

text \<open>How \<open>encoding/json\<close> writes a byte; one of a longer rune is written as it is.\<close>

definition json_char :: "char \<Rightarrow> string" where
  "json_char c =
     (let n = code_of c; bs = CHR 0x5C
      in if c = CHR 0x22 \<or> c = bs then [bs, c]
         else if n = 8 then [bs, CHR ''b'']
         else if n = 9 then [bs, CHR ''t'']
         else if n = 10 then [bs, CHR ''n'']
         else if n = 12 then [bs, CHR ''f'']
         else if n = 13 then [bs, CHR ''r'']
         else if n < 32 \<or> c \<in> {CHR ''<'', CHR ''>'', CHR ''&''}
         then [bs, CHR ''u'', CHR ''0'', CHR ''0'', hex_char (n div 16), hex_char (n mod 16)]
         else [c])"

text \<open>The line separator U+2028 and the paragraph separator U+2029, \<open>E2 80 A8\<close> and \<open>E2 80 A9\<close> in UTF-8, are escaped.\<close>

definition separator :: "char \<Rightarrow> char \<Rightarrow> char \<Rightarrow> bool" where
  "separator c d e \<longleftrightarrow> c = CHR 0xE2 \<and> d = CHR 0x80 \<and> (e = CHR 0xA8 \<or> e = CHR 0xA9)"

definition json_separator :: "char \<Rightarrow> string" where
  "json_separator e = [CHR 0x5C, CHR ''u'', CHR ''2'', CHR ''0'', CHR ''2'', hex_char (code_of e mod 16)]"

fun json_string :: "string \<Rightarrow> string" where
  "json_string (c # d # e # s) =
     (if separator c d e then json_separator e @ json_string s else json_char c @ json_string (d # e # s))"
| "json_string [c, d] = json_char c @ json_char d"
| "json_string [c] = json_char c"
| "json_string [] = []"

definition json_member :: "string \<times> string \<Rightarrow> string" where
  "json_member kv = [CHR 0x22] @ fst kv @ [CHR 0x22] @ '':'' @ [CHR 0x22] @ snd kv @ [CHR 0x22]"

definition render :: "(string \<times> string) list \<Rightarrow> string" where
  "render kvs = ''{'' @ Join (map json_member kvs) '','' @ ''}''"

text \<open>The members of a combination in the order of their keys.\<close>

definition ordered :: "combo \<Rightarrow> (string \<times> string) list" where
  "ordered m = map (\<lambda>k. (k, pinned_code m k)) (sortedKeys m)"

definition json_marshal :: "combo \<Rightarrow> string" where
  "json_marshal m = render (map (\<lambda>(k, v). (json_string k, json_string v)) (ordered m))"

definition dimKey :: "combo \<Rightarrow> string" where
  "dimKey m =
     (if 8 < length m \<or> \<not> list_all (\<lambda>(k, v). plainJSON k \<and> plainJSON v) m
      then json_marshal m else render (ordered m))"

subsection \<open>Reading\<close>

definition skip_blanks :: "string \<Rightarrow> string" where
  "skip_blanks s = dropWhile (\<lambda>c. c = CHR '' '') s"

definition read_quoted :: "string \<Rightarrow> (string \<times> string) option" where
  "read_quoted src =
     (case src of
        [] \<Rightarrow> None
      | c # cs \<Rightarrow>
          if c \<noteq> CHR 0x22 then None
          else let v = takeWhile (\<lambda>c. c \<noteq> CHR 0x22) cs; rest = dropWhile (\<lambda>c. c \<noteq> CHR 0x22) cs
               in if rest = [] \<or> \<not> plainJSON v then None else Some (v, tl rest))"

text \<open>A key goes to its place in the ordered array; a repeated one is left to \<open>Unmarshal\<close>.\<close>

fun insert_key :: "string \<times> string \<Rightarrow> (string \<times> string) list \<Rightarrow> (string \<times> string) list option" where
  "insert_key kv [] = Some [kv]"
| "insert_key kv (x # xs) =
     (if fst kv < fst x then Some (kv # x # xs)
      else if fst kv = fst x then None
      else map_option ((#) x) (insert_key kv xs))"

lemma read_quoted_shorter: "read_quoted src = Some (v, rest) \<Longrightarrow> length rest < length src"
proof (cases src)
  case (Cons c cs)
  assume "read_quoted src = Some (v, rest)"
  with Cons have "rest = tl (dropWhile (\<lambda>c. c \<noteq> CHR 0x22) cs)"
    by (auto simp: read_quoted_def Let_def split: if_splits)
  with Cons length_dropWhile_le [of "\<lambda>c. c \<noteq> CHR 0x22" cs] show ?thesis by simp
qed (simp add: read_quoted_def)

definition read_member :: "string \<Rightarrow> ((string \<times> string) \<times> string) option" where
  "read_member src =
     (case read_quoted (skip_blanks src) of
        None \<Rightarrow> None
      | Some (k, r) \<Rightarrow>
          (case skip_blanks r of
             c # r' \<Rightarrow>
               if c \<noteq> CHR '':'' then None
               else (case read_quoted (skip_blanks r') of None \<Rightarrow> None | Some (v, r'') \<Rightarrow> Some ((k, v), skip_blanks r''))
           | [] \<Rightarrow> None))"

lemma skip_blanks_length: "length (skip_blanks s) \<le> length s"
  by (simp add: skip_blanks_def length_dropWhile_le)

lemma read_member_shorter: "read_member src = Some (kv, rest) \<Longrightarrow> length rest < length src"
proof -
  assume "read_member src = Some (kv, rest)"
  then obtain k r c r' v r'' where "read_quoted (skip_blanks src) = Some (k, r)" "skip_blanks r = c # r'"
    "read_quoted (skip_blanks r') = Some (v, r'')" "rest = skip_blanks r''"
    by (auto simp: read_member_def split: option.splits list.splits if_splits)
  then have "length r < length (skip_blanks src)" "length r' < length (skip_blanks r)"
    "length r'' < length (skip_blanks r')" "length rest \<le> length r''"
    by (simp_all add: read_quoted_shorter skip_blanks_length)
  with skip_blanks_length [of src] skip_blanks_length [of r] skip_blanks_length [of r'] show ?thesis by linarith
qed

function object_loop :: "string \<Rightarrow> (string \<times> string) list \<Rightarrow> string option" where
  "object_loop src kvs =
     (case read_member src of
        None \<Rightarrow> None
      | Some (kv, rest) \<Rightarrow>
          if length kvs = 8 then None
          else (case insert_key kv kvs of
                  None \<Rightarrow> None
                | Some kvs' \<Rightarrow>
                    (case rest of
                       [] \<Rightarrow> None
                     | c # cs \<Rightarrow>
                         if c = CHR ''}'' then (if cs = [] then Some (render kvs') else None)
                         else if c \<noteq> CHR '','' then None
                         else object_loop cs kvs')))"
  by pat_completeness auto
termination
  by (relation "measure (\<lambda>(src, _). length src)") (auto dest!: read_member_shorter)

declare object_loop.simps [simp del]

definition plainObjectKey :: "string \<Rightarrow> string option" where
  "plainObjectKey src =
     (case src of
        c # d # cs \<Rightarrow>
          if c \<noteq> CHR ''{'' then None
          else (case skip_blanks (d # cs) of
                  e # es \<Rightarrow> if e = CHR ''}'' then (if es = [] then Some ''{}'' else None) else object_loop (d # cs) []
                | [] \<Rightarrow> object_loop (d # cs) [])
      | _ \<Rightarrow> None)"

definition keyOf :: "(string \<Rightarrow> combo option) \<Rightarrow> string \<Rightarrow> string option" where
  "keyOf unmarshal src =
     (case plainObjectKey src of Some k \<Rightarrow> Some k | None \<Rightarrow> map_option dimKey (unmarshal src))"

subsection \<open>The direct path writes what \<open>encoding/json\<close> writes\<close>

lemma code_E2: "code_of (CHR 0xE2) = 0xE2"
  by (simp add: code_of_def)

lemma json_string_Cons: "c \<noteq> CHR 0xE2 \<Longrightarrow> json_string (c # s) = json_char c @ json_string s"
  by (cases "c # s" rule: json_string.cases) (simp_all add: separator_def)

lemma json_string_plain: "plainJSON s \<Longrightarrow> json_string s = s"
proof (induction s)
  case (Cons c s)
  then have c: "0x20 \<le> code_of c" "c \<noteq> CHR 0x22" "c \<noteq> CHR 0x5C" "c \<notin> {CHR ''<'', CHR ''>'', CHR ''&''}"
    "code_of c \<le> 0x7e" "plainJSON s"
    by (simp_all add: plainJSON_def)
  then have "json_char c = [c]" by (simp add: json_char_def Let_def)
  moreover have "c \<noteq> CHR 0xE2" using c(5) code_E2 by auto
  ultimately show ?case using Cons.IH c(6) by (simp add: json_string_Cons)
qed simp

lemma pinned_code_mem: "k \<in> fst ` set m \<Longrightarrow> (k, pinned_code m k) \<in> set m"
  by (auto simp: pinned_code_def dest: map_of_SomeD split: option.split intro: map_of_eq_None_iff [THEN iffD1, elim_format])

lemma dimKey_marshal: "dimKey m = json_marshal m"
proof (cases "8 < length m \<or> \<not> list_all (\<lambda>(k, v). plainJSON k \<and> plainJSON v) m")
  case False
  have "(json_string k, json_string v) = (k, v)" if "(k, v) \<in> set (ordered m)" for k v
  proof -
    from that have "(k, v) \<in> set m" using pinned_code_mem [of k m] by (auto simp: ordered_def image_iff)
    with False show ?thesis by (auto simp: list_all_iff json_string_plain)
  qed
  then have "map (\<lambda>(k, v). (json_string k, json_string v)) (ordered m) = ordered m" by (auto intro!: map_idI)
  with False show ?thesis by (simp add: dimKey_def json_marshal_def)
qed (simp add: dimKey_def)

subsection \<open>A key identifies its combination\<close>

text \<open>Reading a written character back.\<close>

definition hex_digit :: "char \<Rightarrow> nat" where
  "hex_digit c = (if code_of c < 58 then code_of c - 48 else code_of c - 87)"

lemma hex_digit_char: "d < 16 \<Longrightarrow> hex_digit (hex_char d) = d"
  by (simp add: hex_digit_def hex_char_def code_of_def)

text \<open>
  A reader of written runes: the bytes of the first one and the rest. With it a text between quotes is read
  back by \<open>read_json_string\<close>, a rune at a time.
\<close>

definition read_json_rune :: "string \<Rightarrow> string \<times> string" where
  "read_json_rune s =
     (if hd s \<noteq> CHR 0x5C then ([hd s], tl s)
      else let e = s ! 1; rest = drop 2 s
           in if e = CHR ''b'' then ([char_of (8 :: nat)], rest)
              else if e = CHR ''t'' then ([char_of (9 :: nat)], rest)
              else if e = CHR ''n'' then ([char_of (10 :: nat)], rest)
              else if e = CHR ''f'' then ([char_of (12 :: nat)], rest)
              else if e = CHR ''r'' then ([char_of (13 :: nat)], rest)
              else if e = CHR ''u'' then
                (if s ! 2 = CHR ''2'' then [CHR 0xE2, CHR 0x80, char_of (160 + hex_digit (s ! 5))]
                 else [char_of (16 * hex_digit (s ! 4) + hex_digit (s ! 5))], drop 6 s)
              else ([e], rest))"

lemma read_json_rune_shorter: "s \<noteq> [] \<Longrightarrow> length (snd (read_json_rune s)) < length s"
  by (auto simp: read_json_rune_def Let_def)

function read_json_string :: "string \<Rightarrow> string \<times> string" where
  "read_json_string s =
     (if s = [] \<or> hd s = CHR 0x22 then ([], tl s)
      else map_prod ((@) (fst (read_json_rune s))) id (read_json_string (snd (read_json_rune s))))"
  by pat_completeness auto
termination
  by (relation "measure length") (simp_all add: read_json_rune_shorter)

declare read_json_string.simps [simp del]

lemma char_of_code: "char_of (code_of c) = c"
  by (simp add: code_of_def)

lemma json_char_cases:
  obtains (plain) "json_char c = [c]" "c \<noteq> CHR 0x22" "c \<noteq> CHR 0x5C"
    | (quoted) "json_char c = [CHR 0x5C, c]" "c = CHR 0x22 \<or> c = CHR 0x5C"
    | (short) e n where "json_char c = [CHR 0x5C, e]" "code_of c = n"
        "(e, n) \<in> {(CHR ''b'', 8), (CHR ''t'', 9), (CHR ''n'', 10), (CHR ''f'', 12), (CHR ''r'', 13)}"
    | (hex) "json_char c = [CHR 0x5C, CHR ''u'', CHR ''0'', CHR ''0'', hex_char (code_of c div 16), hex_char (code_of c mod 16)]"
proof (cases "c = CHR 0x22 \<or> c = CHR 0x5C")
  case True
  then show ?thesis by (intro quoted) (auto simp: json_char_def)
next
  case False
  note j = json_char_def [of c, unfolded Let_def if_not_P [OF False]]
  show ?thesis
  proof (cases "code_of c \<in> {8, 9, 10, 12, 13}")
    case True
    have "json_char c = [CHR 0x5C, CHR ''b''] \<and> code_of c = 8 \<or> json_char c = [CHR 0x5C, CHR ''t''] \<and> code_of c = 9
      \<or> json_char c = [CHR 0x5C, CHR ''n''] \<and> code_of c = 10 \<or> json_char c = [CHR 0x5C, CHR ''f''] \<and> code_of c = 12
      \<or> json_char c = [CHR 0x5C, CHR ''r''] \<and> code_of c = 13"
      using True unfolding j by (elim insertE emptyE) simp_all
    then show ?thesis using short by blast
  next
    case n: False
    show ?thesis
    proof (cases "code_of c < 32 \<or> c \<in> {CHR ''<'', CHR ''>'', CHR ''&''}")
      case True
      show ?thesis by (rule hex) (use n True in \<open>simp only: j insert_iff empty_iff if_P if_not_P de_Morgan_disj simp_thms\<close>)
    next
      case m: False
      show ?thesis
        by (rule plain) (use n m False in \<open>simp_all only: j insert_iff empty_iff if_P if_not_P de_Morgan_disj simp_thms\<close>)
    qed
  qed
qed

lemma read_json_hex:
  "read_json_rune ([CHR 0x5C, CHR ''u'', CHR ''0'', CHR ''0'', a, b] @ x) = ([char_of (16 * hex_digit a + hex_digit b)], x)"
  unfolding read_json_rune_def by simp

lemma read_json_char: "read_json_rune (json_char c @ x) = ([c], x)"
proof (cases c rule: json_char_cases)
  case plain
  then show ?thesis by (simp add: read_json_rune_def)
next
  case quoted
  then show ?thesis by (auto simp: read_json_rune_def)
next
  case (short e n)
  then have "char_of n = c" using char_of_code [of c] by blast
  with short(1,3) show ?thesis by (auto simp: read_json_rune_def)
next
  case hex
  have "code_of c div 16 < 16" using code_of_less [of c] by (simp add: less_mult_imp_div_less)
  then have "16 * hex_digit (hex_char (code_of c div 16)) + hex_digit (hex_char (code_of c mod 16)) = code_of c"
    by (simp add: hex_digit_char)
  then show ?thesis unfolding hex read_json_hex by (simp only: char_of_code)
qed

lemma read_json_separator: "separator c d e \<Longrightarrow> read_json_rune (json_separator e @ x) = ([c, d, e], x)"
proof -
  assume sep: "separator c d e"
  then have "160 + code_of e mod 16 = code_of e" by (auto simp: separator_def code_of_def)
  then have "char_of (160 + hex_digit (hex_char (code_of e mod 16))) = e" by (simp add: hex_digit_char char_of_code)
  with sep show ?thesis by (simp add: separator_def json_separator_def read_json_rune_def)
qed

lemma json_char_start: "hd (json_char c) \<noteq> CHR 0x22 \<and> json_char c \<noteq> []"
  by (cases c rule: json_char_cases) simp_all

lemma read_json_step:
  assumes "read_json_rune (r @ x) = (b, x)" and "hd r \<noteq> CHR 0x22" and "r \<noteq> []"
  shows "read_json_string (r @ x) = map_prod ((@) b) id (read_json_string x)"
  using assms by (subst read_json_string.simps) simp

lemma read_json_char_step: "read_json_string (json_char c @ x) = map_prod ((#) c) id (read_json_string x)"
proof -
  have "(@) [c] = (#) c" by (rule ext) simp
  then show ?thesis using read_json_step [OF read_json_char, of c x] json_char_start [of c] by simp
qed

lemma read_json_end: "read_json_string (CHR 0x22 # x) = ([], x)"
  by (subst read_json_string.simps) simp

lemma read_json_string: "read_json_string (json_string s @ CHR 0x22 # x) = (s, x)"
proof (induction s rule: json_string.induct)
  case (1 c d e s)
  show ?case
  proof (cases "separator c d e")
    case True
    have "read_json_string (json_separator e @ (json_string s @ CHR 0x22 # x)) = (c # d # e # s, x)"
      using 1(1) [OF True] read_json_step [OF read_json_separator [OF True]] by (simp add: json_separator_def)
    with True show ?thesis by simp
  next
    case False
    then show ?thesis using 1(2) [OF False] by (simp add: read_json_char_step)
  qed
qed (simp_all add: read_json_char_step read_json_end)

lemma json_string_unique:
  "json_string s @ CHR 0x22 # x = json_string t @ CHR 0x22 # y \<longleftrightarrow> s = t \<and> x = y"
  by (metis prod.inject read_json_string)

lemma Join_Cons: "Join (x # xs) sep = x @ concat (map ((@) sep) xs)"
  by (induction xs arbitrary: x) simp_all

definition json_entry :: "string \<times> string \<Rightarrow> string" where
  "json_entry kv = json_member (json_string (fst kv), json_string (snd kv))"

lemma json_entry_unique: "json_entry a @ x = json_entry b @ y \<longleftrightarrow> a = b \<and> x = y"
  by (cases a; cases b) (auto simp: json_entry_def json_member_def json_string_unique)

lemma entries_unique:
  "concat (map (\<lambda>kv. CHR '','' # json_entry kv) xs) @ ''}'' = concat (map (\<lambda>kv. CHR '','' # json_entry kv) ys) @ ''}''
    \<Longrightarrow> xs = ys"
proof (induction xs arbitrary: ys)
  case Nil
  then show ?case by (cases ys) auto
next
  case (Cons x xs)
  then show ?case by (cases ys) (auto simp: json_entry_unique)
qed

lemma render_entries:
  "render (map (\<lambda>(k, v). (json_string k, json_string v)) xs) =
     ''{'' @ (case xs of [] \<Rightarrow> [] | x # xs \<Rightarrow> json_entry x @ concat (map (\<lambda>kv. CHR '','' # json_entry kv) xs)) @ ''}''"
  by (cases xs) (auto simp: render_def Join_Cons json_entry_def case_prod_beta comp_def)

lemma json_marshal_ordered: "json_marshal m = json_marshal m' \<longleftrightarrow> ordered m = ordered m'"
proof
  assume eq: "json_marshal m = json_marshal m'"
  have start: "json_entry kv = CHR 0x22 # tl (json_entry kv)" for kv by (simp add: json_entry_def json_member_def)
  show "ordered m = ordered m'"
  proof (cases "ordered m"; cases "ordered m'")
    fix x xs y ys
    assume "ordered m = x # xs" "ordered m' = y # ys"
    then show ?thesis
      using eq entries_unique [of xs ys] unfolding json_marshal_def render_entries by (simp add: json_entry_unique)
  next
    fix x xs
    assume "ordered m = x # xs" "ordered m' = []"
    then show ?thesis using eq start [of x] unfolding json_marshal_def render_entries by (cases "json_entry x") simp_all
  next
    fix y ys
    assume "ordered m = []" "ordered m' = y # ys"
    then show ?thesis using eq start [of y] unfolding json_marshal_def render_entries by (cases "json_entry y") simp_all
  qed simp
qed (simp add: json_marshal_def)

lemma pinned_code_map_of: "k \<in> fst ` set m \<Longrightarrow> map_of m k = Some (pinned_code m k)"
  using map_of_eq_None_iff [of m k] by (cases "map_of m k") (simp_all add: pinned_code_def)

lemma ordered_iff:
  assumes "distinct (map fst m)" and "distinct (map fst m')"
  shows "ordered m = ordered m' \<longleftrightarrow> map_of m = map_of m'"
proof
  assume eq: "ordered m = ordered m'"
  have "map fst (ordered c) = sortedKeys c" for c by (simp add: ordered_def comp_def)
  with eq have keys: "sortedKeys m = sortedKeys m'" by metis
  then have dom: "fst ` set m = fst ` set m'" by (metis set_sortedKeys)
  have "pinned_code m k = pinned_code m' k" if "k \<in> fst ` set m" for k
  proof -
    from that dom have "k \<in> set (sortedKeys m')" by simp
    with eq keys show ?thesis unfolding ordered_def by (metis (mono_tags, lifting) map_eq_conv prod.inject)
  qed
  then have same: "map_of m k = map_of m' k" if "k \<in> fst ` set m" for k
    using that dom pinned_code_map_of by metis
  show "map_of m = map_of m'"
  proof (rule ext)
    fix k
    show "map_of m k = map_of m' k"
      using same [of k] dom map_of_eq_None_iff [of m k] map_of_eq_None_iff [of m' k] by (cases "k \<in> fst ` set m") simp_all
  qed
next
  assume "map_of m = map_of m'"
  then have "same_combo m m'" using assms by (simp add: same_combo_iff)
  then show "ordered m = ordered m'" by (simp add: ordered_def same_combo_keys reads_same(4))
qed

subsection \<open>What \<open>encoding/json\<close> writes for any bytes\<close>

text \<open>
  \<open>utf8.DecodeRuneInString\<close>: the number of bytes of the first rune, 0 when they are not valid UTF-8. The second
  byte is bounded by the first: no overlong forms, no surrogates, nothing above U+10FFFF.
\<close>

definition tail_byte :: "string \<Rightarrow> nat \<Rightarrow> bool" where
  "tail_byte s i \<longleftrightarrow> i < length s \<and> 0x80 \<le> code_of (s ! i) \<and> code_of (s ! i) \<le> 0xBF"

definition rune_size :: "char \<Rightarrow> string \<Rightarrow> nat" where
  "rune_size c s =
     (let n = code_of c; m = (case s of [] \<Rightarrow> 0 | d # _ \<Rightarrow> code_of d)
      in if n < 0x80 then 1
         else if 0xC2 \<le> n \<and> n \<le> 0xDF \<and> tail_byte s 0 then 2
         else if 0xE0 \<le> n \<and> n \<le> 0xEF \<and> tail_byte s 0 \<and> tail_byte s 1 \<and> (n = 0xE0 \<longrightarrow> 0xA0 \<le> m) \<and> (n = 0xED \<longrightarrow> m \<le> 0x9F) then 3
         else if 0xF0 \<le> n \<and> n \<le> 0xF4 \<and> tail_byte s 0 \<and> tail_byte s 1 \<and> tail_byte s 2
           \<and> (n = 0xF0 \<longrightarrow> 0x90 \<le> m) \<and> (n = 0xF4 \<longrightarrow> m \<le> 0x8F) then 4
         else 0)"

fun valid_utf8 :: "string \<Rightarrow> bool" where
  "valid_utf8 [] = True"
| "valid_utf8 (c # s) = (case rune_size c s of 0 \<Rightarrow> False | Suc k \<Rightarrow> valid_utf8 (drop k s))"

text \<open>\<open>appendString\<close> of \<open>encoding/json\<close> with HTML escaping, as \<open>Marshal\<close> calls it.\<close>

fun go_json_string :: "string \<Rightarrow> string" where
  "go_json_string [] = []"
| "go_json_string (c # s) =
     (case rune_size c s of
        0 \<Rightarrow> [CHR 0x5C] @ ''ufffd'' @ go_json_string s
      | Suc k \<Rightarrow>
          (if k = 0 then json_char c
           else if k = 2 \<and> separator c (s ! 0) (s ! 1) then json_separator (s ! 1)
           else c # take k s) @ go_json_string (drop k s))"

definition go_json_marshal :: "combo \<Rightarrow> string" where
  "go_json_marshal m = render (map (\<lambda>(k, v). (go_json_string k, go_json_string v)) (ordered m))"

definition utf8_combo :: "combo \<Rightarrow> bool" where
  "utf8_combo m \<longleftrightarrow> list_all (\<lambda>(k, v). valid_utf8 k \<and> valid_utf8 v) m"

lemma json_char_high: "0x80 \<le> code_of c \<Longrightarrow> json_char c = [c]"
  by (auto simp: json_char_def Let_def code_of_def)

lemma json_string_tail:
  "list_all (\<lambda>c. 0x80 \<le> code_of c \<and> code_of c \<le> 0xBF) t \<Longrightarrow> json_string (t @ s) = t @ json_string s"
proof (induction t)
  case (Cons c t)
  then have "c \<noteq> CHR 0xE2" using code_E2 by auto
  with Cons show ?case by (simp add: json_string_Cons json_char_high)
qed simp

lemma rune_bytes:
  assumes "rune_size c s = Suc k" and "0 < k"
  shows "(\<forall>i<k. tail_byte s i) \<and> 0x80 \<le> code_of c \<and> (code_of c = 0xE2 \<longrightarrow> k = 2)"
  using assms by (auto simp: rune_size_def Let_def less_Suc_eq numeral_2_eq_2 numeral_3_eq_3 split: if_splits)

lemma rune_tail:
  assumes "rune_size c s = Suc k" and "0 < k"
  shows "list_all (\<lambda>c. 0x80 \<le> code_of c \<and> code_of c \<le> 0xBF) (take k s)" and "k \<le> length s" and "0x80 \<le> code_of c"
    and "c = CHR 0xE2 \<longrightarrow> k = 2"
proof -
  note b = rune_bytes [OF assms]
  then have "tail_byte s (k - 1)" using assms(2) by simp
  then show "k \<le> length s" by (auto simp: tail_byte_def)
  with b show "list_all (\<lambda>c. 0x80 \<le> code_of c \<and> code_of c \<le> 0xBF) (take k s)"
    by (simp add: list_all_length tail_byte_def)
  from b show "0x80 \<le> code_of c" "c = CHR 0xE2 \<longrightarrow> k = 2" using code_E2 by auto
qed

lemma json_string_rune:
  assumes "rune_size c s = Suc k" and "0 < k"
  shows "json_string (c # s) =
    (if k = 2 \<and> separator c (s ! 0) (s ! 1) then json_separator (s ! 1) else c # take k s) @ json_string (drop k s)"
proof (cases "k = 2 \<and> separator c (s ! 0) (s ! 1)")
  case True
  then obtain d e t where "s = d # e # t" using rune_tail(2) [OF assms]
    by (cases s; cases "tl s") auto
  with True show ?thesis by simp
next
  case False
  note tail = rune_tail [OF assms]
  have "json_string (c # s) = c # json_string s"
  proof (cases "c = CHR 0xE2")
    case E2: True
    with tail obtain d e t where s: "s = d # e # t" by (cases s; cases "tl s") auto
    then show ?thesis using False E2 tail(3,4) by (simp add: json_char_high)
  qed (simp add: json_string_Cons json_char_high tail(3))
  also have "json_string s = take k s @ json_string (drop k s)"
    using json_string_tail [OF tail(1), of "drop k s"] by simp
  finally show ?thesis unfolding if_not_P [OF False] by simp
qed

lemma json_string_go: "valid_utf8 s \<Longrightarrow> json_string s = go_json_string s"
proof (induction s rule: valid_utf8.induct)
  case (2 c s)
  then obtain k where k: "rune_size c s = Suc k" "valid_utf8 (drop k s)" by (auto split: nat.splits)
  with 2 have IH: "json_string (drop k s) = go_json_string (drop k s)" by simp
  show ?case
  proof (cases "k = 0")
    case True
    then have "c \<noteq> CHR 0xE2" using k(1) by (auto simp: rune_size_def Let_def code_E2 split: if_splits)
    with True k IH show ?thesis by (simp add: json_string_Cons)
  next
    case False
    then show ?thesis using json_string_rune [of c s k] k IH by auto
  qed
qed simp

lemma json_marshal_go:
  assumes "utf8_combo m"
  shows "json_marshal m = go_json_marshal m"
proof -
  have "(json_string k, json_string v) = (go_json_string k, go_json_string v)" if "(k, v) \<in> set (ordered m)" for k v
  proof -
    from that have "(k, v) \<in> set m" using pinned_code_mem [of k m] by (auto simp: ordered_def image_iff)
    with assms show ?thesis by (auto simp: utf8_combo_def list_all_iff json_string_go)
  qed
  then have "map (\<lambda>(k, v). (json_string k, json_string v)) (ordered m) = map (\<lambda>(k, v). (go_json_string k, go_json_string v)) (ordered m)"
    by (intro map_cong) auto
  then show ?thesis by (simp only: json_marshal_def go_json_marshal_def)
qed

text \<open>Without the hypothesis a key does not identify its combination: bytes that are not UTF-8 are all written alike.\<close>

lemma invalid_bytes_collide:
  "go_json_marshal [(''r'', [CHR 0xFF])] = go_json_marshal [(''r'', [CHR 0xFE])]"
  by code_simp

text \<open>
  C27 The storage key of a combination whose identifiers and codes are valid UTF-8 is canonical: the
  key is byte for byte what \<open>encoding/json\<close> writes for the map, also where the direct path wrote it, and two such combinations have
  the same key exactly when they pin the same members of the same dimensions.
\<close>

theorem dimKey_canonical:
  assumes "distinct (map fst m)" and "distinct (map fst m')" and "utf8_combo m" and "utf8_combo m'"
  shows "dimKey m = go_json_marshal m \<and> (go_json_marshal m = go_json_marshal m' \<longleftrightarrow> map_of m = map_of m')"
  using ordered_iff [OF assms(1,2)] json_marshal_go [OF assms(3)] json_marshal_go [OF assms(4)] dimKey_marshal [of m]
    json_marshal_ordered [of m m'] by simp

theorem dimKey_canonical_witness:
  "dimKey [(''r'', ''A<B''), (''p'', ''Q1'')] = go_json_marshal [(''r'', ''A<B''), (''p'', ''Q1'')] \<and>
   go_json_marshal [(''r'', ''A<B''), (''p'', ''Q1'')] = go_json_marshal [(''p'', ''Q1''), (''r'', ''A<B'')]"
proof -
  have "map_of [(''r'', ''A<B''), (''p'', ''Q1'')] = map_of [(''p'', ''Q1''), (''r'', ''A<B'')]" by (rule ext) simp
  moreover have "distinct (map fst [(''r'', ''A<B''), (''p'', ''Q1'')])" "distinct (map fst [(''p'', ''Q1''), (''r'', ''A<B'')])"
    by simp_all
  moreover have "utf8_combo [(''r'', ''A<B''), (''p'', ''Q1'')]" "utf8_combo [(''p'', ''Q1''), (''r'', ''A<B'')]"
    by code_simp+
  ultimately show ?thesis using dimKey_canonical by blast
qed

subsection \<open>The database's text of a combination is read back to its key\<close>

text \<open>PostgreSQL writes a \<open>jsonb\<close> object with a blank after each colon and each comma, in its own key order.\<close>

definition pg_member :: "string \<times> string \<Rightarrow> string" where
  "pg_member kv = [CHR 0x22] @ fst kv @ [CHR 0x22] @ '': '' @ [CHR 0x22] @ snd kv @ [CHR 0x22]"

definition pg_text :: "combo \<Rightarrow> string" where
  "pg_text kvs = ''{'' @ Join (map pg_member kvs) '', '' @ ''}''"

lemma plainJSON_no_quote: "plainJSON s \<Longrightarrow> c \<in> set s \<Longrightarrow> c \<noteq> CHR 0x22"
  by (auto simp: plainJSON_def list_all_iff)

lemma read_quoted_plain: "plainJSON v \<Longrightarrow> read_quoted (CHR 0x22 # v @ CHR 0x22 # rest) = Some (v, rest)"
  by (simp add: read_quoted_def plainJSON_no_quote Let_def takeWhile_append2 dropWhile_append2)

lemma skip_blanks_Cons: "skip_blanks (c # s) = (if c = CHR '' '' then skip_blanks s else c # s)"
  by (simp add: skip_blanks_def)

lemma skip_blanks_pg: "skip_blanks (pg_member kv @ rest) = pg_member kv @ rest"
  by (simp add: pg_member_def skip_blanks_Cons)

lemma read_member_pg:
  "plainJSON k \<Longrightarrow> plainJSON v \<Longrightarrow> c \<noteq> CHR '' '' \<Longrightarrow> read_member (pg_member (k, v) @ c # rest) = Some ((k, v), c # rest)"
  by (simp add: read_member_def pg_member_def skip_blanks_Cons read_quoted_plain)

lemma read_member_blank: "read_member (CHR '' '' # src) = read_member src"
  by (simp add: read_member_def skip_blanks_Cons)

lemma insert_key_new:
  assumes "fst kv \<notin> fst ` set xs" and "sorted_wrt (<) (map fst xs)"
  shows "\<exists>ys. insert_key kv xs = Some ys \<and> set ys = insert kv (set xs) \<and> length ys = Suc (length xs) \<and> sorted_wrt (<) (map fst ys)"
  using assms
proof (induction xs)
  case (Cons x xs)
  show ?case
  proof (cases "fst kv < fst x")
    case True
    with Cons.prems show ?thesis by fastforce
  next
    case False
    with Cons.prems have "fst x < fst kv" by auto
    moreover obtain ys where "insert_key kv xs = Some ys" "set ys = insert kv (set xs)" "length ys = Suc (length xs)"
      "sorted_wrt (<) (map fst ys)" using Cons by auto
    ultimately show ?thesis using Cons.prems False by auto
  qed
qed simp

lemma ordered_unique:
  assumes "sorted_wrt (<) (map fst xs)" and "set xs = set m" and "distinct (map fst m)"
  shows "ordered m = xs"
proof -
  have xs: "sorted (map fst xs)" "distinct (map fst xs)" using assms(1) by (simp_all add: strict_sorted_iff)
  have "sortedKeys m = map fst xs"
    unfolding sortedKeys_def using xs assms(2,3) by (intro sorted_distinct_set_unique) (simp_all add: image_iff)
  moreover have "pinned_code m k = v" if "(k, v) \<in> set xs" for k v
    using that assms(2,3) by (simp add: pinned_code_def)
  ultimately show ?thesis unfolding ordered_def by (auto simp: comp_def intro!: map_idI)
qed

lemma object_loop_pg:
  assumes "list_all (\<lambda>(k, v). plainJSON k \<and> plainJSON v) (kv # kvs)" and "distinct (map fst (kv # kvs))"
    and "fst ` set acc \<inter> fst ` set (kv # kvs) = {}" and "sorted_wrt (<) (map fst acc)"
    and "length acc + length (kv # kvs) \<le> 8"
  shows "\<exists>ys. object_loop (pg_member kv @ concat (map (\<lambda>kv. '', '' @ pg_member kv) kvs) @ ''}'') acc = Some (render ys)
    \<and> sorted_wrt (<) (map fst ys) \<and> set ys = set acc \<union> set (kv # kvs)"
  using assms
proof (induction kvs arbitrary: kv acc)
  case Nil
  obtain k v where kv: "kv = (k, v)" by fastforce
  from Nil obtain ys where ys: "insert_key kv acc = Some ys" "set ys = insert kv (set acc)" "sorted_wrt (<) (map fst ys)"
    using insert_key_new [of kv acc] by auto
  have "object_loop (pg_member kv @ ''}'') acc = Some (render ys)"
    using Nil.prems kv ys(1) by (subst object_loop.simps) (simp add: read_member_pg)
  with ys show ?case by auto
next
  case (Cons kv' kvs)
  obtain k v where kv: "kv = (k, v)" by fastforce
  let ?rest = "pg_member kv' @ concat (map (\<lambda>kv. '', '' @ pg_member kv) kvs) @ ''}''"
  from Cons.prems obtain ys where ys: "insert_key kv acc = Some ys" "set ys = insert kv (set acc)"
    "length ys = Suc (length acc)" "sorted_wrt (<) (map fst ys)"
    using insert_key_new [of kv acc] by auto
  have "object_loop (pg_member kv @ CHR '','' # CHR '' '' # ?rest) acc = object_loop (CHR '' '' # ?rest) ys"
    using Cons.prems kv ys(1) by (subst object_loop.simps) (simp add: read_member_pg)
  also have "\<dots> = object_loop ?rest ys"
    by (subst (1 2) object_loop.simps) (simp only: read_member_blank)
  finally have "object_loop (pg_member kv @ concat (map (\<lambda>kv. '', '' @ pg_member kv) (kv' # kvs)) @ ''}'') acc = object_loop ?rest ys"
    by simp
  moreover have "\<exists>zs. object_loop ?rest ys = Some (render zs) \<and> sorted_wrt (<) (map fst zs) \<and> set zs = set ys \<union> set (kv' # kvs)"
    using Cons.prems ys by (intro Cons.IH) auto
  ultimately show ?case using ys(2) by auto
qed

text \<open>
  C28 Reading a stored row: for PostgreSQL's text of a combination of one to eight dimensions with
  plain codes, in whatever key order the database writes, the direct parser gives exactly the key
  \<open>dimKey\<close> looks the combination up under.
\<close>

theorem plainObjectKey_roundtrip:
  assumes "list_all (\<lambda>(k, v). plainJSON k \<and> plainJSON v) m" and "distinct (map fst m)" and "length m \<le> 8"
  shows "plainObjectKey (pg_text m) = Some (dimKey m)"
proof (cases m)
  case Nil
  then show ?thesis
    by (simp add: plainObjectKey_def pg_text_def skip_blanks_def dimKey_def ordered_def sortedKeys_def render_def)
next
  case (Cons kv kvs)
  let ?body = "pg_member kv @ concat (map (\<lambda>kv. '', '' @ pg_member kv) kvs) @ ''}''"
  have shape: "pg_text m = CHR ''{'' # ?body" unfolding Cons pg_text_def by (simp add: Join_Cons comp_def)
  obtain d cs where body: "?body = d # cs" by (cases ?body) auto
  then have "d = CHR 0x22" by (simp add: pg_member_def)
  then have step: "plainObjectKey (pg_text m) = object_loop ?body []"
    unfolding shape body by (simp add: plainObjectKey_def skip_blanks_Cons)
  obtain ys where ys: "object_loop ?body [] = Some (render ys)" "sorted_wrt (<) (map fst ys)" "set ys = set m"
    using object_loop_pg [of kv kvs "[]"] assms unfolding Cons by auto
  moreover have "ordered m = ys" using ys(2,3) assms(2) by (rule ordered_unique)
  ultimately show ?thesis using assms step by (simp add: dimKey_def)
qed

theorem plainObjectKey_roundtrip_witness:
  "plainObjectKey (pg_text [(''r'', ''EU''), (''p'', ''2026-07'')]) = Some (dimKey [(''r'', ''EU''), (''p'', ''2026-07'')])"
  by (rule plainObjectKey_roundtrip) (simp_all add: plainJSON_def code_of_def)

end
