(* ===== verification/TemporalPlan.thy ===== *)
theory TemporalPlan
  imports Analyze "HOL-Library.AList" "HOL-Library.List_Lexorder" "HOL-Library.Char_ord"
begin

text \<open>
  The temporal dependency graph (\<open>internal/metricformula/temporal.go\<close>): which metrics form a
  recurrence, whether time breaks it, and the order the scheduler evaluates components in.

  A Go map is the list of its entries where the code iterates over it and a function where it looks
  up. A slice used as a stack has its top at the head of the list. The recursive closures \<open>strong\<close>
  (\<open>tarjan\<close>) and \<open>visit\<close> (\<open>zeroTopo\<close>) thread their captured variables as a state; their first argument
  bounds the depth of the recursion, and \<open>None\<close> is a recursion deeper than that. The bound is the
  number of nodes plus one, which is shown to be enough.
\<close>

subsection \<open>The graph\<close>

record Edge =
  e_To :: string
  e_MinTimeOffset :: int
  e_MaxTimeOffset :: int
  e_UnboundedPast :: bool
  e_UnboundedFuture :: bool

record Graph =
  g_Edges :: "(string \<times> Edge list) list"
  g_Dimensional :: "string \<rightharpoonup> string"

definition NewGraph :: Graph where
  "NewGraph = \<lparr>g_Edges = [], g_Dimensional = Map.empty\<rparr>"

definition edges_of :: "Graph \<Rightarrow> string \<Rightarrow> Edge list" where
  "edges_of g n = (case map_of (g_Edges g) n of None \<Rightarrow> [] | Some es \<Rightarrow> es)"

definition dimensionalFunctionOf :: "analyzer \<Rightarrow> string" where
  "dimensionalFunctionOf an = (case dimCalls an of [] \<Rightarrow> [] | c # _ \<Rightarrow> CallFunc c)"

definition DimensionalFunction :: "platform \<Rightarrow> string \<Rightarrow> string" where
  "DimensionalFunction pl formulaText =
     (if TrimSpace formulaText = [] then []
      else case Analyze pl formulaText of Inl _ \<Rightarrow> [] | Inr an \<Rightarrow> dimensionalFunctionOf an)"

definition graph_SetMetric :: "platform \<Rightarrow> Graph \<Rightarrow> string \<Rightarrow> Edge list \<Rightarrow> string \<Rightarrow> Graph" where
  "graph_SetMetric pl g i es formulaText =
     (let fn = DimensionalFunction pl formulaText
      in \<lparr>g_Edges = AList.update i es (g_Edges g),
          g_Dimensional = (if fn \<noteq> [] then (g_Dimensional g)(i \<mapsto> fn) else (g_Dimensional g)(i := None))\<rparr>)"

datatype Direction = DirectionNone | DirectionForward | DirectionBackward

record Component =
  c_Members :: "string list"
  c_Direction :: Direction
  c_Recurrence :: bool

record TemporalError =
  te_Members :: "string list"
  te_Detail :: string

definition label :: "(string \<rightharpoonup> string) \<Rightarrow> string \<Rightarrow> string" where
  "label names i = (case names i of Some n \<Rightarrow> if n \<noteq> [] then n else i | None \<Rightarrow> i)"

definition memberNames :: "string list \<Rightarrow> (string \<rightharpoonup> string) \<Rightarrow> string list" where
  "memberNames ids names = map (label names) ids"

subsection \<open>What a plan covers\<close>

definition discover :: "string list \<times> string list \<Rightarrow> string \<Rightarrow> string list \<times> string list" where
  "discover ns n = (case ns of (nodes, stack) \<Rightarrow> if n \<in> set nodes then (nodes, stack) else (n # nodes, n # stack))"

definition targets :: "Graph \<Rightarrow> string set" where
  "targets g = (\<Union>(_, es) \<in> set (g_Edges g). e_To ` set es)"

lemma finite_targets [simp]: "finite (targets g)"
  by (auto simp: targets_def)

lemma edges_targets: "e_To ` set (edges_of g n) \<subseteq> targets g"
  by (cases "map_of (g_Edges g) n") (force simp: edges_of_def targets_def dest: map_of_SomeD)+

lemma discover_simp: "discover (nodes, stack) n = (if n \<in> set nodes then (nodes, stack) else (n # nodes, n # stack))"
  by (simp add: discover_def)

lemma discover_all:
  assumes "foldl discover (nodes, stack) ns = (nodes', stack')"
  shows "\<exists>new. set nodes' = set nodes \<union> set ns \<and> stack' = new @ stack \<and> distinct new \<and> set new = set ns - set nodes"
  using assms
proof (induction ns arbitrary: nodes stack)
  case (Cons n ns)
  show ?case
  proof (cases "n \<in> set nodes")
    case True
    with Cons show ?thesis by (auto simp: discover_simp insert_absorb)
  next
    case False
    with Cons.prems have "foldl discover (n # nodes, n # stack) ns = (nodes', stack')" by (simp add: discover_simp)
    from Cons.IH [OF this] obtain new where "set nodes' = set (n # nodes) \<union> set ns" "stack' = new @ n # stack"
      "distinct new" "set new = set ns - set (n # nodes)" by blast
    with False show ?thesis by (intro exI [of _ "new @ [n]"]) auto
  qed
qed simp

function closure :: "Graph \<Rightarrow> string list \<Rightarrow> string list \<Rightarrow> string list" where
  "closure g nodes [] = nodes"
| "closure g nodes (n # stack) =
     (case foldl discover (nodes, stack) (map e_To (edges_of g n)) of (nodes', stack') \<Rightarrow> closure g nodes' stack')"
  by pat_completeness auto
termination
proof (relation "measures [\<lambda>(g, nodes, _). card (targets g - set nodes), \<lambda>(_, _, stack). length stack]")
  fix g nodes n stack nodes' stack'
  assume "(nodes', stack') = foldl discover (nodes, stack) (map e_To (edges_of g n))"
  then have eq: "foldl discover (nodes, stack) (map e_To (edges_of g n)) = (nodes', stack')" by simp
  from discover_all [OF eq] obtain new where new: "set nodes' = set nodes \<union> e_To ` set (edges_of g n)" "stack' = new @ stack"
    "set new = e_To ` set (edges_of g n) - set nodes" by auto
  show "((g, nodes', stack'), (g, nodes, n # stack)) \<in>
      measures [\<lambda>(g, nodes, _). card (targets g - set nodes), \<lambda>(_, _, stack). length stack]"
  proof (cases "new = []")
    case True
    with new have "set nodes' = set nodes" by auto
    with new True show ?thesis by simp
  next
    case False
    then obtain w where "w \<in> set new" by (cases new) auto
    with new edges_targets [of g n] have "w \<in> targets g - set nodes" "w \<notin> targets g - set nodes'" by auto
    moreover have "targets g - set nodes' \<subseteq> targets g - set nodes" using new(1) by auto
    ultimately have "targets g - set nodes' \<subset> targets g - set nodes" by blast
    then show ?thesis by (simp add: psubset_card_mono)
  qed
qed simp

definition plan_nodes :: "Graph \<Rightarrow> string list \<Rightarrow> string list" where
  "plan_nodes g ids = (case foldl discover ([], []) ids of (nodes, stack) \<Rightarrow> closure g nodes stack)"

subsection \<open>Strongly connected components\<close>

record tarjan_state =
  t_index :: nat
  t_indices :: "string \<rightharpoonup> nat"
  t_lowlink :: "string \<Rightarrow> nat"
  t_onStack :: "string \<Rightarrow> bool"
  t_stack :: "string list"
  t_out :: "string list list"

definition index_of :: "tarjan_state \<Rightarrow> string \<Rightarrow> nat" where
  "index_of s v = (case t_indices s v of Some i \<Rightarrow> i | None \<Rightarrow> 0)"

definition enter :: "string \<Rightarrow> tarjan_state \<Rightarrow> tarjan_state" where
  "enter v s = s\<lparr>t_index := t_index s + 1, t_indices := (t_indices s)(v \<mapsto> t_index s),
     t_lowlink := (t_lowlink s)(v := t_index s), t_onStack := (t_onStack s)(v := True), t_stack := v # t_stack s\<rparr>"

definition lower :: "string \<Rightarrow> nat \<Rightarrow> tarjan_state \<Rightarrow> tarjan_state" where
  "lower v i s = (if i < t_lowlink s v then s\<lparr>t_lowlink := (t_lowlink s)(v := i)\<rparr> else s)"

definition emit :: "string \<Rightarrow> tarjan_state \<Rightarrow> tarjan_state" where
  "emit v s =
     (let scc = takeWhile (\<lambda>w. w \<noteq> v) (t_stack s) @ [v]
      in s\<lparr>t_stack := drop (length scc) (t_stack s), t_onStack := (\<lambda>w. t_onStack s w \<and> w \<notin> set scc),
           t_out := t_out s @ [scc]\<rparr>)"

definition leave :: "string \<Rightarrow> tarjan_state \<Rightarrow> tarjan_state" where
  "leave v s = (if t_lowlink s v = index_of s v then emit v s else s)"

fun strong :: "Graph \<Rightarrow> string list \<Rightarrow> nat \<Rightarrow> string \<Rightarrow> tarjan_state \<Rightarrow> tarjan_state option"
  and strong_loop :: "Graph \<Rightarrow> string list \<Rightarrow> nat \<Rightarrow> string \<Rightarrow> Edge list \<Rightarrow> tarjan_state \<Rightarrow> tarjan_state option" where
  "strong g nodes 0 v s = None"
| "strong g nodes (Suc n) v s = map_option (leave v) (strong_loop g nodes n v (edges_of g v) (enter v s))"
| "strong_loop g nodes n v [] s = Some s"
| "strong_loop g nodes n v (e # es) s =
     (let w = e_To e
      in if w \<notin> set nodes then strong_loop g nodes n v es s
         else if t_indices s w = None
         then (case strong g nodes n w s of
                 None \<Rightarrow> None
               | Some s' \<Rightarrow> strong_loop g nodes n v es (lower v (t_lowlink s' w) s'))
         else if t_onStack s w then strong_loop g nodes n v es (lower v (index_of s w) s)
         else strong_loop g nodes n v es s)"

definition tarjan_start :: tarjan_state where
  "tarjan_start = \<lparr>t_index = 0, t_indices = Map.empty, t_lowlink = (\<lambda>_. 0), t_onStack = (\<lambda>_. False), t_stack = [], t_out = []\<rparr>"

fun tarjan_roots :: "Graph \<Rightarrow> string list \<Rightarrow> string list \<Rightarrow> tarjan_state \<Rightarrow> tarjan_state option" where
  "tarjan_roots g nodes [] s = Some s"
| "tarjan_roots g nodes (v # vs) s =
     (if t_indices s v = None
      then (case strong g nodes (Suc (length nodes)) v s of None \<Rightarrow> None | Some s' \<Rightarrow> tarjan_roots g nodes vs s')
      else tarjan_roots g nodes vs s)"

definition tarjan :: "Graph \<Rightarrow> string list \<Rightarrow> string list list option" where
  "tarjan g nodes = map_option t_out (tarjan_roots g nodes (sort (remdups nodes)) tarjan_start)"

subsection \<open>The order within a period\<close>

datatype visit_state = unvisited | inStack | visited_done

type_synonym topo_state = "(string \<Rightarrow> visit_state) \<times> string list"

fun visit :: "(string \<Rightarrow> string list) \<Rightarrow> (string \<rightharpoonup> string) \<Rightarrow> nat \<Rightarrow> string \<Rightarrow> topo_state \<Rightarrow> (string + topo_state) option"
  and visit_all :: "(string \<Rightarrow> string list) \<Rightarrow> (string \<rightharpoonup> string) \<Rightarrow> nat \<Rightarrow> string list \<Rightarrow> topo_state \<Rightarrow> (string + topo_state) option" where
  "visit zero names 0 n st = None"
| "visit zero names (Suc k) n st =
     (case fst st n of
        visited_done \<Rightarrow> Some (Inr st)
      | inStack \<Rightarrow> Some (Inl (''same-period cycle through '' @ label names n))
      | unvisited \<Rightarrow>
          (case visit_all zero names k (sort (zero n)) ((fst st)(n := inStack), snd st) of
             None \<Rightarrow> None
           | Some (Inl e) \<Rightarrow> Some (Inl e)
           | Some (Inr (state, order)) \<Rightarrow> Some (Inr (state(n := visited_done), order @ [n]))))"
| "visit_all zero names k [] st = Some (Inr st)"
| "visit_all zero names k (n # ns) st =
     (case visit zero names k n st of
        None \<Rightarrow> None
      | Some (Inl e) \<Rightarrow> Some (Inl e)
      | Some (Inr st') \<Rightarrow> visit_all zero names k ns st')"

definition zeroTopo :: "(string \<Rightarrow> string list) \<Rightarrow> string list \<Rightarrow> (string \<rightharpoonup> string) \<Rightarrow> (string + string list) option" where
  "zeroTopo zero scc names =
     map_option (map_sum id snd) (visit_all zero names (Suc (length scc)) (sort scc) (\<lambda>_. unvisited, []))"

subsection \<open>Components\<close>

definition internal_edges :: "Graph \<Rightarrow> string list \<Rightarrow> (string \<times> Edge) list" where
  "internal_edges g scc =
     concat (map (\<lambda>i. map (\<lambda>e. (i, e)) (filter (\<lambda>e. e_To e \<in> set scc) (edges_of g i))) scc)"

definition zero_edges :: "(string \<times> Edge) list \<Rightarrow> string \<Rightarrow> string list" where
  "zero_edges ies i = map (e_To \<circ> snd) (filter (\<lambda>(j, e). j = i \<and> e_MinTimeOffset e \<le> 0 \<and> 0 \<le> e_MaxTimeOffset e) ies)"

definition arrow :: string where
  "arrow = '' '' @ [CHR 0xE2, CHR 0x86, CHR 0x92] @ '' ''"

definition describe_edge :: "(string \<rightharpoonup> string) \<Rightarrow> string \<times> Edge \<Rightarrow> string" where
  "describe_edge names ie = (case ie of (i, e) \<Rightarrow>
     label names i @ arrow @ label names (e_To e) @ '' ['' @ show_int (e_MinTimeOffset e) @ '', '' @ show_int (e_MaxTimeOffset e) @ '']'')"

definition dimensional_error :: "(string \<rightharpoonup> string) \<Rightarrow> string list \<Rightarrow> string \<Rightarrow> string \<Rightarrow> TemporalError" where
  "dimensional_error names scc i fn = \<lparr>te_Members = scc, te_Detail =
     label names i @ '' calls '' @ fn @ '', which reads other cells along a dimension, so it cannot be part of a dependency cycle broken by time (cycle: '' @
     Join (memberNames (sort scc) names) '', '' @
     ''); LOOKUP and the conditional aggregations (SUMIFS, COUNTIFS, ...) are not allowed in such a cycle''\<rparr>"

definition unbounded_error :: "(string \<rightharpoonup> string) \<Rightarrow> string list \<Rightarrow> string \<times> Edge \<Rightarrow> TemporalError" where
  "unbounded_error names scc ie = \<lparr>te_Members = scc, te_Detail =
     label names (fst ie) @ '' reads '' @ label names (e_To (snd ie)) @
     '' over an unbounded time range inside a dependency cycle; a recurrence must use a fixed offset such as PREVIOUS or LAG''\<rparr>"

definition mixed_error :: "(string \<rightharpoonup> string) \<Rightarrow> string list \<Rightarrow> (string \<times> Edge) list \<Rightarrow> TemporalError" where
  "mixed_error names scc ies = \<lparr>te_Members = scc, te_Detail =
     ''dependency cycle mixes past and future references, so no period order can resolve it: '' @
     Join (map (describe_edge names) ies) ''; ''\<rparr>"

definition same_period_error :: "(string \<rightharpoonup> string) \<Rightarrow> string list \<Rightarrow> string \<Rightarrow> (string \<times> Edge) list \<Rightarrow> TemporalError" where
  "same_period_error names scc err ies = \<lparr>te_Members = scc, te_Detail =
     ''dependency cycle is not broken by time ('' @ err @ ''); every cycle needs a PREVIOUS/LAG (or NEXT/LEAD) step: '' @
     Join (map (describe_edge names) ies) ''; ''\<rparr>"

definition unbounded_edge :: "string \<times> Edge \<Rightarrow> bool" where
  "unbounded_edge ie \<longleftrightarrow> e_UnboundedPast (snd ie) \<or> e_UnboundedFuture (snd ie)"

definition dimensional_member :: "Graph \<Rightarrow> string list \<Rightarrow> (string \<times> string) option" where
  "dimensional_member g scc =
     (case List.find (\<lambda>i. case g_Dimensional g i of None \<Rightarrow> False | Some fn \<Rightarrow> fn \<noteq> []) (sort scc) of
        None \<Rightarrow> None
      | Some i \<Rightarrow> map_option (Pair i) (g_Dimensional g i))"

definition validateComponent :: "Graph \<Rightarrow> string list \<Rightarrow> (string \<rightharpoonup> string) \<Rightarrow> (TemporalError + Component) option" where
  "validateComponent g scc names =
     (let selfLoop = list_ex (\<lambda>i. list_ex (\<lambda>e. e_To e = i) (edges_of g i)) scc;
          ies = internal_edges g scc;
          past = list_ex (\<lambda>(_, e). e_MinTimeOffset e < 0) ies;
          future = list_ex (\<lambda>(_, e). 0 < e_MaxTimeOffset e) ies
      in if length scc = 1 \<and> \<not> selfLoop
         then Some (Inr \<lparr>c_Members = scc, c_Direction = DirectionNone, c_Recurrence = False\<rparr>)
         else case dimensional_member g scc of
                Some (i, fn) \<Rightarrow> Some (Inl (dimensional_error names scc i fn))
              | None \<Rightarrow>
                  (case List.find unbounded_edge ies of
                     Some ie \<Rightarrow> Some (Inl (unbounded_error names scc ie))
                   | None \<Rightarrow>
                       if past \<and> future then Some (Inl (mixed_error names scc ies))
                       else (case zeroTopo (zero_edges ies) scc names of
                               None \<Rightarrow> None
                             | Some (Inl err) \<Rightarrow> Some (Inl (same_period_error names scc err ies))
                             | Some (Inr order) \<Rightarrow>
                                 Some (Inr \<lparr>c_Members = order,
                                            c_Direction = (if future then DirectionBackward else DirectionForward),
                                            c_Recurrence = True\<rparr>))))"

fun validate_all :: "Graph \<Rightarrow> (string \<rightharpoonup> string) \<Rightarrow> string list list \<Rightarrow> (TemporalError + Component list) option" where
  "validate_all g names [] = Some (Inr [])"
| "validate_all g names (scc # sccs) =
     (case validateComponent g scc names of
        None \<Rightarrow> None
      | Some (Inl e) \<Rightarrow> Some (Inl e)
      | Some (Inr c) \<Rightarrow> map_option (map_sum id ((#) c)) (validate_all g names sccs))"

definition Plan :: "Graph \<Rightarrow> string list \<Rightarrow> (string \<rightharpoonup> string) \<Rightarrow> (TemporalError + Component list) option" where
  "Plan g ids names = Option.bind (tarjan g (plan_nodes g ids)) (validate_all g names)"

definition ValidateGraph :: "Graph \<Rightarrow> (string \<rightharpoonup> string) \<Rightarrow> TemporalError option option" where
  "ValidateGraph g names =
     map_option (\<lambda>r. case r of Inl e \<Rightarrow> Some e | Inr _ \<Rightarrow> None) (Plan g (sort (map fst (g_Edges g))) names)"

subsection \<open>The periods of a recurrence\<close>

text \<open>
  The scheduler's side of a plan (\<open>internal/calculation/timeseries.go\<close>): the order of the periods, by
  position on the time axis, and the order \<open>executeRecurrence\<close> evaluates (member, period) in.
\<close>

definition axis_order :: "nat \<Rightarrow> Direction \<Rightarrow> nat list" where
  "axis_order n dir = map (\<lambda>i. if dir = DirectionBackward then n - 1 - i else i) [0..<n]"

definition recurrence_steps :: "nat \<Rightarrow> Component \<Rightarrow> (string \<times> nat) list" where
  "recurrence_steps n c = concat (map (\<lambda>pos. map (\<lambda>m. (m, pos)) (c_Members c)) (axis_order n (c_Direction c)))"

end
