(* ===== verification/DimContext.thy ===== *)
theory DimContext
  imports ComboKey TemporalPlan
begin

text \<open>
  Member metadata and source reads of the dimensional references of a formula
  (\<open>internal/calculation/dimcontext.go\<close>), and the reader of a formula or rate source
  (\<open>exactSource\<close> of \<open>ondemand.go\<close>).

  A Go map is the list of its entries in iteration order where the code iterates over it, and a
  function or partial map where it only looks up. The caches the code fills (\<open>leaves\<close>, \<open>codecs\<close>,
  \<open>related\<close>, \<open>pinned\<close>, the on-demand \<open>memo\<close>) are fields of the state each operation returns. The
  memo of the conditional aggregations is the state of \<open>conditional_memo\<close> and not a field here.
\<close>

subsection \<open>Metric definitions and property declarations\<close>

record MetricDef =
  f_ID :: string
  f_Name :: string
  f_Formula :: string
  f_IsInput :: bool
  f_AggRule :: string
  f_DependsOnID :: "string list"
  f_AggNumeratorID :: string
  f_AggDenominatorID :: string
  f_TimeSummary :: string
  f_DependsOn :: "Edge list"
  f_PicklistDimID :: string
  f_Text :: bool

record PropertyDecl =
  pd_Name :: string
  pd_DataType :: string

record DimensionSchema =
  s_Properties :: "string \<Rightarrow> (string \<times> PropertyDecl) list"
  s_RevisionOwned :: "string list"

record metricShape =
  ms_dimIDs :: "string list"
  ms_picklistDimID :: string

record DimMetadata =
  md_dims :: dimensions
  md_byName :: "string \<Rightarrow> string list"
  md_props :: "string \<Rightarrow> (string \<times> PropertyDecl) list"
  md_members :: "string \<Rightarrow> (string \<times> Member) list"
  md_leaves :: "string \<rightharpoonup> DimMember list"
  md_names :: "string \<Rightarrow> string"
  md_metrics :: "string \<rightharpoonup> metricShape"
  md_codecs :: "string \<rightharpoonup> PicklistCodec"

subsection \<open>Building the metadata\<close>

definition group_names :: "(string \<times> string) list \<Rightarrow> string \<Rightarrow> string list" where
  "group_names dimIDToName =
     foldl (\<lambda>m (i, name). m(ToUpper name := m (ToUpper name) @ [i])) (\<lambda>_. []) dimIDToName"

text \<open>The revision's own rows first, then by ID.\<close>

definition prefer_owned :: "string list \<Rightarrow> string list \<Rightarrow> string list" where
  "prefer_owned owned ids = sort_key (\<lambda>i. (i \<notin> set owned, i)) ids"

definition index_codes :: "Member list \<Rightarrow> (string \<times> Member) list" where
  "index_codes ms =
     foldl (\<lambda>idx m. if map_of idx (m_Code m) = None then idx @ [(m_Code m, m)] else idx) [] ms"

definition NewDimMetadata :: "dimensions \<Rightarrow> (string \<times> string) list \<Rightarrow> DimensionSchema option \<Rightarrow> DimMetadata" where
  "NewDimMetadata dims dimIDToName schema =
     (let owned = (case schema of None \<Rightarrow> [] | Some s \<Rightarrow> s_RevisionOwned s)
      in \<lparr>md_dims = dims,
          md_byName = (\<lambda>key. prefer_owned owned (group_names dimIDToName key)),
          md_props = (case schema of None \<Rightarrow> \<lambda>_. [] | Some s \<Rightarrow> s_Properties s),
          md_members = (\<lambda>i. case dims i of None \<Rightarrow> [] | Some d \<Rightarrow> index_codes (d_Members d)),
          md_leaves = Map.empty,
          md_names = (\<lambda>i. case map_of dimIDToName i of None \<Rightarrow> [] | Some n \<Rightarrow> n),
          md_metrics = Map.empty,
          md_codecs = Map.empty\<rparr>)"

definition SetMetric :: "string \<Rightarrow> string list \<Rightarrow> string \<Rightarrow> DimMetadata \<Rightarrow> DimMetadata" where
  "SetMetric name dimIDs picklistDimID m =
     m\<lparr>md_metrics := (md_metrics m)(ToUpper name \<mapsto> \<lparr>ms_dimIDs = dimIDs, ms_picklistDimID = picklistDimID\<rparr>)\<rparr>"

definition DescribeMetrics :: "(string \<times> MetricDef) list \<Rightarrow> (string \<Rightarrow> string list) \<Rightarrow> DimMetadata \<Rightarrow> DimMetadata" where
  "DescribeMetrics defs metricDimIDs m =
     foldl (\<lambda>m (i, d). SetMetric (f_Name d) (metricDimIDs i) (f_PicklistDimID d) m) m defs"

subsection \<open>Pick-lists\<close>

definition PicklistDimension :: "DimMetadata \<Rightarrow> string \<Rightarrow> string" where
  "PicklistDimension m name =
     (case md_metrics m (ToUpper name) of None \<Rightarrow> [] | Some shape \<Rightarrow> ms_picklistDimID shape)"

definition build_codec :: "DimMetadata \<Rightarrow> string \<Rightarrow> PicklistCodec" where
  "build_codec m i = dimension_codec (md_names m i) (map fst (md_members m i))"

definition meta_Picklist :: "DimMetadata \<Rightarrow> string \<Rightarrow> PicklistCodec option \<times> DimMetadata" where
  "meta_Picklist m name =
     (let i = PicklistDimension m name
      in if i = [] then (None, m)
         else case md_codecs m i of
                Some c \<Rightarrow> (Some c, m)
              | None \<Rightarrow> (let c = build_codec m i in (Some c, m\<lparr>md_codecs := (md_codecs m)(i \<mapsto> c)\<rparr>)))"

definition metricDimNames :: "DimMetadata \<Rightarrow> string \<Rightarrow> string list option" where
  "metricDimNames m name =
     (case md_metrics m (ToUpper name) of
        None \<Rightarrow> None
      | Some shape \<Rightarrow> Some (filter (\<lambda>n. n \<noteq> []) (map (md_names m) (ms_dimIDs shape))))"

definition EncodeResult :: "DimMetadata option \<Rightarrow> string \<Rightarrow> Value \<Rightarrow> Value" where
  "EncodeResult m metric v =
     (case m of
        None \<Rightarrow> v
      | Some m \<Rightarrow>
          (case fst (meta_Picklist m metric) of
             None \<Rightarrow> v
           | Some c \<Rightarrow> PicklistResult c metric v))"

subsection \<open>Names, members and properties\<close>

definition dimID :: "DimMetadata \<Rightarrow> string \<Rightarrow> combo \<Rightarrow> FormulaError + string" where
  "dimID m name cmb =
     (case md_byName m (ToUpper name) of
        [] \<Rightarrow> Inl (mk_error (Code ErrName) (''unknown dimension '' @ name))
      | [i] \<Rightarrow> Inr i
      | ids \<Rightarrow> (case List.find (\<lambda>i. map_of cmb i \<noteq> None) ids of
                    Some i \<Rightarrow> Inr i
                  | None \<Rightarrow> Inr (hd ids)))"

definition meta_member :: "DimMetadata \<Rightarrow> string \<Rightarrow> string \<Rightarrow> Member option" where
  "meta_member m i code = map_of (md_members m i) code"

definition meta_property :: "DimMetadata \<Rightarrow> string \<Rightarrow> string \<Rightarrow> PropertyDecl option" where
  "meta_property m i prop = map_of (md_props m i) (ToUpper prop)"

definition rawProperty :: "Member \<Rightarrow> string \<Rightarrow> string" where
  "rawProperty mem name =
     (case map_of (m_Properties mem) name of
        Some v \<Rightarrow> v
      | None \<Rightarrow> (case List.find (\<lambda>(k, v). EqualFold k name) (m_Properties mem) of Some (k, v) \<Rightarrow> v | None \<Rightarrow> []))"

definition typed_property :: "Member \<Rightarrow> PropertyDecl \<Rightarrow> Value" where
  "typed_property mem decl = TypedPropertyValue (rawProperty mem (pd_Name decl)) (pd_DataType decl)"

definition leaf_member :: "DimMetadata \<Rightarrow> string \<Rightarrow> string \<Rightarrow> DimMember" where
  "leaf_member m i code =
     \<lparr>MemberCode = code,
      Properties = (case meta_member m i code of
                      None \<Rightarrow> []
                    | Some mem \<Rightarrow> map (\<lambda>(key, decl). (key, typed_property mem decl)) (md_props m i))\<rparr>"

definition build_leaves :: "DimMetadata \<Rightarrow> string \<Rightarrow> DimMember list" where
  "build_leaves m i = map (leaf_member m i) (LeafCodes (md_dims m i))"

definition leafMembers :: "DimMetadata \<Rightarrow> string \<Rightarrow> DimMember list \<times> DimMetadata" where
  "leafMembers m i =
     (case md_leaves m i of
        Some cached \<Rightarrow> (cached, m)
      | None \<Rightarrow> (let ls = build_leaves m i in (ls, m\<lparr>md_leaves := (md_leaves m)(i \<mapsto> ls)\<rparr>)))"

definition errUnknownProperty :: "string \<Rightarrow> string \<Rightarrow> FormulaError" where
  "errUnknownProperty dm prop = mk_error ''UNKNOWN_PROPERTY'' (''dimension '' @ dm @ '' has no property '' @ prop)"

text \<open>The cell's coordinates without the named dimensions, every row of a name, as a key.\<close>

definition coordKey :: "DimMetadata \<Rightarrow> combo \<Rightarrow> string list \<Rightarrow> string" where
  "coordKey m cmb exclude =
     (if exclude = [] then dimKey cmb
      else let drop = concat (map (\<lambda>name. md_byName m (ToUpper name)) exclude)
           in dimKey (filter (\<lambda>(i, _). i \<notin> set drop) cmb))"

subsection \<open>The context of a cell\<close>

definition cell_Current :: "DimMetadata \<Rightarrow> combo \<Rightarrow> string \<Rightarrow> FormulaError + string \<times> bool" where
  "cell_Current m cmb dm =
     (case dimID m dm cmb of
        Inl e \<Rightarrow> Inl e
      | Inr i \<Rightarrow> Inr (pinned_code cmb i, map_of cmb i \<noteq> None))"

definition cell_Property :: "DimMetadata \<Rightarrow> combo \<Rightarrow> string \<Rightarrow> string \<Rightarrow> Value" where
  "cell_Property m cmb dm prop =
     (case dimID m dm cmb of
        Inl e \<Rightarrow> ErrorVal e
      | Inr i \<Rightarrow>
          (case meta_property m i prop of
             None \<Rightarrow> ErrorVal (errUnknownProperty dm prop)
           | Some decl \<Rightarrow>
               (case map_of cmb i of
                  None \<Rightarrow> BlankVal
                | Some code \<Rightarrow>
                    (case meta_member m i code of None \<Rightarrow> BlankVal | Some mem \<Rightarrow> typed_property mem decl))))"

definition cell_Parent :: "DimMetadata \<Rightarrow> combo \<Rightarrow> string \<Rightarrow> FormulaError + string" where
  "cell_Parent m cmb dm =
     (case dimID m dm cmb of
        Inl e \<Rightarrow> Inl e
      | Inr i \<Rightarrow>
          (case map_of cmb i of
             None \<Rightarrow> Inr []
           | Some code \<Rightarrow> Inr (case meta_member m i code of None \<Rightarrow> [] | Some mem \<Rightarrow> m_ParentCode mem)))"

definition cell_Member :: "DimMetadata \<Rightarrow> combo \<Rightarrow> string \<Rightarrow> string \<Rightarrow> FormulaError + string \<times> bool" where
  "cell_Member m cmb dm code =
     (case dimID m dm cmb of
        Inl e \<Rightarrow> Inl e
      | Inr i \<Rightarrow> Inr (if meta_member m i code = None then ([], False) else (code, True)))"

definition cell_Leaves :: "DimMetadata \<Rightarrow> combo \<Rightarrow> string \<Rightarrow> FormulaError + DimMember list" where
  "cell_Leaves m cmb dm =
     (case dimID m dm cmb of Inl e \<Rightarrow> Inl e | Inr i \<Rightarrow> Inr (fst (leafMembers m i)))"

definition no_data_error :: "string \<Rightarrow> FormulaError" where
  "no_data_error metric = mk_error ''DIM_CONTEXT_REQUIRED''
     (''reading '' @ metric @ '' at other members needs the calculation engine's data, which this evaluation does not have'')"

definition CellContext :: "DimMetadata \<Rightarrow> combo \<Rightarrow> DimEvalContext" where
  "CellContext m cmb =
     \<lparr>Current = Some (cell_Current m cmb), Property = Some (cell_Property m cmb), Parent = Some (cell_Parent m cmb),
      Member = Some (cell_Member m cmb), Leaves = Some (cell_Leaves m cmb),
      DimEvalContext.Resolve = Some (\<lambda>metric _. Inl (no_data_error metric)),
      CoordKey = Some (coordKey m cmb), Picklist = Some (\<lambda>metric. fst (meta_Picklist m metric)),
      MetricDims = Some (\<lambda>metric. map_option Some (metricDimNames m metric))\<rparr>"

subsection \<open>Sources evaluated on demand\<close>

datatype calc_error = ErrBlankResult | FormulaFailed FormulaError | RollupFailed rollup_error | OtherError string

text \<open>An evaluation at a cell: the value, or the error with whether the cell has no data.\<close>

type_synonym cellEval = "combo \<Rightarrow> calc_error \<times> bool + f64"
type_synonym onDemandResult = "calc_error + f64 \<times> bool"

record exactSource =
  x_dims :: dimensions
  x_rows :: "string \<rightharpoonup> f64"
  x_eval :: "calc_error + cellEval"
  x_memo :: "string \<rightharpoonup> onDemandResult"

definition allLeaves :: "exactSource \<Rightarrow> string list \<Rightarrow> combo \<Rightarrow> bool" where
  "allLeaves src srcDims nrm =
     list_all (\<lambda>i. case map_of nrm i of
         None \<Rightarrow> False
       | Some code \<Rightarrow> LeafDescendants (x_dims src i) code = Some [code]) srcDims"

definition on_demand :: "exactSource \<Rightarrow> combo \<Rightarrow> onDemandResult" where
  "on_demand src nrm =
     (case x_eval src of
        Inl e \<Rightarrow> Inl e
      | Inr evalOne \<Rightarrow>
          (case evalOne nrm of
             Inr v \<Rightarrow> Inr (v, True)
           | Inl (e, noData) \<Rightarrow> if e = ErrBlankResult \<or> noData then Inr (Fin 0, False) else Inl e))"

text \<open>\<open>None\<close>: not handled, the read is left to the caller.\<close>

definition at_source :: "exactSource option \<Rightarrow> string list \<Rightarrow> combo \<Rightarrow> onDemandResult option \<times> exactSource option" where
  "at_source src srcDims nrm =
     (case src of
        None \<Rightarrow> (None, None)
      | Some src \<Rightarrow>
          (let ownOnly = list_all (\<lambda>(i, _). i \<in> set srcDims) nrm; key = dimKey nrm
           in case (if ownOnly then x_rows src key else None) of
                Some v \<Rightarrow> (Some (Inr (v, True)), Some src)
              | None \<Rightarrow>
                  if ownOnly \<and> allLeaves src srcDims nrm then (None, Some src)
                  else case x_memo src key of
                         Some r \<Rightarrow> (Some r, Some src)
                       | None \<Rightarrow> (let r = on_demand src nrm
                                  in (Some r, Some (src\<lparr>x_memo := (x_memo src)(key \<mapsto> r)\<rparr>)))))"

subsection \<open>Reads of source metrics\<close>

text \<open>The prefetched values of a dependency as a reader.\<close>

definition mapFetch :: "(string \<rightharpoonup> f64) \<Rightarrow> 's RawValue" where
  "mapFetch valueMap metricID cmb s =
     (Inr (case valueMap (dimKey cmb) of Some v \<Rightarrow> (v, True) | None \<Rightarrow> (Fin 0, False)), s)"

record dimReads =
  r_meta :: DimMetadata
  r_metricDims :: "string \<Rightarrow> string list"
  r_defs :: "string \<rightharpoonup> MetricDef"
  r_byName :: "string \<rightharpoonup> string"
  r_fetch :: "string \<rightharpoonup> unit RawValue"
  r_rows :: "string \<rightharpoonup> exactSource"
  r_related :: "string \<times> string \<rightharpoonup> bool"
  r_pinned :: "(string \<rightharpoonup> f64 \<times> bool) option"
  r_data :: bool

definition add_dependency :: "(string \<rightharpoonup> MetricDef) \<Rightarrow> dimReads \<Rightarrow> string \<Rightarrow> dimReads" where
  "add_dependency allDefs r depID =
     (case allDefs depID of
        None \<Rightarrow> r
      | Some d \<Rightarrow>
          (let key = ToUpper (f_Name d)
           in r\<lparr>r_defs := (r_defs r)(depID \<mapsto> d),
                r_byName := (if r_byName r key = None then (r_byName r)(key \<mapsto> depID) else r_byName r)\<rparr>))"

definition newDimReads :: "DimMetadata \<Rightarrow> MetricDef \<Rightarrow> (string \<rightharpoonup> MetricDef) \<Rightarrow> (string \<Rightarrow> string list) \<Rightarrow>
    (string \<rightharpoonup> unit RawValue) \<Rightarrow> (string \<rightharpoonup> exactSource) \<Rightarrow> bool \<Rightarrow> dimReads" where
  "newDimReads meta def allDefs metricDimIDs fetch rows memo =
     foldl (add_dependency allDefs)
       \<lparr>r_meta = meta, r_metricDims = metricDimIDs, r_defs = Map.empty, r_byName = Map.empty, r_fetch = fetch,
        r_rows = rows, r_related = Map.empty, r_pinned = (if memo then Some Map.empty else None), r_data = False\<rparr>
       (f_DependsOnID def)"

definition not_recorded :: "string \<Rightarrow> FormulaError" where
  "not_recorded metric = mk_error (Code ErrRef) (metric @ '' is not a recorded dependency of this metric '' @
     [CHR 0xE2, CHR 0x80, CHR 0x94] @ '' save the formula again'')"

definition source_of :: "dimReads \<Rightarrow> string \<Rightarrow> FormulaError + string" where
  "source_of r metric =
     (case r_byName r (ToUpper metric) of
        Some depID \<Rightarrow> (case r_fetch r depID of None \<Rightarrow> Inl (not_recorded metric) | Some _ \<Rightarrow> Inr depID)
      | None \<Rightarrow> Inl (not_recorded metric))"

definition relates_any :: "dimReads \<Rightarrow> string \<Rightarrow> string \<Rightarrow> bool" where
  "relates_any r depID i = list_ex (\<lambda>own. Relates (md_dims (r_meta r)) own i) (r_metricDims r depID)"

definition relates :: "dimReads \<Rightarrow> string \<Rightarrow> string \<Rightarrow> bool \<times> dimReads" where
  "relates r depID i =
     (case r_related r (depID, i) of
        Some v \<Rightarrow> (v, r)
      | None \<Rightarrow> (let v = relates_any r depID i in (v, r\<lparr>r_related := (r_related r)((depID, i) \<mapsto> v)\<rparr>)))"

definition override_error :: "DimMetadata \<Rightarrow> string \<Rightarrow> string \<Rightarrow> string \<Rightarrow> FormulaError option" where
  "override_error m i dm code =
     (if code = [] then Some (MemberNotAvailable (''the '' @ dm @ '' member is blank''))
      else if meta_member m i code = None then Some (MemberNotAvailable (dm @ '' has no member '' @ go_quote code))
      else None)"

definition unrelated_error :: "string \<Rightarrow> string \<Rightarrow> FormulaError" where
  "unrelated_error metric dm = mk_error ''DIMENSION_NOT_ON_SOURCE''
     (metric @ '' is not dimensioned by '' @ dm @ '' or by a dimension related to it'')"

fun override_loop :: "dimReads \<Rightarrow> combo \<Rightarrow> string \<Rightarrow> string \<Rightarrow> (string \<times> string) list \<Rightarrow> combo \<Rightarrow>
    (FormulaError + combo) \<times> dimReads" where
  "override_loop r cmb metric depID [] pins = (Inr pins, r)"
| "override_loop r cmb metric depID ((dm, code) # rest) pins =
     (case dimID (r_meta r) dm cmb of
        Inl e \<Rightarrow> (Inl e, r)
      | Inr i \<Rightarrow>
          (case override_error (r_meta r) i dm code of
             Some e \<Rightarrow> (Inl e, r)
           | None \<Rightarrow>
               (case relates r depID i of
                  (related, r') \<Rightarrow>
                    if \<not> related then (Inl (unrelated_error metric dm), r')
                    else override_loop r' cmb metric depID rest (AList.update i code pins))))"

text \<open>The key of a read that pins exactly the dimensions of its source; empty for any other read.\<close>

definition pinnedKeyOf :: "string \<Rightarrow> string list \<Rightarrow> combo \<Rightarrow> string" where
  "pinnedKeyOf depID srcDims pins =
     (if length pins \<noteq> length srcDims \<or> \<not> list_all (\<lambda>i. map_of pins i \<noteq> None) srcDims then []
      else depID @ concat (map (\<lambda>i. CHR 0x00 # pinned_code pins i) srcDims))"

fun rollup_text :: "rollup_error \<Rightarrow> string" where
  "rollup_text ErrDepthExceeded = ''rollup: hierarchy depth exceeded''"
| "rollup_text ErrNoValue = ''rollup: no value at this coordinate''"
| "rollup_text (ErrConflictingOverrides prev cur own) =
     ''rollup: overrides on dimensions related to the same source dimension: '' @ prev @ '' and '' @ cur @
     '' both select members of '' @ own"
| "rollup_text (ErrFetch e) = e"

fun calc_text :: "calc_error \<Rightarrow> string" where
  "calc_text ErrBlankResult = ''the formula's result is blank''"
| "calc_text (FormulaFailed e) = error_text e"
| "calc_text (RollupFailed e) = rollup_text e"
| "calc_text (OtherError e) = e"

definition reading_error :: "string \<Rightarrow> calc_error \<Rightarrow> FormulaError" where
  "reading_error metric e = mk_error (Code ErrRef) (''reading '' @ metric @ '': '' @ calc_text e)"

definition conflict_error :: "string \<Rightarrow> rollup_error \<Rightarrow> FormulaError" where
  "conflict_error metric e =
     (case e of
        ErrConflictingOverrides _ _ _ \<Rightarrow>
          mk_error ''CONFLICTING_DIMENSION_ARGUMENTS'' (''reading '' @ metric @
            '': two dimension arguments select members of the same dimension of '' @ metric @ '', which one read cannot express'')
      | _ \<Rightarrow> reading_error metric (RollupFailed e))"

text \<open>The rules of a dependency: \<open>source_of\<close> only answers IDs that have a definition.\<close>

definition rules_of :: "dimReads \<Rightarrow> string \<Rightarrow> string \<times> string" where
  "rules_of r depID = (case r_defs r depID of None \<Rightarrow> ([], []) | Some d \<Rightarrow> (f_AggRule d, f_TimeSummary d))"

definition plain_read :: "dimReads \<Rightarrow> string \<Rightarrow> combo \<Rightarrow> onDemandResult" where
  "plain_read r depID nrm =
     (case r_fetch r depID of
        None \<Rightarrow> Inr (Fin 0, False)
      | Some fetch \<Rightarrow>
          (case fst (ResolveTime (md_dims (r_meta r)) fetch depID (r_metricDims r depID)
                  (fst (rules_of r depID)) (snd (rules_of r depID)) nrm ()) of
             Inl e \<Rightarrow> Inl (RollupFailed e)
           | Inr a \<Rightarrow> Inr a))"

definition read_source :: "dimReads \<Rightarrow> string \<Rightarrow> combo \<Rightarrow> onDemandResult \<times> dimReads" where
  "read_source r depID nrm =
     (case at_source (r_rows r depID) (r_metricDims r depID) nrm of
        (Some a, src) \<Rightarrow> (a, r\<lparr>r_rows := (r_rows r)(depID := src)\<rparr>)
      | (None, src) \<Rightarrow> (plain_read r depID nrm, r\<lparr>r_rows := (r_rows r)(depID := src)\<rparr>))"

definition note_data :: "f64 \<times> bool \<Rightarrow> dimReads \<Rightarrow> dimReads" where
  "note_data a r = (if snd a \<and> \<not> is_zero (fst a) then r\<lparr>r_data := True\<rparr> else r)"

definition read_uncached :: "dimReads \<Rightarrow> combo \<Rightarrow> string \<Rightarrow> string \<Rightarrow> combo \<Rightarrow> string \<Rightarrow> (FormulaError + f64 \<times> bool) \<times> dimReads" where
  "read_uncached r cmb metric depID pins pinnedKey =
     (case NormalizeCombo (md_dims (r_meta r)) (r_metricDims r depID) cmb pins of
        Inl e \<Rightarrow> (Inl (conflict_error metric e), r)
      | Inr nrm \<Rightarrow>
          (case read_source r depID nrm of
             (Inl e, r') \<Rightarrow> (Inl (reading_error metric e), r')
           | (Inr a, r') \<Rightarrow>
               (let r'' = (if pinnedKey = [] then r'
                           else r'\<lparr>r_pinned := map_option (\<lambda>p. p(pinnedKey \<mapsto> a)) (r_pinned r')\<rparr>)
                in (Inr a, note_data a r''))))"

definition dim_resolve :: "dimReads \<Rightarrow> combo \<Rightarrow> string \<Rightarrow> (string \<times> string) list \<Rightarrow> (FormulaError + f64 \<times> bool) \<times> dimReads" where
  "dim_resolve r cmb metric overrides =
     (case source_of r metric of
        Inl e \<Rightarrow> (Inl e, r)
      | Inr depID \<Rightarrow>
          (case override_loop r cmb metric depID overrides [] of
             (Inl e, r') \<Rightarrow> (Inl e, r')
           | (Inr pins, r') \<Rightarrow>
               (let pinnedKey = (if r_pinned r' = None then [] else pinnedKeyOf depID (r_metricDims r' depID) pins);
                    hit = (if pinnedKey = [] then None else Option.bind (r_pinned r') (\<lambda>p. p pinnedKey))
                in case hit of
                     Some a \<Rightarrow> (Inr a, note_data a r')
                   | None \<Rightarrow> read_uncached r' cmb metric depID pins pinnedKey)))"

text \<open>The context of a cell with its reads; the reads see the state as it is when they are made.\<close>

definition dim_context :: "dimReads \<Rightarrow> combo \<Rightarrow> DimEvalContext" where
  "dim_context r cmb =
     (CellContext (r_meta r) cmb)\<lparr>DimEvalContext.Resolve := Some (\<lambda>metric overrides. fst (dim_resolve r cmb metric overrides))\<rparr>"

subsection \<open>Plain references\<close>

definition nonValueArg :: "string \<Rightarrow> nat \<Rightarrow> bool" where
  "nonValueArg fn i =
     (let f = ToUpper fn
      in if f \<in> {''LOOKUP'', ''SUMIFS'', ''AVERAGEIFS'', ''MINIFS'', ''MAXIFS''} then i = 0 \<or> i mod 2 = 1
         else if f = ''COUNTIFS'' then i mod 2 = 0
         else if f = ''COUNTIF'' then i = 0
         else if f \<in> {''SUMIF'', ''AVERAGEIF''} then i = 0 \<or> i = 2
         else if f \<in> {''YEARVALUE'', ''HALFYEARVALUE'', ''QUARTERVALUE'', ''MONTHVALUE'', ''PARENT''} then i = 0
         else False)"

fun plainReferences :: "node \<Rightarrow> string list" and plainArgs :: "string \<Rightarrow> nat \<Rightarrow> node list \<Rightarrow> string list" where
  "plainReferences (Ident name) = [ToUpper name]"
| "plainReferences (UnaryExpr o1 e) = plainReferences e"
| "plainReferences (BinaryExpr o1 l r) = plainReferences l @ plainReferences r"
| "plainReferences (CallExpr name args) =
     plainArgs name 0 args"
| "plainReferences _ = []"
| "plainArgs fn i [] = []"
| "plainArgs fn i (a # as) = (if nonValueArg fn i then [] else plainReferences a) @ plainArgs fn (Suc i) as"

subsection \<open>Dependency reads\<close>

definition exactRows :: "MetricDef option \<Rightarrow> (string \<rightharpoonup> f64) \<Rightarrow> (string \<rightharpoonup> f64) option" where
  "exactRows dep valueMap =
     (case dep of
        None \<Rightarrow> None
      | Some d \<Rightarrow> if f_IsInput d then None
                   else if f_AggRule d = ''formula'' \<or> f_AggRule d = ''rate'' then Some valueMap else None)"

definition resolveDependency :: "dimensions \<Rightarrow> MetricDef \<Rightarrow> string list \<Rightarrow> combo \<Rightarrow> unit RawValue \<Rightarrow> exactSource option \<Rightarrow>
    onDemandResult \<times> exactSource option" where
  "resolveDependency dims dep srcDims cmb fetch src =
     (let nrm = NormalizeCombo dims srcDims cmb [];
          (handled, src') = (case (src, nrm) of (Some _, Inr n) \<Rightarrow> at_source src srcDims n | _ \<Rightarrow> (None, src))
      in case handled of
           Some a \<Rightarrow> (a, src')
         | None \<Rightarrow>
             (case fst (ResolveTime dims fetch (f_ID dep) srcDims (f_AggRule dep) (f_TimeSummary dep)
                     (case nrm of Inr n \<Rightarrow> n | Inl _ \<Rightarrow> cmb) ()) of
                Inl e \<Rightarrow> (Inl (RollupFailed e), src')
              | Inr a \<Rightarrow> (Inr a, src')))"

subsection \<open>The prefetched values as a reader\<close>

interpretation value_map: reader "mapFetch vm" "\<lambda>_. True" for vm
  by unfold_locales (auto simp: mapFetch_def split: option.split)

subsection \<open>Reads without caches\<close>

definition at_answer :: "exactSource option \<Rightarrow> string list \<Rightarrow> combo \<Rightarrow> onDemandResult option" where
  "at_answer src srcDims nrm =
     (case src of
        None \<Rightarrow> None
      | Some src \<Rightarrow>
          (let ownOnly = list_all (\<lambda>(i, _). i \<in> set srcDims) nrm
           in case (if ownOnly then x_rows src (dimKey nrm) else None) of
                Some v \<Rightarrow> Some (Inr (v, True))
              | None \<Rightarrow> if ownOnly \<and> allLeaves src srcDims nrm then None else Some (on_demand src nrm)))"

definition spec_read :: "dimReads \<Rightarrow> string \<Rightarrow> combo \<Rightarrow> onDemandResult" where
  "spec_read r depID nrm =
     (case at_answer (r_rows r depID) (r_metricDims r depID) nrm of Some a \<Rightarrow> a | None \<Rightarrow> plain_read r depID nrm)"

fun spec_pins :: "dimReads \<Rightarrow> combo \<Rightarrow> string \<Rightarrow> string \<Rightarrow> (string \<times> string) list \<Rightarrow> combo \<Rightarrow> FormulaError + combo" where
  "spec_pins r cmb metric depID [] pins = Inr pins"
| "spec_pins r cmb metric depID ((dm, code) # rest) pins =
     (case dimID (r_meta r) dm cmb of
        Inl e \<Rightarrow> Inl e
      | Inr i \<Rightarrow>
          (case override_error (r_meta r) i dm code of
             Some e \<Rightarrow> Inl e
           | None \<Rightarrow> if \<not> relates_any r depID i then Inl (unrelated_error metric dm)
                     else spec_pins r cmb metric depID rest (AList.update i code pins)))"

definition spec_resolve :: "dimReads \<Rightarrow> combo \<Rightarrow> string \<Rightarrow> (string \<times> string) list \<Rightarrow> FormulaError + f64 \<times> bool" where
  "spec_resolve r cmb metric overrides =
     (case source_of r metric of
        Inl e \<Rightarrow> Inl e
      | Inr depID \<Rightarrow>
          (case spec_pins r cmb metric depID overrides [] of
             Inl e \<Rightarrow> Inl e
           | Inr pins \<Rightarrow>
               (case NormalizeCombo (md_dims (r_meta r)) (r_metricDims r depID) cmb pins of
                  Inl e \<Rightarrow> Inl (conflict_error metric e)
                | Inr nrm \<Rightarrow>
                    (case spec_read r depID nrm of
                       Inl e \<Rightarrow> Inl (reading_error metric e)
                     | Inr a \<Rightarrow> Inr a))))"

text \<open>What the caches are computed from: the state with every cache emptied.\<close>

definition clear_memo :: "exactSource \<Rightarrow> exactSource" where
  "clear_memo src = src\<lparr>x_memo := Map.empty\<rparr>"

definition static :: "dimReads \<Rightarrow> dimReads" where
  "static r = r\<lparr>r_rows := map_option clear_memo \<circ> r_rows r, r_related := Map.empty, r_pinned := None, r_data := False\<rparr>"

lemma static_sel [simp]:
  "r_meta (static r) = r_meta r" "r_metricDims (static r) = r_metricDims r" "r_defs (static r) = r_defs r"
  "r_byName (static r) = r_byName r" "r_fetch (static r) = r_fetch r"
  "r_rows (static r) d = map_option clear_memo (r_rows r d)"
  by (simp_all add: static_def)

lemma clear_memo_sel [simp]:
  "x_dims (clear_memo s) = x_dims s" "x_rows (clear_memo s) = x_rows s" "x_eval (clear_memo s) = x_eval s"
  by (simp_all add: clear_memo_def)

lemma at_answer_clear [simp]: "at_answer (map_option clear_memo src) ids nrm = at_answer src ids nrm"
proof (cases src)
  case (Some s)
  have "allLeaves (clear_memo s) = allLeaves s" unfolding allLeaves_def clear_memo_sel ..
  moreover have "on_demand (clear_memo s) = on_demand s" unfolding on_demand_def clear_memo_sel ..
  ultimately show ?thesis using Some by (simp only: at_answer_def option.map option.case clear_memo_sel)
qed (simp add: at_answer_def)

lemma spec_static:
  "source_of (static r) metric = source_of r metric" "relates_any (static r) depID = relates_any r depID"
  "plain_read (static r) depID nrm = plain_read r depID nrm" "spec_read (static r) depID nrm = spec_read r depID nrm"
proof -
  show "source_of (static r) metric = source_of r metric" unfolding source_of_def static_sel ..
  show "relates_any (static r) depID = relates_any r depID" unfolding relates_any_def static_sel ..
  show p: "plain_read (static r) depID nrm = plain_read r depID nrm" unfolding plain_read_def rules_of_def static_sel ..
  show "spec_read (static r) depID nrm = spec_read r depID nrm" unfolding spec_read_def p static_sel at_answer_clear ..
qed

lemma spec_pins_static: "spec_pins (static r) cmb metric depID overrides pins = spec_pins r cmb metric depID overrides pins"
  by (induction overrides arbitrary: pins) (auto simp: spec_static split: sum.split option.split)

lemma spec_resolve_static: "spec_resolve (static r) cmb metric overrides = spec_resolve r cmb metric overrides"
  unfolding spec_resolve_def spec_static spec_pins_static static_sel ..

subsection \<open>What the caches hold\<close>

definition memo_ok :: "exactSource \<Rightarrow> bool" where
  "memo_ok src \<longleftrightarrow> (\<forall>c a. distinct (map fst c) \<longrightarrow> x_memo src (dimKey c) = Some a \<longrightarrow> a = on_demand src c)"

text \<open>The evaluator of a source reads a combination as a map.\<close>

definition eval_ok :: "exactSource \<Rightarrow> bool" where
  "eval_ok src \<longleftrightarrow> (\<forall>ev c c'. x_eval src = Inr ev \<longrightarrow> same_combo c c' \<longrightarrow> ev c = ev c')"

definition nul_free :: "string \<Rightarrow> bool" where
  "nul_free s \<longleftrightarrow> CHR 0x00 \<notin> set s"

text \<open>What a pass is given: sources over distinct dimensions, identifiers and member codes without NUL.\<close>

definition wf_reads :: "dimReads \<Rightarrow> bool" where
  "wf_reads r \<longleftrightarrow>
     (\<forall>d. distinct (r_metricDims r d)) \<and>
     (\<forall>n d. r_byName r n = Some d \<longrightarrow> nul_free d) \<and>
     (\<forall>i code mem. meta_member (r_meta r) i code = Some mem \<longrightarrow> nul_free code) \<and>
     (\<forall>d src. r_rows r d = Some src \<longrightarrow> eval_ok src)"

definition clean_pins :: "combo \<Rightarrow> bool" where
  "clean_pins pins \<longleftrightarrow> distinct (map fst pins) \<and> list_all (\<lambda>(_, c). nul_free c) pins"

definition pinned_ok :: "dimReads \<Rightarrow> bool" where
  "pinned_ok r \<longleftrightarrow>
     (\<forall>p d pins a nrm. r_pinned r = Some p \<longrightarrow> nul_free d \<longrightarrow> clean_pins pins \<longrightarrow>
        pinnedKeyOf d (r_metricDims r d) pins \<noteq> [] \<longrightarrow> p (pinnedKeyOf d (r_metricDims r d) pins) = Some a \<longrightarrow>
        same_combo nrm pins \<longrightarrow> spec_read r d nrm = Inr a)"

definition reads_ok :: "dimReads \<Rightarrow> bool" where
  "reads_ok r \<longleftrightarrow>
     (\<forall>d i v. r_related r (d, i) = Some v \<longrightarrow> v = relates_any r d i) \<and>
     (\<forall>d src. r_rows r d = Some src \<longrightarrow> memo_ok src) \<and> pinned_ok r"

subsection \<open>Combinations as maps\<close>

lemma dimKey_same: "same_combo c c' \<Longrightarrow> dimKey c = dimKey c'"
  unfolding dimKey_marshal json_marshal_ordered ordered_def by (simp add: same_combo_keys reads_same(4))

lemma same_comboD: "distinct (map fst c) \<Longrightarrow> distinct (map fst c') \<Longrightarrow> dimKey c = dimKey c' \<Longrightarrow> same_combo c c'"
  by (simp add: dimKey_marshal json_marshal_ordered ordered_iff same_combo_iff)

lemma on_demand_same: "eval_ok src \<Longrightarrow> same_combo c c' \<Longrightarrow> on_demand src c = on_demand src c'"
  by (auto simp: on_demand_def eval_ok_def split: sum.split)

lemma at_answer_same:
  assumes "\<And>s. src = Some s \<Longrightarrow> eval_ok s" and "same_combo c c'"
  shows "at_answer src ids c = at_answer src ids c'"
proof (cases src)
  case (Some s)
  have "list_all (\<lambda>(i, _). i \<in> set ids) c = list_all (\<lambda>(i, _). i \<in> set ids) c'"
    using assms(2) by (simp add: list_all_iff same_combo_def)
  moreover have "allLeaves s ids c = allLeaves s ids c'" by (simp add: allLeaves_def same_combo_map_of [OF assms(2)])
  ultimately show ?thesis
    using Some on_demand_same [OF assms(1) [OF Some] assms(2)] dimKey_same [OF assms(2)]
    by (simp only: at_answer_def option.case)
qed (simp add: at_answer_def)

lemma plain_read_same: "same_combo c c' \<Longrightarrow> plain_read r d c = plain_read r d c'"
  by (simp add: plain_read_def ResolveTime_def resolveTime_same split: option.split)

lemma spec_read_same: "wf_reads r \<Longrightarrow> same_combo c c' \<Longrightarrow> spec_read r d c = spec_read r d c'"
  using at_answer_same [of "r_rows r d" c c' "r_metricDims r d"] plain_read_same [of c c' r d]
  unfolding spec_read_def wf_reads_def by (cases "at_answer (r_rows r d) (r_metricDims r d) c'") simp_all

lemma NormalizeCombo_distinct:
  assumes "NormalizeCombo dims src cmb overrides = Inr nrm" and "distinct (map fst cmb)"
  shows "distinct (map fst nrm)"
proof -
  have disp: "distinct (map fst (foldl (displace dims src) c ks))" if "distinct (map fst c)" for c ks
    using that by (induction ks arbitrary: c) (simp_all add: displace_def distinct_keys_filter)
  have upd: "distinct (map fst (foldl (\<lambda>pins (i, code). if P i then AList.update i code pins else pins) c os))"
    if "distinct (map fst c)" for P c os
    using that by (induction os arbitrary: c) (auto simp: distinct_update)
  from assms show ?thesis
    by (auto simp: NormalizeCombo_def Let_def split: sum.splits intro!: upd disp distinct_keys_filter)
qed

subsection \<open>The caches are transparent\<close>

lemma at_source_ok:
  assumes "\<And>s. src = Some s \<Longrightarrow> memo_ok s \<and> eval_ok s" and "distinct (map fst nrm)"
  shows "\<exists>src'. at_source src ids nrm = (at_answer src ids nrm, src') \<and>
    map_option clear_memo src' = map_option clear_memo src \<and> (\<forall>s. src' = Some s \<longrightarrow> memo_ok s)"
proof (cases src)
  case (Some s)
  then have ok: "memo_ok s" "eval_ok s" using assms(1) by auto
  let ?key = "dimKey nrm" and ?own = "list_all (\<lambda>(i, _). i \<in> set ids) nrm"
  have new: "memo_ok (s\<lparr>x_memo := (x_memo s)(?key \<mapsto> on_demand s nrm)\<rparr>)"
  proof -
    have "on_demand (s\<lparr>x_memo := mm\<rparr>) = on_demand s" for mm by (rule ext) (simp add: on_demand_def)
    moreover have "on_demand s nrm = on_demand s c" if "distinct (map fst c)" "dimKey c = ?key" for c
      using on_demand_same [OF ok(2)] same_comboD [OF assms(2) that(1)] that(2) by simp
    ultimately show ?thesis using ok(1) by (auto simp: memo_ok_def split: if_splits)
  qed
  have hit: "x_memo s ?key = Some a \<Longrightarrow> a = on_demand s nrm" for a using ok(1) assms(2) by (simp add: memo_ok_def)
  have clear: "clear_memo (s\<lparr>x_memo := mm\<rparr>) = clear_memo s" for mm by (simp add: clear_memo_def)
  show ?thesis
  proof (cases "if ?own then x_rows s ?key else None")
    case row: None
    show ?thesis
    proof (cases "?own \<and> allLeaves s ids nrm")
      case True
      with Some row ok show ?thesis by (simp add: at_source_def at_answer_def)
    next
      case False
      show ?thesis
      proof (cases "x_memo s ?key")
        case None
        with Some row False new clear show ?thesis by (auto simp: at_source_def at_answer_def Let_def)
      next
        case (Some a)
        with \<open>src = Some s\<close> row False ok hit show ?thesis by (auto simp: at_source_def at_answer_def Let_def)
      qed
    qed
  qed (use Some ok in \<open>simp add: at_source_def at_answer_def\<close>)
qed (simp add: at_source_def at_answer_def)

lemma static_eqD:
  assumes "static r' = static r"
  shows "r_meta r' = r_meta r" "r_metricDims r' = r_metricDims r" "source_of r' = source_of r"
    "relates_any r' = relates_any r" "spec_read r' = spec_read r" "spec_pins r' = spec_pins r"
    "spec_resolve r' = spec_resolve r"
proof -
  show "r_meta r' = r_meta r" "r_metricDims r' = r_metricDims r" using assms by (metis static_sel(1), metis static_sel(2))
  show "source_of r' = source_of r" by (rule ext) (metis assms spec_static(1))
  show "relates_any r' = relates_any r" by (rule ext) (metis assms spec_static(2))
  show "spec_read r' = spec_read r" by (intro ext) (metis assms spec_static(4))
  show "spec_pins r' = spec_pins r" by (intro ext) (metis assms spec_pins_static)
  show "spec_resolve r' = spec_resolve r" by (intro ext) (metis assms spec_resolve_static)
qed

lemma wf_static: "wf_reads (static r) \<longleftrightarrow> wf_reads r"
proof -
  have "eval_ok (clear_memo s) \<longleftrightarrow> eval_ok s" for s by (simp add: eval_ok_def)
  then have "(\<forall>d src. r_rows (static r) d = Some src \<longrightarrow> eval_ok src) \<longleftrightarrow> (\<forall>d src. r_rows r d = Some src \<longrightarrow> eval_ok src)"
    unfolding static_sel map_option_eq_Some by blast
  then show ?thesis by (simp add: wf_reads_def)
qed

lemma wf_static_eq: "static r' = static r \<Longrightarrow> wf_reads r \<Longrightarrow> wf_reads r'"
  by (metis wf_static)

lemma pinned_ok_eq:
  assumes "static r' = static r" and "r_pinned r' = r_pinned r" and "pinned_ok r"
  shows "pinned_ok r'"
  using assms(3) unfolding pinned_ok_def static_eqD(2,5) [OF assms(1)] assms(2) .

text \<open>One step of a read: the answer, and that it leaves what the pass knows in order.\<close>

definition kept :: "dimReads \<Rightarrow> dimReads \<Rightarrow> bool" where
  "kept r r' \<longleftrightarrow> static r' = static r \<and> reads_ok r' \<and> r_data r' = r_data r \<and> r_pinned r' = r_pinned r"

lemma read_source_ok:
  assumes "wf_reads r" "reads_ok r" "distinct (map fst nrm)"
  shows "\<exists>r'. read_source r d nrm = (spec_read r d nrm, r') \<and> kept r r'"
proof -
  have "\<And>s. r_rows r d = Some s \<Longrightarrow> memo_ok s \<and> eval_ok s" using assms by (simp add: wf_reads_def reads_ok_def)
  from at_source_ok [OF this assms(3)] obtain src' where
    at: "at_source (r_rows r d) (r_metricDims r d) nrm = (at_answer (r_rows r d) (r_metricDims r d) nrm, src')"
    and clear: "map_option clear_memo src' = map_option clear_memo (r_rows r d)"
    and ok: "\<And>s. src' = Some s \<Longrightarrow> memo_ok s" by blast
  let ?r = "r\<lparr>r_rows := (r_rows r)(d := src')\<rparr>"
  have rd: "read_source r d nrm = (spec_read r d nrm, ?r)"
    unfolding read_source_def at spec_read_def by (simp split: option.split)
  have st: "static ?r = static r" using clear by (auto simp: static_def fun_eq_iff)
  have "reads_ok ?r"
    using assms(2) ok pinned_ok_eq [OF st] static_eqD(4) [OF st] by (auto simp: reads_ok_def split: if_splits)
  with rd st show ?thesis by (auto simp: kept_def)
qed

lemma relates_ok:
  assumes "reads_ok r"
  shows "\<exists>r'. relates r d i = (relates_any r d i, r') \<and> kept r r'"
proof (cases "r_related r (d, i)")
  case None
  let ?r = "r\<lparr>r_related := (r_related r)((d, i) \<mapsto> relates_any r d i)\<rparr>"
  have st: "static ?r = static r" by (simp add: static_def)
  have "reads_ok ?r"
    using assms pinned_ok_eq [OF st] static_eqD(4) [OF st] by (auto simp: reads_ok_def split: if_splits)
  with None st show ?thesis by (auto simp: relates_def kept_def Let_def)
next
  case (Some v)
  with assms show ?thesis by (auto simp: relates_def kept_def reads_ok_def)
qed

lemma kept_trans: "kept r r' \<Longrightarrow> kept r' r'' \<Longrightarrow> kept r r''"
  by (simp add: kept_def)

lemma override_loop_ok:
  assumes "reads_ok r"
  shows "\<exists>r'. override_loop r cmb metric d overrides pins = (spec_pins r cmb metric d overrides pins, r') \<and> kept r r'"
  using assms
proof (induction overrides arbitrary: r pins)
  case Nil
  then show ?case by (simp add: kept_def)
next
  case (Cons o1 overrides)
  obtain dm code where o1: "o1 = (dm, code)" by fastforce
  have self: "kept r r" using Cons.prems by (simp add: kept_def)
  show ?case
  proof (cases "dimID (r_meta r) dm cmb")
    case (Inr i)
    show ?thesis
    proof (cases "override_error (r_meta r) i dm code")
      case None
      obtain r1 where r1: "relates r d i = (relates_any r d i, r1)" "kept r r1" using relates_ok [OF Cons.prems] by blast
      then obtain r2 where "override_loop r1 cmb metric d overrides (AList.update i code pins) =
          (spec_pins r1 cmb metric d overrides (AList.update i code pins), r2)" "kept r1 r2"
        using Cons.IH [of r1] by (auto simp: kept_def)
      with r1 Inr None o1 static_eqD(6) [of r1 r] show ?thesis by (auto simp: kept_def)
    qed (use Inr o1 self in simp)
  qed (use o1 self in simp)
qed

lemma set_update_subset: "set (AList.update k v xs) \<subseteq> insert (k, v) (set xs)"
  by (induction xs) auto

lemma spec_pins_clean:
  assumes "wf_reads r" and "spec_pins r cmb metric d overrides pins = Inr pins'" and "clean_pins pins"
  shows "clean_pins pins'"
  using assms(2,3)
proof (induction overrides arbitrary: pins)
  case (Cons o1 overrides)
  obtain dm code where o1: "o1 = (dm, code)" by fastforce
  from Cons.prems(1) o1 obtain i where i: "override_error (r_meta r) i dm code = None"
    and rest: "spec_pins r cmb metric d overrides (AList.update i code pins) = Inr pins'"
    by (auto split: sum.splits option.splits if_splits)
  from i assms(1) have "nul_free code" by (auto simp: override_error_def wf_reads_def split: if_splits)
  with Cons.prems(2) set_update_subset [of i code pins] have "clean_pins (AList.update i code pins)"
    by (auto simp: clean_pins_def distinct_update list_all_iff)
  with Cons.IH rest show ?case by blast
qed simp

lemma split_nul:
  assumes "nul_free a" "nul_free b" "list_all nul_free xs" "list_all nul_free ys"
    and "a @ concat (map ((#) (CHR 0x00)) xs) = b @ concat (map ((#) (CHR 0x00)) ys)"
  shows "a = b \<and> xs = ys"
  using assms
proof (induction xs arbitrary: a b ys)
  case Nil
  then show ?case by (cases ys) (auto simp: nul_free_def)
next
  case (Cons x xs)
  show ?case
  proof (cases ys)
    case Nil
    with Cons.prems show ?thesis by (auto simp: nul_free_def)
  next
    case ys: (Cons y ys')
    let ?p = "\<lambda>c. c \<noteq> CHR 0x00"
    have tw: "takeWhile ?p (u @ CHR 0x00 # v) = u" if "nul_free u" for u v
      using that by (induction u) (auto simp: nul_free_def)
    have l: "a @ CHR 0x00 # (x @ concat (map ((#) (CHR 0x00)) xs)) = b @ CHR 0x00 # (y @ concat (map ((#) (CHR 0x00)) ys'))"
      using Cons.prems(5) ys by simp
    from arg_cong [OF l, of "takeWhile ?p"] have "a = b" unfolding tw [OF Cons.prems(1)] tw [OF Cons.prems(2)] .
    with l have "x @ concat (map ((#) (CHR 0x00)) xs) = y @ concat (map ((#) (CHR 0x00)) ys')" by simp
    with Cons.IH [of x y ys'] Cons.prems(3,4) ys \<open>a = b\<close> show ?thesis by simp
  qed
qed

lemma pinnedKeyOf_keys:
  assumes "pinnedKeyOf d ids pins \<noteq> []" "clean_pins pins" "distinct ids"
  shows "fst ` set pins = set ids" and "pinnedKeyOf d ids pins = d @ concat (map ((#) (CHR 0x00)) (map (pinned_code pins) ids))"
    and "list_all nul_free (map (pinned_code pins) ids)"
proof -
  from assms(1) have len: "length pins = length ids" and all: "\<And>i. i \<in> set ids \<Longrightarrow> map_of pins i \<noteq> None"
    by (auto simp: pinnedKeyOf_def list_all_iff split: if_splits)
  have sub: "set ids \<subseteq> fst ` set pins" using all by (auto simp: map_of_eq_None_iff)
  moreover have "card (set ids) = card (fst ` set pins)"
    using len assms(2,3) distinct_card [of "map fst pins"] distinct_card [of ids] by (simp add: clean_pins_def)
  ultimately show "fst ` set pins = set ids" by (metis card_subset_eq finite_imageI finite_set)
  show "pinnedKeyOf d ids pins = d @ concat (map ((#) (CHR 0x00)) (map (pinned_code pins) ids))"
    using assms(1) by (auto simp: pinnedKeyOf_def comp_def split: if_splits)
  show "list_all nul_free (map (pinned_code pins) ids)"
    unfolding list_all_iff set_map
  proof safe
    fix i assume "i \<in> set ids"
    with sub have "(i, pinned_code pins i) \<in> set pins" by (intro pinned_code_mem) auto
    with assms(2) show "nul_free (pinned_code pins i)" by (auto simp: clean_pins_def list_all_iff)
  qed
qed

lemma pinnedKeyOf_inj:
  assumes "pinnedKeyOf d (f d) pins = pinnedKeyOf d' (f d') pins'" "pinnedKeyOf d (f d) pins \<noteq> []"
    and "nul_free d" "nul_free d'" "clean_pins pins" "clean_pins pins'" "\<And>d. distinct (f d)"
  shows "d = d' \<and> same_combo pins pins'"
proof -
  note k = pinnedKeyOf_keys [OF assms(2,5,7)]
  have ne: "pinnedKeyOf d' (f d') pins' \<noteq> []" using assms(1,2) by simp
  note k' = pinnedKeyOf_keys [OF ne assms(6,7)]
  from split_nul [OF assms(3,4) k(3) k'(3)] assms(1) k(2) k'(2)
  have eq: "d = d'" "map (pinned_code pins) (f d) = map (pinned_code pins') (f d')" by auto
  have "map_of pins i = map_of pins' i" for i
  proof (cases "i \<in> set (f d)")
    case True
    with eq have "pinned_code pins i = pinned_code pins' i" by simp
    with True eq k(1) k'(1) show ?thesis using pinned_code_map_of [of i pins] pinned_code_map_of [of i pins'] by simp
  next
    case False
    with eq k(1) k'(1) show ?thesis using map_of_eq_None_iff [of pins i] map_of_eq_None_iff [of pins' i] by simp
  qed
  then have "map_of pins = map_of pins'" by blast
  with eq assms(5,6) show ?thesis by (simp add: same_combo_iff clean_pins_def)
qed


text \<open>A pinned read normalises to its pins from every cell.\<close>

lemma pinned_read:
  assumes "wf_reads r" and "clean_pins pins" and "pinnedKeyOf d (r_metricDims r d) pins \<noteq> []" and "distinct (map fst cmb)"
  shows "\<exists>nrm. NormalizeCombo dims (r_metricDims r d) cmb pins = Inr nrm \<and> same_combo nrm pins"
proof -
  have d: "distinct (r_metricDims r d)" using assms(1) by (simp add: wf_reads_def)
  have p: "distinct (map fst pins)" using assms(2) by (simp add: clean_pins_def)
  obtain nrm where n: "NormalizeCombo dims (r_metricDims r d) cmb pins = Inr nrm" "map_of nrm = map_of pins"
    using NormalizeCombo_pinned [OF p d pinnedKeyOf_keys(1) [OF assms(3,2) d], of dims cmb] by blast
  moreover have "distinct (map fst nrm)" using NormalizeCombo_distinct [OF n(1) assms(4)] .
  ultimately show ?thesis using p by (auto simp: same_combo_iff)
qed

definition nonzero :: "FormulaError + f64 \<times> bool \<Rightarrow> bool" where
  "nonzero a = (case a of Inl _ \<Rightarrow> False | Inr (v, found) \<Rightarrow> found \<and> \<not> is_zero v)"

lemma note_data_ok:
  "static (note_data a r) = static r" "reads_ok r \<Longrightarrow> reads_ok (note_data a r)"
  "r_data (note_data a r) \<longleftrightarrow> r_data r \<or> nonzero (Inr a)"
proof -
  show st: "static (note_data a r) = static r" by (simp add: note_data_def static_def)
  show "reads_ok (note_data a r)" if "reads_ok r"
    using that pinned_ok_eq [OF st] static_eqD(4) [OF st] by (auto simp: reads_ok_def note_data_def split: if_splits)
  show "r_data (note_data a r) \<longleftrightarrow> r_data r \<or> nonzero (Inr a)"
    by (cases a) (auto simp: note_data_def nonzero_def)
qed

lemma remember_ok:
  assumes "wf_reads r" "reads_ok r" "nul_free d" "clean_pins pins" "same_combo nrm pins" "spec_read r d nrm = Inr a"
    and "pinnedKeyOf d (r_metricDims r d) pins = key" "key \<noteq> []"
  shows "reads_ok (r\<lparr>r_pinned := map_option (\<lambda>p. p(key \<mapsto> a)) (r_pinned r)\<rparr>)"
proof -
  let ?r = "r\<lparr>r_pinned := map_option (\<lambda>p. p(key \<mapsto> a)) (r_pinned r)\<rparr>"
  have st: "static ?r = static r" by (simp add: static_def)
  have dist: "distinct (r_metricDims r d')" for d' using assms(1) by (simp add: wf_reads_def)
  have "spec_read r d' n' = Inr a'"
    if "r_pinned ?r = Some p'" "nul_free d'" "clean_pins pins'" "pinnedKeyOf d' (r_metricDims r d') pins' \<noteq> []"
      "p' (pinnedKeyOf d' (r_metricDims r d') pins') = Some a'" "same_combo n' pins'" for p' d' pins' a' n'
  proof -
    from that(1) obtain p where p: "r_pinned r = Some p" "p' = p(key \<mapsto> a)" by auto
    show ?thesis
    proof (cases "pinnedKeyOf d' (r_metricDims r d') pins' = key")
      case True
      with pinnedKeyOf_inj [of d' "r_metricDims r" pins' d pins, OF _ that(4,2) assms(3) that(3) assms(4) dist] assms(7)
      have "d' = d" "same_combo pins' pins" by auto
      moreover from this that(6) assms(5) have "same_combo n' nrm" by (simp add: same_combo_def)
      ultimately show ?thesis using spec_read_same [OF assms(1)] assms(6) that(5) p True by auto
    next
      case False
      with that(5) p(2) have "p (pinnedKeyOf d' (r_metricDims r d') pins') = Some a'" by simp
      moreover have "pinned_ok r" using assms(2) by (simp add: reads_ok_def)
      ultimately show ?thesis using that(2,3,4,6) p(1) unfolding pinned_ok_def by blast
    qed
  qed
  then have "pinned_ok ?r" unfolding pinned_ok_def static_eqD(5) [OF st] by simp
  with assms(2) static_eqD(4) [OF st] show ?thesis by (simp add: reads_ok_def)
qed

lemma source_nul_free: "wf_reads r \<Longrightarrow> source_of r metric = Inr d \<Longrightarrow> nul_free d"
  by (auto simp: source_of_def wf_reads_def split: option.splits if_splits)

text \<open>The state after a read: in order, and \<open>data\<close> set exactly when the answer is recorded and not zero.\<close>

definition read_kept :: "dimReads \<Rightarrow> FormulaError + f64 \<times> bool \<Rightarrow> dimReads \<Rightarrow> bool" where
  "read_kept r a r' \<longleftrightarrow> static r' = static r \<and> reads_ok r' \<and> (r_data r' \<longleftrightarrow> r_data r \<or> nonzero a)"

lemma read_kept_error: "kept r r' \<Longrightarrow> read_kept r (Inl e) r'"
  by (simp add: kept_def read_kept_def nonzero_def)

lemma read_uncached_ok:
  assumes "wf_reads r" "reads_ok r" "distinct (map fst cmb)" "nul_free d" "clean_pins pins"
    and key: "key = [] \<or> key = pinnedKeyOf d (r_metricDims r d) pins"
  shows "\<exists>r'. read_uncached r cmb metric d pins key =
      (case NormalizeCombo (md_dims (r_meta r)) (r_metricDims r d) cmb pins of
         Inl e \<Rightarrow> Inl (conflict_error metric e)
       | Inr nrm \<Rightarrow> (case spec_read r d nrm of Inl e \<Rightarrow> Inl (reading_error metric e) | Inr a \<Rightarrow> Inr a), r') \<and>
    read_kept r (fst (read_uncached r cmb metric d pins key)) r'"
proof (cases "NormalizeCombo (md_dims (r_meta r)) (r_metricDims r d) cmb pins")
  case (Inl e)
  with assms(2) show ?thesis by (simp add: read_uncached_def read_kept_def nonzero_def)
next
  case (Inr nrm)
  then have dn: "distinct (map fst nrm)" using NormalizeCombo_distinct assms(3) by blast
  obtain r' where r': "read_source r d nrm = (spec_read r d nrm, r')" "kept r r'"
    using read_source_ok [OF assms(1,2) dn] by blast
  show ?thesis
  proof (cases "spec_read r d nrm")
    case (Inl e)
    with Inr r' show ?thesis by (auto simp: read_uncached_def intro: read_kept_error)
  next
    case a: (Inr a)
    have st: "static r' = static r" and ok: "reads_ok r'" and wf: "wf_reads r'" and dat: "r_data r' = r_data r"
      using r'(2) wf_static_eq assms(1) by (auto simp: kept_def)
    let ?r = "if key = [] then r' else r'\<lparr>r_pinned := map_option (\<lambda>p. p(key \<mapsto> a)) (r_pinned r')\<rparr>"
    have "reads_ok ?r"
    proof (cases "key = []")
      case False
      with key have k: "pinnedKeyOf d (r_metricDims r' d) pins = key" "pinnedKeyOf d (r_metricDims r d) pins \<noteq> []"
        using static_eqD(2) [OF st] by auto
      have "same_combo nrm pins" using pinned_read [OF assms(1,5) k(2) assms(3), of "md_dims (r_meta r)"] Inr by auto
      with remember_ok [OF wf ok assms(4,5) _ _ k(1) False] a static_eqD(5) [OF st] False show ?thesis by simp
    qed (use ok in simp)
    moreover have "static ?r = static r" "r_data ?r = r_data r" using st dat by (auto simp: static_def)
    ultimately have "read_kept r (Inr a) (note_data a ?r)" by (simp add: read_kept_def note_data_ok del: if_split)
    with Inr a r'(1) show ?thesis by (simp add: read_uncached_def Let_def del: if_split)
  qed
qed

lemma dim_resolve_ok:
  assumes "wf_reads r" "reads_ok r" "distinct (map fst cmb)"
  shows "\<exists>r'. dim_resolve r cmb metric overrides = (spec_resolve r cmb metric overrides, r') \<and>
    read_kept r (spec_resolve r cmb metric overrides) r'"
proof (cases "source_of r metric")
  case (Inl e)
  with assms(2) show ?thesis by (simp add: dim_resolve_def spec_resolve_def read_kept_def nonzero_def)
next
  case (Inr d)
  obtain r1 where r1: "override_loop r cmb metric d overrides [] = (spec_pins r cmb metric d overrides [], r1)" "kept r r1"
    using override_loop_ok [OF assms(2)] by blast
  then have st: "static r1 = static r" and ok: "reads_ok r1" and wf: "wf_reads r1" and dat: "r_data r1 = r_data r"
    using wf_static_eq assms(1) by (auto simp: kept_def)
  note same = static_eqD [OF st]
  have nd: "nul_free d" using source_nul_free [OF assms(1) Inr] .
  show ?thesis
  proof (cases "spec_pins r cmb metric d overrides []")
    case (Inl e)
    with Inr r1 show ?thesis by (simp add: dim_resolve_def spec_resolve_def read_kept_error)
  next
    case pins: (Inr pins)
    have clean: "clean_pins pins" using spec_pins_clean [OF assms(1) pins] by (simp add: clean_pins_def)
    let ?key = "if r_pinned r1 = None then [] else pinnedKeyOf d (r_metricDims r1 d) pins"
    let ?hit = "if ?key = [] then None else Option.bind (r_pinned r1) (\<lambda>p. p ?key)"
    have step: "dim_resolve r cmb metric overrides =
        (case ?hit of Some a \<Rightarrow> (Inr a, note_data a r1) | None \<Rightarrow> read_uncached r1 cmb metric d pins ?key)"
      unfolding dim_resolve_def Inr sum.case r1(1) pins prod.case Let_def ..
    show ?thesis
    proof (cases ?hit)
      case None
      have "?key = [] \<or> ?key = pinnedKeyOf d (r_metricDims r1 d) pins" by simp
      from read_uncached_ok [OF wf ok assms(3) nd clean this, of metric] obtain r' where
        r': "read_uncached r1 cmb metric d pins ?key = (spec_resolve r cmb metric overrides, r')"
          "read_kept r1 (spec_resolve r cmb metric overrides) r'"
        unfolding spec_resolve_def Inr sum.case pins same by (metis fst_conv)
      with step None st dat show ?thesis by (simp add: read_kept_def)
    next
      case (Some a)
      then obtain p where p: "r_pinned r1 = Some p" "?key \<noteq> []" "p ?key = Some a" by (auto split: if_splits option.splits simp: bind_eq_Some_conv)
      then have key: "?key = pinnedKeyOf d (r_metricDims r d) pins" using same(2) by simp
      obtain nrm where n: "NormalizeCombo (md_dims (r_meta r)) (r_metricDims r d) cmb pins = Inr nrm" "same_combo nrm pins"
        using pinned_read [OF assms(1) clean _ assms(3)] p(2) key by metis
      have "spec_read r1 d nrm = Inr a"
      proof -
        have "pinned_ok r1" using ok by (simp add: reads_ok_def)
        moreover have "pinnedKeyOf d (r_metricDims r1 d) pins \<noteq> []" "p (pinnedKeyOf d (r_metricDims r1 d) pins) = Some a"
          using p by auto
        ultimately show ?thesis using p(1) nd clean n(2) unfolding pinned_ok_def by blast
      qed
      then have "spec_resolve r cmb metric overrides = Inr a" using Inr pins n(1) same(5) by (simp add: spec_resolve_def)
      moreover have "read_kept r (Inr a) (note_data a r1)" using st ok dat by (simp add: read_kept_def note_data_ok)
      ultimately show ?thesis using step Some by simp
    qed
  qed
qed

fun run_reads :: "dimReads \<Rightarrow> (combo \<times> string \<times> (string \<times> string) list) list \<Rightarrow>
    (FormulaError + f64 \<times> bool) list \<times> dimReads" where
  "run_reads r [] = ([], r)"
| "run_reads r ((cmb, metric, overrides) # qs) =
     (case dim_resolve r cmb metric overrides of
        (a, r') \<Rightarrow> (case run_reads r' qs of (as, r'') \<Rightarrow> (a # as, r'')))"

lemma new_reads_ok:
  assumes "\<forall>d src. rows d = Some src \<longrightarrow> x_memo src = Map.empty"
  shows "reads_ok (newDimReads meta def allDefs metricDimIDs fetch rows memo)"
    and "\<not> r_data (newDimReads meta def allDefs metricDimIDs fetch rows memo)"
proof -
  have "r_rows r' = r_rows r \<and> r_related r' = r_related r \<and> r_pinned r' = r_pinned r \<and> r_data r' = r_data r"
    if "r' = foldl (add_dependency allDefs) r ids" for r r' ids
    using that by (induction ids arbitrary: r r') (auto simp: add_dependency_def Let_def split: option.splits)
  from this [OF newDimReads_def]
  have f: "r_rows (newDimReads meta def allDefs metricDimIDs fetch rows memo) = rows"
    "r_related (newDimReads meta def allDefs metricDimIDs fetch rows memo) = Map.empty"
    "r_pinned (newDimReads meta def allDefs metricDimIDs fetch rows memo) = (if memo then Some Map.empty else None)"
    "\<not> r_data (newDimReads meta def allDefs metricDimIDs fetch rows memo)" by simp_all
  then show "reads_ok (newDimReads meta def allDefs metricDimIDs fetch rows memo)"
    using assms by (auto simp: reads_ok_def pinned_ok_def memo_ok_def)
  show "\<not> r_data (newDimReads meta def allDefs metricDimIDs fetch rows memo)" by (rule f(4))
qed

lemma run_reads_ok:
  assumes "wf_reads r" "reads_ok r" "list_all (\<lambda>(cmb, _). distinct (map fst cmb)) qs"
  shows "fst (run_reads r qs) = map (\<lambda>(cmb, metric, overrides). spec_resolve r cmb metric overrides) qs \<and>
    (r_data (snd (run_reads r qs)) \<longleftrightarrow> r_data r \<or> list_ex nonzero (fst (run_reads r qs)))"
  using assms
proof (induction qs arbitrary: r)
  case (Cons q qs)
  obtain cmb metric overrides where q: "q = (cmb, metric, overrides)" by (cases q)
  with Cons.prems obtain r' where r': "dim_resolve r cmb metric overrides = (spec_resolve r cmb metric overrides, r')"
    "read_kept r (spec_resolve r cmb metric overrides) r'" using dim_resolve_ok [of r cmb] by auto
  then have st: "static r' = static r" "reads_ok r'" "wf_reads r'" using Cons.prems(1) wf_static_eq by (auto simp: read_kept_def)
  from Cons.IH [OF st(3,2)] Cons.prems(3) q r' static_eqD(7) [OF st(1)] show ?case
    by (auto simp: read_kept_def split: prod.split)
qed simp

text \<open>
  C26 The caches of a pass are transparent: whatever reads LOOKUP and the conditional aggregations
  make, in whatever order and from whatever cells, each answers what a read without the
  relation cache, the pinned-read cache and the on-demand memo answers; and afterwards \<open>data\<close> is
  set exactly when some read answered a recorded non-zero value. Identifiers and member codes hold
  no NUL, and a source evaluated on demand reads its combination as a map.
\<close>

theorem reads_transparent:
  assumes "r = newDimReads meta def allDefs metricDimIDs fetch rows memo" and "wf_reads r"
    and "\<forall>d src. rows d = Some src \<longrightarrow> x_memo src = Map.empty"
    and "list_all (\<lambda>(cmb, _). distinct (map fst cmb)) qs"
  shows "fst (run_reads r qs) = map (\<lambda>(cmb, metric, overrides). spec_resolve r cmb metric overrides) qs \<and>
    (r_data (snd (run_reads r qs)) \<longleftrightarrow> list_ex nonzero (fst (run_reads r qs)))"
  using run_reads_ok [OF assms(2) _ assms(4)] new_reads_ok [OF assms(3)] unfolding assms(1) by auto

definition demo_def :: MetricDef where
  "demo_def = \<lparr>f_ID = ''m1'', f_Name = ''Sales'', f_Formula = [], f_IsInput = True, f_AggRule = ''sum'',
     f_DependsOnID = [''m1''], f_AggNumeratorID = [], f_AggDenominatorID = [], f_TimeSummary = ''sum'', f_DependsOn = [], f_PicklistDimID = [], f_Text = False\<rparr>"

definition demo_meta :: DimMetadata where
  "demo_meta = NewDimMetadata [''region'' \<mapsto> demo_region] [(''region'', ''Region'')] None"

definition demo_reads :: dimReads where
  "demo_reads = newDimReads demo_meta demo_def [''m1'' \<mapsto> demo_def]
     (\<lambda>d. if d = ''m1'' then [''region''] else []) [''m1'' \<mapsto> mapFetch [dimKey [(''region'', ''EMEA'')] \<mapsto> Fin 7]] Map.empty True"

lemma demo_members: "meta_member demo_meta i code = Some mem \<Longrightarrow> code \<in> {''World'', ''EMEA'', ''APAC''}"
  by (auto simp: demo_meta_def NewDimMetadata_def meta_member_def index_codes_def demo_region_def Let_def split: if_splits)

lemma demo_reads_sel: "r_meta demo_reads = demo_meta" "r_byName demo_reads = [''SALES'' \<mapsto> ''m1'']" "r_rows demo_reads = Map.empty"
  "r_metricDims demo_reads = (\<lambda>d. if d = ''m1'' then [''region''] else [])"
proof -
  have "ToUpper ''Sales'' = ''SALES''" by code_simp
  then show "r_meta demo_reads = demo_meta" "r_byName demo_reads = [''SALES'' \<mapsto> ''m1'']" "r_rows demo_reads = Map.empty"
    "r_metricDims demo_reads = (\<lambda>d. if d = ''m1'' then [''region''] else [])"
    by (simp_all add: demo_reads_def newDimReads_def demo_def_def add_dependency_def Let_def)
qed

lemma demo_reads_wf: "wf_reads demo_reads"
  unfolding wf_reads_def demo_reads_sel
  by (auto simp: nul_free_def dest: demo_members split: if_splits)


theorem reads_transparent_witness:
  "fst (run_reads demo_reads [([], ''sales'', [(''Region'', ''EMEA'')]), ([(''x'', ''y'')], ''sales'', [(''Region'', ''EMEA'')])]) =
   [spec_resolve demo_reads [] ''sales'' [(''Region'', ''EMEA'')], spec_resolve demo_reads [(''x'', ''y'')] ''sales'' [(''Region'', ''EMEA'')]]"
  using reads_transparent [OF demo_reads_def demo_reads_wf,
    of "[([], ''sales'', [(''Region'', ''EMEA'')]), ([(''x'', ''y'')], ''sales'', [(''Region'', ''EMEA'')])]"]
  by simp

subsection \<open>Which dimension a name means\<close>

lemma group_names_filter:
  "group_names names key = map fst (filter (\<lambda>(_, name). ToUpper name = key) names)"
proof -
  have "foldl (\<lambda>m (i, name). m(ToUpper name := m (ToUpper name) @ [i])) m names key =
      m key @ map fst (filter (\<lambda>(_, name). ToUpper name = key) names)" for m
    by (induction names arbitrary: m) auto
  then show ?thesis by (simp add: group_names_def)
qed

lemma sorted_hd_least: "sorted (map f xs) \<Longrightarrow> xs \<noteq> [] \<Longrightarrow> x \<in> set xs \<Longrightarrow> f (hd xs) \<le> f x"
  by (cases xs) auto

lemma find_least:
  assumes "sorted (map f xs)" and "List.find P xs = Some i" and "j \<in> set xs" and "P j"
  shows "f i \<le> f j"
  using assms
proof (induction xs)
  case (Cons x xs)
  then show ?case by (cases "P x") auto
qed simp

definition named :: "(string \<times> string) list \<Rightarrow> string \<Rightarrow> string set" where
  "named names name = {i. \<exists>n. (i, n) \<in> set names \<and> ToUpper n = ToUpper name}"

text \<open>The order of preference: pinned in the cell, owned by the revision, the lower ID.\<close>

definition preference :: "combo \<Rightarrow> string list \<Rightarrow> string \<Rightarrow> bool \<times> bool \<times> string" where
  "preference cmb owned i = (map_of cmb i = None, i \<notin> set owned, i)"

definition owned_rows :: "DimensionSchema option \<Rightarrow> string list" where
  "owned_rows schema = (case schema of None \<Rightarrow> [] | Some s \<Rightarrow> s_RevisionOwned s)"

lemma preference_inj: "preference cmb owned i = preference cmb owned j \<Longrightarrow> i = j"
  by (simp add: preference_def)

lemma dimID_least:
  assumes "ids = prefer_owned owned cands" and "md_byName m (ToUpper name) = ids" and "cands \<noteq> []"
  shows "\<exists>i \<in> set cands. dimID m name cmb = Inr i \<and> (\<forall>j \<in> set cands. preference cmb owned i \<le> preference cmb owned j)"
proof -
  let ?key = "\<lambda>i. (i \<notin> set owned, i)"
  have set: "set ids = set cands" and srt: "sorted (map ?key ids)" using assms(1) by (simp_all add: prefer_owned_def)
  have ne: "ids \<noteq> []" using set assms(3) by auto
  show ?thesis
  proof (cases "List.find (\<lambda>i. map_of cmb i \<noteq> None) ids")
    case None
    then have np: "map_of cmb j = None" if "j \<in> set cands" for j using that set by (auto simp: find_None_iff)
    have "dimID m name cmb = Inr (hd ids)"
      using assms(2) ne None by (auto simp: dimID_def split: list.split)
    moreover have "preference cmb owned (hd ids) \<le> preference cmb owned j" if "j \<in> set cands" for j
      using sorted_hd_least [OF srt ne, of j] that np set ne by (simp add: preference_def)
    ultimately show ?thesis using set ne by (metis list.set_sel(1))
  next
    case (Some i)
    then have i: "i \<in> set cands" "map_of cmb i \<noteq> None" using set by (auto simp: find_Some_iff)
    have "dimID m name cmb = Inr i"
      using assms(2) ne Some by (auto simp: dimID_def split: list.split if_splits)
    moreover have "preference cmb owned i \<le> preference cmb owned j" if "j \<in> set cands" for j
      using find_least [OF srt Some, of j] that i set by (cases "map_of cmb j = None") (auto simp: preference_def)
    ultimately show ?thesis using i(1) by blast
  qed
qed

text \<open>
  A dimension name in a formula means one row, whatever order the maps of the revision are
  iterated in: of the rows with that name, compared without case, the least in the order pinned in
  the cell first, then owned by the revision, then lower ID; with no such row it is an error.
\<close>

theorem dimID_choice:
  "dimID (NewDimMetadata dims names schema) name cmb = Inr i \<longleftrightarrow>
     i \<in> named names name \<and>
     (\<forall>j \<in> named names name. preference cmb (owned_rows schema) i \<le> preference cmb (owned_rows schema) j)"
proof -
  let ?cands = "group_names names (ToUpper name)" and ?m = "NewDimMetadata dims names schema"
  have set: "set ?cands = named names name" by (force simp: group_names_filter named_def)
  have rows: "md_byName ?m (ToUpper name) = prefer_owned (owned_rows schema) ?cands"
    by (simp add: NewDimMetadata_def owned_rows_def Let_def)
  show ?thesis
  proof (cases "?cands = []")
    case True
    with set rows show ?thesis by (simp add: dimID_def prefer_owned_def)
  next
    case False
    obtain k where k: "k \<in> named names name" "dimID ?m name cmb = Inr k"
      "\<And>j. j \<in> named names name \<Longrightarrow> preference cmb (owned_rows schema) k \<le> preference cmb (owned_rows schema) j"
      using dimID_least [OF refl rows False, of cmb] set by auto
    then show ?thesis using preference_inj antisym by (metis sum.inject(2))
  qed
qed

theorem dimID_choice_witness:
  "dimID (NewDimMetadata Map.empty [(''d2'', ''region''), (''d1'', ''Region'')] None) ''REGION'' [(''d2'', ''EMEA'')] = Inr ''d2''"
proof -
  have up: "ToUpper ''region'' = ''REGION''" "ToUpper ''Region'' = ''REGION''" "ToUpper ''REGION'' = ''REGION''" by code_simp+
  have "named [(''d2'', ''region''), (''d1'', ''Region'')] ''REGION'' = {''d1'', ''d2''}" by (auto simp: named_def up)
  then show ?thesis unfolding dimID_choice by (simp add: preference_def)
qed

subsection \<open>The caches of the metadata\<close>

text \<open>The metadata as it is used: built, described, then read in any order.\<close>

inductive meta_reach :: "DimMetadata \<Rightarrow> bool" where
  built: "meta_reach (NewDimMetadata dims names schema)"
| described: "meta_reach m \<Longrightarrow> meta_reach (SetMetric name dimIDs picklistDimID m)"
| leaves_read: "meta_reach m \<Longrightarrow> meta_reach (snd (leafMembers m i))"
| picklist_read: "meta_reach m \<Longrightarrow> meta_reach (snd (meta_Picklist m name))"

definition meta_ok :: "DimMetadata \<Rightarrow> bool" where
  "meta_ok m \<longleftrightarrow> (\<forall>i ls. md_leaves m i = Some ls \<longrightarrow> ls = build_leaves m i) \<and> (\<forall>i c. md_codecs m i = Some c \<longrightarrow> c = build_codec m i)"

lemma build_indep [simp]:
  "build_leaves (m\<lparr>md_metrics := x\<rparr>) = build_leaves m" "build_codec (m\<lparr>md_metrics := x\<rparr>) = build_codec m"
  "build_leaves (m\<lparr>md_leaves := y\<rparr>) = build_leaves m" "build_codec (m\<lparr>md_leaves := y\<rparr>) = build_codec m"
  "build_leaves (m\<lparr>md_codecs := z\<rparr>) = build_leaves m" "build_codec (m\<lparr>md_codecs := z\<rparr>) = build_codec m"
  by (intro ext; simp add: build_leaves_def build_codec_def leaf_member_def meta_member_def split: option.split)+

lemma meta_reach_ok: "meta_reach m \<Longrightarrow> meta_ok m"
proof (induction rule: meta_reach.induct)
  case (built dims names schema)
  then show ?case by (simp add: meta_ok_def NewDimMetadata_def Let_def)
next
  case (described m name dimIDs picklistDimID)
  then show ?case by (simp add: meta_ok_def SetMetric_def)
next
  case (leaves_read m i)
  then show ?case by (auto simp: meta_ok_def leafMembers_def Let_def split: option.split)
next
  case (picklist_read m name)
  then show ?case by (auto simp: meta_ok_def meta_Picklist_def Let_def split: option.split)
qed

text \<open>
  The metadata answers the same however often and in whatever order it is read: the leaves of a
  dimension and the codec of a pick-list are those its members and declarations give, cached or not.
\<close>

theorem metadata_caches:
  assumes "meta_reach m"
  shows "fst (leafMembers m i) = build_leaves m i \<and>
    fst (meta_Picklist m name) =
      (if PicklistDimension m name = [] then None else Some (build_codec m (PicklistDimension m name)))"
  using meta_reach_ok [OF assms]
  by (auto simp: meta_ok_def leafMembers_def meta_Picklist_def Let_def split: option.split)

theorem metadata_caches_witness:
  "fst (leafMembers (snd (leafMembers demo_meta ''region'')) ''region'') = build_leaves demo_meta ''region''"
proof -
  have "meta_reach (snd (leafMembers demo_meta ''region''))" unfolding demo_meta_def by (intro meta_reach.intros)
  from metadata_caches [OF this, of "''region''"] show ?thesis
    by (simp add: leafMembers_def Let_def split: option.splits)
qed

text \<open>A read over prefetched values answers whenever there is a coordinate under it.\<close>

lemma prefetched_read_answers:
  assumes "ids \<noteq> []" and "leaf_reads dims ids n c = Some L" and "L \<noteq> []"
  shows "\<exists>v ok. fst (fst (resolve dims (mapFetch vm) metricID ids rule [] n c s)) = Inr (v, ok)"
proof -
  obtain a k where r: "resolve dims (mapFetch vm) metricID ids rule [] n c s = ((a, k), after (mapFetch vm) metricID L s)"
    and e: "\<And>e. a = Inl e \<Longrightarrow> set (answers (mapFetch vm) metricID L s) \<subseteq> {Inl ErrNoValue}"
    using value_map.reads_allD [OF value_map.resolve_reads [OF assms(1,2), where i = metricID and rule = rule] TrueI] by metis
  obtain c' L' where L: "L = c' # L'" using assms(3) by (cases L) auto
  show ?thesis
  proof (cases a)
    case (Inl e1)
    from e [OF this] L show ?thesis by (simp add: mapFetch_def split: option.splits prod.splits)
  qed (use r in auto)
qed

end
