(* ===== verification/PassQueue.thy ===== *)
theory PassQueue
  imports DimContext
begin

text \<open>
  The queue of recalculation passes of one revision (\<open>internal/calculation/queue.go\<close>,
  \<open>passRequest\<close> in \<open>scheduler.go\<close>).

  A step is one critical section of the queue's mutex. \<open>turn\<close> is the body of the loop of
  \<open>runRequest\<close>, from taking the lock to giving it up: it answers, waits on the condition variable, or
  takes what is pending and runs a pass outside the lock. A pass ends with an error or none, or
  panics; \<open>runPass\<close> then records it finished and wakes every waiter (Go's \<open>Wait\<close> returns only after a
  broadcast). \<open>log\<close> is what happened, in order; no step reads it. The numbers of passes are counted
  up one by one, so they are natural numbers here where the code has 64 bits.
\<close>

subsection \<open>Requests and the queue\<close>

record ChangedCell =
  cc_MetricID :: string
  cc_Combo :: combo

record passRequest =
  pr_ids :: "string list"
  pr_cells :: "ChangedCell list"
  pr_forced :: "string list option"

definition forcedID :: "passRequest \<Rightarrow> string \<Rightarrow> bool" where
  "forcedID r i = (case pr_forced r of Some fs \<Rightarrow> i \<in> set fs | None \<Rightarrow> pr_cells r = [])"

record passQueue =
  pq_running :: bool
  pq_pending :: "string list"
  pq_forced :: "string list"
  pq_cells :: "ChangedCell list"
  pq_next :: nat
  pq_done :: nat
  pq_failed :: "nat \<rightharpoonup> string"

definition new_queue :: passQueue where
  "new_queue = \<lparr>pq_running = False, pq_pending = [], pq_forced = [], pq_cells = [], pq_next = 1, pq_done = 0, pq_failed = Map.empty\<rparr>"

definition enqueue :: "passRequest \<Rightarrow> passQueue \<Rightarrow> passQueue" where
  "enqueue req q = q\<lparr>pq_pending := fold List.insert (pr_ids req) (pq_pending q),
     pq_forced := (if pr_cells req = [] then fold List.insert (pr_ids req) (pq_forced q) else pq_forced q),
     pq_cells := pq_cells q @ pr_cells req\<rparr>"

datatype turn_result = Answer "string option" | Wait | RunPass nat passRequest

definition turn :: "nat \<Rightarrow> passQueue \<Rightarrow> turn_result \<times> passQueue" where
  "turn mine q =
     (if \<not> pq_done q < mine then (Answer (pq_failed q mine), q)
      else if pq_running q then (Wait, q)
      else (RunPass (pq_next q) \<lparr>pr_ids = sort (pq_pending q), pr_cells = pq_cells q, pr_forced = Some (pq_forced q)\<rparr>,
            q\<lparr>pq_running := True, pq_pending := [], pq_forced := [], pq_cells := [], pq_next := pq_next q + 1\<rparr>))"

definition pass_ended :: "nat \<Rightarrow> string option \<Rightarrow> passQueue \<Rightarrow> passQueue" where
  "pass_ended gen err q =
     q\<lparr>pq_failed := (\<lambda>g. if g + 64 < gen then None else ((pq_failed q)(gen := (case err of None \<Rightarrow> pq_failed q gen | Some e \<Rightarrow> Some e))) g),
       pq_done := gen, pq_running := False\<rparr>"

subsection \<open>Callers\<close>

datatype outcome = Ended "string option" | Panicked

fun err_of :: "outcome \<Rightarrow> string option" where
  "err_of (Ended e) = e"
| "err_of Panicked = None"

datatype phase =
    Called passRequest
  | Waiting passRequest nat
  | Ready passRequest nat
  | Passing passRequest nat nat
  | Returned
  | Gone

datatype event =
    Asked nat passRequest
  | Began nat passRequest
  | Finished nat outcome
  | Answered nat "string option"

record sys =
  s_queue :: passQueue
  s_phase :: "nat \<Rightarrow> phase"
  s_log :: "event list"

fun after_turn :: "nat \<Rightarrow> passRequest \<Rightarrow> nat \<Rightarrow> turn_result \<Rightarrow> phase \<times> event list" where
  "after_turn c req mine (Answer err) = (Returned, [Answered c err])"
| "after_turn c req mine Wait = (Waiting req mine, [])"
| "after_turn c req mine (RunPass gen merged) = (Passing req mine gen, [Began gen merged])"

definition take_turn :: "nat \<Rightarrow> passRequest \<Rightarrow> nat \<Rightarrow> passQueue \<Rightarrow> event list \<Rightarrow> sys \<Rightarrow> sys" where
  "take_turn c req mine q evs s =
     (case turn mine q of (t, q') \<Rightarrow>
        (case after_turn c req mine t of (p, evs') \<Rightarrow>
           \<lparr>s_queue = q', s_phase = (s_phase s)(c := p), s_log = s_log s @ evs @ evs'\<rparr>))"

fun woken :: "phase \<Rightarrow> phase" where
  "woken (Waiting req mine) = Ready req mine"
| "woken p = p"

inductive step :: "sys \<Rightarrow> sys \<Rightarrow> bool" where
  ask: "s_phase s c = Called req \<Longrightarrow>
    step s (take_turn c req (pq_next (s_queue s)) (enqueue req (s_queue s)) [Asked c req] s)"
| resume: "s_phase s c = Ready req mine \<Longrightarrow> step s (take_turn c req mine (s_queue s) [] s)"
| finish: "s_phase s c = Passing req mine gen \<Longrightarrow>
    step s \<lparr>s_queue = pass_ended gen (err_of r) (s_queue s),
            s_phase = (woken \<circ> s_phase s)(c := (case r of Panicked \<Rightarrow> Gone | Ended _ \<Rightarrow> Ready req mine)),
            s_log = s_log s @ [Finished gen r]\<rparr>"

definition initial :: "(nat \<Rightarrow> phase) \<Rightarrow> sys \<Rightarrow> bool" where
  "initial ps s \<longleftrightarrow> s = \<lparr>s_queue = new_queue, s_phase = ps, s_log = []\<rparr> \<and> (\<forall>c. (\<exists>req. ps c = Called req) \<or> ps c = Returned)"

inductive reachable :: "sys \<Rightarrow> bool" where
  start: "initial ps s \<Longrightarrow> reachable s"
| continue: "reachable s \<Longrightarrow> step s s' \<Longrightarrow> reachable s'"

inductive_cases step_cases: "step s s'"

definition covers :: "passRequest \<Rightarrow> passRequest \<Rightarrow> bool" where
  "covers merged req \<longleftrightarrow> set (pr_ids req) \<subseteq> set (pr_ids merged) \<and> set (pr_cells req) \<subseteq> set (pr_cells merged) \<and>
     (pr_cells req = [] \<longrightarrow> (\<forall>i \<in> set (pr_ids req). forcedID merged i))"

definition queued :: "passQueue \<Rightarrow> passRequest \<Rightarrow> bool" where
  "queued q req \<longleftrightarrow> set (pr_ids req) \<subseteq> set (pq_pending q) \<and> set (pr_cells req) \<subseteq> set (pq_cells q) \<and>
     (pr_cells req = [] \<longrightarrow> set (pr_ids req) \<subseteq> set (pq_forced q))"

definition began :: "event list \<Rightarrow> nat \<Rightarrow> passRequest \<Rightarrow> nat \<Rightarrow> passRequest \<Rightarrow> bool" where
  "began evs c req g merged \<longleftrightarrow> (\<exists>l1 l2 l3. evs = l1 @ Asked c req # l2 @ Began g merged # l3)"

definition finished :: "event list \<Rightarrow> nat \<Rightarrow> passRequest \<Rightarrow> nat \<Rightarrow> passRequest \<Rightarrow> outcome \<Rightarrow> bool" where
  "finished evs c req g merged r \<longleftrightarrow>
     (\<exists>l1 l2 l3 l4. evs = l1 @ Asked c req # l2 @ Began g merged # l3 @ Finished g r # l4)"

definition answered_ok :: "event list \<Rightarrow> nat \<Rightarrow> string option \<Rightarrow> bool" where
  "answered_ok evs c err \<longleftrightarrow> (\<exists>req g merged r l1 l2.
     evs = l1 @ Answered c err # l2 \<and> finished l1 c req g merged r \<and> covers merged req \<and>
     (err = err_of r \<or> err = None \<and> (\<exists>g' r'. Finished g' r' \<in> set l1 \<and> g + 64 < g')))"

definition waiting_ok :: "sys \<Rightarrow> nat \<Rightarrow> passRequest \<Rightarrow> nat \<Rightarrow> bool" where
  "waiting_ok s c req mine \<longleftrightarrow> mine \<le> pq_next (s_queue s) \<and>
     (if mine = pq_next (s_queue s) then queued (s_queue s) req \<and> Asked c req \<in> set (s_log s)
      else \<exists>merged. covers merged req \<and>
        (if mine \<le> pq_done (s_queue s) then \<exists>r. finished (s_log s) c req mine merged r else began (s_log s) c req mine merged))"

definition queue_inv :: "sys \<Rightarrow> bool" where
  "queue_inv s \<longleftrightarrow>
     pq_next (s_queue s) = pq_done (s_queue s) + (if pq_running (s_queue s) then 2 else 1) \<and>
     (pq_running (s_queue s) \<longrightarrow> (\<exists>c req mine gen. s_phase s c = Passing req mine gen)) \<and>
     (\<forall>c req mine gen. s_phase s c = Passing req mine gen \<longrightarrow>
        pq_running (s_queue s) \<and> mine = gen \<and> gen = pq_done (s_queue s) + 1 \<and>
        (\<forall>d. (\<exists>r m g. s_phase s d = Passing r m g) \<longrightarrow> d = c) \<and> (\<exists>merged. covers merged req \<and> began (s_log s) c req gen merged)) \<and>
     (\<forall>c req mine. s_phase s c = Waiting req mine \<longrightarrow> pq_running (s_queue s) \<and> pq_done (s_queue s) < mine \<and> waiting_ok s c req mine) \<and>
     (\<forall>c req mine. s_phase s c = Ready req mine \<longrightarrow> waiting_ok s c req mine) \<and>
     (\<forall>g. pq_done (s_queue s) < g \<longrightarrow> pq_failed (s_queue s) g = None) \<and>
     (\<forall>g r. Finished g r \<in> set (s_log s) \<longrightarrow> g \<le> pq_done (s_queue s) \<and>
        (pq_failed (s_queue s) g = err_of r \<or> pq_failed (s_queue s) g = None \<and> g + 64 < pq_done (s_queue s))) \<and>
     (0 < pq_done (s_queue s) \<longrightarrow> (\<exists>r. Finished (pq_done (s_queue s)) r \<in> set (s_log s))) \<and>
     (\<forall>c err. Answered c err \<in> set (s_log s) \<longrightarrow> answered_ok (s_log s) c err)"

lemma queue_invI:
  assumes "pq_next (s_queue s) = pq_done (s_queue s) + (if pq_running (s_queue s) then 2 else 1)"
    "pq_running (s_queue s) \<Longrightarrow> \<exists>c req mine gen. s_phase s c = Passing req mine gen"
    "\<And>c req mine gen. s_phase s c = Passing req mine gen \<Longrightarrow>
        pq_running (s_queue s) \<and> mine = gen \<and> gen = pq_done (s_queue s) + 1 \<and>
        (\<forall>d. (\<exists>r m g. s_phase s d = Passing r m g) \<longrightarrow> d = c) \<and> (\<exists>merged. covers merged req \<and> began (s_log s) c req gen merged)"
    "\<And>c req mine. s_phase s c = Waiting req mine \<Longrightarrow> pq_running (s_queue s) \<and> pq_done (s_queue s) < mine \<and> waiting_ok s c req mine"
    "\<And>c req mine. s_phase s c = Ready req mine \<Longrightarrow> waiting_ok s c req mine"
    "\<And>g. pq_done (s_queue s) < g \<Longrightarrow> pq_failed (s_queue s) g = None"
    "\<And>g r. Finished g r \<in> set (s_log s) \<Longrightarrow> g \<le> pq_done (s_queue s) \<and>
        (pq_failed (s_queue s) g = err_of r \<or> pq_failed (s_queue s) g = None \<and> g + 64 < pq_done (s_queue s))"
    "0 < pq_done (s_queue s) \<Longrightarrow> \<exists>r. Finished (pq_done (s_queue s)) r \<in> set (s_log s)"
    "\<And>c err. Answered c err \<in> set (s_log s) \<Longrightarrow> answered_ok (s_log s) c err"
  shows "queue_inv s"
  unfolding queue_inv_def using assms by (intro conjI allI impI) (assumption | simp only:)+

lemma queue_invD:
  assumes "queue_inv s"
  shows "pq_next (s_queue s) = pq_done (s_queue s) + (if pq_running (s_queue s) then 2 else 1)"
    "pq_running (s_queue s) \<Longrightarrow> \<exists>c req mine gen. s_phase s c = Passing req mine gen"
    "\<And>c req mine gen. s_phase s c = Passing req mine gen \<Longrightarrow>
        pq_running (s_queue s) \<and> mine = gen \<and> gen = pq_done (s_queue s) + 1 \<and>
        (\<forall>d. (\<exists>r m g. s_phase s d = Passing r m g) \<longrightarrow> d = c) \<and> (\<exists>merged. covers merged req \<and> began (s_log s) c req gen merged)"
    "\<And>c req mine. s_phase s c = Waiting req mine \<Longrightarrow> pq_running (s_queue s) \<and> pq_done (s_queue s) < mine \<and> waiting_ok s c req mine"
    "\<And>c req mine. s_phase s c = Ready req mine \<Longrightarrow> waiting_ok s c req mine"
    "\<And>g. pq_done (s_queue s) < g \<Longrightarrow> pq_failed (s_queue s) g = None"
    "\<And>g r. Finished g r \<in> set (s_log s) \<Longrightarrow> g \<le> pq_done (s_queue s) \<and>
        (pq_failed (s_queue s) g = err_of r \<or> pq_failed (s_queue s) g = None \<and> g + 64 < pq_done (s_queue s))"
    "0 < pq_done (s_queue s) \<Longrightarrow> \<exists>r. Finished (pq_done (s_queue s)) r \<in> set (s_log s)"
    "\<And>c err. Answered c err \<in> set (s_log s) \<Longrightarrow> answered_ok (s_log s) c err"
  using assms unfolding queue_inv_def by blast+

subsection \<open>The log grows\<close>

lemma began_append: "began evs c req g merged \<Longrightarrow> began (evs @ es) c req g merged"
  unfolding began_def by force

lemma finished_append: "finished evs c req g merged r \<Longrightarrow> finished (evs @ es) c req g merged r"
  unfolding finished_def by force

lemma answered_append: "answered_ok evs c err \<Longrightarrow> answered_ok (evs @ es) c err"
  unfolding answered_ok_def by (metis append.assoc append_Cons)

lemma asked_began: "Asked c req \<in> set evs \<Longrightarrow> began (evs @ [Began g merged]) c req g merged"
  unfolding began_def by (metis append.assoc append_Cons in_set_conv_decomp)

lemma began_finished: "began evs c req g merged \<Longrightarrow> finished (evs @ [Finished g r]) c req g merged r"
  unfolding began_def finished_def by force

lemmas log_mono = began_append finished_append answered_append

subsection \<open>Every step keeps the invariant\<close>

lemma set_enqueue:
  "set (pq_pending (enqueue req q)) = set (pq_pending q) \<union> set (pr_ids req)"
  "set (pq_forced (enqueue req q)) = set (pq_forced q) \<union> (if pr_cells req = [] then set (pr_ids req) else {})"
  "set (pq_cells (enqueue req q)) = set (pq_cells q) \<union> set (pr_cells req)"
proof -
  have "set (fold List.insert xs ys) = set ys \<union> set xs" for xs ys :: "string list" by (induction xs arbitrary: ys) auto
  then show "set (pq_pending (enqueue req q)) = set (pq_pending q) \<union> set (pr_ids req)"
    "set (pq_forced (enqueue req q)) = set (pq_forced q) \<union> (if pr_cells req = [] then set (pr_ids req) else {})"
    "set (pq_cells (enqueue req q)) = set (pq_cells q) \<union> set (pr_cells req)" by (simp_all add: enqueue_def)
qed

lemma enqueue_sel [simp]:
  "pq_running (enqueue req q) = pq_running q" "pq_next (enqueue req q) = pq_next q" "pq_done (enqueue req q) = pq_done q"
  "pq_failed (enqueue req q) = pq_failed q"
  by (simp_all add: enqueue_def)

text \<open>The first half of a call: its request is queued and it holds its turn.\<close>

definition register :: "nat \<Rightarrow> passRequest \<Rightarrow> sys \<Rightarrow> sys" where
  "register c req s = \<lparr>s_queue = enqueue req (s_queue s), s_phase = (s_phase s)(c := Ready req (pq_next (s_queue s))),
     s_log = s_log s @ [Asked c req]\<rparr>"

lemma take_turn_register:
  "take_turn c req (pq_next (s_queue s)) (enqueue req (s_queue s)) [Asked c req] s =
     take_turn c req (pq_next (s_queue s)) (s_queue (register c req s)) [] (register c req s)"
  by (simp add: take_turn_def register_def split: prod.splits)

lemma waiting_register: "waiting_ok s d r m \<Longrightarrow> waiting_ok (register c req s) d r m"
  unfolding waiting_ok_def register_def by (auto simp: queued_def set_enqueue intro: log_mono split: if_splits)

lemma register_sel [simp]:
  "s_queue (register c req s) = enqueue req (s_queue s)"
  "s_phase (register c req s) = (s_phase s)(c := Ready req (pq_next (s_queue s)))"
  "s_log (register c req s) = s_log s @ [Asked c req]"
  by (simp_all add: register_def)

lemma register_inv:
  assumes I: "queue_inv s" and c: "s_phase s c = Called req"
  shows "queue_inv (register c req s)"
proof -
  note d = queue_invD [OF I]
  have c': "waiting_ok (register c req s) c req (pq_next (s_queue s))"
    by (auto simp: waiting_ok_def queued_def set_enqueue)
  show ?thesis
  proof (rule queue_invI)
    show "\<exists>c' r m g. s_phase (register c req s) c' = Passing r m g" if "pq_running (s_queue (register c req s))"
      using d(2) c that by simp (metis phase.distinct(5))
    show "pq_running (s_queue (register c req s)) \<and> m = g \<and> g = pq_done (s_queue (register c req s)) + 1 \<and>
        (\<forall>d. (\<exists>r m g. s_phase (register c req s) d = Passing r m g) \<longrightarrow> d = c') \<and>
        (\<exists>merged. covers merged r \<and> began (s_log (register c req s)) c' r g merged)"
      if "s_phase (register c req s) c' = Passing r m g" for c' r m g
      using d(3) [of c' r m g] that by (auto split: if_splits intro: log_mono)
    show "waiting_ok (register c req s) c' r m" if "s_phase (register c req s) c' = Ready r m" for c' r m
      using d(5) c' that waiting_register by (auto split: if_splits)
    show "pq_running (s_queue (register c req s)) \<and> pq_done (s_queue (register c req s)) < m \<and> waiting_ok (register c req s) c' r m"
      if "s_phase (register c req s) c' = Waiting r m" for c' r m
      using d(4) that waiting_register by (auto split: if_splits)
  qed (use d(1,6,7,8,9) in \<open>auto intro: log_mono\<close>)
qed

lemma turn_cases:
  obtains (answer) "pq_done q \<ge> mine" "turn mine q = (Answer (pq_failed q mine), q)"
  | (wait) "pq_done q < mine" "pq_running q" "turn mine q = (Wait, q)"
  | (pass) "pq_done q < mine" "\<not> pq_running q"
      "turn mine q = (RunPass (pq_next q) \<lparr>pr_ids = sort (pq_pending q), pr_cells = pq_cells q, pr_forced = Some (pq_forced q)\<rparr>,
            q\<lparr>pq_running := True, pq_pending := [], pq_forced := [], pq_cells := [], pq_next := pq_next q + 1\<rparr>)"
  unfolding turn_def by (metis not_le)

lemma queued_covers: "queued q req \<Longrightarrow>
  covers \<lparr>pr_ids = sort (pq_pending q), pr_cells = pq_cells q, pr_forced = Some (pq_forced q)\<rparr> req"
  by (auto simp: queued_def covers_def forcedID_def)

lemma waiting_same_queue:
  assumes "waiting_ok s c r m" "s_queue s' = s_queue s" "s_log s' = s_log s @ es"
  shows "waiting_ok s' c r m"
  using assms unfolding waiting_ok_def by (auto intro: log_mono split: if_splits)

text \<open>The turn of a caller that answers.\<close>

lemma answer_inv:
  assumes I: "queue_inv s" and c: "s_phase s c = Ready req mine" and m: "mine \<le> pq_done (s_queue s)"
    and s': "s_queue s' = s_queue s" "s_phase s' = (s_phase s)(c := Returned)"
      "s_log s' = s_log s @ [Answered c (pq_failed (s_queue s) mine)]"
  shows "queue_inv s'"
proof -
  note d = queue_invD [OF I]
  let ?err = "pq_failed (s_queue s) mine"
  from d(1) m have "mine < pq_next (s_queue s)" by (auto split: if_splits)
  with d(5) [OF c] m obtain merged r where f: "covers merged req" "finished (s_log s) c req mine merged r"
    unfolding waiting_ok_def by auto
  then have fin: "Finished mine r \<in> set (s_log s)" by (auto simp: finished_def)
  have "?err = err_of r \<or> ?err = None \<and> (\<exists>g' r'. Finished g' r' \<in> set (s_log s) \<and> mine + 64 < g')"
  proof (cases "?err = err_of r")
    case False
    with d(7) [OF fin] have "?err = None" "mine + 64 < pq_done (s_queue s)" by auto
    moreover from this(2) d(8) obtain r' where "Finished (pq_done (s_queue s)) r' \<in> set (s_log s)" by auto
    ultimately show ?thesis by blast
  qed simp
  with f have ans: "answered_ok (s_log s') c ?err" unfolding answered_ok_def s'(3) by blast
  have w: "waiting_ok s' c' r m" if "waiting_ok s c' r m" for c' r m using waiting_same_queue [OF that s'(1,3)] .
  show ?thesis
  proof (rule queue_invI)
    show "\<exists>c' r m g. s_phase s' c' = Passing r m g" if "pq_running (s_queue s')"
      using d(2) c that s' by simp (metis phase.distinct(19))
    show "pq_running (s_queue s') \<and> m = g \<and> g = pq_done (s_queue s') + 1 \<and>
        (\<forall>d. (\<exists>r m g. s_phase s' d = Passing r m g) \<longrightarrow> d = c') \<and> (\<exists>merged. covers merged r \<and> began (s_log s') c' r g merged)"
      if "s_phase s' c' = Passing r m g" for c' r m g
      using d(3) [of c' r m g] that s' by (auto split: if_splits intro: log_mono)
    show "answered_ok (s_log s') c' e" if "Answered c' e \<in> set (s_log s')" for c' e
      using that ans d(9) [of c' e] s'(3) by (auto intro: log_mono)
  qed (use d(1,4-8) s' w in \<open>auto split: if_splits\<close>)
qed

lemma wait_inv:
  assumes I: "queue_inv s" and c: "s_phase s c = Ready req mine" and m: "pq_done (s_queue s) < mine" "pq_running (s_queue s)"
    and s': "s_queue s' = s_queue s" "s_phase s' = (s_phase s)(c := Waiting req mine)" "s_log s' = s_log s"
  shows "queue_inv s'"
proof -
  note d = queue_invD [OF I]
  have w: "waiting_ok s' c' r m" if "waiting_ok s c' r m" for c' r m using waiting_same_queue [OF that s'(1), of "[]"] s'(3) by simp
  show ?thesis
  proof (rule queue_invI)
    show "\<exists>c' r m g. s_phase s' c' = Passing r m g" if "pq_running (s_queue s')"
      using d(2) c that s' by simp (metis phase.distinct(19))
    show "pq_running (s_queue s') \<and> m = g \<and> g = pq_done (s_queue s') + 1 \<and>
        (\<forall>d. (\<exists>r m g. s_phase s' d = Passing r m g) \<longrightarrow> d = c') \<and> (\<exists>merged. covers merged r \<and> began (s_log s') c' r g merged)"
      if "s_phase s' c' = Passing r m g" for c' r m g
      using d(3) [of c' r m g] that s' by (auto split: if_splits)
  qed (use d s' w m c in \<open>auto split: if_splits\<close>)
qed

lemma pass_inv:
  assumes I: "queue_inv s" and c: "s_phase s c = Ready req mine" and m: "pq_done (s_queue s) < mine" "\<not> pq_running (s_queue s)"
    and merged: "merged = \<lparr>pr_ids = sort (pq_pending (s_queue s)), pr_cells = pq_cells (s_queue s), pr_forced = Some (pq_forced (s_queue s))\<rparr>"
    and s': "s_queue s' = (s_queue s)\<lparr>pq_running := True, pq_pending := [], pq_forced := [], pq_cells := [], pq_next := pq_next (s_queue s) + 1\<rparr>"
      "s_phase s' = (s_phase s)(c := Passing req mine (pq_next (s_queue s)))" "s_log s' = s_log s @ [Began (pq_next (s_queue s)) merged]"
  shows "queue_inv s'"
proof -
  note d = queue_invD [OF I]
  have nx: "pq_next (s_queue s) = pq_done (s_queue s) + 1" using d(1) m by simp
  with d(5) [OF c] m have mine: "mine = pq_next (s_queue s)" by (simp add: waiting_ok_def)
  with d(5) [OF c] have own: "covers merged req" "began (s_log s') c req mine merged"
    unfolding merged s'(3) waiting_ok_def by (auto intro: queued_covers asked_began)
  have idle: "s_phase s c' \<noteq> Passing r g g'" "s_phase s c' \<noteq> Waiting r g" for c' r g g' using d(3,4) m(2) by blast+
  have w: "waiting_ok s' c' r k" if "waiting_ok s c' r k" for c' r k
  proof (cases "k = pq_next (s_queue s)")
    case True
    with that have "covers merged r" "began (s_log s') c' r k merged"
      unfolding merged s'(3) waiting_ok_def by (auto intro: queued_covers asked_began)
    with True nx show ?thesis by (auto simp: waiting_ok_def s'(1))
  next
    case False
    with that show ?thesis unfolding waiting_ok_def s' by (auto intro: log_mono split: if_splits)
  qed
  show ?thesis
  proof (rule queue_invI)
    show "pq_running (s_queue s') \<and> k = g \<and> g = pq_done (s_queue s') + 1 \<and>
        (\<forall>d. (\<exists>r m g. s_phase s' d = Passing r m g) \<longrightarrow> d = c') \<and> (\<exists>merged. covers merged r \<and> began (s_log s') c' r g merged)"
      if "s_phase s' c' = Passing r k g" for c' r k g
      using that own idle mine nx unfolding s' by (auto split: if_splits)
    show "\<exists>c' r m g. s_phase s' c' = Passing r m g" using s'(2) by auto
    show "pq_running (s_queue s') \<and> pq_done (s_queue s') < k \<and> waiting_ok s' c' r k" if "s_phase s' c' = Waiting r k" for c' r k
      using that idle unfolding s' by (auto split: if_splits)
    show "waiting_ok s' c' r k" if "s_phase s' c' = Ready r k" for c' r k
      using that d(5) w unfolding s'(2) by (auto split: if_splits)
    show "answered_ok (s_log s') c' e" if "Answered c' e \<in> set (s_log s')" for c' e
      using that d(9) [of c' e] s'(3) by (auto intro: log_mono)
  qed (use d(6-8) nx s' in auto)
qed

lemma turn_inv:
  assumes I: "queue_inv s" and c: "s_phase s c = Ready req mine"
  shows "queue_inv (take_turn c req mine (s_queue s) [] s)"
proof (cases rule: turn_cases [where q = "s_queue s" and mine = mine])
  case answer
  then show ?thesis by (intro answer_inv [OF I c answer(1)]) (simp_all add: take_turn_def)
next
  case wait
  then show ?thesis by (intro wait_inv [OF I c wait(1,2)]) (simp_all add: take_turn_def)
next
  case pass
  then show ?thesis by (intro pass_inv [OF I c pass(1,2) refl]) (simp_all add: take_turn_def)
qed

lemma finish_inv:
  assumes I: "queue_inv s" and c: "s_phase s c = Passing req mine gen"
    and s': "s_queue s' = pass_ended gen (err_of r) (s_queue s)"
      "s_phase s' = (woken \<circ> s_phase s)(c := (case r of Panicked \<Rightarrow> Gone | Ended _ \<Rightarrow> Ready req mine))"
      "s_log s' = s_log s @ [Finished gen r]"
  shows "queue_inv s'"
proof -
  note d = queue_invD [OF I]
  from d(3) [OF c] obtain merged where run: "pq_running (s_queue s)" "mine = gen" "gen = pq_done (s_queue s) + 1"
    and only: "\<And>c' r m g. s_phase s c' = Passing r m g \<Longrightarrow> c' = c" and own: "covers merged req" "began (s_log s) c req gen merged" by blast
  have nx: "pq_next (s_queue s) = gen + 1" using d(1) run by simp
  have q': "pq_next (s_queue s') = gen + 1" "pq_done (s_queue s') = gen" "\<not> pq_running (s_queue s')" "queued (s_queue s') = queued (s_queue s)"
    using nx s'(1) by (auto simp: pass_ended_def queued_def fun_eq_iff)
  have failed: "pq_failed (s_queue s') g = (if g + 64 < gen then None else if g = gen then err_of r else pq_failed (s_queue s) g)" for g
    using d(6) [of gen] run(3) s'(1) by (auto simp: pass_ended_def split: option.splits)
  have w: "waiting_ok s' c' r' k" if "waiting_ok s c' r' k" for c' r' k
  proof -
    have "k \<le> gen + 1" using that nx by (simp add: waiting_ok_def)
    then consider "k = gen + 1" | "k = gen" | "k < gen" by linarith
    then show ?thesis
    proof cases
      case 2
      with that nx run(3) obtain mg where mg: "covers mg r'" "began (s_log s) c' r' k mg" by (auto simp: waiting_ok_def)
      then have "finished (s_log s') c' r' k mg r" unfolding s'(3) 2 by (blast intro: began_finished)
      with mg 2 q' show ?thesis by (auto simp: waiting_ok_def)
    qed (use that nx run(3) q' s'(3) in \<open>auto simp: waiting_ok_def intro: log_mono split: if_splits\<close>)
  qed
  have own': "waiting_ok s' c req mine" using own run(2) q' began_finished [OF own(2), of r] s'(3) by (auto simp: waiting_ok_def)
  have ph: "s_phase s' c' \<noteq> Passing r' k g" "s_phase s' c' \<noteq> Waiting r' k" for c' r' k g
    using only [of c'] unfolding s'(2) by (cases "s_phase s c'"; auto split: outcome.splits)+
  show ?thesis
  proof (rule queue_invI)
    show "waiting_ok s' c' r' k" if "s_phase s' c' = Ready r' k" for c' r' k
    proof (cases "c' = c")
      case True
      with that own' show ?thesis unfolding s'(2) by (auto split: outcome.splits)
    next
      case False
      with that have "s_phase s c' = Ready r' k \<or> s_phase s c' = Waiting r' k" unfolding s'(2) by (cases "s_phase s c'") auto
      with d(4,5) w show ?thesis by blast
    qed
    show "g \<le> pq_done (s_queue s') \<and> (pq_failed (s_queue s') g = err_of r' \<or> pq_failed (s_queue s') g = None \<and> g + 64 < pq_done (s_queue s'))"
      if "Finished g r' \<in> set (s_log s')" for g r'
    proof -
      from that s'(3) consider "Finished g r' \<in> set (s_log s)" | "g = gen" "r' = r" by auto
      then show ?thesis
      proof cases
        case 1
        from d(7) [OF this] run(3) show ?thesis unfolding failed q' by auto
      qed (simp add: failed q')
    qed
    show "answered_ok (s_log s') c' e" if "Answered c' e \<in> set (s_log s')" for c' e
      using that d(9) [of c' e] s'(3) by (auto intro: log_mono)
  qed (use ph q' failed d(6) run(3) s'(3) in auto)
qed

lemma reachable_inv: "reachable s \<Longrightarrow> queue_inv s"
proof (induction rule: reachable.induct)
  case (start ps s)
  then have "s_queue s = new_queue" "s_log s = []" "\<And>c. (\<exists>req. s_phase s c = Called req) \<or> s_phase s c = Returned" by (auto simp: initial_def)
  then show ?case unfolding queue_inv_def by (auto simp: new_queue_def) (metis phase.distinct)+
next
  case (continue s s')
  from continue(2) show ?case
  proof cases
    case (ask c req)
    with register_inv [OF continue(3) ask(2)] show ?thesis unfolding ask(1) take_turn_register by (intro turn_inv) simp_all
  next
    case (resume c req mine)
    with continue(3) show ?thesis by (simp add: turn_inv)
  next
    case (finish c req mine gen r)
    with continue(3) show ?thesis by (auto intro: finish_inv)
  qed
qed

subsection \<open>Every caller is answered\<close>

definition active :: "sys \<Rightarrow> nat set" where
  "active s = {c. s_phase s c \<noteq> Returned \<and> s_phase s c \<noteq> Gone}"

fun owed :: "nat \<Rightarrow> phase \<Rightarrow> bool" where
  "owed k (Called req) = True"
| "owed k (Waiting req mine) = (k < mine)"
| "owed k (Ready req mine) = (k < mine)"
| "owed k (Passing req mine gen) = True"
| "owed k _ = False"

fun weight :: "phase \<Rightarrow> nat" where
  "weight (Called req) = 3"
| "weight (Ready req mine) = 2"
| "weight (Waiting req mine) = 1"
| "weight (Passing req mine gen) = 1"
| "weight _ = 0"

definition owing :: "sys \<Rightarrow> nat set" where
  "owing s = {c. owed (pq_done (s_queue s)) (s_phase s c)}"

definition work :: "sys \<Rightarrow> nat" where
  "work s = (\<Sum>c \<in> active s. weight (s_phase s c))"

lemma owing_active: "owing s \<subseteq> active s"
  by (auto simp: owing_def active_def)

lemma work_less:
  assumes fin: "finite (active s)" and c: "c \<in> active s" "weight (s_phase s' c) < weight (s_phase s c)"
    and same: "\<And>d. d \<noteq> c \<Longrightarrow> s_phase s' d = s_phase s d"
  shows "work s' < work s"
proof -
  have sub: "active s' \<subseteq> active s" using same c(1) by (auto simp: active_def) (metis)+
  have "work s' \<le> (\<Sum>d \<in> active s. weight (s_phase s' d))" unfolding work_def by (rule sum_mono2 [OF fin sub]) simp
  also have "\<dots> < work s"
  proof -
    have "weight (s_phase s' d) \<le> weight (s_phase s d)" for d using c(2) same [of d] by (cases "d = c") auto
    with c show ?thesis unfolding work_def by (intro sum_strict_mono_ex1 [OF fin]) auto
  qed
  finally show ?thesis .
qed

lemma take_turn_done: "pq_done (s_queue (take_turn c req mine q evs s)) = pq_done q"
  by (cases rule: turn_cases [where q = q and mine = mine]) (simp_all add: take_turn_def)

lemma take_turn_phase:
  "s_phase (take_turn c req mine q evs s) d = (if d = c then fst (after_turn c req mine (fst (turn mine q))) else s_phase s d)"
  by (simp add: take_turn_def split: prod.splits)

lemma take_turn_less:
  assumes fin: "finite (active s)" and c: "c \<in> active s" "2 \<le> weight (s_phase s c)"
    and o: "pq_done q < mine \<Longrightarrow> owed (pq_done (s_queue s)) (s_phase s c)" "pq_done q = pq_done (s_queue s)"
  shows "owing (take_turn c req mine q evs s) \<subseteq> owing s" "work (take_turn c req mine q evs s) < work s"
proof -
  let ?s' = "take_turn c req mine q evs s"
  have p: "s_phase ?s' c \<in> {Returned, Waiting req mine, Passing req mine (pq_next q)}"
    by (cases rule: turn_cases [where q = q and mine = mine]) (simp_all add: take_turn_phase)
  have "c \<in> owing s" if "c \<in> owing ?s'"
  proof -
    have "pq_done q < mine" using that by (cases rule: turn_cases [where q = q and mine = mine]) (auto simp: owing_def take_turn_phase)
    with o show ?thesis by (simp add: owing_def)
  qed
  then show "owing ?s' \<subseteq> owing s" using o(2) by (auto simp: owing_def take_turn_done take_turn_phase split: if_splits)
  show "work ?s' < work s" by (rule work_less [OF fin c(1)]) (use p c(2) in \<open>auto simp: take_turn_phase\<close>)
qed

lemma step_less:
  assumes I: "queue_inv s" and st: "step s s'" and fin: "finite (active s)"
  shows "(s', s) \<in> measures [\<lambda>s. card (owing s), work]" "finite (active s')"
proof -
  have finO: "finite (owing s)" using finite_subset [OF owing_active fin] .
  note d = queue_invD [OF I]
  have turn: "(s', s) \<in> measures [\<lambda>s. card (owing s), work]" if "owing s' \<subseteq> owing s" "work s' < work s"
    using card_mono [OF finO that(1)] that(2) by (auto simp: le_less)
  show "(s', s) \<in> measures [\<lambda>s. card (owing s), work]"
    using st
  proof cases
    case (ask c req)
    have "owing s' \<subseteq> owing s" "work s' < work s"
      unfolding ask(1) by (rule take_turn_less [OF fin]; simp add: ask(2) active_def)+
    then show ?thesis by (rule turn)
  next
    case (resume c req mine)
    have "owing s' \<subseteq> owing s" "work s' < work s"
      unfolding resume(1) by (rule take_turn_less [OF fin]; simp add: resume(2) active_def)+
    then show ?thesis by (rule turn)
  next
    case (finish c req mine gen r)
    have g: "gen = pq_done (s_queue s) + 1" "mine = gen" using d(3) [OF finish(2)] by auto
    have "c \<in> owing s" using finish(2) by (simp add: owing_def)
    moreover have "owing s' \<subseteq> owing s - {c}"
    proof
      fix x assume x: "x \<in> owing s'"
      then have "x \<noteq> c" unfolding finish(1) using g by (auto simp: owing_def pass_ended_def split: outcome.splits)
      with x g show "x \<in> owing s - {c}" unfolding finish(1)
        by (cases "s_phase s x") (auto simp: owing_def pass_ended_def)
    qed
    ultimately have "owing s' \<subset> owing s" by blast
    then show ?thesis using psubset_card_mono [OF finO] by auto
  qed
  have "active s' \<subseteq> active s"
    using st
  proof cases
    case (ask c req)
    then show ?thesis by (auto simp: active_def take_turn_phase split: if_splits)
  next
    case (resume c req mine)
    then show ?thesis by (auto simp: active_def take_turn_phase split: if_splits)
  next
    case (finish c req mine gen r)
    show ?thesis
    proof
      fix x assume "x \<in> active s'"
      then show "x \<in> active s" unfolding finish(1) using finish(2) by (cases "s_phase s x") (auto simp: active_def split: if_splits)
    qed
  qed
  then show "finite (active s')" using fin finite_subset by blast
qed

text \<open>Somebody can always move: a waiter waits for a pass that is running.\<close>

lemma not_stuck:
  assumes I: "queue_inv s" and c: "c \<in> active s"
  shows "\<exists>s'. step s s'"
proof (cases "s_phase s c")
  case (Waiting req mine)
  with queue_invD(2,4) [OF I] obtain c' r m g where "s_phase s c' = Passing r m g" by blast
  then show ?thesis using step.finish by blast
qed (use c in \<open>auto simp: active_def intro: step.intros\<close>)

lemma reachable_steps: "step\<^sup>*\<^sup>* s s' \<Longrightarrow> reachable s \<Longrightarrow> reachable s'"
  by (induction rule: rtranclp_induct) (auto intro: reachable.continue)

lemma no_infinite_run:
  assumes "reachable (f 0)" "finite (active (f 0))" "\<And>i. step (f i) (f (Suc i))"
  shows False
proof -
  have *: "reachable (f i) \<and> finite (active (f i))" for i
  proof (induction i)
    case (Suc i)
    with assms(3) [of i] step_less(2) [OF reachable_inv] show ?case by (auto intro: reachable.continue)
  qed (use assms in auto)
  have "(f (Suc i), f i) \<in> measures [\<lambda>s. card (owing s), work]" for i
    using step_less(1) [OF reachable_inv assms(3)] * by blast
  moreover have "wf (measures [\<lambda>s. card (owing s), work])" by simp
  ultimately show False unfolding wf_iff_no_infinite_down_chain by blast
qed

subsection \<open>Properties\<close>

definition demo_request :: passRequest where
  "demo_request = \<lparr>pr_ids = [''m''], pr_cells = [], pr_forced = None\<rparr>"

definition demo_start :: sys where
  "demo_start = \<lparr>s_queue = new_queue, s_phase = (\<lambda>c. if c = 0 then Called demo_request else Returned), s_log = []\<rparr>"

definition demo_passing :: sys where
  "demo_passing = take_turn 0 demo_request 1 (enqueue demo_request new_queue) [Asked 0 demo_request] demo_start"

definition demo_ended :: sys where
  "demo_ended = \<lparr>s_queue = pass_ended 1 (Some ''boom'') (s_queue demo_passing),
     s_phase = (woken \<circ> s_phase demo_passing)(0 := Ready demo_request 1),
     s_log = s_log demo_passing @ [Finished 1 (Ended (Some ''boom''))]\<rparr>"

definition demo_answered :: sys where
  "demo_answered = take_turn 0 demo_request 1 (s_queue demo_ended) [] demo_ended"

lemma demo_reachable: "reachable demo_start" "reachable demo_answered"
proof -
  show 1: "reachable demo_start" by (rule reachable.start [of "s_phase demo_start"]) (simp add: initial_def demo_start_def)
  have "step demo_start demo_passing"
    using step.ask [of demo_start 0 demo_request] by (simp add: demo_start_def demo_passing_def new_queue_def)
  with 1 have 2: "reachable demo_passing" by (rule reachable.continue)
  have "s_phase demo_passing 0 = Passing demo_request 1 1"
    by (simp add: demo_passing_def take_turn_def turn_def new_queue_def demo_start_def)
  from step.finish [OF this, of "Ended (Some ''boom'')"] have "step demo_passing demo_ended" by (simp add: demo_ended_def)
  with 2 have 3: "reachable demo_ended" by (rule reachable.continue)
  have "step demo_ended demo_answered" unfolding demo_answered_def by (rule step.resume) (simp add: demo_ended_def)
  with 3 show "reachable demo_answered" by (rule reachable.continue)
qed

text \<open>
  C3. A request is answered only once a pass that began after it was made has finished, and that pass
  had every metric of the request, every cell it wrote, and as forced every metric it asked for without
  cells. The answer is that pass's error, or none when it had none or panicked; it can also be none
  when a pass more than 64 later has already finished, as the queue forgets older errors.
\<close>

theorem request_served:
  assumes "reachable s" "Answered c err \<in> set (s_log s)"
  shows "\<exists>req g merged r l1 l2 l3 l4 l5.
     s_log s = l1 @ Asked c req # l2 @ Began g merged # l3 @ Finished g r # l4 @ Answered c err # l5 \<and> covers merged req \<and>
     (err = err_of r \<or> err = None \<and> (\<exists>g' r'. Finished g' r' \<in> set (s_log s) \<and> g + 64 < g'))"
proof -
  from queue_invD(9) [OF reachable_inv [OF assms(1)] assms(2)] obtain req g merged r la lb where
    a: "s_log s = la @ Answered c err # lb" "finished la c req g merged r" "covers merged req"
      "err = err_of r \<or> err = None \<and> (\<exists>g' r'. Finished g' r' \<in> set la \<and> g + 64 < g')" unfolding answered_ok_def by blast
  from a(2) obtain l1 l2 l3 l4 where "la = l1 @ Asked c req # l2 @ Began g merged # l3 @ Finished g r # l4" unfolding finished_def by blast
  then have "s_log s = l1 @ Asked c req # l2 @ Began g merged # l3 @ Finished g r # l4 @ Answered c err # lb" using a(1) by simp
  moreover have "err = err_of r \<or> err = None \<and> (\<exists>g' r'. Finished g' r' \<in> set (s_log s) \<and> g + 64 < g')" using a(1,4) by auto
  ultimately show ?thesis using a(3) by blast
qed

theorem request_served_witness:
  "\<exists>req g merged r l1 l2 l3 l4 l5.
     s_log demo_answered = l1 @ Asked 0 req # l2 @ Began g merged # l3 @ Finished g r # l4 @ Answered 0 (Some ''boom'') # l5 \<and>
     covers merged req \<and>
     (Some ''boom'' = err_of r \<or> Some ''boom'' = None \<and> (\<exists>g' r'. Finished g' r' \<in> set (s_log demo_answered) \<and> g + 64 < g'))"
  by (rule request_served [OF demo_reachable(2)])
    (simp add: demo_answered_def demo_ended_def take_turn_def turn_def pass_ended_def)

text \<open>
  C14. Every request is answered: from any state with finitely many callers left there is no infinite
  run of the queue, and a state where nothing can move has no caller waiting.
\<close>

theorem queue_live:
  assumes "reachable s" "finite (active s)"
  shows "\<not> (\<exists>f. f 0 = s \<and> (\<forall>i. step (f i) (f (Suc i)))) \<and>
    (\<forall>s'. step\<^sup>*\<^sup>* s s' \<and> \<not> (\<exists>s''. step s' s'') \<longrightarrow> active s' = {})"
proof (intro conjI allI impI)
  show "\<not> (\<exists>f. f 0 = s \<and> (\<forall>i. step (f i) (f (Suc i))))" using no_infinite_run assms by blast
  show "active s' = {}" if "step\<^sup>*\<^sup>* s s' \<and> \<not> (\<exists>s''. step s' s'')" for s'
    using not_stuck [OF reachable_inv [OF reachable_steps [OF _ assms(1)]]] that by blast
qed

theorem queue_live_witness:
  "\<not> (\<exists>f. f 0 = demo_start \<and> (\<forall>i. step (f i) (f (Suc i)))) \<and>
    \<not> (\<exists>s'. step\<^sup>*\<^sup>* demo_start s' \<and> \<not> (\<exists>s''. step s' s'') \<and> active s' \<noteq> {})"
proof -
  have "active demo_start = {0}" by (auto simp: active_def demo_start_def)
  with queue_live [OF demo_reachable(1)] show ?thesis by auto
qed

end
