(* ===== verification/Tarjan.thy ===== *)
theory Tarjan
  imports TemporalPlan
begin

text \<open>
  Correctness of \<open>tarjan\<close> (\<open>internal/metricformula/temporal.go\<close>): an invariant of the search over the
  stack, the indices and the components emitted; that entering a node, following an edge and leaving
  a node keep it; and that the search ends within the number of nodes.
\<close>

definition dep :: "Graph \<Rightarrow> string list \<Rightarrow> (string \<times> string) set" where
  "dep g nodes = {(x, y). y \<in> e_To ` set (edges_of g x) \<and> y \<in> set nodes}"

definition sccs_ok :: "(string \<times> string) set \<Rightarrow> string list list \<Rightarrow> bool" where
  "sccs_ok R cs \<longleftrightarrow>
     (\<forall>i < length cs. cs ! i \<noteq> [] \<and> (\<forall>x \<in> set (cs ! i). \<forall>y \<in> set (cs ! i). (x, y) \<in> R\<^sup>*) \<and>
        R `` set (cs ! i) \<subseteq> set (concat (take (Suc i) cs)))"

lemma sccs_ok_snoc:
  assumes "sccs_ok R cs" "c \<noteq> []" "\<And>x y. x \<in> set c \<Longrightarrow> y \<in> set c \<Longrightarrow> (x, y) \<in> R\<^sup>*"
    "R `` set c \<subseteq> set (concat cs) \<union> set c"
  shows "sccs_ok R (cs @ [c])"
  unfolding sccs_ok_def
proof (intro allI impI)
  fix i assume "i < length (cs @ [c])"
  then consider "i < length cs" | "i = length cs" by fastforce
  then show "(cs @ [c]) ! i \<noteq> [] \<and> (\<forall>x \<in> set ((cs @ [c]) ! i). \<forall>y \<in> set ((cs @ [c]) ! i). (x, y) \<in> R\<^sup>*) \<and>
      R `` set ((cs @ [c]) ! i) \<subseteq> set (concat (take (Suc i) (cs @ [c])))"
  proof cases
    case 1
    with assms(1) show ?thesis by (simp add: sccs_ok_def nth_append)
  next
    case 2
    with assms(2-4) show ?thesis by (simp add: Un_commute)
  qed
qed

lemma sccs_closed:
  assumes "sccs_ok R cs"
  shows "R `` set (concat cs) \<subseteq> set (concat cs)"
proof safe
  fix x y assume "x \<in> set (concat cs)" "(x, y) \<in> R"
  then obtain i where i: "i < length cs" "x \<in> set (cs ! i)" by (auto simp: set_concat in_set_conv_nth [of _ cs])
  with assms \<open>(x, y) \<in> R\<close> have "y \<in> set (concat (take (Suc i) cs))" unfolding sccs_ok_def by blast
  then show "y \<in> set (concat cs)" by (auto dest: in_set_takeD)
qed

lemma closed_reach: "R `` A \<subseteq> A \<Longrightarrow> x \<in> A \<Longrightarrow> (x, y) \<in> R\<^sup>* \<Longrightarrow> y \<in> A"
  by (metis Image_closed_trancl rev_ImageI)

subsection \<open>The invariant of the search\<close>

text \<open>\<open>G\<close> holds the nodes whose call is in progress.\<close>

definition seen :: "tarjan_state \<Rightarrow> string set" where
  "seen s = dom (t_indices s)"

definition tinv :: "(string \<times> string) set \<Rightarrow> string set \<Rightarrow> string set \<Rightarrow> tarjan_state \<Rightarrow> bool" where
  "tinv R N G s \<longleftrightarrow>
     seen s \<subseteq> N \<and> inj_on (index_of s) (seen s) \<and> (\<forall>v \<in> seen s. index_of s v < t_index s) \<and>
     set (t_stack s) \<subseteq> seen s \<and> sorted_wrt (\<lambda>x y. index_of s y < index_of s x) (t_stack s) \<and>
     (\<forall>w. t_onStack s w \<longleftrightarrow> w \<in> set (t_stack s)) \<and> G \<subseteq> set (t_stack s) \<and>
     set (concat (t_out s)) = seen s - set (t_stack s) \<and> distinct (concat (t_out s)) \<and> sccs_ok R (t_out s) \<and>
     (\<forall>x \<in> set (t_stack s) - G. R `` {x} \<subseteq> seen s) \<and>
     (\<forall>x \<in> set (t_stack s). \<forall>y \<in> set (t_stack s). index_of s x \<le> index_of s y \<longrightarrow> (x, y) \<in> R\<^sup>*) \<and>
     (\<forall>y \<in> set (t_stack s). \<exists>x \<in> G. index_of s x \<le> index_of s y \<and> (y, x) \<in> R\<^sup>*)"

lemma tinvD:
  assumes "tinv R N G s"
  shows "seen s \<subseteq> N" "inj_on (index_of s) (seen s)" "\<And>v. v \<in> seen s \<Longrightarrow> index_of s v < t_index s"
    "set (t_stack s) \<subseteq> seen s" "sorted_wrt (\<lambda>x y. index_of s y < index_of s x) (t_stack s)"
    "\<And>w. t_onStack s w \<longleftrightarrow> w \<in> set (t_stack s)" "G \<subseteq> set (t_stack s)"
    "set (concat (t_out s)) = seen s - set (t_stack s)" "distinct (concat (t_out s))" "sccs_ok R (t_out s)"
    "\<And>x. x \<in> set (t_stack s) \<Longrightarrow> x \<notin> G \<Longrightarrow> R `` {x} \<subseteq> seen s"
    "\<And>x y. x \<in> set (t_stack s) \<Longrightarrow> y \<in> set (t_stack s) \<Longrightarrow> index_of s x \<le> index_of s y \<Longrightarrow> (x, y) \<in> R\<^sup>*"
    "\<And>y. y \<in> set (t_stack s) \<Longrightarrow> \<exists>x \<in> G. index_of s x \<le> index_of s y \<and> (y, x) \<in> R\<^sup>*"
  using assms unfolding tinv_def by blast+

definition extends :: "tarjan_state \<Rightarrow> tarjan_state \<Rightarrow> bool" where
  "extends s s' \<longleftrightarrow> t_indices s \<subseteq>\<^sub>m t_indices s' \<and> t_index s \<le> t_index s' \<and>
     (\<forall>u \<in> seen s. t_lowlink s' u = t_lowlink s u)"

lemma extends_refl [simp]: "extends s s"
  by (simp add: extends_def)

lemma extendsD:
  assumes "extends s s'"
  shows "seen s \<subseteq> seen s'" "\<And>u. u \<in> seen s \<Longrightarrow> index_of s' u = index_of s u" "\<And>u. u \<in> seen s \<Longrightarrow> t_lowlink s' u = t_lowlink s u"
    "t_index s \<le> t_index s'"
proof -
  have le: "t_indices s \<subseteq>\<^sub>m t_indices s'" using assms by (simp add: extends_def)
  show "seen s \<subseteq> seen s'" using le by (simp add: seen_def map_le_implies_dom_le)
  show "index_of s' u = index_of s u" if "u \<in> seen s" for u
    using that le by (simp add: index_of_def seen_def map_le_def)
qed (use assms in \<open>simp_all add: extends_def\<close>)

lemma extends_trans: "extends s s' \<Longrightarrow> extends s' s'' \<Longrightarrow> extends s s''"
  using extendsD(1) [of s s'] unfolding extends_def
  by (metis (no_types, lifting) dual_order.trans map_le_trans subset_iff)

text \<open>After \<open>strong v\<close>: the component of \<open>v\<close> is emitted and the stack as before, or \<open>v\<close> stays above it.\<close>

definition tpost :: "(string \<times> string) set \<Rightarrow> string set \<Rightarrow> string set \<Rightarrow> string \<Rightarrow> tarjan_state \<Rightarrow> tarjan_state \<Rightarrow> bool" where
  "tpost R N G v s s' \<longleftrightarrow>
     tinv R N G s' \<and> v \<in> seen s' \<and> extends s s' \<and>
     (\<exists>pre. t_stack s' = pre @ t_stack s \<and> set pre \<inter> seen s = {} \<and>
        (if pre = [] then t_lowlink s' v = index_of s' v \<and> t_index s \<le> index_of s' v
         else v \<in> set pre \<and> (\<exists>z \<in> set (t_stack s'). index_of s' z = t_lowlink s' v \<and> (v, z) \<in> R\<^sup>*)) \<and>
        (\<forall>x \<in> set pre. \<forall>z \<in> R `` {x} \<inter> set (t_stack s). t_lowlink s' v \<le> index_of s' z))"

text \<open>While the edges of \<open>v\<close>, entered from \<open>s0\<close>, are followed; \<open>D\<close> are the targets already seen to.\<close>

definition linv :: "(string \<times> string) set \<Rightarrow> string set \<Rightarrow> string set \<Rightarrow> string \<Rightarrow> tarjan_state \<Rightarrow> string set \<Rightarrow> tarjan_state \<Rightarrow> bool" where
  "linv R N G v s0 D s \<longleftrightarrow>
     tinv R N (insert v G) s \<and> extends s0 s \<and> v \<notin> seen s0 \<and> index_of s v = t_index s0 \<and> D \<subseteq> seen s \<and>
     t_lowlink s v \<le> index_of s v \<and> (\<exists>z \<in> set (t_stack s). index_of s z = t_lowlink s v \<and> (v, z) \<in> R\<^sup>*) \<and>
     (\<forall>z \<in> D \<inter> set (t_stack s0). t_lowlink s v \<le> index_of s z) \<and>
     (\<exists>pre. t_stack s = pre @ v # t_stack s0 \<and> set pre \<inter> seen s0 = {} \<and>
        (\<forall>x \<in> set pre. \<forall>z \<in> R `` {x} \<inter> set (t_stack s0). t_lowlink s v \<le> index_of s z))"

subsection \<open>The steps keep it\<close>

lemma enter_sel [simp]:
  "t_indices (enter v s) = (t_indices s)(v \<mapsto> t_index s)" "t_stack (enter v s) = v # t_stack s" "t_out (enter v s) = t_out s"
  "t_index (enter v s) = t_index s + 1" "t_lowlink (enter v s) = (t_lowlink s)(v := t_index s)"
  "t_onStack (enter v s) = (t_onStack s)(v := True)"
  by (simp_all add: enter_def)

lemma enter_index: "index_of (enter v s) u = (if u = v then t_index s else index_of s u)"
  by (simp add: index_of_def)

lemma enter_seen [simp]: "seen (enter v s) = insert v (seen s)"
  by (simp add: seen_def)

lemma enter_linv:
  assumes I: "tinv R N G s" and v: "v \<in> N" "v \<notin> seen s" and G: "\<And>x. x \<in> G \<Longrightarrow> (x, v) \<in> R\<^sup>*"
  shows "linv R N G v s {} (enter v s)"
proof -
  note t = tinvD [OF I]
  have ix: "index_of (enter v s) u = index_of s u" if "u \<in> seen s" for u using that v by (auto simp: enter_index)
  have st: "x \<in> seen s" "x \<noteq> v" if "x \<in> set (t_stack s)" for x using that t(4) v(2) by auto
  have reach: "(x, v) \<in> R\<^sup>*" if "x \<in> set (t_stack s)" for x
    using t(13) [OF that] G by (meson rtrancl_trans)
  have lt: "index_of s x < t_index s" if "x \<in> set (t_stack s)" for x using t(3,4) that by blast
  have "tinv R N (insert v G) (enter v s)"
    unfolding tinv_def
  proof (intro conjI)
    show "inj_on (index_of (enter v s)) (seen (enter v s))"
    proof -
      have "inj_on (index_of (enter v s)) (seen s)" using t(2) ix by (simp add: inj_on_def)
      moreover have "index_of (enter v s) u \<noteq> t_index s" if "u \<in> seen s" for u using t(3) [OF that] ix [OF that] by simp
      moreover have "index_of (enter v s) v = t_index s" by (simp add: enter_index)
      ultimately show ?thesis unfolding enter_seen inj_on_insert by fastforce
    qed
    show "sorted_wrt (\<lambda>x y. index_of (enter v s) y < index_of (enter v s) x) (t_stack (enter v s))"
    proof -
      have "sorted_wrt (\<lambda>x y. index_of (enter v s) y < index_of (enter v s) x) (t_stack s)"
        using t(5) by (rule sorted_wrt_mono_rel [rotated]) (simp add: enter_index st)
      then show ?thesis using lt st by (simp add: enter_index)
    qed
    show "\<forall>u \<in> seen (enter v s). index_of (enter v s) u < t_index (enter v s)"
      using t(3) by (auto simp: enter_index less_Suc_eq)
    show "\<forall>x \<in> set (t_stack (enter v s)) - insert v G. R `` {x} \<subseteq> seen (enter v s)" using t(11) by auto
    show "\<forall>x \<in> set (t_stack (enter v s)). \<forall>y \<in> set (t_stack (enter v s)).
        index_of (enter v s) x \<le> index_of (enter v s) y \<longrightarrow> (x, y) \<in> R\<^sup>*"
    proof (intro ballI impI)
      fix x y assume xy: "x \<in> set (t_stack (enter v s))" "y \<in> set (t_stack (enter v s))"
        "index_of (enter v s) x \<le> index_of (enter v s) y"
      then consider "y = v" | "y \<in> set (t_stack s)" "y \<noteq> v" "x \<in> set (t_stack s)" "x \<noteq> v"
        using lt st by (cases "x = v") (auto simp: enter_index dest: leD)
      then show "(x, y) \<in> R\<^sup>*" using t(12) reach xy by cases (auto simp: enter_index)
    qed
    show "\<forall>y \<in> set (t_stack (enter v s)). \<exists>x \<in> insert v G. index_of (enter v s) x \<le> index_of (enter v s) y \<and> (y, x) \<in> R\<^sup>*"
    proof
      fix y assume "y \<in> set (t_stack (enter v s))"
      then consider "y = v" | "y \<in> set (t_stack s)" "y \<noteq> v" using st by auto
      then show "\<exists>x \<in> insert v G. index_of (enter v s) x \<le> index_of (enter v s) y \<and> (y, x) \<in> R\<^sup>*"
      proof cases
        case 2
        with t(13) obtain x where "x \<in> G" "index_of s x \<le> index_of s y" "(y, x) \<in> R\<^sup>*" by blast
        moreover have "x \<noteq> v" using \<open>x \<in> G\<close> t(7) st by blast
        ultimately show ?thesis using 2 by (auto simp: enter_index)
      qed auto
    qed
  qed (use t v st in \<open>auto simp: enter_index\<close>)
  moreover have "extends s (enter v s)" using v(2) by (auto simp: extends_def seen_def map_le_def domIff)
  ultimately show ?thesis using v(2) by (auto simp: linv_def enter_index)
qed

lemma lower_sel [simp]:
  "t_indices (lower v i s) = t_indices s" "t_stack (lower v i s) = t_stack s" "t_out (lower v i s) = t_out s"
  "t_index (lower v i s) = t_index s" "t_onStack (lower v i s) = t_onStack s" "index_of (lower v i s) = index_of s"
  "seen (lower v i s) = seen s" "t_lowlink (lower v i s) = (t_lowlink s)(v := min i (t_lowlink s v))"
  by (auto simp: lower_def index_of_def seen_def)

lemma tinv_lower [simp]: "tinv R N G (lower v i s) \<longleftrightarrow> tinv R N G s"
  by (simp add: tinv_def)

lemma extends_lower: "extends s0 s \<Longrightarrow> v \<notin> seen s0 \<Longrightarrow> extends s0 (lower v i s)"
  by (auto simp: extends_def)

text \<open>Taking the least of the links keeps the bound and still names a node \<open>v\<close> reaches.\<close>

lemma lower_linv:
  assumes L: "linv R N G v s0 D s" and w: "w \<in> seen s"
    and i: "i < t_lowlink s v \<Longrightarrow> \<exists>z \<in> set (t_stack s). index_of s z = i \<and> (v, z) \<in> R\<^sup>*"
    and b: "w \<in> set (t_stack s0) \<Longrightarrow> i \<le> index_of s w"
  shows "linv R N G v s0 (insert w D) (lower v i s)"
proof -
  from L obtain pre where pre: "t_stack s = pre @ v # t_stack s0" "set pre \<inter> seen s0 = {}"
    "\<And>x z. x \<in> set pre \<Longrightarrow> z \<in> R `` {x} \<inter> set (t_stack s0) \<Longrightarrow> t_lowlink s v \<le> index_of s z"
    unfolding linv_def by blast
  have "\<exists>z \<in> set (t_stack s). index_of s z = min i (t_lowlink s v) \<and> (v, z) \<in> R\<^sup>*"
    using L i unfolding linv_def by (cases "i < t_lowlink s v") (auto simp: min_def)
  then show ?thesis
    using L pre w b extends_lower [of s0 s v i] unfolding linv_def
    by (auto simp: min_le_iff_disj intro!: exI [of _ pre])
qed

lemma linv_done:
  assumes "linv R N G v s0 D s" "w \<in> seen s" "w \<notin> set (t_stack s)"
  shows "linv R N G v s0 (insert w D) s"
proof -
  have "w \<notin> set (t_stack s0)" using assms unfolding linv_def by auto
  with assms show ?thesis unfolding linv_def by auto
qed

lemma linv_call:
  assumes L: "linv R N G v s0 D s" and P: "tpost R N (insert v G) w s s'" and w: "w \<notin> seen s" "(v, w) \<in> R"
  shows "linv R N G v s0 (insert w D) (lower v (t_lowlink s' w) s')"
proof -
  from L obtain pre where pre: "t_stack s = pre @ v # t_stack s0" "set pre \<inter> seen s0 = {}"
    "\<And>x z. x \<in> set pre \<Longrightarrow> z \<in> R `` {x} \<inter> set (t_stack s0) \<Longrightarrow> t_lowlink s v \<le> index_of s z"
    and Ls: "tinv R N (insert v G) s" "extends s0 s" "v \<notin> seen s0" "index_of s v = t_index s0" "D \<subseteq> seen s"
      "t_lowlink s v \<le> index_of s v" "\<And>z. z \<in> D \<inter> set (t_stack s0) \<Longrightarrow> t_lowlink s v \<le> index_of s z"
    unfolding linv_def by blast
  from P obtain pw where pw: "t_stack s' = pw @ t_stack s" "set pw \<inter> seen s = {}"
    "if pw = [] then t_lowlink s' w = index_of s' w \<and> t_index s \<le> index_of s' w
     else w \<in> set pw \<and> (\<exists>z \<in> set (t_stack s'). index_of s' z = t_lowlink s' w \<and> (w, z) \<in> R\<^sup>*)"
    "\<And>x z. x \<in> set pw \<Longrightarrow> z \<in> R `` {x} \<inter> set (t_stack s) \<Longrightarrow> t_lowlink s' w \<le> index_of s' z"
    and I': "tinv R N (insert v G) s'" and ws: "w \<in> seen s'" and ext: "extends s s'"
    unfolding tpost_def by blast
  note e = extendsD [OF ext] and e0 = extendsD [OF Ls(2)]
  have vs: "v \<in> seen s" "set (t_stack s) \<subseteq> seen s" "set (t_stack s0) \<subseteq> seen s"
    using tinvD(4) [OF Ls(1)] pre(1) by auto
  have ix: "index_of s' z = index_of s z" if "z \<in> set (t_stack s)" for z using that e(2) vs by blast
  have low: "t_lowlink s' v = t_lowlink s v" using e(3) vs(1) by blast
  let ?l = "min (t_lowlink s' w) (t_lowlink s v)"
  have sub: "set (t_stack s0) \<subseteq> set (t_stack s)" using pre(1) by auto
  have wit: "\<exists>z \<in> set (t_stack s'). index_of s' z = ?l \<and> (v, z) \<in> R\<^sup>*"
  proof (cases "t_lowlink s' w < t_lowlink s v")
    case True
    have "t_lowlink s v < t_index s" using tinvD(3) [OF Ls(1) vs(1)] Ls(6) by simp
    with True pw(3) have "\<exists>z \<in> set (t_stack s'). index_of s' z = t_lowlink s' w \<and> (w, z) \<in> R\<^sup>*"
      by (auto split: if_splits)
    with True w(2) show ?thesis by (auto simp: min_def intro: converse_rtrancl_into_rtrancl)
  next
    case False
    from L obtain z where "z \<in> set (t_stack s)" "index_of s z = t_lowlink s v" "(v, z) \<in> R\<^sup>*" unfolding linv_def by blast
    with False ix pw(1) show ?thesis by (intro bexI [of _ z]) (auto simp: min_def)
  qed
  have dj: "set (pw @ pre) \<inter> seen s0 = {}" using pw(2) pre(2) e0(1) by auto
  have cross: "?l \<le> index_of s' z" if "x \<in> set (pw @ pre)" "z \<in> R `` {x} \<inter> set (t_stack s0)" for x z
  proof (cases "x \<in> set pw")
    case True
    with pw(4) [of x z] that sub show ?thesis by (auto simp: min_le_iff_disj)
  next
    case False
    with that pre(3) [of x z] sub ix [of z] show ?thesis by (auto simp: min_le_iff_disj)
  qed
  have D: "?l \<le> index_of s' z" if "z \<in> insert w D \<inter> set (t_stack s0)" for z
    using that Ls(7) [of z] ix [of z] sub w(1) vs(3) by (auto simp: min_le_iff_disj)
  have st: "t_stack s' = (pw @ pre) @ v # t_stack s0" using pw(1) pre(1) by simp
  have "insert w D \<subseteq> seen s'" "index_of s' v = t_index s0" "?l \<le> index_of s' v"
    using Ls(4-6) e(1,2) vs(1) ws by (auto simp: min_le_iff_disj)
  moreover have "extends s0 (lower v (t_lowlink s' w) s')" by (intro extends_lower extends_trans [OF Ls(2) ext] Ls(3))
  ultimately show ?thesis using I' Ls(3) wit D st dj cross
    unfolding linv_def lower_sel tinv_lower fun_upd_same low by blast
qed

lemma emit_sel [simp]:
  "t_indices (emit v s) = t_indices s" "t_index (emit v s) = t_index s" "t_lowlink (emit v s) = t_lowlink s"
  "index_of (emit v s) = index_of s" "seen (emit v s) = seen s"
  by (auto simp: emit_def index_of_def seen_def Let_def)

lemma emit_stack:
  assumes "t_stack s = pre @ v # st" "v \<notin> set pre"
  shows "t_stack (emit v s) = st" "t_out (emit v s) = t_out s @ [pre @ [v]]"
    "t_onStack (emit v s) w \<longleftrightarrow> t_onStack s w \<and> w \<notin> set (pre @ [v])"
proof -
  have "takeWhile (\<lambda>w. w \<noteq> v) (t_stack s) = pre" using assms by (auto simp: takeWhile_append)
  then show "t_stack (emit v s) = st" "t_out (emit v s) = t_out s @ [pre @ [v]]"
    "t_onStack (emit v s) w \<longleftrightarrow> t_onStack s w \<and> w \<notin> set (pre @ [v])" using assms(1) by (auto simp: emit_def Let_def)
qed

lemma sorted_wrt_less_distinct: "sorted_wrt (\<lambda>x y. f y < (f x :: nat)) xs \<Longrightarrow> distinct xs"
  by (induction xs) auto

text \<open>The situation when all edges of \<open>v\<close> have been followed.\<close>

lemma linv_facts:
  assumes L: "linv R N G v s0 D s" and I0: "tinv R N G s0" and D: "R `` {v} \<subseteq> D"
  obtains pre where "t_stack s = pre @ v # t_stack s0" "set (pre @ [v]) \<inter> seen s0 = {}" "v \<notin> set pre"
    "distinct (t_stack s)"
    "\<And>x z. x \<in> set (pre @ [v]) \<Longrightarrow> z \<in> R `` {x} \<inter> set (t_stack s0) \<Longrightarrow> t_lowlink s v \<le> index_of s z"
    "\<And>x. x \<in> set (pre @ [v]) \<Longrightarrow> R `` {x} \<subseteq> seen s" "G \<subseteq> set (t_stack s0)"
    "\<And>z. z \<in> set (t_stack s0) \<Longrightarrow> index_of s z = index_of s0 z \<and> index_of s z < index_of s v"
    "\<And>x. x \<in> set (pre @ [v]) \<Longrightarrow> index_of s v \<le> index_of s x"
proof -
  from L obtain pre where pre: "t_stack s = pre @ v # t_stack s0" "set pre \<inter> seen s0 = {}"
    "\<And>x z. x \<in> set pre \<Longrightarrow> z \<in> R `` {x} \<inter> set (t_stack s0) \<Longrightarrow> t_lowlink s v \<le> index_of s z"
    and Ls: "tinv R N (insert v G) s" "extends s0 s" "v \<notin> seen s0" "index_of s v = t_index s0" "D \<subseteq> seen s"
      "\<And>z. z \<in> D \<inter> set (t_stack s0) \<Longrightarrow> t_lowlink s v \<le> index_of s z"
    unfolding linv_def by blast
  note t = tinvD [OF Ls(1)] and t0 = tinvD [OF I0]
  have dist: "distinct (t_stack s)" by (rule sorted_wrt_less_distinct [OF t(5)])
  show thesis
  proof
    show "t_stack s = pre @ v # t_stack s0" "set (pre @ [v]) \<inter> seen s0 = {}" using pre Ls(3) by auto
    show "distinct (t_stack s)" by (fact dist)
    show "v \<notin> set pre" using dist pre(1) by auto
    show G: "G \<subseteq> set (t_stack s0)" by (fact t0(7))
    show "t_lowlink s v \<le> index_of s z" if "x \<in> set (pre @ [v])" "z \<in> R `` {x} \<inter> set (t_stack s0)" for x z
      using that pre(3) Ls(6) D by auto
    show "R `` {x} \<subseteq> seen s" if "x \<in> set (pre @ [v])" for x
    proof (cases "x = v")
      case False
      then have "x \<notin> insert v G" using that pre(2) G t0(4) by auto
      with that t(11) pre(1) show ?thesis by (cases "x \<in> set pre") auto
    qed (use D Ls(5) in auto)
    show "index_of s z = index_of s0 z \<and> index_of s z < index_of s v" if "z \<in> set (t_stack s0)" for z
      using that t0(3,4) extendsD(2) [OF Ls(2)] Ls(4) by auto
    show "index_of s v \<le> index_of s x" if "x \<in> set (pre @ [v])" for x
      using that t(5) pre(1) by (auto simp: sorted_wrt_append less_imp_le)
  qed
qed

lemma leave_emits:
  assumes L: "linv R N G v s0 D s" and I0: "tinv R N G s0" and D: "R `` {v} \<subseteq> D" and root: "t_lowlink s v = index_of s v"
  shows "tpost R N G v s0 (leave v s)"
proof -
  from linv_facts [OF L I0 D] obtain pre where pre: "t_stack s = pre @ v # t_stack s0" "set (pre @ [v]) \<inter> seen s0 = {}"
    "v \<notin> set pre" "distinct (t_stack s)"
    "\<And>x z. x \<in> set (pre @ [v]) \<Longrightarrow> z \<in> R `` {x} \<inter> set (t_stack s0) \<Longrightarrow> t_lowlink s v \<le> index_of s z"
    "\<And>x. x \<in> set (pre @ [v]) \<Longrightarrow> R `` {x} \<subseteq> seen s" "G \<subseteq> set (t_stack s0)"
    "\<And>z. z \<in> set (t_stack s0) \<Longrightarrow> index_of s z = index_of s0 z \<and> index_of s z < index_of s v"
    "\<And>x. x \<in> set (pre @ [v]) \<Longrightarrow> index_of s v \<le> index_of s x" by metis
  have Ls: "tinv R N (insert v G) s" "extends s0 s" "index_of s v = t_index s0" using L unfolding linv_def by auto
  note t = tinvD [OF Ls(1)] and t0 = tinvD [OF I0] and e = emit_stack [OF pre(1,3)]
  have eq: "leave v s = emit v s" using root by (simp add: leave_def)
  have down: "(x, v) \<in> R\<^sup>*" if x: "x \<in> set (pre @ [v])" for x
  proof -
    from x pre(1) have "x \<in> set (t_stack s)" by auto
    with t(13) obtain u where u: "u \<in> insert v G" "(x, u) \<in> R\<^sup>*" by blast
    then have "index_of s u \<le> index_of s v" using pre(7,8) by force
    with u t(12) [of u v] t(7) have "(u, v) \<in> R\<^sup>*" by auto
    with u(2) show ?thesis by (rule rtrancl_trans)
  qed
  have up: "(v, y) \<in> R\<^sup>*" if "y \<in> set (pre @ [v])" for y using that t(12) [of v y] pre(1,9) by auto
  have cl: "R `` set (pre @ [v]) \<subseteq> set (concat (t_out s)) \<union> set (pre @ [v])"
  proof
    fix z assume "z \<in> R `` set (pre @ [v])"
    then obtain x where x: "x \<in> set (pre @ [v])" "(x, z) \<in> R" by blast
    with pre(6) have "z \<in> seen s" by blast
    moreover have "z \<notin> set (t_stack s0)" using pre(5) [OF x(1)] x(2) pre(8) root by fastforce
    ultimately show "z \<in> set (concat (t_out s)) \<union> set (pre @ [v])" using t(8) pre(1) by auto
  qed
  have "sccs_ok R (t_out s @ [pre @ [v]])"
    by (rule sccs_ok_snoc [OF t(10) _ _ cl]) (use down up in \<open>auto intro: rtrancl_trans\<close>)
  moreover have "distinct (concat (t_out s @ [pre @ [v]]))" using t(8,9) pre(1,4) by auto
  moreover have "set (concat (t_out s @ [pre @ [v]])) = seen s - set (t_stack s0)"
    using t(4,8) pre(1,4) by auto
  moreover have "R `` {x} \<subseteq> seen s" if "x \<in> set (t_stack s0)" "x \<notin> G" for x
    using t0(11) [OF that] extendsD(1) [OF Ls(2)] by blast
  moreover have "\<exists>x \<in> G. index_of s x \<le> index_of s y \<and> (y, x) \<in> R\<^sup>*" if "y \<in> set (t_stack s0)" for y
    using t0(13) [OF that] pre(7,8) that by (metis subsetD)
  moreover have "set (t_stack s0) \<subseteq> set (t_stack s)" using pre(1) by auto
  moreover have "t_onStack (emit v s) w \<longleftrightarrow> w \<in> set (t_stack s0)" for w using e(3) t(6) pre(1,4) by auto
  ultimately have "tinv R N G (emit v s)"
    using t(1-5,12) pre(1,7) unfolding tinv_def e emit_sel by (auto simp: sorted_wrt_append)
  moreover have "extends s0 (emit v s)" using Ls(2) by (simp add: extends_def)
  ultimately show ?thesis using e root Ls(3) t(4) pre(1) unfolding tpost_def eq emit_sel by auto
qed

lemma leave_keeps:
  assumes L: "linv R N G v s0 D s" and I0: "tinv R N G s0" and D: "R `` {v} \<subseteq> D" and inner: "t_lowlink s v \<noteq> index_of s v"
  shows "tpost R N G v s0 (leave v s)"
proof -
  from linv_facts [OF L I0 D] obtain pre where pre: "t_stack s = pre @ v # t_stack s0" "set (pre @ [v]) \<inter> seen s0 = {}"
    "v \<notin> set pre" "distinct (t_stack s)"
    "\<And>x z. x \<in> set (pre @ [v]) \<Longrightarrow> z \<in> R `` {x} \<inter> set (t_stack s0) \<Longrightarrow> t_lowlink s v \<le> index_of s z"
    "\<And>x. x \<in> set (pre @ [v]) \<Longrightarrow> R `` {x} \<subseteq> seen s" "G \<subseteq> set (t_stack s0)"
    "\<And>z. z \<in> set (t_stack s0) \<Longrightarrow> index_of s z = index_of s0 z \<and> index_of s z < index_of s v"
    "\<And>x. x \<in> set (pre @ [v]) \<Longrightarrow> index_of s v \<le> index_of s x" by metis
  from L obtain z where Ls: "tinv R N (insert v G) s" "extends s0 s" "t_lowlink s v \<le> index_of s v"
    and z: "z \<in> set (t_stack s)" "index_of s z = t_lowlink s v" "(v, z) \<in> R\<^sup>*" unfolding linv_def by blast
  note t = tinvD [OF Ls(1)] and t0 = tinvD [OF I0]
  have "z \<in> set (t_stack s0)" using z pre(1,9) inner Ls(3) by (metis Un_iff append.assoc append_Cons append_Nil le_antisym set_append)
  with t0(13) pre(7,8) obtain u where u: "u \<in> G" "index_of s u \<le> index_of s z" "(z, u) \<in> R\<^sup>*" by (metis subsetD)
  have a13: "\<exists>x \<in> G. index_of s x \<le> index_of s y \<and> (y, x) \<in> R\<^sup>*" if y: "y \<in> set (t_stack s)" for y
  proof -
    from t(13) [OF y] obtain x where x: "x \<in> insert v G" "index_of s x \<le> index_of s y" "(y, x) \<in> R\<^sup>*" by blast
    show ?thesis
    proof (cases "x = v")
      case True
      with x u z Ls(3) have "index_of s u \<le> index_of s y" "(y, u) \<in> R\<^sup>*" by (auto intro: rtrancl_trans)
      with u(1) show ?thesis by blast
    qed (use x in blast)
  qed
  have a11: "R `` {x} \<subseteq> seen s" if "x \<in> set (t_stack s)" "x \<notin> G" for x
  proof (cases "x = v")
    case False
    with that show ?thesis using t(11) [of x] by blast
  qed (use pre(6) [of v] in simp)
  have I: "tinv R N G s" unfolding tinv_def
  proof (intro conjI ballI allI impI)
    show "R `` {x} \<subseteq> seen s" if "x \<in> set (t_stack s) - G" for x using a11 that by simp
  qed (use t a13 in simp_all)
  have eq: "leave v s = s" using inner by (simp add: leave_def)
  have st: "t_stack s = (pre @ [v]) @ t_stack s0" using pre(1) by simp
  have vs: "v \<in> seen s" using t(4) pre(1) by auto
  have wit: "if pre @ [v] = [] then t_lowlink s v = index_of s v \<and> t_index s0 \<le> index_of s v
      else v \<in> set (pre @ [v]) \<and> (\<exists>z \<in> set (t_stack s). index_of s z = t_lowlink s v \<and> (v, z) \<in> R\<^sup>*)"
    using z by auto
  have cross: "\<forall>x \<in> set (pre @ [v]). \<forall>z \<in> R `` {x} \<inter> set (t_stack s0). t_lowlink s v \<le> index_of s z"
    using pre(5) by blast
  show ?thesis unfolding tpost_def eq using I vs Ls(2) st pre(2) wit cross by (intro conjI exI [of _ "pre @ [v]"])
qed

lemma leave_post:
  "linv R N G v s0 D s \<Longrightarrow> tinv R N G s0 \<Longrightarrow> R `` {v} \<subseteq> D \<Longrightarrow> tpost R N G v s0 (leave v s)"
  by (cases "t_lowlink s v = index_of s v") (auto intro: leave_emits leave_keeps)

lemma card_diff_mono: "finite N \<Longrightarrow> A \<subseteq> B \<Longrightarrow> card (N - B) \<le> card (N - A)"
  by (intro card_mono) auto

lemma linv_onStack:
  assumes L: "linv R N G v s0 D s" and w: "w \<in> set (t_stack s)" "(v, w) \<in> R"
  shows "linv R N G v s0 (insert w D) (lower v (index_of s w) s)"
proof (rule lower_linv [OF L])
  have "tinv R N (insert v G) s" using L by (simp add: linv_def)
  with w(1) show "w \<in> seen s" using tinvD(4) by blast
qed (use w in auto)

lemma strong_correct:
  fixes g nodes
  defines "R \<equiv> dep g nodes" and "N \<equiv> set nodes"
  shows "tinv R N G s \<Longrightarrow> v \<in> N \<Longrightarrow> v \<notin> seen s \<Longrightarrow> (\<And>x. x \<in> G \<Longrightarrow> (x, v) \<in> R\<^sup>*) \<Longrightarrow> card (N - seen s) \<le> n \<Longrightarrow>
      \<exists>s'. strong g nodes n v s = Some s' \<and> tpost R N G v s s'"
    and "linv R N G v s0 D s \<Longrightarrow> (\<And>x. x \<in> G \<Longrightarrow> (x, v) \<in> R\<^sup>*) \<Longrightarrow> set es \<subseteq> set (edges_of g v) \<Longrightarrow> card (N - seen s) \<le> n \<Longrightarrow>
      \<exists>s'. strong_loop g nodes n v es s = Some s' \<and> linv R N G v s0 (D \<union> (e_To ` set es \<inter> N)) s'"
proof (induction g\<equiv>g nodes\<equiv>nodes n v s and g\<equiv>g nodes\<equiv>nodes n v es s arbitrary: G and G s0 D rule: strong_strong_loop.induct)
  case (1 v s)
  then show ?case by (auto simp: N_def)
next
  case (2 n v s)
  have L: "linv R N G v s {} (enter v s)" using 2 by (intro enter_linv) auto
  have "N - seen (enter v s) = (N - seen s) - {v}" by auto
  with 2 have "card (N - seen (enter v s)) \<le> n" by (simp add: N_def card_Diff_singleton)
  with 2 L obtain s' where s': "strong_loop g nodes n v (edges_of g v) (enter v s) = Some s'"
    "linv R N G v s (e_To ` set (edges_of g v) \<inter> N) s'" by fastforce
  have "R `` {v} \<subseteq> e_To ` set (edges_of g v) \<inter> N" by (auto simp: R_def N_def dep_def)
  with s' "2.prems"(1) show ?case by (auto intro: leave_post)
next
  case (3 n v s)
  then show ?case by simp
next
  case (4 n v e es s)
  let ?w = "e_To e"
  have sub: "set es \<subseteq> set (edges_of g v)" using 4 by simp
  show ?case
  proof (cases "?w \<in> N")
    case False
    then have "D \<union> (e_To ` set (e # es) \<inter> N) = D \<union> (e_To ` set es \<inter> N)" by auto
    with False 4 sub show ?thesis by (simp add: N_def)
  next
    case True
    have R: "(v, ?w) \<in> R" using True 4 by (auto simp: R_def N_def dep_def)
    have D: "D \<union> (e_To ` set (e # es) \<inter> N) = insert ?w D \<union> (e_To ` set es \<inter> N)" using True by auto
    consider (new) "t_indices s ?w = None" | (stacked) "t_indices s ?w \<noteq> None" "t_onStack s ?w" |
      (old) "t_indices s ?w \<noteq> None" "\<not> t_onStack s ?w" by blast
    then show ?thesis
    proof cases
      case new
      have I: "tinv R N (insert v G) s" using 4 by (simp add: linv_def)
      have w: "?w \<notin> seen s" using new by (auto simp: seen_def)
      have "(x, ?w) \<in> R\<^sup>*" if "x \<in> insert v G" for x using that R "4.prems"(2) by (auto intro: rtrancl_into_rtrancl)
      with 4 new True w I have "\<exists>s'. strong g nodes n ?w s = Some s' \<and> tpost R N (insert v G) ?w s s'"
        by (intro "4.hyps"(2)) (auto simp: N_def)
      then obtain s' where s': "strong g nodes n ?w s = Some s'" "tpost R N (insert v G) ?w s s'" by blast
      have "seen s \<subseteq> seen s'" using s'(2) extendsD(1) by (auto simp: tpost_def)
      then have "card (N - seen s') \<le> n" using card_diff_mono [of N "seen s" "seen s'"] 4 by (simp add: N_def)
      with linv_call [OF "4.prems"(1) s'(2) w R] new True s'(1) sub "4.prems"(2)
      have "\<exists>s''. strong_loop g nodes n v es (lower v (t_lowlink s' ?w) s') = Some s'' \<and>
          linv R N G v s0 (insert ?w D \<union> (e_To ` set es \<inter> N)) s''" by (intro "4.hyps"(3)) (simp_all add: N_def)
      with new True s'(1) show ?thesis unfolding D by (simp add: N_def)
    next
      case stacked
      have w: "?w \<in> set (t_stack s)" using stacked "4.prems"(1) tinvD(6) unfolding linv_def by blast
      from linv_onStack [OF "4.prems"(1) w R] stacked True sub "4.prems"(2,4)
      have "\<exists>s''. strong_loop g nodes n v es (lower v (index_of s ?w) s) = Some s'' \<and>
          linv R N G v s0 (insert ?w D \<union> (e_To ` set es \<inter> N)) s''" by (intro "4.hyps"(4)) (simp_all add: N_def)
      with stacked True show ?thesis unfolding D by (auto simp: N_def Let_def)
    next
      case old
      have w: "?w \<in> seen s" "?w \<notin> set (t_stack s)"
        using old "4.prems"(1) tinvD(6) unfolding linv_def seen_def by blast+
      from linv_done [OF "4.prems"(1) w] old True sub "4.prems"(2,4)
      have "\<exists>s''. strong_loop g nodes n v es s = Some s'' \<and> linv R N G v s0 (insert ?w D \<union> (e_To ` set es \<inter> N)) s''"
        by (intro "4.hyps"(5)) (simp_all add: N_def)
      with old True show ?thesis unfolding D by (auto simp: N_def Let_def)
    qed
  qed
qed


lemma tarjan_roots_correct:
  assumes "tinv (dep g nodes) (set nodes) {} s" "set vs \<subseteq> set nodes"
  shows "\<exists>s'. tarjan_roots g nodes vs s = Some s' \<and> tinv (dep g nodes) (set nodes) {} s' \<and> seen s \<union> set vs \<subseteq> seen s'"
  using assms
proof (induction vs arbitrary: s)
  case (Cons v vs)
  show ?case
  proof (cases "t_indices s v")
    case None
    have "card (set nodes - seen s) \<le> Suc (length nodes)"
      by (meson Diff_subset card_length card_mono finite_set le_SucI order_trans)
    with None Cons.prems strong_correct(1) [of g nodes "{}" s v "Suc (length nodes)"] obtain s' where
      s': "strong g nodes (Suc (length nodes)) v s = Some s'" "tpost (dep g nodes) (set nodes) {} v s s'"
      by (auto simp: seen_def)
    then have "tinv (dep g nodes) (set nodes) {} s'" "insert v (seen s) \<subseteq> seen s'"
      using extendsD(1) by (auto simp: tpost_def)
    with Cons.IH [of s'] Cons.prems s' None show ?thesis by (simp del: strong.simps) blast
  next
    case (Some i)
    moreover from Some have "v \<in> seen s" by (auto simp: seen_def)
    ultimately show ?thesis using Cons.IH [of s] Cons.prems by auto
  qed
qed simp

lemma tarjan_sccs:
  "\<exists>cs. tarjan g nodes = Some cs \<and> distinct (concat cs) \<and> set (concat cs) = set nodes \<and> sccs_ok (dep g nodes) cs"
proof -
  have "tinv (dep g nodes) (set nodes) {} tarjan_start"
    by (simp add: tinv_def tarjan_start_def seen_def sccs_ok_def)
  from tarjan_roots_correct [OF this, of "sort (remdups nodes)"] obtain s' where
    s': "tarjan_roots g nodes (sort (remdups nodes)) tarjan_start = Some s'" "tinv (dep g nodes) (set nodes) {} s'"
      "set nodes \<subseteq> seen s'" by auto
  note t = tinvD [OF s'(2)]
  have "t_stack s' = []" using t(13) by (cases "t_stack s'") auto
  with t(1,8) s'(3) have "set (concat (t_out s')) = set nodes" by simp
  with s' t(9,10) show ?thesis by (simp add: tarjan_def)
qed

end
