(* ===== verification/PlanOrder.thy ===== *)
theory PlanOrder
  imports Tarjan
begin

text \<open>
  Correctness of plans (\<open>internal/metricformula/temporal.go\<close>): the order within a period
  (\<open>zeroTopo\<close>), the metrics a plan covers, when a component is refused, and what a plan promises the
  scheduler that runs it.
\<close>

subsection \<open>The order within a period\<close>

definition succs :: "(string \<Rightarrow> string list) \<Rightarrow> (string \<times> string) set" where
  "succs zero = {(x, y). y \<in> set (zero x)}"

definition topological :: "(string \<Rightarrow> string list) \<Rightarrow> string list \<Rightarrow> bool" where
  "topological zero xs \<longleftrightarrow> distinct xs \<and> (\<forall>i < length xs. set (zero (xs ! i)) \<subseteq> set (take i xs))"

lemma topological_snoc:
  "topological zero xs \<Longrightarrow> n \<notin> set xs \<Longrightarrow> set (zero n) \<subseteq> set xs \<Longrightarrow> topological zero (xs @ [n])"
  by (auto simp: topological_def nth_append less_Suc_eq)

definition pending :: "string set \<Rightarrow> topo_state \<Rightarrow> nat" where
  "pending M st = card {x \<in> M. fst st x = unvisited}"

definition topo_inv :: "(string \<Rightarrow> string list) \<Rightarrow> topo_state \<Rightarrow> bool" where
  "topo_inv zero st \<longleftrightarrow> topological zero (snd st) \<and> (\<forall>x. fst st x = visited_done \<longleftrightarrow> x \<in> set (snd st))"

text \<open>A step of the search only completes nodes: what is in progress stays so.\<close>

definition topo_step :: "(string \<Rightarrow> string list) \<Rightarrow> string set \<Rightarrow> topo_state \<Rightarrow> string set \<Rightarrow> topo_state \<Rightarrow> bool" where
  "topo_step zero M st ns st' \<longleftrightarrow>
     topo_inv zero st' \<and> set (snd st) \<union> ns \<subseteq> set (snd st') \<and> (\<forall>x. fst st' x = inStack \<longleftrightarrow> fst st x = inStack) \<and>
     set (snd st') \<subseteq> set (snd st) \<union> M"

definition topo_result :: "(string \<Rightarrow> string list) \<Rightarrow> string set \<Rightarrow> topo_state \<Rightarrow> string set \<Rightarrow> string + topo_state \<Rightarrow> bool" where
  "topo_result zero M st ns r \<longleftrightarrow>
     (case r of Inl _ \<Rightarrow> \<exists>x \<in> M. (x, x) \<in> (succs zero)\<^sup>+ | Inr st' \<Rightarrow> topo_step zero M st ns st')"

lemma pending_mono:
  assumes "finite M" "topo_inv zero st" "topo_step zero M st ns st'"
  shows "pending M st' \<le> pending M st"
proof -
  have "fst st x = unvisited" if "fst st' x = unvisited" for x
    using that assms(2,3) unfolding topo_step_def topo_inv_def
    by (cases "fst st x") (metis subsetD UnI1 visit_state.distinct)+
  then show ?thesis unfolding pending_def using assms(1) by (intro card_mono) auto
qed

lemma topo_step_trans:
  "topo_step zero M st ns st' \<Longrightarrow> topo_step zero M st' ms st'' \<Longrightarrow> topo_step zero M st (ns \<union> ms) st''"
  unfolding topo_step_def by blast

lemma visit_correct:
  assumes fin: "finite M" and closed: "succs zero `` M \<subseteq> M"
  shows "topo_inv zero st \<Longrightarrow> n \<in> M \<Longrightarrow> (\<And>x. fst st x = inStack \<Longrightarrow> x \<in> M \<and> (x, n) \<in> (succs zero)\<^sup>+) \<Longrightarrow> pending M st < k \<Longrightarrow>
      \<exists>r. visit zero names k n st = Some r \<and> topo_result zero M st {n} r"
    and "topo_inv zero st \<Longrightarrow> set ns \<subseteq> M \<Longrightarrow>
      (\<And>x n. fst st x = inStack \<Longrightarrow> n \<in> set ns \<Longrightarrow> x \<in> M \<and> (x, n) \<in> (succs zero)\<^sup>+) \<Longrightarrow> pending M st < k \<Longrightarrow>
      \<exists>r. visit_all zero names k ns st = Some r \<and> topo_result zero M st (set ns) r"
proof (induction zero\<equiv>zero names k n st and zero\<equiv>zero names k ns st rule: visit_visit_all.induct)
  case (1 names n st)
  then show ?case by simp
next
  case (2 names k n st)
  show ?case
  proof (cases "fst st n")
    case inStack
    with 2 have "n \<in> M" "(n, n) \<in> (succs zero)\<^sup>+" by auto
    with inStack show ?thesis by (auto simp: topo_result_def)
  next
    case visited_done
    with "2.prems"(1) have "topo_step zero M st {n} st" by (auto simp: topo_step_def topo_inv_def)
    with visited_done show ?thesis by (simp add: topo_result_def)
  next
    case unvisited
    let ?st = "((fst st)(n := inStack), snd st)"
    have zero: "set (sort (zero n)) \<subseteq> M" using closed "2.prems"(2) by (auto simp: succs_def)
    have inv: "topo_inv zero ?st" using "2.prems"(1) unvisited
      by (auto simp: topo_inv_def) (metis visit_state.distinct(3))
    have stack: "x \<in> M \<and> (x, m) \<in> (succs zero)\<^sup>+" if "fst ?st x = inStack" "m \<in> set (sort (zero n))" for x m
      using that "2.prems"(2,3) by (auto simp: succs_def split: if_splits intro: trancl_into_trancl)
    have "{x \<in> M. fst ?st x = unvisited} = {x \<in> M. fst st x = unvisited} - {n}" by auto
    then have pend: "pending M ?st < k" using "2.prems"(2,4) unvisited fin card_Suc_Diff1 [of "{x \<in> M. fst st x = unvisited}" n]
      by (simp add: pending_def)
    have "\<exists>r. visit_all zero names k (sort (zero n)) ?st = Some r \<and> topo_result zero M ?st (set (sort (zero n))) r"
      by (rule "2.hyps" [OF unvisited inv zero]) (use stack pend in auto)
    then obtain r where r: "visit_all zero names k (sort (zero n)) ?st = Some r" "topo_result zero M ?st (set (zero n)) r" by auto
    show ?thesis
    proof (cases r)
      case (Inl e)
      with r unvisited show ?thesis by (auto simp: topo_result_def)
    next
      case (Inr st')
      obtain state order where st': "st' = (state, order)" by fastforce
      have step: "topo_step zero M ?st (set (zero n)) (state, order)" using r Inr st' by (simp add: topo_result_def)
      have "state n = inStack" "state n = visited_done \<longleftrightarrow> n \<in> set order"
        using step by (simp_all add: topo_step_def topo_inv_def)
      then have n: "n \<notin> set order" by simp
      have "topo_step zero M st {n} (state(n := visited_done), order @ [n])"
        using step n unvisited topological_snoc [of zero order n] "2.prems"(2)
        unfolding topo_step_def topo_inv_def by auto
      with r Inr st' unvisited show ?thesis by (auto simp: topo_result_def)
    qed
  qed
next
  case (3 names k st)
  then show ?case by (auto simp: topo_result_def topo_step_def)
next
  case (4 names k n ns st)
  have "\<exists>r. visit zero names k n st = Some r \<and> topo_result zero M st {n} r"
    by (rule "4.hyps"(1)) (use "4.prems" in auto)
  then obtain r where r: "visit zero names k n st = Some r" "topo_result zero M st {n} r" by blast
  show ?case
  proof (cases r)
    case (Inl e)
    with r show ?thesis by (auto simp: topo_result_def)
  next
    case (Inr st')
    then have step: "topo_step zero M st {n} st'" using r by (simp add: topo_result_def)
    have "\<exists>r. visit_all zero names k ns st' = Some r \<and> topo_result zero M st' (set ns) r"
      by (rule "4.hyps"(2) [OF r(1) Inr])
        (use "4.prems" step pending_mono [OF fin "4.prems"(1) step] in \<open>auto simp: topo_step_def\<close>)
    then obtain r' where r': "visit_all zero names k ns st' = Some r'" "topo_result zero M st' (set ns) r'" by blast
    have "topo_result zero M st (set (n # ns)) r'"
      using r'(2) topo_step_trans [OF step] by (auto simp: topo_result_def split: sum.splits)
    with r Inr r' show ?thesis by simp
  qed
qed

lemma zeroTopo_total:
  assumes closed: "succs zero `` set scc \<subseteq> set scc"
  shows "\<exists>r. zeroTopo zero scc names = Some r \<and>
    (case r of Inl _ \<Rightarrow> \<not> acyclic (succs zero) | Inr order \<Rightarrow> topological zero order \<and> set order = set scc)"
proof -
  let ?st = "(\<lambda>_. unvisited, []) :: topo_state"
  have inv: "topo_inv zero ?st" by (simp add: topo_inv_def topological_def)
  have pend: "pending (set scc) ?st < Suc (length scc)" by (simp add: pending_def less_Suc_eq_le card_length)
  have "\<exists>r. visit_all zero names (Suc (length scc)) (sort scc) ?st = Some r \<and> topo_result zero (set scc) ?st (set (sort scc)) r"
    by (rule visit_correct(2) [OF finite_set closed inv]) (use pend in auto)
  then obtain r where r: "visit_all zero names (Suc (length scc)) (sort scc) ?st = Some r"
    "topo_result zero (set scc) ?st (set scc) r" by auto
  then show ?thesis
    by (cases r) (auto simp: zeroTopo_def topo_result_def topo_step_def topo_inv_def acyclic_def simp del: visit_all.simps visit.simps)
qed

text \<open>A list with every successor before its node rules out a cycle.\<close>

lemma topological_pos:
  assumes "topological zero xs" "x \<in> set xs" "(x, y) \<in> succs zero"
  obtains i j where "j < i" "i < length xs" "xs ! i = x" "xs ! j = y"
proof -
  from assms(2) obtain i where i: "i < length xs" "xs ! i = x" by (auto simp: in_set_conv_nth)
  with assms have "y \<in> set (take i xs)" by (auto simp: topological_def succs_def)
  with i that show thesis by (auto simp: in_set_conv_nth)
qed

lemma topological_acyclic:
  assumes top: "topological zero xs" and dom: "Domain (succs zero) \<subseteq> set xs"
  shows "acyclic (succs zero)"
proof -
  have "(\<exists>i j. j < i \<and> i < length xs \<and> xs ! i = x \<and> xs ! j = y)" if "(x, y) \<in> (succs zero)\<^sup>+" for x y
    using that
  proof (induction rule: trancl_induct)
    case (base y)
    with dom topological_pos [OF top] show ?case by (metis DomainI subsetD)
  next
    case (step y z)
    then obtain i j where ij: "j < i" "i < length xs" "xs ! i = x" "xs ! j = y" by blast
    from step(2) dom have "y \<in> set xs" by (metis DomainI subsetD)
    from topological_pos [OF top this step(2)] obtain k l where "l < k" "k < length xs" "xs ! k = y" "xs ! l = z" by metis
    moreover have "k = j" using calculation ij top by (metis nth_eq_iff_index_eq order_less_trans topological_def)
    ultimately show ?case using ij by (metis order_less_trans)
  qed
  then show ?thesis using top unfolding acyclic_def topological_def
    by (metis nat_neq_iff nth_eq_iff_index_eq order_less_trans)
qed

lemma zeroTopo_correct:
  assumes closed: "succs zero `` set scc \<subseteq> set scc" and dom: "Domain (succs zero) \<subseteq> set scc"
  shows "if acyclic (succs zero)
         then \<exists>order. zeroTopo zero scc names = Some (Inr order) \<and> topological zero order \<and> set order = set scc
         else \<exists>err. zeroTopo zero scc names = Some (Inl err)"
proof -
  from zeroTopo_total [OF closed] obtain r where r: "zeroTopo zero scc names = Some r"
    "case r of Inl _ \<Rightarrow> \<not> acyclic (succs zero) | Inr order \<Rightarrow> topological zero order \<and> set order = set scc" by blast
  show ?thesis using r dom topological_acyclic [of zero] by (cases r) auto
qed

subsection \<open>The reachable metrics\<close>

definition metric_reads :: "Graph \<Rightarrow> (string \<times> string) set" where
  "metric_reads g = {(x, y). y \<in> e_To ` set (edges_of g x)}"

lemma closure_set:
  assumes "set stack \<subseteq> set nodes" "\<And>x y. x \<in> set nodes \<Longrightarrow> x \<notin> set stack \<Longrightarrow> (x, y) \<in> metric_reads g \<Longrightarrow> y \<in> set nodes"
  shows "set (closure g nodes stack) = (metric_reads g)\<^sup>* `` set nodes"
  using assms
proof (induction g nodes stack rule: closure.induct)
  case (1 g nodes)
  then have "metric_reads g `` set nodes \<subseteq> set nodes" by auto
  then show ?case by (simp add: Image_closed_trancl)
next
  case (2 g nodes n stack)
  obtain nodes' stack' where d: "foldl discover (nodes, stack) (map e_To (edges_of g n)) = (nodes', stack')" by fastforce
  from discover_all [OF d] have s: "set nodes' = set nodes \<union> metric_reads g `` {n}" "set stack' = (metric_reads g `` {n} - set nodes) \<union> set stack"
    by (auto simp: metric_reads_def)
  have "set (closure g nodes' stack') = (metric_reads g)\<^sup>* `` set nodes'"
    by (rule "2.IH" [OF d [symmetric]]) (use "2.prems" s in auto)
  also have "\<dots> = (metric_reads g)\<^sup>* `` set nodes"
    using s "2.prems"(1) by (auto intro: converse_rtrancl_into_rtrancl)
  finally show ?case using d by simp
qed

lemma plan_nodes_set: "set (plan_nodes g ids) = (metric_reads g)\<^sup>* `` set ids"
proof -
  obtain nodes stack where d: "foldl discover ([], []) ids = (nodes, stack)" by fastforce
  from discover_all [OF d] have "set nodes = set ids" "set stack = set ids" by auto
  with d closure_set [of stack nodes g] show ?thesis by (simp add: plan_nodes_def)
qed

subsection \<open>Components are the strongly connected components\<close>

definition scc_of :: "Graph \<Rightarrow> string \<Rightarrow> string set" where
  "scc_of g x = {y. (x, y) \<in> (metric_reads g)\<^sup>* \<and> (y, x) \<in> (metric_reads g)\<^sup>*}"

lemma dep_closed: "x \<in> set nodes \<Longrightarrow> (x, y) \<in> (dep g nodes)\<^sup>* \<Longrightarrow> y \<in> set nodes"
  by (erule rtranclE) (auto simp: dep_def)

lemma sccs_ok_take: "sccs_ok R cs \<Longrightarrow> sccs_ok R (take k cs)"
  unfolding sccs_ok_def by (simp add: min_def) (metis linorder_not_le order_less_trans)

lemma sccs_reach:
  assumes ok: "sccs_ok R cs" and dist: "distinct (concat cs)"
    and "i < length cs" "j < length cs" "x \<in> set (cs ! i)" "y \<in> set (cs ! j)" "(x, y) \<in> R\<^sup>*"
  shows "j \<le> i"
proof (rule ccontr)
  assume "\<not> j \<le> i"
  have "x \<in> set (concat (take (Suc i) cs))" using assms(3,5) by (simp add: take_Suc_conv_app_nth)
  from closed_reach [OF sccs_closed [OF sccs_ok_take [OF ok]] this assms(7)]
  have "y \<in> set (concat (take (Suc i) cs))" .
  moreover have "y \<in> set (concat (drop (Suc i) cs))"
  proof -
    have "drop (Suc i) cs ! (j - Suc i) = cs ! j" "j - Suc i < length (drop (Suc i) cs)" using assms(4) \<open>\<not> j \<le> i\<close> by auto
    then have "cs ! j \<in> set (drop (Suc i) cs)" by (metis nth_mem)
    with assms(6) show ?thesis by auto
  qed
  moreover have "distinct (concat (take (Suc i) cs) @ concat (drop (Suc i) cs))" using dist by (simp flip: concat_append)
  ultimately show False by auto
qed

lemma scc_members:
  assumes cs: "sccs_ok (dep g nodes) cs" "distinct (concat cs)" "set (concat cs) = set nodes"
    and i: "i < length cs" "x \<in> set (cs ! i)" and y: "(x, y) \<in> (dep g nodes)\<^sup>*" "(y, x) \<in> (dep g nodes)\<^sup>*"
  shows "y \<in> set (cs ! i)"
proof -
  have "x \<in> set nodes" using i unfolding cs(3) [symmetric] by (auto simp: nth_mem)
  with y(1) have "y \<in> set nodes" by (metis dep_closed)
  then obtain j where j: "j < length cs" "y \<in> set (cs ! j)" using cs(3) by (metis concat_eq_concat_iff in_set_conv_nth set_concat UN_E)
  have "i = j" using sccs_reach [OF cs(1,2)] i j y by (meson le_antisym)
  with j show ?thesis by simp
qed

text \<open>\<open>nodes\<close> holds every metric its members read, as the nodes of a plan do.\<close>

lemma tarjan_scc_of:
  assumes cl: "metric_reads g `` set nodes \<subseteq> set nodes" and cs: "sccs_ok (dep g nodes) cs" "distinct (concat cs)"
      "set (concat cs) = set nodes"
    and c: "c \<in> set cs" "x \<in> set c"
  shows "set c = scc_of g x"
proof
  have xN: "x \<in> set nodes" using c cs(3) by auto
  from c(1) obtain i where i: "i < length cs" "cs ! i = c" by (auto simp: in_set_conv_nth)
  have sub: "(dep g nodes)\<^sup>* \<subseteq> (metric_reads g)\<^sup>*" by (intro rtrancl_mono) (auto simp: dep_def metric_reads_def)
  have up: "y \<in> set nodes \<and> (z, y) \<in> (dep g nodes)\<^sup>*" if "(z, y) \<in> (metric_reads g)\<^sup>*" "z \<in> set nodes" for z y
    using that
  proof (induction rule: rtrancl_induct)
    case (step y w)
    with cl have "w \<in> set nodes" "(y, w) \<in> dep g nodes" by (auto simp: dep_def metric_reads_def)
    with step show ?case by (auto intro: rtrancl_into_rtrancl)
  qed simp
  show "set c \<subseteq> scc_of g x" using cs(1) i c(2) sub unfolding sccs_ok_def scc_of_def by blast
  show "scc_of g x \<subseteq> set c"
    using scc_members [OF cs, of i x] i c(2) up [of x] up [of _ x] xN by (auto simp: scc_of_def)
qed

subsection \<open>Which cycles time breaks\<close>

definition inner_edges :: "Graph \<Rightarrow> string set \<Rightarrow> (string \<times> Edge) set" where
  "inner_edges g S = {(i, e). i \<in> S \<and> e \<in> set (edges_of g i) \<and> e_To e \<in> S}"

definition same_period :: "Graph \<Rightarrow> string set \<Rightarrow> (string \<times> string) set" where
  "same_period g S = {(i, e_To e) |i e. (i, e) \<in> inner_edges g S \<and> e_MinTimeOffset e \<le> 0 \<and> 0 \<le> e_MaxTimeOffset e}"

definition broken_by_time :: "Graph \<Rightarrow> string set \<Rightarrow> bool" where
  "broken_by_time g S \<longleftrightarrow> inner_edges g S = {} \<or>
     (\<forall>i \<in> S. g_Dimensional g i \<in> {None, Some []}) \<and>
     (\<forall>(i, e) \<in> inner_edges g S. \<not> e_UnboundedPast e \<and> \<not> e_UnboundedFuture e) \<and>
     ((\<forall>(i, e) \<in> inner_edges g S. 0 \<le> e_MinTimeOffset e) \<or> (\<forall>(i, e) \<in> inner_edges g S. e_MaxTimeOffset e \<le> 0)) \<and>
     acyclic (same_period g S)"

lemma internal_edges_set: "set (internal_edges g scc) = inner_edges g (set scc)"
  by (auto simp: internal_edges_def inner_edges_def)

lemma zero_edges_succs: "succs (zero_edges (internal_edges g scc)) = same_period g (set scc)"
  by (auto simp: succs_def zero_edges_def same_period_def internal_edges_set [symmetric] image_iff split: prod.splits)

lemma dimensional_member_None:
  "dimensional_member g scc = None \<longleftrightarrow> (\<forall>i \<in> set scc. g_Dimensional g i \<in> {None, Some []})"
proof -
  let ?P = "\<lambda>i. case g_Dimensional g i of None \<Rightarrow> False | Some fn \<Rightarrow> fn \<noteq> []"
  have iff: "?P i \<longleftrightarrow> g_Dimensional g i \<notin> {None, Some []}" for i by (simp split: option.splits)
  show ?thesis
  proof (cases "List.find ?P (sort scc)")
    case None
    then have "\<not> (\<exists>i. i \<in> set scc \<and> ?P i)" by (simp add: find_None_iff del: ex_simps)
    with None iff show ?thesis by (auto simp: dimensional_member_def)
  next
    case (Some i)
    then have "i \<in> set scc" "?P i" by (auto simp: find_Some_iff) (metis length_sort nth_mem set_sort)
    with Some iff [of i] show ?thesis by (auto simp: dimensional_member_def)
  qed
qed

lemma scc_inner_edges:
  assumes S: "set c = scc_of g x" and d: "distinct c" "c \<noteq> []"
  shows "inner_edges g (set c) = {} \<longleftrightarrow> length c = 1 \<and> \<not> list_ex (\<lambda>i. list_ex (\<lambda>e. e_To e = i) (edges_of g i)) c"
proof (cases "length c = 1")
  case True
  then obtain a where "c = [a]" by (metis One_nat_def length_0_conv length_Suc_conv)
  then show ?thesis by (auto simp: inner_edges_def list_ex_iff)
next
  case False
  with d have "\<not> card (set c) \<le> Suc 0" by (simp add: distinct_card) (metis Suc_leI le_antisym length_greater_0_conv One_nat_def)
  then obtain a b where ab: "a \<in> set c" "b \<in> set c" "a \<noteq> b" using card_le_Suc0_iff_eq [OF finite_set] by blast
  then have ab': "(a, b) \<in> (metric_reads g)\<^sup>*" "(b, a) \<in> (metric_reads g)\<^sup>*" using S by (auto simp: scc_of_def intro: rtrancl_trans)
  with ab(3) obtain z where z: "(a, z) \<in> metric_reads g" "(z, b) \<in> (metric_reads g)\<^sup>*" by (meson converse_rtranclE)
  then have "z \<in> set c" using ab ab'(2) S by (auto simp: scc_of_def intro: rtrancl_trans converse_rtrancl_into_rtrancl)
  with z(1) ab(1) have "inner_edges g (set c) \<noteq> {}" by (auto simp: inner_edges_def metric_reads_def)
  with False show ?thesis by blast
qed

text \<open>
  What a component promises a scheduler that evaluates its members period by period in its direction,
  each period in the order listed: every read of a member is earlier, in an earlier period of that
  order or before it in the same period.
\<close>

definition earlier :: "Component \<Rightarrow> string \<Rightarrow> int \<Rightarrow> string \<Rightarrow> bool" where
  "earlier c y k x \<longleftrightarrow>
     (case c_Direction c of DirectionForward \<Rightarrow> k < 0 | DirectionBackward \<Rightarrow> 0 < k | DirectionNone \<Rightarrow> False) \<or>
     k = 0 \<and> y \<in> set (takeWhile (\<lambda>z. z \<noteq> x) (c_Members c))"

definition component_ok :: "Graph \<Rightarrow> string set \<Rightarrow> Component \<Rightarrow> bool" where
  "component_ok g S c \<longleftrightarrow>
     distinct (c_Members c) \<and> set (c_Members c) = S \<and> (c_Recurrence c \<longleftrightarrow> inner_edges g S \<noteq> {}) \<and>
     (\<forall>(i, e) \<in> inner_edges g S. \<not> e_UnboundedPast e \<and> \<not> e_UnboundedFuture e \<and>
        (\<forall>k. e_MinTimeOffset e \<le> k \<and> k \<le> e_MaxTimeOffset e \<longrightarrow> earlier c (e_To e) k i))"

lemma topological_takeWhile:
  assumes "topological zero xs" "x \<in> set xs" "y \<in> set (zero x)"
  shows "y \<in> set (takeWhile (\<lambda>z. z \<noteq> x) xs)"
proof -
  from assms(2) obtain i where i: "i < length xs" "xs ! i = x" by (auto simp: in_set_conv_nth)
  have "takeWhile (\<lambda>z. z \<noteq> x) xs = take i xs"
    by (rule takeWhile_eq_take_P_nth) (use i assms(1) in \<open>auto simp: topological_def nth_eq_iff_index_eq\<close>)
  with i assms show ?thesis by (auto simp: topological_def)
qed

lemma find_edge_None: "List.find unbounded_edge ies = None \<longleftrightarrow> (\<forall>(i, e) \<in> set ies. \<not> e_UnboundedPast e \<and> \<not> e_UnboundedFuture e)"
  by (auto simp: find_None_iff unbounded_edge_def)

lemma recurrence_ok:
  assumes nu: "\<forall>(i, e) \<in> inner_edges g S. \<not> e_UnboundedPast e \<and> \<not> e_UnboundedFuture e"
    and one: "(\<forall>(i, e) \<in> inner_edges g S. 0 \<le> e_MinTimeOffset e) \<or> (\<forall>(i, e) \<in> inner_edges g S. e_MaxTimeOffset e \<le> 0)"
    and top: "topological zero order" "set order = S" and z: "succs zero = same_period g S" and ne: "inner_edges g S \<noteq> {}"
  shows "component_ok g S \<lparr>c_Members = order,
    c_Direction = (if \<exists>(i, e) \<in> inner_edges g S. 0 < e_MaxTimeOffset e then DirectionBackward else DirectionForward), c_Recurrence = True\<rparr>"
proof -
  have same: "e_To e \<in> set (takeWhile (\<lambda>z. z \<noteq> i) order)"
    if "(i, e) \<in> inner_edges g S" "e_MinTimeOffset e \<le> 0" "0 \<le> e_MaxTimeOffset e" for i e
  proof (rule topological_takeWhile [OF top(1)])
    show "i \<in> set order" using that top(2) by (auto simp: inner_edges_def)
    have "(i, e_To e) \<in> succs zero" unfolding z same_period_def using that by blast
    then show "e_To e \<in> set (zero i)" by (simp add: succs_def)
  qed
  let ?b = "\<exists>(i, e) \<in> inner_edges g S. 0 < e_MaxTimeOffset e"
  have "(if ?b then 0 < k else k < 0) \<or> k = 0 \<and> e_To e \<in> set (takeWhile (\<lambda>z. z \<noteq> i) order)"
    if ie: "(i, e) \<in> inner_edges g S" and k: "e_MinTimeOffset e \<le> k" "k \<le> e_MaxTimeOffset e" for i e k
  proof (cases "k = 0")
    case True
    with same [OF ie] k show ?thesis by simp
  next
    case False
    have "if ?b then 0 \<le> k else k \<le> 0"
    proof (cases ?b)
      case True
      then have "\<forall>(i, e) \<in> inner_edges g S. 0 \<le> e_MinTimeOffset e" using one by force
      with ie k True show ?thesis by force
    next
      case False
      with ie k show ?thesis by force
    qed
    with False show ?thesis by (simp split: if_splits)
  qed
  then have "\<forall>(i, e) \<in> inner_edges g S. \<forall>k. e_MinTimeOffset e \<le> k \<and> k \<le> e_MaxTimeOffset e \<longrightarrow>
      (if ?b then 0 < k else k < 0) \<or> k = 0 \<and> e_To e \<in> set (takeWhile (\<lambda>z. z \<noteq> i) order)" by blast
  with nu top ne show ?thesis unfolding component_ok_def earlier_def
    by (cases ?b) (auto simp: topological_def)
qed

lemma validateComponent_correct:
  assumes S: "set c = scc_of g x" and d: "distinct c" "c \<noteq> []"
  shows "if broken_by_time g (set c)
         then \<exists>comp. validateComponent g c names = Some (Inr comp) \<and> component_ok g (set c) comp
         else \<exists>err. validateComponent g c names = Some (Inl err) \<and> te_Members err = c"
proof (cases "inner_edges g (set c) = {}")
  case True
  moreover from True scc_inner_edges [OF S d] have
    "validateComponent g c names = Some (Inr \<lparr>c_Members = c, c_Direction = DirectionNone, c_Recurrence = False\<rparr>)"
    by (simp add: validateComponent_def)
  ultimately show ?thesis using d by (simp add: broken_by_time_def component_ok_def)
next
  case False
  note loop = False [unfolded scc_inner_edges [OF S d]]
  let ?I = "inner_edges g (set c)"
  have past: "list_ex (\<lambda>(_, e). e_MinTimeOffset e < 0) (internal_edges g c) \<longleftrightarrow> \<not> (\<forall>(i, e) \<in> ?I. 0 \<le> e_MinTimeOffset e)"
    and future: "list_ex (\<lambda>(_, e). 0 < e_MaxTimeOffset e) (internal_edges g c) \<longleftrightarrow> (\<exists>(i, e) \<in> ?I. 0 < e_MaxTimeOffset e)"
    by (simp_all add: list_ex_iff internal_edges_set case_prod_beta not_le)
  have z: "succs (zero_edges (internal_edges g c)) = same_period g (set c)" by (rule zero_edges_succs)
  have cl: "succs (zero_edges (internal_edges g c)) `` set c \<subseteq> set c" "Domain (succs (zero_edges (internal_edges g c))) \<subseteq> set c"
    unfolding z by (auto simp: same_period_def inner_edges_def)
  note zt = zeroTopo_correct [OF cl, of names, unfolded z]
  consider (dim) i fn where "dimensional_member g c = Some (i, fn)"
    | (unb) ie where "dimensional_member g c = None" "List.find unbounded_edge (internal_edges g c) = Some ie"
    | (rest) "dimensional_member g c = None" "List.find unbounded_edge (internal_edges g c) = None" by fastforce
  then show ?thesis
  proof cases
    case dim
    with dimensional_member_None [of g c] False have "\<not> broken_by_time g (set c)" unfolding broken_by_time_def by auto
    with dim loop show ?thesis by (auto simp: validateComponent_def dimensional_error_def)
  next
    case unb
    with find_edge_None [of "internal_edges g c"] False have "\<not> broken_by_time g (set c)"
      unfolding broken_by_time_def internal_edges_set by auto
    with unb loop show ?thesis by (auto simp: validateComponent_def unbounded_error_def)
  next
    case rest
    then have nu: "\<forall>(i, e) \<in> ?I. \<not> e_UnboundedPast e \<and> \<not> e_UnboundedFuture e"
      using find_edge_None [of "internal_edges g c"] by (simp add: internal_edges_set)
    have nd: "\<forall>i \<in> set c. g_Dimensional g i \<in> {None, Some []}" using rest dimensional_member_None by blast
    let ?one = "(\<forall>(i, e) \<in> ?I. 0 \<le> e_MinTimeOffset e) \<or> (\<forall>(i, e) \<in> ?I. e_MaxTimeOffset e \<le> 0)"
    have b: "broken_by_time g (set c) \<longleftrightarrow> ?one \<and> acyclic (same_period g (set c))"
      using False nu nd by (auto simp: broken_by_time_def)
    have one: "list_ex (\<lambda>(_, e). e_MinTimeOffset e < 0) (internal_edges g c) \<and>
        list_ex (\<lambda>(_, e). 0 < e_MaxTimeOffset e) (internal_edges g c) \<longleftrightarrow> \<not> ?one"
      unfolding past future by (simp add: case_prod_beta not_le)
    show ?thesis
    proof (cases "?one \<and> acyclic (same_period g (set c))")
      case True
      with zt obtain order where order: "zeroTopo (zero_edges (internal_edges g c)) c names = Some (Inr order)"
        "topological (zero_edges (internal_edges g c)) order" "set order = set c" by auto
      from recurrence_ok [OF nu _ order(2,3) z False] True rest loop order(1) one b show ?thesis
        unfolding validateComponent_def Let_def future by auto
    next
      case False
      with zt rest loop one b show ?thesis
        by (auto simp: validateComponent_def Let_def mixed_error_def same_period_error_def)
    qed
  qed
qed

subsection \<open>Plans\<close>

text \<open>
  A plan lists every metric the requested ones depend on once; the metrics of a component read only
  metrics of that component and of earlier ones; and each component keeps the promise of
  \<open>component_ok\<close>.
\<close>

definition plan_ok :: "Graph \<Rightarrow> string list \<Rightarrow> Component list \<Rightarrow> bool" where
  "plan_ok g ids cs \<longleftrightarrow>
     distinct (concat (map c_Members cs)) \<and> set (concat (map c_Members cs)) = (metric_reads g)\<^sup>* `` set ids \<and>
     (\<forall>i < length cs. component_ok g (set (c_Members (cs ! i))) (cs ! i) \<and>
        metric_reads g `` set (c_Members (cs ! i)) \<subseteq> set (concat (map c_Members (take (Suc i) cs))))"

lemma validate_all_correct:
  assumes "\<And>c. c \<in> set cs \<Longrightarrow> \<exists>x. set c = scc_of g x \<and> distinct c \<and> c \<noteq> []"
  shows "if \<forall>c \<in> set cs. broken_by_time g (set c)
         then \<exists>comps. validate_all g names cs = Some (Inr comps) \<and>
                list_all2 (\<lambda>c comp. component_ok g (set c) comp) cs comps
         else \<exists>err. validate_all g names cs = Some (Inl err) \<and>
                te_Members err \<in> set cs \<and> \<not> broken_by_time g (set (te_Members err))"
  using assms
proof (induction cs)
  case (Cons c cs)
  then obtain x where x: "set c = scc_of g x" "distinct c" "c \<noteq> []" by (metis list.set_intros(1))
  have IH: "if \<forall>c \<in> set cs. broken_by_time g (set c)
         then \<exists>comps. validate_all g names cs = Some (Inr comps) \<and>
                list_all2 (\<lambda>c comp. component_ok g (set c) comp) cs comps
         else \<exists>err. validate_all g names cs = Some (Inl err) \<and>
                te_Members err \<in> set cs \<and> \<not> broken_by_time g (set (te_Members err))"
    by (rule Cons.IH) (use Cons.prems in auto)
  show ?case
  proof (cases "broken_by_time g (set c)")
    case True
    with validateComponent_correct [OF x, of names] obtain comp where
      "validateComponent g c names = Some (Inr comp)" "component_ok g (set c) comp" by auto
    with IH True show ?thesis by (auto split: if_splits)
  next
    case False
    with validateComponent_correct [OF x, of names] show ?thesis by auto
  qed
qed simp

lemma concat_same_sets:
  assumes "list_all2 (\<lambda>xs ys. distinct ys \<and> set ys = set xs) xss yss"
  shows "set (concat yss) = set (concat xss)" "distinct (concat xss) \<Longrightarrow> distinct (concat yss)"
proof -
  have "set (concat yss) = set (concat xss) \<and> (distinct (concat xss) \<longrightarrow> distinct (concat yss))"
    using assms by (induction rule: list_all2_induct) auto
  then show "set (concat yss) = set (concat xss)" "distinct (concat xss) \<Longrightarrow> distinct (concat yss)" by blast+
qed

lemma Plan_cases:
  "if \<forall>x \<in> (metric_reads g)\<^sup>* `` set ids. broken_by_time g (scc_of g x)
   then \<exists>cs. Plan g ids names = Some (Inr cs) \<and> plan_ok g ids cs
   else \<exists>err x. Plan g ids names = Some (Inl err) \<and> x \<in> (metric_reads g)\<^sup>* `` set ids \<and>
          set (te_Members err) = scc_of g x \<and> \<not> broken_by_time g (scc_of g x)"
proof -
  let ?N = "plan_nodes g ids"
  have cl: "metric_reads g `` set ?N \<subseteq> set ?N" unfolding plan_nodes_set by (auto intro: rtrancl_into_rtrancl)
  from tarjan_sccs [of g ?N] obtain cs where cs: "tarjan g ?N = Some cs" "distinct (concat cs)"
    "set (concat cs) = set ?N" "sccs_ok (dep g ?N) cs" by blast
  have ne: "c \<noteq> []" if "c \<in> set cs" for c using that cs(4) by (auto simp: sccs_ok_def in_set_conv_nth)
  have scc: "set c = scc_of g x" if "c \<in> set cs" "x \<in> set c" for c x by (rule tarjan_scc_of [OF cl cs(4,2,3) that])
  have sccs: "\<exists>x. set c = scc_of g x \<and> distinct c \<and> c \<noteq> []" if "c \<in> set cs" for c
    using ne [OF that] scc [OF that] that cs(2) by (metis distinct_concat_iff hd_in_set)
  have all: "(\<forall>c \<in> set cs. broken_by_time g (set c)) \<longleftrightarrow> (\<forall>x \<in> (metric_reads g)\<^sup>* `` set ids. broken_by_time g (scc_of g x))"
    unfolding plan_nodes_set [symmetric] cs(3) [symmetric] using scc ne by (auto simp del: set_concat simp: set_concat)
  note va = validate_all_correct [of cs g names, OF sccs]
  show ?thesis
  proof (cases "\<forall>c \<in> set cs. broken_by_time g (set c)")
    case True
    with va obtain comps where
      comps: "validate_all g names cs = Some (Inr comps)" "list_all2 (\<lambda>c comp. component_ok g (set c) comp) cs comps" by auto
    have len: "length comps = length cs" using comps(2) by (simp add: list_all2_lengthD)
    have ok: "component_ok g (set (cs ! i)) (comps ! i)" if "i < length cs" for i using list_all2_nthD [OF comps(2)] that by blast
    have rel: "list_all2 (\<lambda>xs ys. distinct ys \<and> set ys = set xs) cs (map c_Members comps)"
      using comps(2) by (auto simp: list_all2_map2 component_ok_def elim: list_all2_mono)
    have pre: "set (concat (map c_Members (take k comps))) = set (concat (take k cs))" for k
      using concat_same_sets(1) [OF list_all2_takeI [OF rel], of k] by (simp add: take_map)
    have "metric_reads g `` set (cs ! i) \<subseteq> set (concat (take (Suc i) cs))" if i: "i < length cs" for i
    proof
      fix y assume "y \<in> metric_reads g `` set (cs ! i)"
      then obtain x where x: "x \<in> set (cs ! i)" "(x, y) \<in> metric_reads g" by blast
      moreover from x(1) i have "x \<in> set ?N" unfolding cs(3) [symmetric] by (auto simp: nth_mem)
      ultimately have "y \<in> set ?N" using cl by blast
      with x have "(x, y) \<in> dep g ?N" by (auto simp: dep_def metric_reads_def)
      with x(1) cs(4) i show "y \<in> set (concat (take (Suc i) cs))" unfolding sccs_ok_def by blast
    qed
    moreover have "set (c_Members (comps ! i)) = set (cs ! i)" if "i < length cs" for i
      using ok [OF that] by (simp add: component_ok_def)
    ultimately have "plan_ok g ids comps" unfolding plan_ok_def pre
      using ok len concat_same_sets [OF rel] cs(2,3) plan_nodes_set [of g ids] by simp
    with True all comps(1) cs(1) show ?thesis by (simp add: Plan_def)
  next
    case False
    with va obtain err where
      err: "validate_all g names cs = Some (Inl err)" "te_Members err \<in> set cs" "\<not> broken_by_time g (set (te_Members err))" by auto
    from ne [OF err(2)] have x: "hd (te_Members err) \<in> set (te_Members err)" by simp
    with err(2) have "hd (te_Members err) \<in> set ?N" using cs(3) by auto
    with False all err scc [OF err(2) x] cs(1) show ?thesis by (auto simp: Plan_def plan_nodes_set)
  qed
qed

subsection \<open>The order a recurrence is evaluated in\<close>

lemma axis_order_split:
  assumes "pos < n"
  obtains xs ys where "axis_order n dir = xs @ pos # ys" "pos \<notin> set xs"
    "set xs = (if dir = DirectionBackward then {pos<..<n} else {..<pos})"
proof (cases "dir = DirectionBackward")
  case True
  have "axis_order n dir = map (\<lambda>i. n - 1 - i) [0..<n - 1 - pos] @ pos # map (\<lambda>i. n - 1 - i) [n - pos..<n]"
  proof -
    have "[0..<n] = [0..<n - 1 - pos] @ (n - 1 - pos) # [n - pos..<n]"
      using upt_add_eq_append [of 0 "n - 1 - pos" "pos + 1"] assms by (simp add: upt_conv_Cons Suc_diff_Suc)
    with True assms show ?thesis by (simp add: axis_order_def)
  qed
  moreover have "set (map (\<lambda>i. n - 1 - i) [0..<n - 1 - pos]) = {pos<..<n}"
  proof -
    have "x \<in> (\<lambda>i. n - 1 - i) ` {0..<n - 1 - pos}" if "x \<in> {pos<..<n}" for x
      using that by (intro image_eqI [of _ _ "n - 1 - x"]) auto
    then show ?thesis by auto
  qed
  ultimately show ?thesis using that [of "map (\<lambda>i. n - 1 - i) [0..<n - 1 - pos]"] True by auto
next
  case False
  have "[0..<n] = [0..<pos] @ pos # [Suc pos..<n]"
    using assms upt_add_eq_append [of 0 pos "n - pos"] by (simp add: upt_conv_Cons)
  with False have "axis_order n dir = [0..<pos] @ pos # [Suc pos..<n]" by (simp add: axis_order_def)
  with that [of "[0..<pos]"] False show ?thesis by (auto simp: atLeast0LessThan)
qed

lemma takeWhile_pairs: "takeWhile (\<lambda>p. p \<noteq> (m, k)) (map (\<lambda>m. (m, k)) ms) = map (\<lambda>m. (m, k)) (takeWhile (\<lambda>z. z \<noteq> m) ms)"
  by (induction ms) auto

lemma recurrence_steps_before:
  assumes "m \<in> set (c_Members c)" "pos < n" and z: "z \<in> set (c_Members c)" "int q = int pos + k" "q < n"
    and e: "earlier c z k m"
  shows "(z, q) \<in> set (takeWhile (\<lambda>p. p \<noteq> (m, pos)) (recurrence_steps n c))"
proof -
  let ?b = "\<lambda>pos. map (\<lambda>m. (m, pos)) (c_Members c)"
  obtain xs ys where xs: "axis_order n (c_Direction c) = xs @ pos # ys" "pos \<notin> set xs"
    "set xs = (if c_Direction c = DirectionBackward then {pos<..<n} else {..<pos})" using axis_order_split [OF assms(2)] by metis
  have steps: "recurrence_steps n c = concat (map ?b xs) @ ?b pos @ concat (map ?b ys)" by (simp add: recurrence_steps_def xs(1))
  have "(m, pos) \<notin> set (concat (map ?b xs))" using xs(2) by auto
  then have pre: "takeWhile (\<lambda>p. p \<noteq> (m, pos)) (concat (map ?b xs)) = concat (map ?b xs)" by (auto intro: takeWhile_eq_all_conv [THEN iffD2])
  have "(m, pos) \<in> set (?b pos)" using assms(1) by auto
  then have "takeWhile (\<lambda>p. p \<noteq> (m, pos)) (recurrence_steps n c) =
      concat (map ?b xs) @ takeWhile (\<lambda>p. p \<noteq> (m, pos)) (?b pos)"
    unfolding steps using \<open>(m, pos) \<notin> _\<close> by (subst takeWhile_append2) (auto simp: takeWhile_append1)
  then have before: "set (takeWhile (\<lambda>p. p \<noteq> (m, pos)) (recurrence_steps n c)) =
      (\<Union>p \<in> set xs. set (?b p)) \<union> (\<lambda>m. (m, pos)) ` set (takeWhile (\<lambda>z. z \<noteq> m) (c_Members c))"
    by (simp only: takeWhile_pairs set_append set_concat set_map) auto
  show ?thesis
  proof (cases "k = 0")
    case True
    with e have "z \<in> set (takeWhile (\<lambda>z. z \<noteq> m) (c_Members c))" by (simp add: earlier_def split: Direction.splits)
    moreover have "q = pos" using True z(2) by simp
    ultimately show ?thesis unfolding before by blast
  next
    case False
    with e z(2,3) have "q \<in> set xs" unfolding xs(3) by (auto simp: earlier_def split: Direction.splits)
    with z(1) show ?thesis unfolding before by auto
  qed
qed

subsection \<open>Properties\<close>

definition demo_previous :: Edge where
  "demo_previous = \<lparr>e_To = ''closing'', e_MinTimeOffset = -1, e_MaxTimeOffset = -1, e_UnboundedPast = False, e_UnboundedFuture = False\<rparr>"

definition demo_graph :: Graph where
  "demo_graph = \<lparr>g_Edges =
     [(''closing'', [\<lparr>e_To = ''opening'', e_MinTimeOffset = 0, e_MaxTimeOffset = 0, e_UnboundedPast = False, e_UnboundedFuture = False\<rparr>,
                    \<lparr>e_To = ''sales'', e_MinTimeOffset = 0, e_MaxTimeOffset = 0, e_UnboundedPast = False, e_UnboundedFuture = False\<rparr>]),
      (''opening'', [demo_previous])],
     g_Dimensional = Map.empty\<rparr>"

definition demo_cycle :: Component where
  "demo_cycle = \<lparr>c_Members = [''opening'', ''closing''], c_Direction = DirectionForward, c_Recurrence = True\<rparr>"

definition demo_plan :: "Component list" where
  "demo_plan = [\<lparr>c_Members = [''sales''], c_Direction = DirectionNone, c_Recurrence = False\<rparr>, demo_cycle]"

lemma demo_tarjan: "tarjan demo_graph [''opening'', ''closing'', ''sales''] = Some [[''sales''], [''opening'', ''closing'']]"
  by code_simp

lemma demo_plan: "Plan demo_graph [''closing''] Map.empty = Some (Inr demo_plan)"
  by code_simp

text \<open>
  C17. \<open>tarjan\<close> ends on every graph and set of nodes, and gives a partition of the nodes into their
  strongly connected components, dependencies first: the members of a component reach each other and
  no other node both ways, and a component's edges lead into it or into earlier components.
\<close>

theorem tarjan_components:
  "\<exists>cs. tarjan g nodes = Some cs \<and> distinct (concat cs) \<and> set (concat cs) = set nodes \<and>
     (\<forall>i < length cs. cs ! i \<noteq> [] \<and>
        (\<forall>x \<in> set (cs ! i). set (cs ! i) = {y. (x, y) \<in> (dep g nodes)\<^sup>* \<and> (y, x) \<in> (dep g nodes)\<^sup>*}) \<and>
        dep g nodes `` set (cs ! i) \<subseteq> set (concat (take (Suc i) cs)))"
proof -
  from tarjan_sccs [of g nodes] obtain cs where cs: "tarjan g nodes = Some cs" "distinct (concat cs)"
    "set (concat cs) = set nodes" "sccs_ok (dep g nodes) cs" by blast
  have "set (cs ! i) = {y. (x, y) \<in> (dep g nodes)\<^sup>* \<and> (y, x) \<in> (dep g nodes)\<^sup>*}" if i: "i < length cs" "x \<in> set (cs ! i)" for i x
  proof
    show "set (cs ! i) \<subseteq> {y. (x, y) \<in> (dep g nodes)\<^sup>* \<and> (y, x) \<in> (dep g nodes)\<^sup>*}"
      using cs(4) i unfolding sccs_ok_def by blast
    have "x \<in> set nodes" using i unfolding cs(3) [symmetric] by (auto simp: nth_mem)
    then show "{y. (x, y) \<in> (dep g nodes)\<^sup>* \<and> (y, x) \<in> (dep g nodes)\<^sup>*} \<subseteq> set (cs ! i)"
      using scc_members [OF cs(4,2,3)] i by blast
  qed
  with cs show ?thesis unfolding sccs_ok_def by blast
qed

theorem tarjan_components_witness:
  "\<exists>cs. tarjan demo_graph [''opening'', ''closing'', ''sales''] = Some cs \<and>
     dep demo_graph [''opening'', ''closing'', ''sales''] `` set (cs ! 1) \<subseteq> set (concat (take 2 cs)) \<and> cs ! 1 = [''opening'', ''closing'']"
proof -
  from tarjan_components [of demo_graph "[''opening'', ''closing'', ''sales'']"] obtain cs where
    cs: "tarjan demo_graph [''opening'', ''closing'', ''sales''] = Some cs"
      "\<And>i. i < length cs \<Longrightarrow> dep demo_graph [''opening'', ''closing'', ''sales''] `` set (cs ! i) \<subseteq> set (concat (take (Suc i) cs))" by blast
  moreover from cs(1) have "length cs = 2" "cs ! 1 = [''opening'', ''closing'']" unfolding demo_tarjan by auto
  ultimately show ?thesis using cs(2) [of 1] by (metis One_nat_def Suc_1 lessI)
qed

text \<open>
  C2. A plan succeeds exactly when time breaks every cycle among the metrics the requested ones depend
  on: no member of the cycle reads along a dimension, no edge in it is unbounded, its edges do not
  point both ways in time, and its edges that may stay within a period form no cycle. It then lists
  every such metric once, dependencies first, each component in an order that evaluates what it reads
  before it. Otherwise the error names one strongly connected component that time does not break.
\<close>

theorem Plan_correct:
  "if \<forall>x \<in> (metric_reads g)\<^sup>* `` set ids. broken_by_time g (scc_of g x)
   then \<exists>cs. Plan g ids names = Some (Inr cs) \<and> plan_ok g ids cs
   else \<exists>err x. Plan g ids names = Some (Inl err) \<and> x \<in> (metric_reads g)\<^sup>* `` set ids \<and>
          set (te_Members err) = scc_of g x \<and> \<not> broken_by_time g (scc_of g x)"
  by (rule Plan_cases)

theorem Plan_correct_witness: "plan_ok demo_graph [''closing''] demo_plan"
  using Plan_correct [of demo_graph "[''closing'']" Map.empty] unfolding demo_plan by (auto split: if_splits)

text \<open>
  C7. A planned recurrence is causal: when its members are evaluated period by period in its direction,
  each period in its order, every value one of them reads from a member at an offset the edge allows
  is computed before the reader.
\<close>

theorem recurrence_causal:
  assumes "Plan g ids names = Some (Inr cs)" "c \<in> set cs" "m \<in> set (c_Members c)" "pos < n"
    and "e \<in> set (edges_of g m)" "e_To e \<in> set (c_Members c)" "e_MinTimeOffset e \<le> k" "k \<le> e_MaxTimeOffset e"
    and "int q = int pos + k" "q < n"
  shows "(e_To e, q) \<in> set (takeWhile (\<lambda>p. p \<noteq> (m, pos)) (recurrence_steps n c))"
proof -
  from Plan_cases [of g ids names] assms(1) have "plan_ok g ids cs" by (auto split: if_splits)
  with assms(2) have "component_ok g (set (c_Members c)) c" by (auto simp: plan_ok_def in_set_conv_nth)
  moreover have "(m, e) \<in> inner_edges g (set (c_Members c))" using assms(3,5,6) by (simp add: inner_edges_def)
  ultimately have "earlier c (e_To e) k m" using assms(7,8) unfolding component_ok_def by blast
  with assms(3,4,6,9,10) show ?thesis by (intro recurrence_steps_before)
qed

theorem recurrence_causal_witness:
  "(e_To demo_previous, 1) \<in> set (takeWhile (\<lambda>p. p \<noteq> (''opening'', 2)) (recurrence_steps 3 demo_cycle))"
  by (rule recurrence_causal [OF demo_plan, where k = "-1"])
    (simp_all add: demo_plan_def demo_cycle_def demo_graph_def demo_previous_def edges_of_def)

end
