(* ===== verification/TimeAxis.thy ===== *)
theory TimeAxis
  imports DimContext PlanOrder
begin

text \<open>
  The time axis of a metric and the reductions over its leaves (\<open>timeAxis\<close>, \<open>TimeSummary\<close>,
  \<open>summarizeOverTime\<close>, \<open>subtreeCodes\<close> and \<open>leafIndex\<close> of \<open>internal/calculation/timeseries.go\<close>, and
  \<open>leafrows.go\<close>).

  A value of the interface \<open>leafRows\<close> is the record of its three methods. A period of the axis is its
  code, at its position; its dates are read by the time functions only. A Go map with a set of codes is
  the list of the codes in the order the code put them in; where the code ranges over such a map and
  sorts, the order does not matter.
\<close>

subsection \<open>Leaves\<close>

record CalcResultRow =
  row_DimMembers :: combo
  row_Value :: f64
  row_Text :: "string option"

record leafRows =
  lr_Len :: nat
  lr_Member :: "nat \<Rightarrow> string \<Rightarrow> string option"
  lr_Value :: "nat \<Rightarrow> f64"

definition resultRows :: "CalcResultRow list \<Rightarrow> leafRows" where
  "resultRows rows = \<lparr>lr_Len = length rows, lr_Member = (\<lambda>i. map_of (row_DimMembers (rows ! i))), lr_Value = (\<lambda>i. row_Value (rows ! i))\<rparr>"

definition subRows :: "leafRows \<Rightarrow> nat list \<Rightarrow> leafRows" where
  "subRows base idx = \<lparr>lr_Len = length idx, lr_Member = (\<lambda>i. lr_Member base (idx ! i)), lr_Value = (\<lambda>i. lr_Value base (idx ! i))\<rparr>"

definition member_code :: "leafRows \<Rightarrow> nat \<Rightarrow> string \<Rightarrow> string" where
  "member_code leaves i d = (case lr_Member leaves i d of None \<Rightarrow> [] | Some code \<Rightarrow> code)"

subsection \<open>The axis\<close>

record timeAxis =
  ax_dim :: Dimension
  ax_periods :: "string list"
  ax_index :: "string \<rightharpoonup> nat"

definition axis_of :: "Dimension \<Rightarrow> timeAxis" where
  "axis_of d =
     (let codes = map m_Code (sort_key m_TimeIndex (filter IsLeafPeriod (d_Members d)))
      in \<lparr>ax_dim = d, ax_periods = codes, ax_index = map_of (rev (zip codes [0..<length codes]))\<rparr>)"

definition multiple_time_dimensions :: string where
  "multiple_time_dimensions = ''MULTIPLE_TIME_DIMENSIONS: metric is dimensioned by more than one time dimension''"

fun timeAxis_loop :: "dimensions \<Rightarrow> timeAxis option \<Rightarrow> string list \<Rightarrow> string + timeAxis option" where
  "timeAxis_loop dims axis [] = Inr axis"
| "timeAxis_loop dims axis (i # dimIDs) =
     (case dims i of
        None \<Rightarrow> timeAxis_loop dims axis dimIDs
      | Some d \<Rightarrow>
          if \<not> d_IsTime d then timeAxis_loop dims axis dimIDs
          else (case axis of Some _ \<Rightarrow> Inl multiple_time_dimensions
                | None \<Rightarrow> timeAxis_loop dims (Some (axis_of d)) dimIDs))"

definition timeAxisFor :: "dimensions \<Rightarrow> string list \<Rightarrow> string + timeAxis option" where
  "timeAxisFor dims dimIDs = timeAxis_loop dims None dimIDs"

definition nonTimeDims :: "timeAxis \<Rightarrow> string list \<Rightarrow> string list" where
  "nonTimeDims a dimIDs = filter (\<lambda>i. i \<noteq> d_ID (ax_dim a)) dimIDs"

subsection \<open>Subtrees, breadth first\<close>

definition kids :: "Member list \<Rightarrow> string \<Rightarrow> string list" where
  "kids ms c = map m_Code (filter (\<lambda>m. m_ParentCode m \<noteq> [] \<and> m_ParentCode m = c) ms)"

definition visit_child :: "string list \<times> string list \<Rightarrow> string \<Rightarrow> string list \<times> string list" where
  "visit_child oq child = (case oq of (found, queue) \<Rightarrow> if child \<in> set found then (found, queue) else (found @ [child], queue @ [child]))"

lemma visit_child_simp:
  "visit_child (found, queue) c = (if c \<in> set found then (found, queue) else (found @ [c], queue @ [c]))"
  by (simp add: visit_child_def)

lemma visit_children:
  assumes "foldl visit_child (found, queue) cs = (found', queue')"
  shows "\<exists>new. found' = found @ new \<and> queue' = queue @ new \<and> distinct new \<and> set new = set cs - set found"
  using assms
proof (induction cs arbitrary: found queue)
  case (Cons c cs)
  show ?case
  proof (cases "c \<in> set found")
    case True
    with Cons show ?thesis by (auto simp: visit_child_simp insert_absorb)
  next
    case False
    with Cons.prems have "foldl visit_child (found @ [c], queue @ [c]) cs = (found', queue')" by (simp add: visit_child_simp)
    from Cons.IH [OF this] obtain new where "found' = (found @ [c]) @ new" "queue' = (queue @ [c]) @ new" "distinct new"
      "set new = set cs - set (found @ [c])" by blast
    with False show ?thesis by (intro exI [of _ "c # new"]) auto
  qed
qed simp

lemma kids_codes: "set (kids ms c) \<subseteq> m_Code ` set ms"
  by (auto simp: kids_def)

function subtree_bfs :: "Member list \<Rightarrow> string list \<Rightarrow> string list \<Rightarrow> string list" where
  "subtree_bfs ms found [] = found"
| "subtree_bfs ms found (c # queue) =
     (case foldl visit_child (found, queue) (kids ms c) of (found', queue') \<Rightarrow> subtree_bfs ms found' queue')"
  by pat_completeness auto
termination
proof (relation "measures [\<lambda>(ms, found, _). card (m_Code ` set ms - set found), \<lambda>(_, _, queue). length queue]")
  fix ms found c queue found' queue'
  assume "(found', queue') = foldl visit_child (found, queue) (kids ms c)"
  from visit_children [OF this [symmetric]] obtain new where new: "found' = found @ new" "queue' = queue @ new"
    "set new = set (kids ms c) - set found" by blast
  show "((ms, found', queue'), (ms, found, c # queue)) \<in>
      measures [\<lambda>(ms, found, _). card (m_Code ` set ms - set found), \<lambda>(_, _, queue). length queue]"
  proof (cases "new = []")
    case False
    then obtain x where "x \<in> set new" by (cases new) auto
    with new(3) kids_codes [of ms c] have "x \<in> m_Code ` set ms - set found" by auto
    with \<open>x \<in> set new\<close> new(1) have "m_Code ` set ms - set found' \<subset> m_Code ` set ms - set found" by auto
    then show ?thesis by (simp add: psubset_card_mono)
  qed (use new in simp)
qed simp

definition subtreeCodes :: "Dimension option \<Rightarrow> string \<Rightarrow> string list" where
  "subtreeCodes d code = (case d of None \<Rightarrow> [code] | Some d \<Rightarrow> subtree_bfs (d_Members d) [code] [code])"

function subtree_pop :: "Member list \<Rightarrow> string list \<Rightarrow> string list \<Rightarrow> string list" where
  "subtree_pop ms found [] = found"
| "subtree_pop ms found (c # queue) =
     (if c \<in> set found then subtree_pop ms found queue else subtree_pop ms (found @ [c]) (queue @ kids ms c))"
  by pat_completeness auto
termination
proof (relation "measures [\<lambda>(ms, found, queue). card ((set queue \<union> m_Code ` set ms) - set found), \<lambda>(_, _, queue). length queue]", goal_cases)
  case (2 ms found c queue)
  then have "(set (c # queue) \<union> m_Code ` set ms) - set found = (set queue \<union> m_Code ` set ms) - set found" by auto
  then show ?case by simp
next
  case (3 ms found c queue)
  have "(set (queue @ kids ms c) \<union> m_Code ` set ms) - set (found @ [c]) \<subset> (set (c # queue) \<union> m_Code ` set ms) - set found"
    using 3 kids_codes [of ms c] by auto
  then show ?case by (simp add: psubset_card_mono del: set_append)
qed simp

subsection \<open>Positions\<close>

definition leafPositions :: "timeAxis \<Rightarrow> string \<Rightarrow> nat list" where
  "leafPositions a code =
     (case ax_index a code of
        Some pos \<Rightarrow> [pos]
      | None \<Rightarrow> sort (List.map_filter (ax_index a) (subtreeCodes (Some (ax_dim a)) code)))"

definition axis_span :: "timeAxis \<Rightarrow> string \<Rightarrow> (nat \<times> nat) option" where
  "axis_span a code = (let ps = leafPositions a code in if ps = [] then None else Some (hd ps, last ps))"

subsection \<open>Reducing over time\<close>

definition TimeSummary :: "string \<Rightarrow> f64 list \<Rightarrow> f64 \<times> bool" where
  "TimeSummary rule vals =
     (if vals = [] then (Fin 0, rule \<noteq> ''none'')
      else if rule = ''none'' then (Fin 0, False)
      else if rule = ''average'' then (fdiv (fsum vals) (f64_of_int (int (length vals))), True)
      else if rule = ''min'' then (fmin_list vals, True)
      else if rule = ''max'' then (fmax_list vals, True)
      else if rule = ''first'' then (hd vals, True)
      else if rule = ''last'' then (last vals, True)
      else (fsum vals, True))"

definition TimeSummaryOver :: "string \<Rightarrow> f64 list \<Rightarrow> nat \<Rightarrow> f64 \<times> bool" where
  "TimeSummaryOver rule vals periods =
     (if periods = 1 \<and> length vals = 1 then (hd vals, True)
      else if rule = ''average'' \<and> vals \<noteq> [] then (CombineTimeOver vals periods ''average'', True)
      else TimeSummary rule vals)"

definition usesTimeSeries :: "platform \<Rightarrow> string \<Rightarrow> bool" where
  "usesTimeSeries pl formulaText = (case Analyze pl formulaText of Inl _ \<Rightarrow> False | Inr an \<Rightarrow> usesTime an)"

definition add_leaf :: "leafRows \<Rightarrow> timeAxis \<Rightarrow> (string \<times> string list) list \<Rightarrow> (nat \<times> f64 list) list \<Rightarrow> nat \<Rightarrow> (nat \<times> f64 list) list" where
  "add_leaf leaves axis subtrees perPeriod i =
     (case ax_index axis (member_code leaves i (d_ID (ax_dim axis))) of
        None \<Rightarrow> perPeriod
      | Some pos \<Rightarrow>
          if list_all (\<lambda>(d, codes). member_code leaves i d \<in> set codes) subtrees
          then AList.map_default pos [lr_Value leaves i] (\<lambda>vs. vs @ [lr_Value leaves i]) perPeriod
          else perPeriod)"

fun period_values :: "(nat \<rightharpoonup> f64 list) \<Rightarrow> string \<Rightarrow> string list option \<Rightarrow> (nat \<times> string) list \<Rightarrow> f64 list \<Rightarrow> nat \<Rightarrow> (f64 list \<times> nat) option" where
  "period_values perPeriod aggRule own [] vals periods = Some (vals, periods)"
| "period_values perPeriod aggRule own ((pos, code) # ps) vals periods =
     (if (case own of None \<Rightarrow> False | Some codes \<Rightarrow> code \<notin> set codes)
      then period_values perPeriod aggRule own ps vals periods
      else (case perPeriod pos of
              None \<Rightarrow> period_values perPeriod aggRule own ps vals (periods + 1)
            | Some v \<Rightarrow>
                if \<not> Aggregates aggRule \<and> 1 < length v then None
                else period_values perPeriod aggRule own ps (vals @ [CombineAgg v aggRule]) (periods + 1)))"

definition summarizeOverTime :: "leafRows \<Rightarrow> timeAxis \<Rightarrow> string \<Rightarrow> string \<Rightarrow> (string \<times> string list) list \<Rightarrow> f64 \<times> bool" where
  "summarizeOverTime leaves axis aggRule timeSummaryRule subtrees =
     (let perPeriod = foldl (add_leaf leaves axis subtrees) [] [0..<lr_Len leaves]
      in if perPeriod = [] then (Fin 0, False)
         else case period_values (map_of perPeriod) aggRule (map_of subtrees (d_ID (ax_dim axis)))
                     (List.enumerate 0 (ax_periods axis)) [] 0 of
                None \<Rightarrow> (Fin 0, False)
              | Some (vals, periods) \<Rightarrow> TimeSummaryOver timeSummaryRule vals periods)"

subsection \<open>The index of the leaves\<close>

record leafIndex =
  li_byPos :: "nat \<Rightarrow> nat list"
  li_byMember :: "string \<Rightarrow> string \<Rightarrow> nat \<Rightarrow> nat list"

definition row_code :: "CalcResultRow \<Rightarrow> string \<Rightarrow> string" where
  "row_code r d = pinned_code (row_DimMembers r) d"

definition index_leaf :: "timeAxis \<Rightarrow> string list \<Rightarrow> leafIndex \<Rightarrow> nat \<times> CalcResultRow \<Rightarrow> leafIndex" where
  "index_leaf axis nonTime idx ir =
     (case ir of (i, r) \<Rightarrow>
        (case ax_index axis (row_code r (d_ID (ax_dim axis))) of
           None \<Rightarrow> idx
         | Some pos \<Rightarrow>
             \<lparr>li_byPos = (li_byPos idx)(pos := li_byPos idx pos @ [i]),
              li_byMember = foldl (\<lambda>m d. m(d := (m d)(row_code r d := (m d (row_code r d))(pos := m d (row_code r d) pos @ [i]))))
                (li_byMember idx) nonTime\<rparr>))"

definition newLeafIndex :: "CalcResultRow list \<Rightarrow> timeAxis \<Rightarrow> string list \<Rightarrow> leafIndex" where
  "newLeafIndex leaf axis dimIDs =
     foldl (index_leaf axis (nonTimeDims axis dimIDs)) \<lparr>li_byPos = (\<lambda>_. []), li_byMember = (\<lambda>_ _ _. [])\<rparr> (List.enumerate 0 leaf)"

definition under_member :: "leafIndex \<Rightarrow> string \<Rightarrow> string list \<Rightarrow> nat \<Rightarrow> nat \<Rightarrow> bool" where
  "under_member idx d codes pos i = list_ex (\<lambda>c. i \<in> set (li_byMember idx d c pos)) codes"

definition index_rows :: "leafIndex \<Rightarrow> combo \<Rightarrow> nat \<Rightarrow> (string \<Rightarrow> string \<Rightarrow> string list) \<Rightarrow> nat list" where
  "index_rows idx pins pos subOf =
     (case sortedKeys pins of
        [] \<Rightarrow> li_byPos idx pos
      | first # rest \<Rightarrow>
          (let lists = filter (\<lambda>l. l \<noteq> []) (map (\<lambda>c. li_byMember idx first c pos) (subOf first (pinned_code pins first)));
               out1 = (if 1 < length lists then sort (concat lists) else concat lists)
           in filter (\<lambda>i. list_all (\<lambda>d. under_member idx d (subOf d (pinned_code pins d)) pos i) rest) out1))"

subsection \<open>The three subtree walks agree\<close>

lemma kids_child_of: "c' \<in> set (kids ms c) \<longleftrightarrow> (c, c') \<in> child_of ms"
  by (auto simp: kids_def child_of_def)

lemma subtree_bfs_reach:
  assumes "set queue \<subseteq> set found" "distinct found"
    "\<And>x y. x \<in> set found \<Longrightarrow> x \<notin> set queue \<Longrightarrow> (x, y) \<in> child_of ms \<Longrightarrow> y \<in> set found"
  shows "set (subtree_bfs ms found queue) = (child_of ms)\<^sup>* `` set found \<and> distinct (subtree_bfs ms found queue)"
  using assms
proof (induction ms found queue rule: subtree_bfs.induct)
  case (1 ms found)
  then have "child_of ms `` set found \<subseteq> set found" by auto
  with 1 show ?case by (simp add: Image_closed_trancl)
next
  case (2 ms found c queue)
  obtain found' queue' where d: "foldl visit_child (found, queue) (kids ms c) = (found', queue')" by fastforce
  from visit_children [OF d] obtain new where new: "found' = found @ new" "queue' = queue @ new" "distinct new"
    "set new = set (kids ms c) - set found" by blast
  have f: "set found' = set found \<union> child_of ms `` {c}" using new kids_child_of [of _ ms c] by auto
  have "set (subtree_bfs ms found' queue') = (child_of ms)\<^sup>* `` set found' \<and> distinct (subtree_bfs ms found' queue')"
  proof (rule "2.IH" [OF d [symmetric]])
    show "y \<in> set found'" if "x \<in> set found'" "x \<notin> set queue'" "(x, y) \<in> child_of ms" for x y
      using that "2.prems"(3) [of x y] f new(1,2) by (cases "x = c") auto
  qed (use "2.prems" new in auto)
  moreover have "(child_of ms)\<^sup>* `` set found' = (child_of ms)\<^sup>* `` set found"
    unfolding f using "2.prems"(1) by (auto intro: converse_rtrancl_into_rtrancl)
  ultimately show ?case using d by simp
qed

lemma subtreeCodes_reach:
  "set (subtreeCodes (Some d) code) = (child_of (d_Members d))\<^sup>* `` {code}" "distinct (subtreeCodes (Some d) code)"
  using subtree_bfs_reach [of "[code]" "[code]" "d_Members d"] by (simp_all add: subtreeCodes_def)

lemma subtree_pop_reach:
  assumes "distinct found" "\<And>x y. x \<in> set found \<Longrightarrow> (x, y) \<in> child_of ms \<Longrightarrow> y \<in> set found \<union> set queue"
  shows "set (subtree_pop ms found queue) = (child_of ms)\<^sup>* `` (set found \<union> set queue) \<and> distinct (subtree_pop ms found queue)"
  using assms
proof (induction ms found queue rule: subtree_pop.induct)
  case (1 ms found)
  then have "child_of ms `` set found \<subseteq> set found" by auto
  with 1 show ?case by (simp add: Image_closed_trancl)
next
  case (2 ms found c queue)
  show ?case
  proof (cases "c \<in> set found")
    case True
    with 2 show ?thesis by (auto simp: insert_absorb)
  next
    case False
    have "set (subtree_pop ms (found @ [c]) (queue @ kids ms c)) = (child_of ms)\<^sup>* `` (set (found @ [c]) \<union> set (queue @ kids ms c)) \<and>
        distinct (subtree_pop ms (found @ [c]) (queue @ kids ms c))"
      by (rule "2.IH"(2) [OF False]) (use "2.prems" False kids_child_of in fastforce)+
    moreover have "(child_of ms)\<^sup>* `` (set (found @ [c]) \<union> set (queue @ kids ms c)) = (child_of ms)\<^sup>* `` (set found \<union> set (c # queue))"
      by (auto simp: kids_child_of intro: converse_rtrancl_into_rtrancl) (meson ImageI converse_rtrancl_into_rtrancl insertI1)
    ultimately show ?thesis using False by simp
  qed
qed

subsection \<open>Reading leaves through the interface\<close>

definition same_rows :: "leafRows \<Rightarrow> leafRows \<Rightarrow> bool" where
  "same_rows a b \<longleftrightarrow> lr_Len a = lr_Len b \<and> (\<forall>i < lr_Len a. lr_Member a i = lr_Member b i \<and> lr_Value a i = lr_Value b i)"

text \<open>The values of the leaves at a position that lie in every subtree given, in the order of the leaves.\<close>

definition values_at :: "leafRows \<Rightarrow> timeAxis \<Rightarrow> (string \<times> string list) list \<Rightarrow> nat \<Rightarrow> f64 list" where
  "values_at leaves axis subtrees pos =
     map (lr_Value leaves) (filter (\<lambda>i. ax_index axis (member_code leaves i (d_ID (ax_dim axis))) = Some pos \<and>
       list_all (\<lambda>(d, codes). member_code leaves i d \<in> set codes) subtrees) [0..<lr_Len leaves])"

definition own_positions :: "timeAxis \<Rightarrow> string list option \<Rightarrow> nat list" where
  "own_positions axis own =
     filter (\<lambda>pos. case own of None \<Rightarrow> True | Some codes \<Rightarrow> ax_periods axis ! pos \<in> set codes) [0..<length (ax_periods axis)]"

lemma add_leaf_map_of:
  assumes "i = n" "\<And>pos. map_of acc pos = (let vs = map (lr_Value leaves) (filter (P pos) [0..<n]) in if vs = [] then None else Some vs)"
    and P: "\<And>pos i. P pos i \<longleftrightarrow> ax_index axis (member_code leaves i (d_ID (ax_dim axis))) = Some pos \<and>
       list_all (\<lambda>(d, codes). member_code leaves i d \<in> set codes) subtrees"
  shows "map_of (add_leaf leaves axis subtrees acc n) pos =
    (let vs = map (lr_Value leaves) (filter (P pos) [0..<Suc n]) in if vs = [] then None else Some vs)"
proof (cases "\<exists>p. P p n")
  case False
  then have "add_leaf leaves axis subtrees acc n = acc" unfolding P add_leaf_def by (auto split: option.splits)
  with False assms(2) show ?thesis by simp
next
  case True
  then obtain p where p: "P p n" by blast
  have only: "P q n \<longleftrightarrow> q = p" for q using p unfolding P by auto
  have "add_leaf leaves axis subtrees acc n = AList.map_default p [lr_Value leaves n] (\<lambda>vs. vs @ [lr_Value leaves n]) acc"
    using p unfolding P add_leaf_def by simp
  then show ?thesis using assms(2) [of p] assms(2) [of pos] only [of pos]
    by (auto simp: map_of_map_default Let_def split: option.splits if_splits)
qed

lemma per_period_map_of:
  "map_of (foldl (add_leaf leaves axis subtrees) [] [0..<lr_Len leaves]) pos =
     (let vs = values_at leaves axis subtrees pos in if vs = [] then None else Some vs)"
proof -
  let ?P = "\<lambda>pos i. ax_index axis (member_code leaves i (d_ID (ax_dim axis))) = Some pos \<and>
       list_all (\<lambda>(d, codes). member_code leaves i d \<in> set codes) subtrees"
  have "map_of (foldl (add_leaf leaves axis subtrees) [] [0..<n]) pos =
      (let vs = map (lr_Value leaves) (filter (?P pos) [0..<n]) in if vs = [] then None else Some vs)" for n pos
  proof (induction n arbitrary: pos)
    case (Suc n)
    from add_leaf_map_of [of n n _ leaves ?P axis subtrees, OF refl Suc.IH refl] show ?case by simp
  qed simp
  then show ?thesis by (simp add: values_at_def)
qed

lemma period_values_spec:
  assumes "\<And>pos. perPeriod pos = (if vs pos = [] then None else Some (vs pos))"
  shows "period_values perPeriod aggRule own ps vals periods =
    (let keep = filter (\<lambda>(pos, code). case own of None \<Rightarrow> True | Some codes \<Rightarrow> code \<in> set codes) ps
     in if \<not> Aggregates aggRule \<and> (\<exists>p \<in> set keep. 1 < length (vs (fst p))) then None
        else Some (vals @ map (\<lambda>p. CombineAgg (vs (fst p)) aggRule) (filter (\<lambda>p. vs (fst p) \<noteq> []) keep), periods + length keep))"
proof (induction ps arbitrary: vals periods)
  case (Cons p ps)
  obtain pos code where p: "p = (pos, code)" by fastforce
  note IH = Cons.IH [unfolded Let_def]
  let ?in = "case own of None \<Rightarrow> True | Some codes \<Rightarrow> code \<in> set codes"
  show ?case
  proof (cases ?in)
    case False
    then have "(case own of None \<Rightarrow> False | Some codes \<Rightarrow> code \<notin> set codes)" by (auto split: option.splits)
    with False IH show ?thesis unfolding p Let_def by (simp; blast)
  next
    case True
    then have i: "\<not> (case own of None \<Rightarrow> False | Some codes \<Rightarrow> code \<notin> set codes)" by (auto split: option.splits)
    show ?thesis
    proof (cases "vs pos = []")
      case True
      with \<open>?in\<close> i IH show ?thesis unfolding p Let_def by (simp add: assms; blast)
    next
      case False
      with \<open>?in\<close> i IH show ?thesis unfolding p Let_def by (simp add: assms; blast)
    qed
  qed
qed simp

text \<open>
  C21. \<open>summarizeOverTime\<close> is its contract: the leaves in the given subtrees, combined per period by the
  aggregation rule in the order of the leaves, then the periods with a value reduced by the time
  summary over all the periods the subtree of the time dimension holds. There is no result without a
  leaf, and none under the rule none when a period has two values.
\<close>

theorem summarizeOverTime_spec:
  "summarizeOverTime leaves axis aggRule timeSummaryRule subtrees =
     (let vs = values_at leaves axis subtrees; ps = own_positions axis (map_of subtrees (d_ID (ax_dim axis)))
      in if (\<forall>pos. vs pos = []) \<or> \<not> Aggregates aggRule \<and> (\<exists>pos \<in> set ps. 1 < length (vs pos)) then (Fin 0, False)
         else TimeSummaryOver timeSummaryRule (map (\<lambda>pos. CombineAgg (vs pos) aggRule) (filter (\<lambda>pos. vs pos \<noteq> []) ps)) (length ps))"
proof -
  let ?pp = "foldl (add_leaf leaves axis subtrees) [] [0..<lr_Len leaves]" and ?vs = "values_at leaves axis subtrees"
  let ?own = "map_of subtrees (d_ID (ax_dim axis))"
  have m: "map_of ?pp pos = (if ?vs pos = [] then None else Some (?vs pos))" for pos
    using per_period_map_of [of leaves axis subtrees pos] by (simp add: Let_def)
  have e: "?pp = [] \<longleftrightarrow> (\<forall>pos. ?vs pos = [])"
  proof
    assume "\<forall>pos. ?vs pos = []"
    then have "map_of ?pp = Map.empty" using m by (intro ext) simp
    then show "?pp = []" by simp
  qed (use m in \<open>metis map_of.simps(1) option.distinct(1)\<close>)
  let ?f = "\<lambda>(pos, code). case ?own of None \<Rightarrow> True | Some codes \<Rightarrow> code \<in> set codes"
  have k: "map fst (filter ?f (List.enumerate 0 (ax_periods axis))) = own_positions axis ?own"
  proof -
    have "List.enumerate 0 (ax_periods axis) = map (\<lambda>pos. (pos, ax_periods axis ! pos)) [0..<length (ax_periods axis)]"
      by (rule nth_equalityI) (simp_all add: nth_enumerate_eq)
    then show ?thesis by (simp add: own_positions_def filter_map o_def map_idI)
  qed
  define ks where "ks = filter ?f (List.enumerate 0 (ax_periods axis))"
  have "(\<exists>p \<in> set ks. 1 < length (?vs (fst p))) \<longleftrightarrow> (\<exists>pos \<in> set (own_positions axis ?own). 1 < length (?vs pos))"
    unfolding k [symmetric] ks_def by force
  moreover have "map (\<lambda>p. CombineAgg (?vs (fst p)) aggRule) (filter (\<lambda>p. ?vs (fst p) \<noteq> []) ks) =
      map (\<lambda>pos. CombineAgg (?vs pos) aggRule) (filter (\<lambda>pos. ?vs pos \<noteq> []) (own_positions axis ?own))"
    unfolding k [symmetric] ks_def by (simp add: filter_map o_def)
  moreover have "length ks = length (own_positions axis ?own)" unfolding k [symmetric] ks_def by simp
  ultimately show ?thesis
    unfolding summarizeOverTime_def Let_def e period_values_spec [of "map_of ?pp" ?vs, OF m, unfolded Let_def] ks_def [symmetric] by simp
qed

lemma values_at_same: "same_rows a b \<Longrightarrow> values_at a axis subtrees = values_at b axis subtrees"
  unfolding values_at_def same_rows_def
  by (rule ext) (auto simp: member_code_def intro!: map_cong filter_cong)

subsection \<open>The index is the scan\<close>

definition at_pos :: "timeAxis \<Rightarrow> CalcResultRow list \<Rightarrow> nat \<Rightarrow> nat \<Rightarrow> bool" where
  "at_pos axis leaf pos i \<longleftrightarrow> ax_index axis (row_code (leaf ! i) (d_ID (ax_dim axis))) = Some pos"

definition index_ok :: "timeAxis \<Rightarrow> CalcResultRow list \<Rightarrow> string list \<Rightarrow> nat \<Rightarrow> leafIndex \<Rightarrow> bool" where
  "index_ok axis leaf nonTime n idx \<longleftrightarrow>
     (\<forall>pos. li_byPos idx pos = filter (at_pos axis leaf pos) [0..<n]) \<and>
     (\<forall>d \<in> set nonTime. \<forall>c pos. li_byMember idx d c pos = filter (\<lambda>i. at_pos axis leaf pos i \<and> row_code (leaf ! i) d = c) [0..<n])"

lemma fold_member:
  assumes "distinct ds"
  shows "foldl (\<lambda>m d. m(d := (m d)(k d := (m d (k d))(pos := m d (k d) pos @ [i])))) f ds d c p =
    (if d \<in> set ds \<and> c = k d \<and> p = pos then f d c p @ [i] else f d c p)"
  using assms by (induction ds arbitrary: f) (auto split: if_splits)

lemma index_leaf_ok:
  assumes "index_ok axis leaf nonTime n idx" "distinct nonTime" "n < length leaf"
  shows "index_ok axis leaf nonTime (Suc n) (index_leaf axis nonTime idx (n, leaf ! n))"
proof (cases "ax_index axis (row_code (leaf ! n) (d_ID (ax_dim axis)))")
  case None
  then have "\<not> at_pos axis leaf pos n" for pos by (simp add: at_pos_def)
  with None assms(1) show ?thesis by (simp add: index_ok_def index_leaf_def)
next
  case (Some p)
  then have "at_pos axis leaf pos n \<longleftrightarrow> pos = p" for pos by (auto simp: at_pos_def)
  with Some assms(1) show ?thesis
    by (auto simp: index_ok_def index_leaf_def fold_member [OF assms(2)])
qed

lemma newLeafIndex_ok:
  assumes "distinct dimIDs"
  shows "index_ok axis leaf (nonTimeDims axis dimIDs) (length leaf) (newLeafIndex leaf axis dimIDs)"
proof -
  let ?nt = "nonTimeDims axis dimIDs" and ?e = "\<lparr>li_byPos = (\<lambda>_. []), li_byMember = (\<lambda>_ _ _. [])\<rparr>"
  have d: "distinct ?nt" using assms by (simp add: nonTimeDims_def)
  have "index_ok axis leaf ?nt n (foldl (index_leaf axis ?nt) ?e (take n (List.enumerate 0 leaf)))" if "n \<le> length leaf" for n
    using that
  proof (induction n)
    case (Suc n)
    then have "take (Suc n) (List.enumerate 0 leaf) = take n (List.enumerate 0 leaf) @ [(n, leaf ! n)]"
      by (simp add: take_Suc_conv_app_nth nth_enumerate_eq)
    with Suc index_leaf_ok [OF _ d] show ?case by simp
  qed (simp add: index_ok_def)
  from this [of "length leaf"] show ?thesis by (simp add: newLeafIndex_def)
qed

lemma sort_concat_filters:
  assumes "distinct cs" "\<And>c c' i. P c i \<Longrightarrow> P c' i \<Longrightarrow> c = c'"
  shows "sort (concat (map (\<lambda>c. filter (P c) [0..<n]) cs)) = filter (\<lambda>i. \<exists>c \<in> set cs. P c i) [0..<n]"
proof (rule sorted_distinct_set_unique)
  show "distinct (sort (concat (map (\<lambda>c. filter (P c) [0..<n]) cs)))"
    using assms(1)
  proof (induction cs)
    case (Cons c cs)
    have "c' = c" if "P c i" "P c' i" for i c' using assms(2) that by blast
    with Cons show ?case by auto
  qed simp
  show "sorted (filter (\<lambda>i. \<exists>c \<in> set cs. P c i) [0..<n])" by (rule sorted_wrt_filter) simp
qed (auto simp: sorted_wrt_filter)

lemma concat_nonempty: "concat (filter (\<lambda>l. l \<noteq> []) ls) = concat ls"
  by (induction ls) auto

lemma concat_one_sorted:
  assumes "\<not> 1 < length (filter (\<lambda>l. l \<noteq> []) ls)" "\<And>l. l \<in> set ls \<Longrightarrow> sorted l"
  shows "concat (filter (\<lambda>l. l \<noteq> []) ls) = sort (concat ls)"
proof -
  have "sorted (concat (filter (\<lambda>l. l \<noteq> []) ls))"
  proof (cases "filter (\<lambda>l. l \<noteq> []) ls")
    case (Cons l rest)
    with assms(1) have one: "filter (\<lambda>l. l \<noteq> []) ls = [l]" by (cases rest) auto
    then have "l \<in> set (filter (\<lambda>l. l \<noteq> []) ls)" by simp
    then have "sorted l" using assms(2) by simp
    with one show ?thesis by simp
  qed simp
  then show ?thesis by (simp add: concat_nonempty sorted_sort_id)
qed

text \<open>
  C24. A leaf index answers as a scan of the leaves: the rows at a period under every pinned member, in
  the order of the leaves. The dimensions are distinct, the pins are on the metric's other dimensions
  than time, and a subtree lists each code once, as \<open>subtreeCodes\<close> does.
\<close>

theorem leafIndex_scan:
  assumes "distinct dimIDs" "fst ` set pins \<subseteq> set (nonTimeDims axis dimIDs)" "\<And>d c. distinct (subOf d c)"
  shows "index_rows (newLeafIndex leaf axis dimIDs) pins pos subOf =
    filter (\<lambda>i. at_pos axis leaf pos i \<and> (\<forall>d \<in> fst ` set pins. row_code (leaf ! i) d \<in> set (subOf d (pinned_code pins d)))) [0..<length leaf]"
proof -
  let ?idx = "newLeafIndex leaf axis dimIDs"
  note ok = newLeafIndex_ok [OF assms(1), of axis leaf, unfolded index_ok_def]
  have keys: "set (sortedKeys pins) = fst ` set pins" by (simp add: sortedKeys_def)
  show ?thesis
  proof (cases "sortedKeys pins")
    case Nil
    with keys ok show ?thesis by (simp add: index_rows_def)
  next
    case (Cons first rest)
    let ?cs = "subOf first (pinned_code pins first)" and ?P = "\<lambda>c i. at_pos axis leaf pos i \<and> row_code (leaf ! i) first = c"
    have mem: "li_byMember ?idx d c pos = filter (\<lambda>i. at_pos axis leaf pos i \<and> row_code (leaf ! i) d = c) [0..<length leaf]"
      if "d \<in> fst ` set pins" for d c using ok assms(2) that by blast
    have first: "first \<in> fst ` set pins" and rest: "\<And>d. d \<in> set rest \<Longrightarrow> d \<in> fst ` set pins" using keys Cons by auto
    let ?ls = "map (\<lambda>c. li_byMember ?idx first c pos) ?cs"
    have "sorted l" if "l \<in> set ?ls" for l using that by (auto simp: mem [OF first] sorted_wrt_filter)
    then have "(let lists = filter (\<lambda>l. l \<noteq> []) ?ls in if 1 < length lists then sort (concat lists) else concat lists) = sort (concat ?ls)"
      using concat_one_sorted [of ?ls] by (simp add: Let_def concat_nonempty)
    also have "\<dots> = filter (\<lambda>i. \<exists>c \<in> set ?cs. ?P c i) [0..<length leaf]"
      unfolding mem [OF first] by (rule sort_concat_filters [OF assms(3)]) auto
    finally have out: "(let lists = filter (\<lambda>l. l \<noteq> []) ?ls in if 1 < length lists then sort (concat lists) else concat lists) =
        filter (\<lambda>i. \<exists>c \<in> set ?cs. ?P c i) [0..<length leaf]" .
    have under: "under_member ?idx d codes pos i \<longleftrightarrow> at_pos axis leaf pos i \<and> row_code (leaf ! i) d \<in> set codes"
      if "d \<in> set rest" "i < length leaf" for d codes i
      using that by (auto simp: under_member_def list_ex_iff mem [OF rest])
    have all: "fst ` set pins = insert first (set rest)" using keys Cons by auto
    show ?thesis unfolding index_rows_def Cons list.case
      using out by (auto simp: Let_def all under list_all_iff intro!: filter_cong)
  qed
qed

definition demo_time :: Dimension where
  "demo_time = \<lparr>d_ID = ''time'', d_ParentDimensionID = [], d_SourceDimensionID = [], d_SourceProperty = [],
     d_Members = [\<lparr>m_ID = ''1'', m_Code = ''Y1'', m_ParentCode = [], m_Properties = [], m_TimeIndex = - 1\<rparr>,
       \<lparr>m_ID = ''2'', m_Code = ''M1'', m_ParentCode = ''Y1'', m_Properties = [], m_TimeIndex = 0\<rparr>,
       \<lparr>m_ID = ''3'', m_Code = ''M2'', m_ParentCode = ''Y1'', m_Properties = [], m_TimeIndex = 1\<rparr>],
     d_IsTime = True, d_Calculated = []\<rparr>"

definition demo_leaves :: "CalcResultRow list" where
  "demo_leaves = map (\<lambda>(c, p, v). \<lparr>row_DimMembers = [(''region'', c), (''time'', p)], row_Value = v, row_Text = None\<rparr>)
     [(''EMEA'', ''M1'', Fin 1), (''EMEA'', ''M2'', Fin 2), (''APAC'', ''M2'', Fin 3)]"

theorem leafIndex_scan_witness:
  "index_rows (newLeafIndex demo_leaves (axis_of demo_time) [''region'', ''time'']) [(''region'', ''World'')] 1 (\<lambda>d. subtreeCodes (Some demo_region)) = [1, 2] \<and>
   filter (\<lambda>i. at_pos (axis_of demo_time) demo_leaves 1 i \<and>
     (\<forall>d \<in> fst ` set [(''region'', ''World'')]. row_code (demo_leaves ! i) d \<in> set (subtreeCodes (Some demo_region) (pinned_code [(''region'', ''World'')] d))))
     [0..<length demo_leaves] = [1, 2]"
proof -
  have "index_rows (newLeafIndex demo_leaves (axis_of demo_time) [''region'', ''time'']) [(''region'', ''World'')] 1 (\<lambda>d. subtreeCodes (Some demo_region)) = [1, 2]"
    by code_simp
  moreover have "fst ` set [(''region'', ''World'')] \<subseteq> set (nonTimeDims (axis_of demo_time) [''region'', ''time''])"
    by (simp add: nonTimeDims_def axis_of_def demo_time_def Let_def)
  ultimately show ?thesis
    using leafIndex_scan [of "[''region'', ''time'']" "[(''region'', ''World'')]" "axis_of demo_time" "\<lambda>d. subtreeCodes (Some demo_region)" demo_leaves 1]
      subtreeCodes_reach(2) by auto
qed

end
