(* ===== verification/Targets.thy ===== *)
theory Targets
  imports TimeAxis
begin

text \<open>
  Which metrics a recalculation calculates (\<open>AffectedMetricIDs\<close>, \<open>withDependencyFree\<close> and the target lists of
  \<open>RecalcAffected\<close>, \<open>RecalcAffectedCells\<close> and \<open>RecalcFromAllInputs\<close> in \<open>internal/calculation/scheduler.go\<close>).
  The map of definitions is the list of its entries in the order the code ranges over it.
\<close>

type_synonym metric_defs = "(string \<times> MetricDef) list"

definition reverse_deps :: "metric_defs \<Rightarrow> string \<Rightarrow> string list" where
  "reverse_deps defs i = concat (map (\<lambda>(x, d). map (\<lambda>_. x) (filter (\<lambda>y. y = i) (f_DependsOnID d))) defs)"

lemma reverse_ids: "set (reverse_deps defs i) \<subseteq> fst ` set defs"
  by (force simp: reverse_deps_def)

function affected_bfs :: "metric_defs \<Rightarrow> string list \<Rightarrow> string list \<Rightarrow> string list" where
  "affected_bfs defs affected [] = affected"
| "affected_bfs defs affected (cur # queue) =
     (case foldl visit_child (affected, queue) (reverse_deps defs cur) of (affected', queue') \<Rightarrow> affected_bfs defs affected' queue')"
  by pat_completeness auto
termination
proof (relation "measures [\<lambda>(defs, found, _). card (fst ` set defs - set found), \<lambda>(_, _, queue). length queue]")
  fix defs found c queue found' queue'
  assume "(found', queue') = foldl visit_child (found, queue) (reverse_deps defs c)"
  from visit_children [OF this [symmetric]] obtain new where new: "found' = found @ new" "queue' = queue @ new"
    "set new = set (reverse_deps defs c) - set found" by blast
  show "((defs, found', queue'), (defs, found, c # queue)) \<in>
      measures [\<lambda>(defs, found, _). card (fst ` set defs - set found), \<lambda>(_, _, queue). length queue]"
  proof (cases "new = []")
    case False
    then obtain x where "x \<in> set new" by (cases new) auto
    with new(3) reverse_ids [of defs c] have "x \<in> fst ` set defs - set found" by auto
    with \<open>x \<in> set new\<close> new(1) have "fst ` set defs - set found' \<subset> fst ` set defs - set found" by auto
    then show ?thesis by (simp add: psubset_card_mono)
  qed (use new in simp)
qed simp

definition AffectedMetricIDs :: "metric_defs \<Rightarrow> string list \<Rightarrow> string list" where
  "AffectedMetricIDs defs changedInputIDs = affected_bfs defs [] changedInputIDs"

definition withDependencyFree :: "metric_defs \<Rightarrow> string list \<Rightarrow> string list" where
  "withDependencyFree defs affected =
     affected @ map fst (filter (\<lambda>(i, d). \<not> (f_IsInput d \<or> f_DependsOnID d \<noteq> [] \<or> i \<in> set affected) \<and> TrimSpace (f_Formula d) \<noteq> []) defs)"

definition affected_targets :: "metric_defs \<Rightarrow> string list \<Rightarrow> string list" where
  "affected_targets defs changedInputIDs = withDependencyFree defs (AffectedMetricIDs defs changedInputIDs)"

text \<open>The metrics of the written cells, each once, in the order they first appear.\<close>

definition cell_inputs :: "string list \<Rightarrow> string list" where
  "cell_inputs metricIDs = rev (remdups (rev metricIDs))"

definition all_inputs_targets :: "metric_defs \<Rightarrow> string list \<Rightarrow> string list" where
  "all_inputs_targets defs inputIDs =
     (let ids = withDependencyFree defs (AffectedMetricIDs defs inputIDs);
          free = filter (\<lambda>i. case map_of defs i of None \<Rightarrow> False | Some d \<Rightarrow> f_DependsOnID d = []) ids
      in foldl (\<lambda>acc i. if i \<in> set acc then acc else acc @ [i]) ids (AffectedMetricIDs defs free))"

subsection \<open>What the walk finds\<close>

definition dependents_of :: "metric_defs \<Rightarrow> (string \<times> string) set" where
  "dependents_of defs = {(y, x). \<exists>d. (x, d) \<in> set defs \<and> y \<in> set (f_DependsOnID d)}"

definition free_metrics :: "metric_defs \<Rightarrow> string set" where
  "free_metrics defs = {x. \<exists>d. (x, d) \<in> set defs \<and> \<not> f_IsInput d \<and> f_DependsOnID d = [] \<and> TrimSpace (f_Formula d) \<noteq> []}"

lemma reverse_dependents: "set (reverse_deps defs i) = dependents_of defs `` {i}"
  by (force simp: reverse_deps_def dependents_of_def)

lemma affected_bfs_found:
  assumes "distinct found" and closed: "\<And>x y. x \<in> set found \<Longrightarrow> x \<notin> set queue \<Longrightarrow> (x, y) \<in> dependents_of defs \<Longrightarrow> y \<in> set found"
  shows "distinct (affected_bfs defs found queue) \<and> set found \<subseteq> set (affected_bfs defs found queue) \<and>
    set (affected_bfs defs found queue) \<subseteq> set found \<union> (dependents_of defs)\<^sup>+ `` set queue \<and>
    dependents_of defs `` (set (affected_bfs defs found queue) \<union> set queue) \<subseteq> set (affected_bfs defs found queue)"
  using assms
proof (induction defs found queue rule: affected_bfs.induct)
  case (2 defs found c queue)
  obtain found' queue' where d: "foldl visit_child (found, queue) (reverse_deps defs c) = (found', queue')" by fastforce
  from visit_children [OF d] obtain new where new: "found' = found @ new" "queue' = queue @ new" "distinct new"
    "set new = dependents_of defs `` {c} - set found" unfolding reverse_dependents by blast
  let ?S = "affected_bfs defs found' queue'"
  have dist: "distinct found'" using "2.prems"(1) new by auto
  have closed': "y \<in> set found'" if "x \<in> set found'" "x \<notin> set queue'" "(x, y) \<in> dependents_of defs" for x y
    using that "2.prems"(2) [of x y] new by (cases "x = c") auto
  have "distinct ?S \<and> set found' \<subseteq> set ?S \<and> set ?S \<subseteq> set found' \<union> (dependents_of defs)\<^sup>+ `` set queue' \<and>
      dependents_of defs `` (set ?S \<union> set queue') \<subseteq> set ?S"
    by (rule "2.IH" [OF d [symmetric] dist]) (rule closed')
  then have IH: "distinct ?S" "set found' \<subseteq> set ?S" "set ?S \<subseteq> set found' \<union> (dependents_of defs)\<^sup>+ `` set queue'"
    "dependents_of defs `` (set ?S \<union> set queue') \<subseteq> set ?S" by blast+
  have "(dependents_of defs)\<^sup>+ `` set queue' \<subseteq> (dependents_of defs)\<^sup>+ `` set (c # queue)"
    using new(2,4) by (auto intro: trancl_into_trancl2)
  moreover have "set found' \<subseteq> set found \<union> (dependents_of defs)\<^sup>+ `` set (c # queue)" using new(1,4) by auto
  ultimately have "set ?S \<subseteq> set found \<union> (dependents_of defs)\<^sup>+ `` set (c # queue)" using IH(3) by blast
  moreover have "dependents_of defs `` (set ?S \<union> set (c # queue)) \<subseteq> set ?S" using IH(2,4) new by auto
  ultimately show ?case using IH(1,2) d new(1) by auto
qed auto

lemma AffectedMetricIDs_set:
  "set (AffectedMetricIDs defs changedIDs) = (dependents_of defs)\<^sup>+ `` set changedIDs" "distinct (AffectedMetricIDs defs changedIDs)"
proof -
  let ?S = "set (AffectedMetricIDs defs changedIDs)"
  have f: "distinct (AffectedMetricIDs defs changedIDs)" "?S \<subseteq> (dependents_of defs)\<^sup>+ `` set changedIDs" "dependents_of defs `` (?S \<union> set changedIDs) \<subseteq> ?S"
    using affected_bfs_found [of "[]" changedIDs defs] by (auto simp: AffectedMetricIDs_def)
  have "y \<in> ?S" if "(x, y) \<in> (dependents_of defs)\<^sup>+" "x \<in> set changedIDs" for x y
    using that by (induction rule: trancl_induct) (use f(3) in auto)
  with f show "?S = (dependents_of defs)\<^sup>+ `` set changedIDs" "distinct (AffectedMetricIDs defs changedIDs)" by auto
qed

text \<open>
  C18. A recalculation reaches exactly the metrics the change reaches: the walk of \<open>AffectedMetricIDs\<close> over the reversed
  dependencies gives every metric that reads a changed one, directly or through any number of others, once each and no other metric,
  also where the dependencies form a cycle (a recurrence).
\<close>

theorem AffectedMetricIDs_exact:
  "set (AffectedMetricIDs defs changedIDs) = (dependents_of defs)\<^sup>+ `` set changedIDs \<and> distinct (AffectedMetricIDs defs changedIDs)"
  using AffectedMetricIDs_set by simp

lemma append_new_set: "set (foldl (\<lambda>acc i. if i \<in> set acc then acc else acc @ [i]) acc xs) = set acc \<union> set xs"
  by (induction xs arbitrary: acc) auto

lemma affected_depends:
  assumes "distinct (map fst defs)" "i \<in> set (AffectedMetricIDs defs cs)" "(i, d) \<in> set defs"
  shows "f_DependsOnID d \<noteq> []"
proof -
  from assms(2) obtain x where "(x, i) \<in> (dependents_of defs)\<^sup>+" unfolding AffectedMetricIDs_set(1) by auto
  then obtain y where "(y, i) \<in> dependents_of defs" by (rule tranclE)
  then obtain d' where d': "(i, d') \<in> set defs" "y \<in> set (f_DependsOnID d')" by (auto simp: dependents_of_def)
  have "d' = d" by (rule eq_key_imp_eq_value [OF assms(1) d'(1) assms(3)])
  with d'(2) show ?thesis by auto
qed

text \<open>
  C19. The metrics \<open>RecalcFromAllInputs\<close> asks a pass for, after all inputs changed, are exactly those that an input reaches, those
  that depend on nothing but have a formula, and those that read one of these at any distance. These are the requested targets: to
  calculate them the plan of the pass adds the metrics they depend on (\<open>closure\<close>).
\<close>

theorem all_inputs_exact:
  assumes "distinct (map fst defs)"
  shows "set (all_inputs_targets defs inputIDs) = (dependents_of defs)\<^sup>+ `` set inputIDs \<union> (dependents_of defs)\<^sup>* `` free_metrics defs"
proof -
  let ?ids = "withDependencyFree defs (AffectedMetricIDs defs inputIDs)"
  let ?free = "filter (\<lambda>i. case map_of defs i of None \<Rightarrow> False | Some d \<Rightarrow> f_DependsOnID d = []) ?ids"
  have look: "map_of defs i = Some d \<longleftrightarrow> (i, d) \<in> set defs" for i d using assms by simp
  note deps = affected_depends [OF assms, of _ inputIDs]
  have names: "i \<in> fst ` {x \<in> set defs. P x} \<longleftrightarrow> (\<exists>d. (i, d) \<in> set defs \<and> P (i, d))" for i P by force
  have ids: "set ?ids = set (AffectedMetricIDs defs inputIDs) \<union> free_metrics defs"
    by (auto simp: withDependencyFree_def free_metrics_def names dest: deps)
  have "i \<in> set ?free \<longleftrightarrow> i \<in> set ?ids \<and> (\<exists>d. (i, d) \<in> set defs \<and> f_DependsOnID d = [])" for i
    by (auto simp: look [symmetric] split: option.splits)
  then have free: "set ?free = free_metrics defs"
    unfolding ids by (auto simp: free_metrics_def dest: deps)
  have "set (all_inputs_targets defs inputIDs) = set ?ids \<union> set (AffectedMetricIDs defs ?free)"
    by (simp add: all_inputs_targets_def Let_def append_new_set)
  then show ?thesis unfolding ids AffectedMetricIDs_set(1) free by (auto simp: rtrancl_eq_or_trancl)
qed

definition target_defs :: metric_defs where
  "target_defs =
     [(''in'', demo_def\<lparr>f_DependsOnID := []\<rparr>), (''m1'', demo_def\<lparr>f_IsInput := False, f_Formula := ''COUNTIFS(region)'', f_DependsOnID := []\<rparr>),
      (''m2'', demo_def\<lparr>f_IsInput := False, f_DependsOnID := [''m1'']\<rparr>), (''m3'', demo_def\<lparr>f_IsInput := False, f_DependsOnID := [''in'', ''m3'']\<rparr>)]"

theorem all_inputs_exact_witness:
  "all_inputs_targets target_defs [''in''] = [''m3'', ''m1'', ''m2''] \<and>
   set [''m3'', ''m1'', ''m2''] = (dependents_of target_defs)\<^sup>+ `` {''in''} \<union> (dependents_of target_defs)\<^sup>* `` free_metrics target_defs"
proof -
  have e: "all_inputs_targets target_defs [''in''] = [''m3'', ''m1'', ''m2'']" by code_simp
  have "distinct (map fst target_defs)" by (simp add: target_defs_def)
  from all_inputs_exact [OF this, of "[''in'']"] e show ?thesis by simp
qed

end
