(* ===== verification/Workers.thy ===== *)
theory Workers
  imports DimContext PlanOrder
begin

text \<open>
  The workers of a pass (\<open>runComponents\<close> in \<open>internal/calculation/scheduler.go\<close>): components run on a
  few goroutines, each once the components it reads have finished.

  A step is what one worker does between two points where another may interfere: receive from the
  channel, ask for the writer lock, get a lock, run the component and unlock, release its dependents
  under the mutex, leave the loop of a closed and drained channel. The channel is the list of what it holds; its capacity is the number of
  components. A reader lock is given when no worker holds the writer lock; Go may make it wait longer,
  for a writer that has asked. \<open>w_log\<close> is what happened, in order; no step reads it.
\<close>

subsection \<open>The plan of a pass\<close>

text \<open>The graph a pass plans over (\<open>recalcPass\<close>).\<close>

definition pass_graph :: "platform \<Rightarrow> (string \<rightharpoonup> MetricDef) \<Rightarrow> string list \<Rightarrow> Graph" where
  "pass_graph pl defs ids =
     foldl (\<lambda>g i. case defs i of Some d \<Rightarrow> graph_SetMetric pl g i (f_DependsOn d) (f_Formula d) | None \<Rightarrow> g) NewGraph ids"

subsection \<open>What waits for what\<close>

definition owner :: "Component list \<Rightarrow> string \<rightharpoonup> nat" where
  "owner comps = map_of (rev (concat (map (\<lambda>(i, c). map (\<lambda>m. (m, i)) (c_Members c)) (enumerate 0 comps))))"

definition component_reads :: "(string \<rightharpoonup> MetricDef) \<Rightarrow> Component \<Rightarrow> string list" where
  "component_reads defs c =
     concat (map (\<lambda>m. case defs m of None \<Rightarrow> [] | Some d \<Rightarrow> f_DependsOnID d @ [f_AggNumeratorID d, f_AggDenominatorID d]) (c_Members c))"

definition waits_for :: "(string \<rightharpoonup> MetricDef) \<Rightarrow> Component list \<Rightarrow> nat \<Rightarrow> nat list" where
  "waits_for defs comps i =
     foldl (\<lambda>seen r. case owner comps r of None \<Rightarrow> seen | Some j \<Rightarrow> if i \<le> j \<or> j \<in> set seen then seen else seen @ [j])
       [] (component_reads defs (comps ! i))"

record jobs =
  jb_count :: nat
  jb_waits :: "nat \<Rightarrow> nat list"
  jb_large :: "nat \<Rightarrow> bool"

definition component_jobs :: "(string \<rightharpoonup> MetricDef) \<Rightarrow> Component list \<Rightarrow> (Component \<Rightarrow> bool) \<Rightarrow> jobs" where
  "component_jobs defs comps large =
     \<lparr>jb_count = length comps, jb_waits = waits_for defs comps, jb_large = (\<lambda>i. large (comps ! i))\<rparr>"

definition dependents :: "jobs \<Rightarrow> nat \<Rightarrow> nat list" where
  "dependents jb j = filter (\<lambda>i. j \<in> set (jb_waits jb i)) [0..<jb_count jb]"

definition large_component :: "(string \<rightharpoonup> MetricDef) \<Rightarrow> dimensions \<Rightarrow> (string \<Rightarrow> string list) \<Rightarrow> int \<Rightarrow> Component \<Rightarrow> bool" where
  "large_component defs dims metricDimIDs leanCellsAt cp =
     (let large = \<lambda>i. i \<noteq> [] \<and> metricDimIDs i \<noteq> [] \<and> leanCellsAt \<le> LeafComboCount dims (metricDimIDs i)
      in list_ex (\<lambda>i. case defs i of
                        None \<Rightarrow> False
                      | Some d \<Rightarrow> \<not> f_IsInput d \<and> (large i \<or> large (f_AggNumeratorID d) \<or> large (f_AggDenominatorID d) \<or>
                                                  list_ex large (f_DependsOnID d)))
           (c_Members cp))"

definition passWorkers :: "int option \<Rightarrow> int" where
  "passWorkers maxConns = (case maxConns of None \<Rightarrow> 1 | Some k \<Rightarrow> max 1 (min 4 (k - 2)))"

subsection \<open>The workers\<close>

datatype worker = Receiving | Took nat | Pending nat | Working nat | Leaving nat | Exited

datatype job_event = JobStart nat | JobEnd nat | JobReleased nat

record run_state =
  w_waiting :: "nat \<Rightarrow> int"
  w_ready :: "nat list"
  w_closed :: bool
  w_left :: nat
  w_worker :: "nat \<Rightarrow> worker"
  w_log :: "job_event list"

definition run_start :: "jobs \<Rightarrow> nat \<Rightarrow> run_state" where
  "run_start jb workers = \<lparr>w_waiting = (\<lambda>i. int (length (jb_waits jb i))),
     w_ready = filter (\<lambda>i. jb_waits jb i = []) [0..<jb_count jb], w_closed = False, w_left = jb_count jb,
     w_worker = (\<lambda>k. if k < workers then Receiving else Exited), w_log = []\<rparr>"

definition release_one :: "(nat \<Rightarrow> int) \<times> nat list \<Rightarrow> nat \<Rightarrow> (nat \<Rightarrow> int) \<times> nat list" where
  "release_one wr d = (case wr of (wt, ready) \<Rightarrow> (wt(d := wt d - 1), if wt d - 1 = 0 then ready @ [d] else ready))"

definition complete :: "jobs \<Rightarrow> nat \<Rightarrow> run_state \<Rightarrow> run_state" where
  "complete jb i s =
     (case foldl release_one (w_waiting s, w_ready s) (dependents jb i) of (wt, ready) \<Rightarrow>
        s\<lparr>w_waiting := wt, w_ready := ready, w_left := w_left s - 1, w_closed := (w_closed s \<or> w_left s - 1 = 0),
          w_log := w_log s @ [JobReleased i]\<rparr>)"

definition set_worker :: "nat \<Rightarrow> worker \<Rightarrow> run_state \<Rightarrow> run_state" where
  "set_worker k p s = s\<lparr>w_worker := (w_worker s)(k := p)\<rparr>"

definition begin_job :: "nat \<Rightarrow> nat \<Rightarrow> run_state \<Rightarrow> run_state" where
  "begin_job k i s = (set_worker k (Working i) s)\<lparr>w_log := w_log s @ [JobStart i]\<rparr>"

definition end_job :: "nat \<Rightarrow> nat \<Rightarrow> run_state \<Rightarrow> run_state" where
  "end_job k i s = (set_worker k (Leaving i) s)\<lparr>w_log := w_log s @ [JobEnd i]\<rparr>"

inductive run_step :: "jobs \<Rightarrow> run_state \<Rightarrow> run_state \<Rightarrow> bool" for jb where
  receive: "w_worker s k = Receiving \<Longrightarrow> w_ready s = i # rest \<Longrightarrow> run_step jb s (set_worker k (Took i) (s\<lparr>w_ready := rest\<rparr>))"
| ask_lock: "w_worker s k = Took i \<Longrightarrow> jb_large jb i \<Longrightarrow> run_step jb s (set_worker k (Pending i) s)"
| lock: "w_worker s k = Pending i \<Longrightarrow> (\<And>k' j. w_worker s k' \<noteq> Working j) \<Longrightarrow> run_step jb s (begin_job k i s)"
| rlock: "w_worker s k = Took i \<Longrightarrow> \<not> jb_large jb i \<Longrightarrow> (\<And>k' j. w_worker s k' = Working j \<Longrightarrow> \<not> jb_large jb j) \<Longrightarrow>
    run_step jb s (begin_job k i s)"
| unlock: "w_worker s k = Working i \<Longrightarrow> run_step jb s (end_job k i s)"
| release: "w_worker s k = Leaving i \<Longrightarrow> run_step jb s (set_worker k Receiving (complete jb i s))"
| exit_loop: "w_worker s k = Receiving \<Longrightarrow> w_ready s = [] \<Longrightarrow> w_closed s \<Longrightarrow> run_step jb s (set_worker k Exited s)"

inductive run_reach :: "jobs \<Rightarrow> nat \<Rightarrow> run_state \<Rightarrow> bool" for jb workers where
  run_init: "run_reach jb workers (run_start jb workers)"
| run_next: "run_reach jb workers s \<Longrightarrow> run_step jb s s' \<Longrightarrow> run_reach jb workers s'"

definition jobs_ok :: "jobs \<Rightarrow> bool" where
  "jobs_ok jb \<longleftrightarrow> 0 < jb_count jb \<and> (\<forall>i < jb_count jb. distinct (jb_waits jb i) \<and> set (jb_waits jb i) \<subseteq> {..<i})"

fun held :: "worker \<Rightarrow> nat option" where
  "held (Took i) = Some i"
| "held (Pending i) = Some i"
| "held (Working i) = Some i"
| "held (Leaving i) = Some i"
| "held _ = None"

definition released :: "run_state \<Rightarrow> nat set" where
  "released s = {i. JobReleased i \<in> set (w_log s)}"

definition in_hand :: "run_state \<Rightarrow> nat set" where
  "in_hand s = {i. \<exists>k. held (w_worker s k) = Some i}"

definition ordered_log :: "jobs \<Rightarrow> job_event list \<Rightarrow> bool" where
  "ordered_log jb evs \<longleftrightarrow> (\<forall>i l1 l2. evs = l1 @ JobStart i # l2 \<longrightarrow> JobEnd ` set (jb_waits jb i) \<subseteq> set l1)"

lemma ordered_snoc:
  assumes "ordered_log jb evs" "\<And>i. e = JobStart i \<Longrightarrow> JobEnd ` set (jb_waits jb i) \<subseteq> set evs"
  shows "ordered_log jb (evs @ [e])"
  unfolding ordered_log_def
proof (intro allI impI)
  fix i l1 l2 assume eq: "evs @ [e] = l1 @ JobStart i # l2"
  show "JobEnd ` set (jb_waits jb i) \<subseteq> set l1"
  proof (cases l2 rule: rev_cases)
    case Nil
    with eq have "e = JobStart i" "evs = l1" by auto
    with assms(2) show ?thesis by auto
  next
    case (snoc ys y)
    with eq have "evs = l1 @ JobStart i # ys" by (metis append.assoc append_Cons butlast_snoc)
    with assms(1) show ?thesis unfolding ordered_log_def by blast
  qed
qed

text \<open>Where every component is: not yet released, in the channel, in a worker's hand, or released.\<close>

definition places_ok :: "jobs \<Rightarrow> run_state \<Rightarrow> bool" where
  "places_ok jb s \<longleftrightarrow>
     distinct (w_ready s) \<and> set (w_ready s) \<inter> in_hand s = {} \<and> (set (w_ready s) \<union> in_hand s) \<inter> released s = {} \<and>
     (\<forall>k k' i. held (w_worker s k) = Some i \<and> held (w_worker s k') = Some i \<longrightarrow> k = k') \<and>
     set (w_ready s) \<union> in_hand s \<union> released s = {i. i < jb_count jb \<and> set (jb_waits jb i) \<subseteq> released s} \<and>
     (\<forall>i < jb_count jb. w_waiting s i = int (length (filter (\<lambda>j. j \<notin> released s) (jb_waits jb i)))) \<and>
     w_left s = jb_count jb - card (released s) \<and> (w_closed s \<longleftrightarrow> w_left s = 0)"

definition started_ok :: "jobs \<Rightarrow> run_state \<Rightarrow> bool" where
  "started_ok jb s \<longleftrightarrow> ordered_log jb (w_log s) \<and>
     (\<forall>i. JobEnd i \<in> set (w_log s) \<longleftrightarrow> i \<in> released s \<or> (\<exists>k. w_worker s k = Leaving i)) \<and>
     (\<forall>i. count_list (w_log s) (JobStart i) = (if i \<in> released s \<or> (\<exists>k. w_worker s k \<in> {Working i, Leaving i}) then 1 else 0)) \<and>
     (\<forall>k k' i j. w_worker s k = Working i \<and> w_worker s k' = Working j \<and> jb_large jb i \<longrightarrow> k = k')"

definition workers_ok :: "nat \<Rightarrow> run_state \<Rightarrow> bool" where
  "workers_ok workers s \<longleftrightarrow> (\<forall>k. workers \<le> k \<longrightarrow> w_worker s k = Exited) \<and> (\<forall>k < workers. w_worker s k = Exited \<longrightarrow> w_closed s)"

lemma set_worker_sel [simp]:
  "w_waiting (set_worker k p s) = w_waiting s" "w_ready (set_worker k p s) = w_ready s" "w_closed (set_worker k p s) = w_closed s"
  "w_left (set_worker k p s) = w_left s" "w_worker (set_worker k p s) = (w_worker s)(k := p)" "w_log (set_worker k p s) = w_log s"
  by (simp_all add: set_worker_def)

lemma job_sel [simp]:
  "w_waiting (begin_job k i s) = w_waiting s" "w_ready (begin_job k i s) = w_ready s" "w_closed (begin_job k i s) = w_closed s"
  "w_left (begin_job k i s) = w_left s" "w_worker (begin_job k i s) = (w_worker s)(k := Working i)"
  "w_log (begin_job k i s) = w_log s @ [JobStart i]"
  "w_waiting (end_job k i s) = w_waiting s" "w_ready (end_job k i s) = w_ready s" "w_closed (end_job k i s) = w_closed s"
  "w_left (end_job k i s) = w_left s" "w_worker (end_job k i s) = (w_worker s)(k := Leaving i)"
  "w_log (end_job k i s) = w_log s @ [JobEnd i]"
  by (simp_all add: begin_job_def end_job_def)

text \<open>A worker that goes on with the component it holds moves nothing.\<close>

lemma places_same_hand:
  assumes P: "places_ok jb s" and h: "held (w_worker s k) = held p"
    and s': "w_worker s' = (w_worker s)(k := p)" "w_ready s' = w_ready s" "w_waiting s' = w_waiting s" "w_left s' = w_left s"
      "w_closed s' = w_closed s" "released s' = released s"
  shows "places_ok jb s'"
proof -
  have eq: "held (w_worker s' d) = held (w_worker s d)" for d using h s'(1) by simp
  then have "in_hand s' = in_hand s" by (simp add: in_hand_def)
  with P s' eq show ?thesis unfolding places_ok_def by simp
qed

lemma released_begin [simp]: "released (begin_job k i s) = released s" "released (end_job k i s) = released s" "released (set_worker k p s) = released s"
  by (auto simp: released_def)

lemma in_hand_update: "held (w_worker s k) = None \<Longrightarrow> held p = Some i \<Longrightarrow> in_hand (set_worker k p s) = insert i (in_hand s)"
  by (auto simp: in_hand_def) (metis option.distinct(1))

lemma placesD:
  assumes "places_ok jb s"
  shows "distinct (w_ready s)" "set (w_ready s) \<inter> in_hand s = {}" "(set (w_ready s) \<union> in_hand s) \<inter> released s = {}"
    "\<And>k k' i. held (w_worker s k) = Some i \<Longrightarrow> held (w_worker s k') = Some i \<Longrightarrow> k = k'"
    "set (w_ready s) \<union> in_hand s \<union> released s = {i. i < jb_count jb \<and> set (jb_waits jb i) \<subseteq> released s}"
    "\<And>i. i < jb_count jb \<Longrightarrow> w_waiting s i = int (length (filter (\<lambda>j. j \<notin> released s) (jb_waits jb i)))"
    "w_left s = jb_count jb - card (released s)" "w_closed s \<longleftrightarrow> w_left s = 0"
  using assms unfolding places_ok_def by blast+

lemma placesI:
  assumes "distinct (w_ready s)" "set (w_ready s) \<inter> in_hand s = {}" "(set (w_ready s) \<union> in_hand s) \<inter> released s = {}"
    "\<And>k k' i. held (w_worker s k) = Some i \<Longrightarrow> held (w_worker s k') = Some i \<Longrightarrow> k = k'"
    "set (w_ready s) \<union> in_hand s \<union> released s = {i. i < jb_count jb \<and> set (jb_waits jb i) \<subseteq> released s}"
    "\<And>i. i < jb_count jb \<Longrightarrow> w_waiting s i = int (length (filter (\<lambda>j. j \<notin> released s) (jb_waits jb i)))"
    "w_left s = jb_count jb - card (released s)" "w_closed s \<longleftrightarrow> w_left s = 0"
  shows "places_ok jb s"
  using assms unfolding places_ok_def by blast

lemma places_receive:
  assumes P: "places_ok jb s" and w: "w_worker s k = Receiving" and r: "w_ready s = i # rest"
  shows "places_ok jb (set_worker k (Took i) (s\<lparr>w_ready := rest\<rparr>))" (is "places_ok jb ?s'")
proof -
  note p = placesD [OF P]
  have rel: "released ?s' = released s" by (simp add: released_def)
  have hand: "in_hand ?s' = insert i (in_hand s)" using w by (auto simp: in_hand_def) (metis held.simps(5) option.distinct(1))
  have "i \<notin> in_hand s" using p(2) r by auto
  then have inj: "k1 = k2" if "held (w_worker ?s' k1) = Some j" "held (w_worker ?s' k2) = Some j" for k1 k2 j
    using that p(4) [of k1 j k2] by (auto simp: in_hand_def split: if_splits)
  have "set rest \<union> insert i (in_hand s) \<union> released s = set (w_ready s) \<union> in_hand s \<union> released s" using r by auto
  note all = this [unfolded p(5)]
  show ?thesis
  proof (rule placesI, unfold rel hand)
    show "distinct (w_ready ?s')" "set (w_ready ?s') \<inter> insert i (in_hand s) = {}"
      "(set (w_ready ?s') \<union> insert i (in_hand s)) \<inter> released s = {}" using p(1-3) r by auto
    show "set (w_ready ?s') \<union> insert i (in_hand s) \<union> released s = {i. i < jb_count jb \<and> set (jb_waits jb i) \<subseteq> released s}"
      using all by simp
    show "k1 = k2" if "held (w_worker ?s' k1) = Some j" "held (w_worker ?s' k2) = Some j" for k1 k2 j using inj that .
  qed (use p(6-8) in simp_all)
qed

lemma foldl_release:
  "distinct ds \<Longrightarrow> foldl release_one (wt, rd) ds = (\<lambda>d. if d \<in> set ds then wt d - 1 else wt d, rd @ filter (\<lambda>d. wt d - 1 = 0) ds)"
proof (induction ds arbitrary: wt rd)
  case (Cons x ds)
  have "filter (\<lambda>d. (wt(x := wt x - 1)) d - 1 = 0) ds = filter (\<lambda>d. wt d - 1 = 0) ds"
    using Cons.prems by (intro filter_cong) auto
  with Cons show ?case by (auto simp: release_one_def fun_eq_iff)
qed simp

lemma length_filter_insert:
  "distinct xs \<Longrightarrow> x \<in> set xs \<Longrightarrow> x \<notin> A \<Longrightarrow> length (filter (\<lambda>j. j \<notin> A) xs) = Suc (length (filter (\<lambda>j. j \<notin> insert x A) xs))"
  by (induction xs) (auto cong: filter_cong, metis (mono_tags, lifting) filter_cong)

lemma filter_insert_same: "x \<notin> set xs \<Longrightarrow> filter (\<lambda>j. j \<notin> insert x A) xs = filter (\<lambda>j. j \<notin> A) xs"
  by (rule filter_cong) auto

lemma places_release:
  assumes ok: "jobs_ok jb" and P: "places_ok jb s" and w: "w_worker s k = Leaving i"
  shows "places_ok jb (set_worker k Receiving (complete jb i s))" (is "places_ok jb ?s'")
proof -
  note p = placesD [OF P]
  let ?W = "jb_waits jb" and ?R = "released s" and ?ds = "dependents jb i"
  have i: "i \<in> in_hand s" using w by (auto simp: in_hand_def intro: exI [of _ k])
  then have iR: "i \<notin> ?R" "i < jb_count jb" using p(3,5) by auto
  have wd: "distinct (?W d)" if "d < jb_count jb" for d using ok that by (simp add: jobs_ok_def)
  define new where "new = filter (\<lambda>d. w_waiting s d - 1 = 0) ?ds"
  have ds: "set ?ds = {d. d < jb_count jb \<and> i \<in> set (?W d)}" "distinct ?ds" by (auto simp: dependents_def)
  note f = foldl_release [OF ds(2), of "w_waiting s" "w_ready s", folded new_def]
  have rel: "released ?s' = insert i ?R" by (auto simp: released_def complete_def f)
  have hand: "in_hand ?s' = in_hand s - {i}"
  proof -
    have "held (w_worker s d) \<noteq> Some i" if "d \<noteq> k" for d using p(4) [of d i k] that w by auto
    then show ?thesis using w by (auto simp: in_hand_def complete_def f) (metis held.simps(4) option.inject)
  qed
  have ready: "w_ready ?s' = w_ready s @ new" by (simp add: complete_def f)
  have wt: "w_waiting ?s' d = int (length (filter (\<lambda>j. j \<notin> insert i ?R) (?W d)))" if d: "d < jb_count jb" for d
  proof (cases "i \<in> set (?W d)")
    case True
    with d have "d \<in> set ?ds" by (simp add: ds)
    with p(6) [OF d] length_filter_insert [OF wd [OF d] True iR(1)] show ?thesis by (simp add: complete_def f)
  next
    case False
    then have "d \<notin> set ?ds" by (simp add: ds)
    with p(6) [OF d] filter_insert_same [OF False] show ?thesis by (simp add: complete_def f)
  qed
  have new: "set new = {d. d < jb_count jb \<and> i \<in> set (?W d) \<and> set (?W d) \<subseteq> insert i ?R}"
  proof -
    have "w_waiting s d - 1 = 0 \<longleftrightarrow> set (?W d) \<subseteq> insert i ?R" if d: "d < jb_count jb" "i \<in> set (?W d)" for d
    proof -
      have "w_waiting s d - 1 = int (length (filter (\<lambda>j. j \<notin> insert i ?R) (?W d)))"
        using p(6) [OF d(1)] length_filter_insert [OF wd [OF d(1)] d(2) iR(1)] by simp
      then show ?thesis by (auto simp: filter_empty_conv)
    qed
    then show ?thesis by (auto simp: new_def ds)
  qed
  have apart: "set new \<inter> (set (w_ready s) \<union> in_hand s \<union> ?R) = {}" unfolding p(5) using new iR by auto
  have self: "i \<notin> set new"
  proof -
    have "i \<notin> set (?W i)" using ok iR(2) by (auto simp: jobs_ok_def)
    then show ?thesis by (simp add: new)
  qed
  have inj: "k1 = k2" if "held (w_worker ?s' k1) = Some j" "held (w_worker ?s' k2) = Some j" for k1 k2 j
    using that p(4) [of k1 j k2] by (auto simp: complete_def f split: if_splits)
  have fin: "finite ?R" "?R \<subseteq> {..<jb_count jb}" using p(5) finite_subset [of ?R "{..<jb_count jb}"] by auto
  have "card (insert i ?R) \<le> card {..<jb_count jb}" by (intro card_mono) (use fin iR in auto)
  then have left: "0 < w_left s" "w_left ?s' = jb_count jb - card (insert i ?R)" "w_closed ?s' \<longleftrightarrow> w_left ?s' = 0"
    using p(7,8) fin iR by (auto simp: complete_def f)
  have "set (w_ready ?s') \<union> in_hand ?s' \<union> released ?s' = {d. d < jb_count jb \<and> set (?W d) \<subseteq> insert i ?R}"
  proof -
    have "set (w_ready ?s') \<union> in_hand ?s' \<union> released ?s' = (set (w_ready s) \<union> in_hand s \<union> ?R) \<union> set new"
      unfolding ready hand rel using i by auto
    also have "\<dots> = {d. d < jb_count jb \<and> set (?W d) \<subseteq> insert i ?R}" unfolding p(5) new by auto
    finally show ?thesis .
  qed
  moreover have "distinct (w_ready ?s')" unfolding ready using p(1) apart ds(2) by (auto simp: new_def)
  moreover have "set (w_ready ?s') \<inter> in_hand ?s' = {}" "(set (w_ready ?s') \<union> in_hand ?s') \<inter> released ?s' = {}"
    unfolding ready hand rel using p(2,3) apart self i by auto
  ultimately show ?thesis using inj wt left(2,3) by (intro placesI) (simp_all only: rel)
qed

definition run_inv :: "jobs \<Rightarrow> nat \<Rightarrow> run_state \<Rightarrow> bool" where
  "run_inv jb workers s \<longleftrightarrow> places_ok jb s \<and> started_ok jb s \<and> workers_ok workers s"

lemma startedD:
  assumes "started_ok jb s"
  shows "ordered_log jb (w_log s)" "\<And>i. JobEnd i \<in> set (w_log s) \<longleftrightarrow> i \<in> released s \<or> (\<exists>k. w_worker s k = Leaving i)"
    "\<And>i. count_list (w_log s) (JobStart i) = (if i \<in> released s \<or> (\<exists>k. w_worker s k \<in> {Working i, Leaving i}) then 1 else 0)"
    "\<And>k k' i j. w_worker s k = Working i \<Longrightarrow> w_worker s k' = Working j \<Longrightarrow> jb_large jb i \<Longrightarrow> k = k'"
  using assms unfolding started_ok_def by blast+

lemma ex_upd: "w k \<noteq> q \<Longrightarrow> (\<exists>k'. (w(k := p)) k' = q) \<longleftrightarrow> p = q \<or> (\<exists>k'. w k' = q)"
  by (metis fun_upd_apply)

lemma ex_upd2: "w k \<noteq> q \<Longrightarrow> w k \<noteq> q' \<Longrightarrow>
    (\<exists>k'. (w(k := p)) k' \<in> {q, q'}) \<longleftrightarrow> p \<in> {q, q'} \<or> (\<exists>k'. w k' \<in> {q, q'})"
proof -
  assume w: "w k \<noteq> q" "w k \<noteq> q'"
  have ex: "(\<exists>k'. f k' \<in> {q, q'}) \<longleftrightarrow> (\<exists>k'. f k' = q) \<or> (\<exists>k'. f k' = q')" for f by blast
  show ?thesis unfolding ex ex_upd [of w, OF w(1)] ex_upd [of w, OF w(2)] by auto
qed

lemma in_hand_job:
  assumes P: "places_ok jb s" and w: "held (w_worker s k) = Some i"
  shows "i \<notin> released s" "set (jb_waits jb i) \<subseteq> released s" "i < jb_count jb"
    "\<And>k' j. held (w_worker s k') = Some j \<Longrightarrow> j = i \<Longrightarrow> k' = k"
proof -
  have "i \<in> in_hand s" using w by (auto simp: in_hand_def)
  with placesD(3,5) [OF P] show "i \<notin> released s" "set (jb_waits jb i) \<subseteq> released s" "i < jb_count jb" by auto
  show "k' = k" if "held (w_worker s k') = Some j" "j = i" for k' j using placesD(4) [OF P, of k' i k] that w by simp
qed

text \<open>A worker's own move, and what it does to what the log records.\<close>

lemma started_idle:
  assumes S: "started_ok jb s" and w: "\<And>i. w_worker s k \<noteq> Working i \<and> w_worker s k \<noteq> Leaving i" "\<And>i. p \<noteq> Working i \<and> p \<noteq> Leaving i"
    and s': "w_worker s' = (w_worker s)(k := p)" "w_log s' = w_log s"
  shows "started_ok jb s'"
proof -
  have rel: "released s' = released s" using s'(2) by (simp add: released_def)
  have lv: "w_worker s' k' = Leaving i \<longleftrightarrow> w_worker s k' = Leaving i" "w_worker s' k' = Working i \<longleftrightarrow> w_worker s k' = Working i" for k' i
    using w s'(1) by (auto split: if_splits)
  show ?thesis using S unfolding started_ok_def rel s'(2) by (simp add: lv)
qed

lemma started_begin:
  assumes P: "places_ok jb s" and S: "started_ok jb s" and w: "w_worker s k = Took i \<or> w_worker s k = Pending i"
    and ex: "\<And>k' j. w_worker s k' = Working j \<Longrightarrow> \<not> jb_large jb j \<and> \<not> jb_large jb i"
  shows "started_ok jb (begin_job k i s)"
proof -
  note d = startedD [OF S]
  have h: "held (w_worker s k) = Some i" using w by auto
  note j = in_hand_job [OF P h]
  have other: "w_worker s k' \<noteq> Working i" "w_worker s k' \<noteq> Leaving i" for k' using j(4) [of k'] w by (metis held.simps worker.distinct)+
  have c0: "count_list (w_log s) (JobStart i) = 0" using d(3) [of i] j(1) other by auto
  show ?thesis
    unfolding started_ok_def released_begin job_sel
  proof (intro conjI allI impI)
    show "ordered_log jb (w_log s @ [JobStart i])" using ordered_snoc [OF d(1)] j(2) d(2) by blast
    show "JobEnd j \<in> set (w_log s @ [JobStart i]) \<longleftrightarrow> j \<in> released s \<or> (\<exists>k'. ((w_worker s)(k := Working i)) k' = Leaving j)" for j
      using d(2) [of j] w by (subst ex_upd) auto
    show "count_list (w_log s @ [JobStart i]) (JobStart j) =
        (if j \<in> released s \<or> (\<exists>k'. ((w_worker s)(k := Working i)) k' \<in> {Working j, Leaving j}) then 1 else 0)" for j
    proof (cases "j = i")
      case True
      with c0 show ?thesis by auto
    next
      case False
      then have "(\<exists>k'. ((w_worker s)(k := Working i)) k' \<in> {Working j, Leaving j}) \<longleftrightarrow> (\<exists>k'. w_worker s k' \<in> {Working j, Leaving j})"
        using w by (subst ex_upd2) auto
      with d(3) [of j] False show ?thesis by simp
    qed
    show "k1 = k2" if "((w_worker s)(k := Working i)) k1 = Working j1 \<and> ((w_worker s)(k := Working i)) k2 = Working j2 \<and> jb_large jb j1" for k1 k2 j1 j2
      using that d(4) [of k1 j1 k2 j2] ex by (auto split: if_splits)
  qed
qed

lemma started_end:
  assumes S: "started_ok jb s" and w: "w_worker s k = Working i"
  shows "started_ok jb (end_job k i s)"
proof -
  note d = startedD [OF S]
  show ?thesis
    unfolding started_ok_def released_begin job_sel
  proof (intro conjI allI impI)
    show "ordered_log jb (w_log s @ [JobEnd i])" by (rule ordered_snoc [OF d(1)]) simp
    show "JobEnd j \<in> set (w_log s @ [JobEnd i]) \<longleftrightarrow> j \<in> released s \<or> (\<exists>k'. ((w_worker s)(k := Leaving i)) k' = Leaving j)" for j
      using d(2) [of j] w by (subst ex_upd) auto
    show "count_list (w_log s @ [JobEnd i]) (JobStart j) =
        (if j \<in> released s \<or> (\<exists>k'. ((w_worker s)(k := Leaving i)) k' \<in> {Working j, Leaving j}) then 1 else 0)" for j
    proof -
      have "(\<exists>k'. ((w_worker s)(k := Leaving i)) k' \<in> {Working j, Leaving j}) \<longleftrightarrow> (\<exists>k'. w_worker s k' \<in> {Working j, Leaving j})"
      proof (cases "j = i")
        case False
        with w show ?thesis by (subst ex_upd2) auto
      qed (use w in auto)
      with d(3) [of j] show ?thesis by simp
    qed
    show "k1 = k2" if "((w_worker s)(k := Leaving i)) k1 = Working j1 \<and> ((w_worker s)(k := Leaving i)) k2 = Working j2 \<and> jb_large jb j1" for k1 k2 j1 j2
      using that d(4) [of k1 j1 k2 j2] by (auto split: if_splits)
  qed
qed

lemma started_release:
  assumes S: "started_ok jb s" and w: "w_worker s k = Leaving i"
    and s': "w_worker s' = (w_worker s)(k := Receiving)" "w_log s' = w_log s @ [JobReleased i]"
  shows "started_ok jb s'"
proof -
  note d = startedD [OF S]
  have rel: "released s' = insert i (released s)" using s'(2) by (auto simp: released_def)
  show ?thesis
    unfolding started_ok_def rel s'
  proof (intro conjI allI impI)
    show "ordered_log jb (w_log s @ [JobReleased i])" by (rule ordered_snoc [OF d(1)]) simp
    show "JobEnd j \<in> set (w_log s @ [JobReleased i]) \<longleftrightarrow> j \<in> insert i (released s) \<or> (\<exists>k'. ((w_worker s)(k := Receiving)) k' = Leaving j)" for j
    proof (cases "j = i")
      case False
      with d(2) [of j] w show ?thesis by (subst ex_upd) auto
    qed (use d(2) [of i] w in auto)
    show "count_list (w_log s @ [JobReleased i]) (JobStart j) =
        (if j \<in> insert i (released s) \<or> (\<exists>k'. ((w_worker s)(k := Receiving)) k' \<in> {Working j, Leaving j}) then 1 else 0)" for j
    proof (cases "j = i")
      case True
      with d(3) [of i] w show ?thesis by (auto split: if_splits)
    next
      case False
      then have "(\<exists>k'. ((w_worker s)(k := Receiving)) k' \<in> {Working j, Leaving j}) \<longleftrightarrow> (\<exists>k'. w_worker s k' \<in> {Working j, Leaving j})"
        using w by (subst ex_upd2) auto
      with d(3) [of j] False show ?thesis by simp
    qed
    show "k1 = k2" if "((w_worker s)(k := Receiving)) k1 = Working j1 \<and> ((w_worker s)(k := Receiving)) k2 = Working j2 \<and> jb_large jb j1" for k1 k2 j1 j2
      using that d(4) [of k1 j1 k2 j2] by (auto split: if_splits)
  qed
qed

lemma complete_sel:
  "w_worker (complete jb i s) = w_worker s" "w_log (complete jb i s) = w_log s @ [JobReleased i]"
  "w_closed s \<Longrightarrow> w_closed (complete jb i s)"
  by (simp_all add: complete_def split: prod.splits)

lemma workers_move:
  assumes "workers_ok W s" "w_worker s k \<noteq> Exited" "w_worker s' = (w_worker s)(k := p)" "p = Exited \<Longrightarrow> w_closed s" "w_closed s \<Longrightarrow> w_closed s'"
  shows "workers_ok W s'"
  using assms unfolding workers_ok_def by auto

lemma run_step_inv:
  assumes ok: "jobs_ok jb" and I: "run_inv jb W s" and st: "run_step jb s s'"
  shows "run_inv jb W s'"
proof -
  have P: "places_ok jb s" and S: "started_ok jb s" and K: "workers_ok W s" using I by (simp_all add: run_inv_def)
  from st show ?thesis
  proof cases
    case (receive k i rest)
    have "started_ok jb s'" by (rule started_idle [OF S, where k = k and p = "Took i"]) (simp_all add: receive)
    moreover have "workers_ok W s'" by (rule workers_move [OF K, where k = k and p = "Took i"]) (simp_all add: receive)
    ultimately show ?thesis using places_receive [OF P receive(2,3)] receive(1) by (simp add: run_inv_def)
  next
    case (ask_lock k i)
    have "started_ok jb s'" by (rule started_idle [OF S, where k = k and p = "Pending i"]) (simp_all add: ask_lock)
    moreover have "places_ok jb s'" by (rule places_same_hand [OF P, where k = k and p = "Pending i"]) (simp_all add: ask_lock)
    moreover have "workers_ok W s'" by (rule workers_move [OF K, where k = k and p = "Pending i"]) (simp_all add: ask_lock)
    ultimately show ?thesis by (simp add: run_inv_def)
  next
    case (lock k i)
    have "started_ok jb s'" unfolding lock(1) by (rule started_begin [OF P S]) (use lock in auto)
    moreover have "places_ok jb s'" by (rule places_same_hand [OF P, where k = k and p = "Working i"]) (simp_all add: lock)
    moreover have "workers_ok W s'" by (rule workers_move [OF K, where k = k and p = "Working i"]) (simp_all add: lock)
    ultimately show ?thesis by (simp add: run_inv_def)
  next
    case (rlock k i)
    have "started_ok jb s'" unfolding rlock(1) by (rule started_begin [OF P S]) (use rlock in auto)
    moreover have "places_ok jb s'" by (rule places_same_hand [OF P, where k = k and p = "Working i"]) (simp_all add: rlock)
    moreover have "workers_ok W s'" by (rule workers_move [OF K, where k = k and p = "Working i"]) (simp_all add: rlock)
    ultimately show ?thesis by (simp add: run_inv_def)
  next
    case (unlock k i)
    have "started_ok jb s'" unfolding unlock(1) by (rule started_end [OF S unlock(2)])
    moreover have "places_ok jb s'" by (rule places_same_hand [OF P, where k = k and p = "Leaving i"]) (simp_all add: unlock)
    moreover have "workers_ok W s'" by (rule workers_move [OF K, where k = k and p = "Leaving i"]) (simp_all add: unlock)
    ultimately show ?thesis by (simp add: run_inv_def)
  next
    case (release k i)
    have "started_ok jb s'" unfolding release(1) by (rule started_release [OF S release(2)]) (simp_all add: complete_sel)
    moreover have "workers_ok W s'" by (rule workers_move [OF K, where k = k and p = "Receiving"]) (simp_all add: release complete_sel)
    ultimately show ?thesis using places_release [OF ok P release(2)] release(1) by (simp add: run_inv_def)
  next
    case (exit_loop k)
    have "started_ok jb s'" by (rule started_idle [OF S, where k = k and p = Exited]) (simp_all add: exit_loop)
    moreover have "places_ok jb s'" by (rule places_same_hand [OF P, where k = k and p = Exited]) (simp_all add: exit_loop)
    moreover have "workers_ok W s'" by (rule workers_move [OF K, where k = k and p = "Exited"]) (simp_all add: exit_loop)
    ultimately show ?thesis by (simp add: run_inv_def)
  qed
qed

lemma run_start_inv:
  assumes "jobs_ok jb"
  shows "run_inv jb W (run_start jb W)"
proof -
  have e: "released (run_start jb W) = {}" "in_hand (run_start jb W) = {}" by (auto simp: released_def in_hand_def run_start_def)
  have "places_ok jb (run_start jb W)"
    by (rule placesI, unfold e) (use assms in \<open>auto simp: run_start_def jobs_ok_def split: if_splits\<close>)
  moreover have "started_ok jb (run_start jb W)" unfolding started_ok_def e by (auto simp: run_start_def ordered_log_def)
  moreover have "workers_ok W (run_start jb W)" by (simp add: workers_ok_def run_start_def)
  ultimately show ?thesis by (simp add: run_inv_def)
qed

lemma run_reach_inv: "run_reach jb W s \<Longrightarrow> jobs_ok jb \<Longrightarrow> run_inv jb W s"
  by (induction rule: run_reach.induct) (auto intro: run_start_inv run_step_inv)

subsection \<open>Every run ends\<close>

fun worker_weight :: "worker \<Rightarrow> nat" where
  "worker_weight (Took i) = 5"
| "worker_weight (Pending i) = 4"
| "worker_weight (Working i) = 3"
| "worker_weight (Leaving i) = 2"
| "worker_weight Receiving = 1"
| "worker_weight Exited = 0"

definition untaken :: "jobs \<Rightarrow> run_state \<Rightarrow> nat set" where
  "untaken jb s = {..<jb_count jb} - (in_hand s \<union> released s)"

definition worker_work :: "nat \<Rightarrow> run_state \<Rightarrow> nat" where
  "worker_work workers s = (\<Sum>k < workers. worker_weight (w_worker s k))"

lemma worker_work_less:
  assumes "workers_ok W s" "w_worker s k \<noteq> Exited" "w_worker s' = (w_worker s)(k := p)" "worker_weight p < worker_weight (w_worker s k)"
  shows "worker_work W s' < worker_work W s"
proof -
  have "k < W" using assms(1,2) unfolding workers_ok_def by (metis not_le)
  with assms(3,4) show ?thesis unfolding worker_work_def by (intro sum_strict_mono_ex1) (auto simp: less_imp_le)
qed

lemma run_step_less:
  assumes ok: "jobs_ok jb" and I: "run_inv jb W s" and st: "run_step jb s s'"
  shows "(s', s) \<in> measures [\<lambda>s. card (untaken jb s), worker_work W]"
proof -
  have P: "places_ok jb s" and K: "workers_ok W s" using I by (simp_all add: run_inv_def)
  have same: "(s', s) \<in> measures [\<lambda>s. card (untaken jb s), worker_work W]"
    if "in_hand s' \<union> released s' = in_hand s \<union> released s" "worker_work W s' < worker_work W s"
    using that by (simp add: untaken_def)
  have hand: "in_hand s' = in_hand s" if "w_worker s' = (w_worker s)(k := p)" "held p = held (w_worker s k)" for k p
    using that by (auto simp: in_hand_def split: if_splits)
  from st show ?thesis
  proof cases
    case (receive k i rest)
    have rel: "released s' = released s" by (simp add: receive(1) released_def)
    have "in_hand s' = insert i (in_hand s)"
      using receive by (auto simp: in_hand_def) (metis held.simps(5) option.distinct(1))
    moreover have "i \<in> untaken jb s" using placesD(2,3,5) [OF P] receive(3) by (auto simp: untaken_def)
    ultimately have "untaken jb s' \<subset> untaken jb s" unfolding untaken_def rel by blast
    moreover have "finite (untaken jb s)" by (simp add: untaken_def)
    ultimately show ?thesis by (simp add: psubset_card_mono)
  next
    case (ask_lock k i)
    show ?thesis by (rule same) (use ask_lock hand [of k] worker_work_less [OF K, of k] in auto)
  next
    case (lock k i)
    show ?thesis by (rule same) (use lock hand [of k] worker_work_less [OF K, of k] in auto)
  next
    case (rlock k i)
    show ?thesis by (rule same) (use rlock hand [of k] worker_work_less [OF K, of k] in auto)
  next
    case (unlock k i)
    show ?thesis by (rule same) (use unlock hand [of k] worker_work_less [OF K, of k] in auto)
  next
    case (release k i)
    have "in_hand s = insert i (in_hand s')"
    proof -
      have w: "w_worker s' = (w_worker s)(k := Receiving)" by (simp add: release(1) complete_sel)
      have "x \<in> in_hand s'" if "x \<in> in_hand s" "x \<noteq> i" for x
      proof -
        from that(1) obtain d where d: "held (w_worker s d) = Some x" by (auto simp: in_hand_def)
        with that(2) release(2) have "d \<noteq> k" by auto
        with d w show ?thesis by (auto simp: in_hand_def intro!: exI [of _ d])
      qed
      moreover have "in_hand s' \<subseteq> in_hand s" using w by (auto simp: in_hand_def split: if_splits)
      moreover have "i \<in> in_hand s" using release(2) by (auto simp: in_hand_def intro!: exI [of _ k])
      ultimately show ?thesis by blast
    qed
    moreover have "released s' = insert i (released s)" by (auto simp: release(1) released_def complete_sel)
    ultimately have "in_hand s' \<union> released s' = in_hand s \<union> released s" by auto
    then show ?thesis by (rule same) (rule worker_work_less [OF K, of k _ Receiving], simp_all add: release complete_sel)
  next
    case (exit_loop k)
    show ?thesis by (rule same) (use exit_loop hand [of k] worker_work_less [OF K, of k] in auto)
  qed
qed

lemma run_not_stuck:
  assumes ok: "jobs_ok jb" and I: "run_inv jb W s" and k: "w_worker s k \<noteq> Exited"
  shows "\<exists>s'. run_step jb s s'"
proof -
  have P: "places_ok jb s" using I by (simp add: run_inv_def)
  note p = placesD [OF P]
  consider (working) k i where "w_worker s k = Working i" | (leaving) k i where "w_worker s k = Leaving i"
    | (pending) k i where "w_worker s k = Pending i" "\<And>k' j. w_worker s k' \<noteq> Working j"
    | (took) k i where "w_worker s k = Took i" "\<And>k' j. w_worker s k' \<noteq> Working j"
    | (idle) "\<And>k'. held (w_worker s k') = None" by (metis held.simps(5,6) worker.exhaust)
  then show ?thesis
  proof cases
    case idle
    then have recv: "w_worker s k = Receiving" using k by (cases "w_worker s k") (metis held.simps option.distinct(1))+
    show ?thesis
    proof (cases "w_ready s")
      case Nil
      have hand: "in_hand s = {}" using idle by (simp add: in_hand_def)
      have "released s = {..<jb_count jb}"
      proof -
        have "i \<in> released s" if "i < jb_count jb" for i
          using that
        proof (induction i rule: less_induct)
          case (less i)
          have "set (jb_waits jb i) \<subseteq> {..<i}" using ok less.prems by (simp add: jobs_ok_def)
          with less have "set (jb_waits jb i) \<subseteq> released s" by (meson lessThan_iff less_trans subset_iff)
          with p(5) Nil hand less.prems show ?case by auto
        qed
        moreover have "released s \<subseteq> {..<jb_count jb}" using p(5) by auto
        ultimately show ?thesis by auto
      qed
      then have "w_closed s" using p(7,8) by simp
      with recv Nil show ?thesis by (blast intro: run_step.exit_loop)
    next
      case (Cons i rest)
      with recv show ?thesis by (blast intro: run_step.receive)
    qed
  next
    case took
    then show ?thesis by (cases "jb_large jb i") (blast intro: run_step.ask_lock run_step.rlock)+
  qed (blast intro: run_step.intros)+
qed

lemma run_reach_steps: "(run_step jb)\<^sup>*\<^sup>* s s' \<Longrightarrow> run_reach jb W s \<Longrightarrow> run_reach jb W s'"
  by (induction rule: rtranclp_induct) (auto intro: run_reach.run_next)

lemma run_no_infinite:
  assumes ok: "jobs_ok jb" and "run_reach jb W (f 0)" "\<And>i. run_step jb (f i) (f (Suc i))"
  shows False
proof -
  have *: "run_reach jb W (f i)" for i by (induction i) (use assms in \<open>auto intro: run_reach.run_next\<close>)
  have "(f (Suc i), f i) \<in> measures [\<lambda>s. card (untaken jb s), worker_work W]" for i
    by (rule run_step_less [OF ok run_reach_inv [OF * ok] assms(3)])
  moreover have "wf (measures [\<lambda>s. card (untaken jb s), worker_work W])" by simp
  ultimately show False unfolding wf_iff_no_infinite_down_chain by blast
qed

lemma run_all_left:
  assumes ok: "jobs_ok jb" and I: "run_inv jb W s" and W: "0 < W" and out: "\<And>k. w_worker s k = Exited" and i: "i < jb_count jb"
  shows "count_list (w_log s) (JobStart i) = 1" "JobEnd i \<in> set (w_log s)"
proof -
  have P: "places_ok jb s" and S: "started_ok jb s" and K: "workers_ok W s" using I by (simp_all add: run_inv_def)
  note p = placesD [OF P]
  have sub: "released s \<subseteq> {..<jb_count jb}" using p(5) by auto
  have "w_closed s" using K W out unfolding workers_ok_def by blast
  with p(7,8) have "jb_count jb \<le> card (released s)" by simp
  then have "released s = {..<jb_count jb}" using sub by (metis card_lessThan card_seteq finite_lessThan)
  with i have "i \<in> released s" by simp
  with startedD(2,3) [OF S, of i] show "count_list (w_log s) (JobStart i) = 1" "JobEnd i \<in> set (w_log s)" by auto
qed

subsection \<open>The components of a pass\<close>

lemma waits_fold:
  fixes own :: "string \<Rightarrow> nat option" and i :: nat
  defines "f \<equiv> \<lambda>seen r. case own r of None \<Rightarrow> seen | Some j \<Rightarrow> if i \<le> j \<or> j \<in> set seen then seen else seen @ [j]"
  assumes "distinct acc"
  shows "distinct (foldl f acc rs) \<and> set (foldl f acc rs) = set acc \<union> {j. j < i \<and> (\<exists>r \<in> set rs. own r = Some j)}"
  using assms(2)
proof (induction rs arbitrary: acc)
  case (Cons r rs)
  have d: "distinct (f acc r)" using Cons.prems by (auto simp: f_def split: option.splits)
  have "set (f acc r) = set acc \<union> {j. j < i \<and> own r = Some j}" by (auto simp: f_def split: option.splits)
  with Cons.IH [OF d] show ?case by auto
qed simp

lemma waits_for_set:
  "distinct (waits_for defs comps i)"
  "set (waits_for defs comps i) = {j. j < i \<and> (\<exists>r \<in> set (component_reads defs (comps ! i)). owner comps r = Some j)}"
  using waits_fold [of "[]" i "owner comps" "component_reads defs (comps ! i)"] by (simp_all add: waits_for_def)

lemma component_jobs_ok: "comps \<noteq> [] \<Longrightarrow> jobs_ok (component_jobs defs comps large)"
  by (auto simp: jobs_ok_def component_jobs_def waits_for_set)

lemma owner_Some: "owner comps r = Some j \<Longrightarrow> j < length comps \<and> r \<in> set (c_Members (comps ! j))"
  unfolding owner_def by (drule map_of_SomeD) (auto simp: in_set_enumerate_eq)

lemma owner_dom: "j < length comps \<Longrightarrow> r \<in> set (c_Members (comps ! j)) \<Longrightarrow> \<exists>i. owner comps r = Some i"
  unfolding owner_def
  by (rule weak_map_of_SomeI [of _ j]) (auto simp: in_set_enumerate_eq intro!: bexI [of _ "(j, comps ! j)"])

lemma concat_block_unique:
  assumes "distinct (concat xss)" "i < length xss" "j < length xss" "x \<in> set (xss ! i)" "x \<in> set (xss ! j)"
  shows "i = j"
proof -
  have "\<not> i < j" if "i < length xss" "j < length xss" "x \<in> set (xss ! i)" "x \<in> set (xss ! j)" for i j
  proof
    assume ij: "i < j"
    then have "xss ! i \<in> set (take j xss)" using that by (auto simp: in_set_conv_nth)
    moreover have "xss ! j \<in> set (drop j xss)" using that by (metis Cons_nth_drop_Suc list.set_intros(1))
    moreover have "distinct (concat (take j xss) @ concat (drop j xss))" using assms(1) by (simp flip: concat_append)
    ultimately show False using that by auto
  qed
  with assms(2-5) show ?thesis by (metis nat_neq_iff)
qed

lemma edges_SetMetric: "edges_of (graph_SetMetric pl g i es fm) m = (if m = i then es else edges_of g m)"
  by (auto simp: edges_of_def graph_SetMetric_def Let_def update_conv)

lemma pass_graph_edges:
  assumes "m \<in> set ids" "defs m = Some d"
  shows "edges_of (pass_graph pl defs ids) m = f_DependsOn d"
proof -
  let ?f = "\<lambda>g i. case defs i of Some d \<Rightarrow> graph_SetMetric pl g i (f_DependsOn d) (f_Formula d) | None \<Rightarrow> g"
  have keep: "edges_of (foldl ?f g js) m = f_DependsOn d" if "edges_of g m = f_DependsOn d" for g js
    using that
  proof (induction js arbitrary: g)
    case (Cons a js)
    have "edges_of (?f g a) m = f_DependsOn d" using Cons.prems assms(2) by (auto simp: edges_SetMetric split: option.splits)
    with Cons.IH [of "?f g a"] show ?case by simp
  qed simp
  have "edges_of (foldl ?f g ids) m = f_DependsOn d" for g
    using assms(1)
  proof (induction ids arbitrary: g)
    case (Cons i js)
    show ?case
    proof (cases "m = i")
      case True
      with assms(2) keep [of "?f g i" js] show ?thesis by (simp add: edges_SetMetric)
    qed (use Cons in simp)
  qed simp
  then show ?thesis by (simp add: pass_graph_def)
qed

subsection \<open>Properties\<close>

definition demo_metric :: "string \<Rightarrow> string \<Rightarrow> string \<Rightarrow> MetricDef" where
  "demo_metric i rd nm = \<lparr>f_ID = i, f_Name = i, f_Formula = rd, f_IsInput = (rd = []), f_AggRule = (if nm = [] then ''sum'' else ''rate''),
     f_DependsOnID = (if rd = [] then [] else [rd]), f_AggNumeratorID = nm, f_AggDenominatorID = (if nm = [] then [] else rd),
     f_TimeSummary = ''sum'',
     f_DependsOn = (if rd = [] then [] else [\<lparr>e_To = rd, e_MinTimeOffset = 0, e_MaxTimeOffset = 0, e_UnboundedPast = False, e_UnboundedFuture = False\<rparr>]),
     f_PicklistDimID = [], f_Text = False\<rparr>"

definition demo_defs :: "string \<rightharpoonup> MetricDef" where
  "demo_defs = [''x'' \<mapsto> demo_metric ''x'' [] [], ''y'' \<mapsto> demo_metric ''y'' [] [],
     ''price'' \<mapsto> demo_metric ''price'' ''x'' ''revenue'', ''revenue'' \<mapsto> demo_metric ''revenue'' ''y'' []]"

definition demo_single :: "string \<Rightarrow> Component" where
  "demo_single i = \<lparr>c_Members = [i], c_Direction = DirectionNone, c_Recurrence = False\<rparr>"

lemma demo_pass_plan:
  "Plan (pass_graph demo_platform demo_defs [''price'', ''revenue'']) [''price'', ''revenue''] Map.empty =
     Some (Inr [demo_single ''x'', demo_single ''price'', demo_single ''y'', demo_single ''revenue''])"
  by code_simp

definition demo_comps :: "Component list" where
  "demo_comps = [demo_single ''x'', demo_single ''price'', demo_single ''y'', demo_single ''revenue'']"

abbreviation demo_jobs :: jobs where
  "demo_jobs \<equiv> component_jobs demo_defs demo_comps (\<lambda>_. False)"

definition demo_run :: "nat \<Rightarrow> run_state \<Rightarrow> run_state" where
  "demo_run i s = set_worker 0 Receiving (complete demo_jobs i (end_job 0 i (begin_job 0 i (set_worker 0 (Took i) (s\<lparr>w_ready := tl (w_ready s)\<rparr>)))))"

lemma demo_run_reach:
  assumes "run_reach demo_jobs 1 s" "w_worker s = (\<lambda>k. if k < 1 then Receiving else Exited)" "w_ready s = i # rest"
  shows "run_reach demo_jobs 1 (demo_run i s)" "w_worker (demo_run i s) = (\<lambda>k. if k < 1 then Receiving else Exited)"
proof -
  let ?s1 = "set_worker 0 (Took i) (s\<lparr>w_ready := tl (w_ready s)\<rparr>)"
  have "run_reach demo_jobs 1 ?s1" using run_step.receive [of s 0 i rest] assms by (auto intro: run_reach.run_next)
  moreover have "run_step demo_jobs ?s1 (begin_job 0 i ?s1)"
    by (rule run_step.rlock) (auto simp: component_jobs_def assms(2) split: if_splits)
  ultimately have "run_reach demo_jobs 1 (begin_job 0 i ?s1)" by (rule run_reach.run_next)
  moreover have "run_step demo_jobs (begin_job 0 i ?s1) (end_job 0 i (begin_job 0 i ?s1))" by (rule run_step.unlock) simp
  ultimately have "run_reach demo_jobs 1 (end_job 0 i (begin_job 0 i ?s1))" by (rule run_reach.run_next)
  moreover have "run_step demo_jobs (end_job 0 i (begin_job 0 i ?s1)) (demo_run i s)"
    unfolding demo_run_def by (rule run_step.release) simp
  ultimately show "run_reach demo_jobs 1 (demo_run i s)" by (rule run_reach.run_next)
  show "w_worker (demo_run i s) = (\<lambda>k. if k < 1 then Receiving else Exited)" using assms(2) by (auto simp: demo_run_def complete_sel)
qed

text \<open>The first component run, then the one that waits for it.\<close>

definition demo_two :: run_state where
  "demo_two = demo_run 2 (demo_run 0 (run_start demo_jobs 1))"

lemma demo_two_ready: "w_ready (run_start demo_jobs 1) = [0, 2]" "w_ready (demo_run 0 (run_start demo_jobs 1)) = [2, 1]" "w_ready demo_two = [1, 3]"
  by code_simp+

lemma demo_three: "run_reach demo_jobs 1 (demo_run 1 demo_two)"
  "w_log (demo_run 1 demo_two) = [JobStart 0, JobEnd 0, JobReleased 0, JobStart 2, JobEnd 2, JobReleased 2] @ JobStart 1 # [JobEnd 1, JobReleased 1]"
proof -
  have 0: "run_reach demo_jobs 1 (run_start demo_jobs 1)" "w_worker (run_start demo_jobs 1) = (\<lambda>k. if k < 1 then Receiving else Exited)"
    by (rule run_reach.run_init) (simp add: run_start_def)
  note 1 = demo_run_reach [OF 0 demo_two_ready(1)]
  note 2 = demo_run_reach [OF 1 demo_two_ready(2), folded demo_two_def]
  show "run_reach demo_jobs 1 (demo_run 1 demo_two)" by (rule demo_run_reach(1) [OF 2 demo_two_ready(3)])
qed code_simp

text \<open>
  C11. However the workers of a pass interleave, a component starts only after every earlier component
  that holds a metric it reads has finished, no component starts twice, and a large component runs
  while no other does.
\<close>

theorem components_in_order:
  assumes "comps \<noteq> []" "run_reach (component_jobs defs comps large) workers s"
  shows "(\<forall>l1 i l2 r j. w_log s = l1 @ JobStart i # l2 \<and> r \<in> set (component_reads defs (comps ! i)) \<and>
            owner comps r = Some j \<and> j < i \<longrightarrow> JobEnd j \<in> set l1) \<and>
    (\<forall>i. count_list (w_log s) (JobStart i) \<le> 1) \<and>
    (\<forall>k k' i j. w_worker s k = Working i \<and> w_worker s k' = Working j \<and> large (comps ! i) \<longrightarrow> k = k')"
proof -
  let ?jb = "component_jobs defs comps large"
  have S: "started_ok ?jb s" using run_reach_inv [OF assms(2) component_jobs_ok [OF assms(1)]] by (simp add: run_inv_def)
  note d = startedD [OF S]
  have "JobEnd j \<in> set l1" if "w_log s = l1 @ JobStart i # l2 \<and> r \<in> set (component_reads defs (comps ! i)) \<and> owner comps r = Some j \<and> j < i"
    for l1 i l2 r j
  proof -
    have "j \<in> set (jb_waits ?jb i)" using that by (auto simp: component_jobs_def waits_for_set)
    with d(1) that show ?thesis unfolding ordered_log_def by blast
  qed
  moreover have "count_list (w_log s) (JobStart i) \<le> 1" for i using d(3) [of i] by simp
  moreover have "k = k'" if "w_worker s k = Working i \<and> w_worker s k' = Working j \<and> large (comps ! i)" for k k' i j
    using d(4) [of k i k' j] that by (simp add: component_jobs_def)
  ultimately show ?thesis by blast
qed

theorem components_in_order_witness: "JobEnd 0 \<in> set [JobStart 0, JobEnd 0, JobReleased 0, JobStart 2, JobEnd 2, JobReleased 2]"
proof -
  have "demo_comps \<noteq> []" by (simp add: demo_comps_def)
  moreover have "''x'' \<in> set (component_reads demo_defs (demo_comps ! 1)) \<and> owner demo_comps ''x'' = Some 0 \<and> (0::nat) < 1" by code_simp
  ultimately show ?thesis using components_in_order [OF _ demo_three(1)] demo_three(2) by blast
qed

text \<open>
  C15. The workers neither run for ever nor get stuck: a run of at least one worker is finite, and when
  nothing can move every worker has left its loop and every component has been started once and
  finished.
\<close>

theorem components_all_run:
  assumes "comps \<noteq> []" "0 < workers" "run_reach (component_jobs defs comps large) workers s"
  shows "\<not> (\<exists>f. f 0 = s \<and> (\<forall>i. run_step (component_jobs defs comps large) (f i) (f (Suc i)))) \<and>
    (\<forall>s'. (run_step (component_jobs defs comps large))\<^sup>*\<^sup>* s s' \<and> \<not> (\<exists>s''. run_step (component_jobs defs comps large) s' s'') \<longrightarrow>
       (\<forall>k. w_worker s' k = Exited) \<and>
       (\<forall>i < length comps. count_list (w_log s') (JobStart i) = 1 \<and> JobEnd i \<in> set (w_log s')))"
proof (intro conjI allI impI)
  let ?jb = "component_jobs defs comps large"
  have ok: "jobs_ok ?jb" by (rule component_jobs_ok [OF assms(1)])
  show "\<not> (\<exists>f. f 0 = s \<and> (\<forall>i. run_step ?jb (f i) (f (Suc i))))" using run_no_infinite [OF ok] assms(3) by blast
  fix s' assume s': "(run_step ?jb)\<^sup>*\<^sup>* s s' \<and> \<not> (\<exists>s''. run_step ?jb s' s'')"
  then have I: "run_inv ?jb workers s'" using run_reach_inv [OF run_reach_steps ok] assms(3) by blast
  show out: "w_worker s' k = Exited" for k using run_not_stuck [OF ok I] s' by blast
  show "count_list (w_log s') (JobStart i) = 1" "JobEnd i \<in> set (w_log s')" if "i < length comps" for i
    using run_all_left [OF ok I assms(2) out, of i] that by (simp_all add: component_jobs_def)
qed

theorem components_all_run_witness:
  "\<not> (\<exists>f. f 0 = run_start demo_jobs 1 \<and> (\<forall>i. run_step demo_jobs (f i) (f (Suc i)))) \<and>
    \<not> (\<exists>s'. (run_step demo_jobs)\<^sup>*\<^sup>* (run_start demo_jobs 1) s' \<and> \<not> (\<exists>s''. run_step demo_jobs s' s'') \<and>
       ((\<exists>k. w_worker s' k \<noteq> Exited) \<or> count_list (w_log s') (JobStart 0) \<noteq> 1))"
proof -
  have ne: "demo_comps \<noteq> []" "0 < length demo_comps" by (simp_all add: demo_comps_def)
  note all = components_all_run [OF ne(1) zero_less_one run_reach.run_init]
  show ?thesis using all ne(2) by blast
qed

text \<open>
  C16. A planned pass reads fresh values: when a component of a plan starts, every other metric a
  requested member of it depends on belongs to a component that has finished. \<open>DependsOnID\<close> holds the
  same IDs as \<open>DependsOn\<close>, as the store loads them.
\<close>

theorem planned_reads_fresh:
  assumes plan: "Plan (pass_graph pl defs ids) ids names = Some (Inr cs)"
    and run: "run_reach (component_jobs defs cs large) workers s" "w_log s = l1 @ JobStart i # l2" "i < length cs"
    and m: "m \<in> set (c_Members (cs ! i))" "m \<in> set ids" "defs m = Some d" "f_DependsOnID d = map e_To (f_DependsOn d)"
    and r: "r \<in> set (f_DependsOnID d)" "r \<notin> set (c_Members (cs ! i))"
  shows "\<exists>j. r \<in> set (c_Members (cs ! j)) \<and> JobEnd j \<in> set l1"
proof -
  let ?jb = "component_jobs defs cs large" and ?g = "pass_graph pl defs ids"
  have ok: "plan_ok ?g ids cs" using Plan_cases [of ?g ids names] plan by (auto split: if_splits)
  have "(m, r) \<in> metric_reads ?g" using r(1) m(4) by (auto simp: metric_reads_def pass_graph_edges [of m ids defs d, OF m(2,3)])
  with ok m(1) run(3) have "r \<in> set (concat (map c_Members (take (Suc i) cs)))" unfolding plan_ok_def by blast
  then obtain j0 where j0: "j0 \<le> i" "r \<in> set (c_Members (cs ! j0))" using run(3)
    by (auto simp: in_set_conv_nth [of _ "take _ _"] less_Suc_eq_le)
  with owner_dom [of j0 cs r] run(3) obtain j where j: "owner cs r = Some j" by auto
  have dist: "distinct (concat (map c_Members cs))" using ok by (simp add: plan_ok_def)
  have "j = j0" using concat_block_unique [OF dist, of j j0 r] owner_Some [OF j] j0 run(3) by simp
  with j0 r(2) have "j < i" by (cases "j = i") auto
  moreover have "r \<in> set (component_reads defs (cs ! i))" using m(1,3) r(1) by (force simp: component_reads_def)
  ultimately have "j \<in> set (jb_waits ?jb i)" using j by (auto simp: component_jobs_def waits_for_set)
  moreover have "cs \<noteq> []" using run(3) by auto
  then have "started_ok ?jb s" using run_reach_inv [OF run(1) component_jobs_ok] by (simp add: run_inv_def)
  ultimately have "JobEnd j \<in> set l1" using startedD(1) run(2) unfolding ordered_log_def by blast
  with owner_Some [OF j] show ?thesis by blast
qed

theorem planned_reads_fresh_witness:
  "\<exists>j. ''x'' \<in> set (c_Members (demo_comps ! j)) \<and>
     JobEnd j \<in> set [JobStart 0, JobEnd 0, JobReleased 0, JobStart 2, JobEnd 2, JobReleased 2]"
  by (rule planned_reads_fresh [OF demo_pass_plan [folded demo_comps_def] demo_three, where m = "''price''" and d = "demo_metric ''price'' ''x'' ''revenue''"])
    (simp_all add: demo_comps_def demo_single_def demo_defs_def demo_metric_def)

text \<open>
  The order does not cover a ratio's operands: a plan is made from the edges of the formulas alone,
  so a rate metric whose numerator its formula does not read can come before it, and its component
  then does not wait for the numerator's.
\<close>

lemma ratio_operand_not_awaited:
  "\<exists>defs ids cs d. Plan (pass_graph demo_platform defs ids) ids Map.empty = Some (Inr cs) \<and>
     defs ''price'' = Some d \<and> f_AggRule d = ''rate'' \<and> f_AggNumeratorID d = ''revenue'' \<and> set ids = {''price'', ''revenue''} \<and>
     owner cs ''price'' = Some 1 \<and> owner cs ''revenue'' = Some 3 \<and> 3 \<notin> set (waits_for defs cs 1)"
proof (intro exI conjI)
  show "Plan (pass_graph demo_platform demo_defs [''price'', ''revenue'']) [''price'', ''revenue''] Map.empty =
     Some (Inr [demo_single ''x'', demo_single ''price'', demo_single ''y'', demo_single ''revenue''])" by (rule demo_pass_plan)
  show "demo_defs ''price'' = Some (demo_metric ''price'' ''x'' ''revenue'')" by (simp add: demo_defs_def)
qed (code_simp | simp add: demo_metric_def)+

end
