(* ===== verification/PassCache.thy ===== *)
theory PassCache
  imports TimeAxis
begin

text \<open>
  The pass cache (\<open>internal/calculation/passcache.go\<close>) and the size limit of a metric (\<open>limits.go\<close>): the
  values and texts a pass has read or written, and the metrics it refused. A run of the workers over the cache
  and the table is a sequence of steps, one per critical section.
\<close>

subsection \<open>How many cells a metric may have\<close>

definition defaultMaxMetricCells :: int where
  "defaultMaxMetricCells = 1000000"

definition max_int64 :: int where
  "max_int64 = 9223372036854775807"

definition ParseInt64 :: "string \<Rightarrow> int option" where
  "ParseInt64 s =
     (let (neg, ds) = (case s of c # cs \<Rightarrow> if c = CHR ''-'' then (True, cs) else if c = CHR ''+'' then (False, cs) else (False, s) | [] \<Rightarrow> (False, []));
          n = digits_value ds
      in if ds = [] \<or> \<not> list_all IsDigit ds then None
         else if neg then (if n \<le> max_int64 + 1 then Some (- n) else None)
         else (if n \<le> max_int64 then Some n else None))"

text \<open>\<open>env\<close> is the value of \<open>CALC_MAX_METRIC_CELLS\<close>, empty when it is not set.\<close>

definition MaxMetricCells :: "string \<Rightarrow> int" where
  "MaxMetricCells env =
     (case ParseInt64 (TrimSpace env) of Some n \<Rightarrow> if 0 < n then n else defaultMaxMetricCells | None \<Rightarrow> defaultMaxMetricCells)"

record TooLargeError =
  tl_Metric :: string
  tl_Cells :: int
  tl_Max :: int
  tl_Dims :: string
  tl_Via :: string

text \<open>The dash and the multiplication sign of the messages are three and two bytes of UTF-8.\<close>

definition em_dash :: string where
  "em_dash = [CHR 0xE2, CHR 0x80, CHR 0x94]"

definition times_sign :: string where
  "times_sign = [CHR 0xC3, CHR 0x97]"

definition TooLarge_text :: "TooLargeError \<Rightarrow> string" where
  "TooLarge_text e =
     (if tl_Via e \<noteq> [] then ''not calculated: it reads '' @ tl_Via e @ '', which has too many cells to calculate''
      else ''not calculated: '' @ tl_Metric e @ '' has '' @ show_int (tl_Cells e) @ '' cells ('' @ tl_Dims e @
        ''), more than the '' @ show_int (tl_Max e) @ '' a metric may have '' @ em_dash @
        '' give it fewer dimensions or members, or a coarser time dimension'')"

definition MetricCells :: "dimensions \<Rightarrow> string list \<Rightarrow> (string \<rightharpoonup> string) \<Rightarrow> int \<times> string" where
  "MetricCells dims dimIDs dimIDToName =
     (let part = (\<lambda>i. (case dimIDToName i of Some n \<Rightarrow> if n = [] then i else n | None \<Rightarrow> i) @ '' '' @ show_int (LeafComboCount dims [i]))
      in (LeafComboCount dims dimIDs, Join (sort (map part dimIDs)) ('' '' @ times_sign @ '' '')))"

subsection \<open>The pass cache\<close>

text \<open>A set of values is the entries of its map. The lock makes each operation below one step.\<close>

record passCache =
  pc_values :: "string \<rightharpoonup> (string \<times> f64) list"
  pc_texts :: "string \<rightharpoonup> (string \<times> string) list"
  pc_refused :: "string \<rightharpoonup> string"

definition withPassCache :: passCache where
  "withPassCache = \<lparr>pc_values = Map.empty, pc_texts = Map.empty, pc_refused = Map.empty\<rparr>"

definition refuse :: "passCache \<Rightarrow> string \<Rightarrow> string \<Rightarrow> passCache" where
  "refuse c metricID name = c\<lparr>pc_refused := (pc_refused c)(metricID \<mapsto> name)\<rparr>"

definition refusedName :: "passCache \<Rightarrow> string \<Rightarrow> string option" where
  "refusedName c metricID = (if metricID = [] then None else pc_refused c metricID)"

definition checkSize :: "int \<Rightarrow> passCache option \<Rightarrow> MetricDef \<Rightarrow> dimensions \<Rightarrow> string list \<Rightarrow> (string \<rightharpoonup> string) \<Rightarrow>
    TooLargeError option \<times> passCache option" where
  "checkSize maxCells c d dims dimIDs dimIDToName =
     (let deps = f_DependsOnID d @ [f_AggNumeratorID d, f_AggDenominatorID d];
          via = (case c of None \<Rightarrow> [] | Some pc \<Rightarrow> List.map_filter (refusedName pc) deps);
          (cells, parts) = MetricCells dims dimIDs dimIDToName;
          refused = map_option (\<lambda>pc. refuse pc (f_ID d) (f_Name d)) c
      in case via of
           v # _ \<Rightarrow> (Some \<lparr>tl_Metric = f_Name d, tl_Cells = 0, tl_Max = 0, tl_Dims = [], tl_Via = v\<rparr>, refused)
         | [] \<Rightarrow>
             if cells \<le> maxCells then (None, c)
             else (Some \<lparr>tl_Metric = f_Name d, tl_Cells = cells, tl_Max = maxCells, tl_Dims = parts, tl_Via = []\<rparr>, refused))"

definition leanCellsAt :: nat where
  "leanCellsAt = 200000"

definition forget :: "string \<Rightarrow> passCache \<Rightarrow> passCache" where
  "forget metricID c = c\<lparr>pc_values := (pc_values c)(metricID := None), pc_texts := (pc_texts c)(metricID := None)\<rparr>"

text \<open>The values and texts of a row set; \<open>None\<close> when two rows of one intersection differ.\<close>

fun row_maps :: "CalcResultRow list \<Rightarrow> (string \<times> f64) list \<Rightarrow> (string \<times> string) list \<Rightarrow> ((string \<times> f64) list \<times> (string \<times> string) list) option" where
  "row_maps [] vs ts = Some (vs, ts)"
| "row_maps (r # rows) vs ts =
     (let k = dimKey (row_DimMembers r)
      in case map_of vs k of
           Some prev \<Rightarrow>
             if \<not> feq prev (row_Value r) \<or> map_of ts k \<noteq> row_Text r then None else row_maps rows vs ts
         | None \<Rightarrow>
             row_maps rows ((k, row_Value r) # vs) (case row_Text r of None \<Rightarrow> ts | Some t \<Rightarrow> (k, t) # ts))"

definition remember :: "nat \<Rightarrow> string \<Rightarrow> CalcResultRow list \<Rightarrow> passCache \<Rightarrow> passCache" where
  "remember leanAt metricID rows c =
     (if leanAt \<le> length rows then forget metricID c
      else case row_maps rows [] [] of
             None \<Rightarrow> forget metricID c
           | Some (vs, ts) \<Rightarrow> c\<lparr>pc_values := (pc_values c)(metricID \<mapsto> vs), pc_texts := (pc_texts c)(metricID \<mapsto> ts)\<rparr>)"

text \<open>The two locked halves of \<open>valueMap\<close>: the look-up, and what is done with a set that was loaded.\<close>

definition cached_values :: "passCache \<Rightarrow> string \<Rightarrow> (string \<times> f64) list option" where
  "cached_values c metricID = pc_values c metricID"

definition keep_values :: "nat \<Rightarrow> string \<Rightarrow> (string \<times> f64) list \<Rightarrow> passCache \<Rightarrow> (string \<times> f64) list \<times> passCache" where
  "keep_values leanAt metricID m c =
     (if leanAt \<le> length m then (m, c)
      else case pc_values c metricID of
             Some prev \<Rightarrow> (prev, c)
           | None \<Rightarrow> (m, c\<lparr>pc_values := (pc_values c)(metricID \<mapsto> m)\<rparr>))"

definition valueMap :: "nat \<Rightarrow> (string \<Rightarrow> string + (string \<times> f64) list) \<Rightarrow> passCache option \<Rightarrow> MetricDef \<Rightarrow> (string + (string \<times> f64) list) \<times> passCache option" where
  "valueMap leanAt load c d =
     (case c of
        None \<Rightarrow> (load (f_ID d), None)
      | Some pc \<Rightarrow>
          (case cached_values pc (f_ID d) of
             Some m \<Rightarrow> (Inr m, c)
           | None \<Rightarrow>
               (case load (f_ID d) of
                  Inl e \<Rightarrow> (Inl e, c)
                | Inr m \<Rightarrow> (case keep_values leanAt (f_ID d) m pc of (m', pc') \<Rightarrow> (Inr m', Some pc')))))"

definition textMap :: "(string \<Rightarrow> string + (string \<times> string) list) \<Rightarrow> passCache option \<Rightarrow> MetricDef \<Rightarrow> (string + (string \<times> string) list) \<times> passCache option" where
  "textMap load c d =
     (case c of
        None \<Rightarrow> (load (f_ID d), None)
      | Some pc \<Rightarrow>
          (case pc_texts pc (f_ID d) of
             Some m \<Rightarrow> (Inr m, c)
           | None \<Rightarrow>
               (case load (f_ID d) of
                  Inl e \<Rightarrow> (Inl e, c)
                | Inr m \<Rightarrow> (Inr m, Some (pc\<lparr>pc_texts := (pc_texts pc)(f_ID d \<mapsto> m)\<rparr>)))))"

subsection \<open>The cache and the table, step by step\<close>

text \<open>
  The workers of a pass and the goroutine that prefetches share the cache. A read that misses it loads the
  table and stores what it loaded in a second step; a metric's rows are committed in one step and remembered in
  the next. \<open>db\<close> is the committed rows of each metric.
\<close>

definition db_values :: "CalcResultRow list \<Rightarrow> (string \<times> f64) list" where
  "db_values rows = foldl (\<lambda>m r. AList.update (dimKey (row_DimMembers r)) (row_Value r) m) [] rows"

record cache_sys =
  cs_db :: "string \<Rightarrow> CalcResultRow list"
  cs_cache :: passCache
  cs_load :: "nat \<rightharpoonup> string \<times> (string \<times> f64) list"
  cs_writing :: "string \<rightharpoonup> CalcResultRow list"

datatype cache_event = LoadBegin nat string | LoadEnd nat | Commit string "CalcResultRow list" | Remember string | Forget string

inductive cache_step :: "nat \<Rightarrow> cache_sys \<Rightarrow> cache_event \<Rightarrow> cache_sys \<Rightarrow> bool" for leanAt where
  begin_load: "cs_load s w = None \<Longrightarrow> cached_values (cs_cache s) i = None \<Longrightarrow>
    cache_step leanAt s (LoadBegin w i) (s\<lparr>cs_load := (cs_load s)(w \<mapsto> (i, db_values (cs_db s i)))\<rparr>)"
| end_load: "cs_load s w = Some (i, m) \<Longrightarrow>
    cache_step leanAt s (LoadEnd w) (s\<lparr>cs_load := (cs_load s)(w := None), cs_cache := snd (keep_values leanAt i m (cs_cache s))\<rparr>)"
| commit: "cs_writing s i = None \<Longrightarrow>
    cache_step leanAt s (Commit i rows) (s\<lparr>cs_db := (cs_db s)(i := rows), cs_writing := (cs_writing s)(i \<mapsto> rows)\<rparr>)"
| remembered: "cs_writing s i = Some rows \<Longrightarrow>
    cache_step leanAt s (Remember i) (s\<lparr>cs_cache := remember leanAt i rows (cs_cache s), cs_writing := (cs_writing s)(i := None)\<rparr>)"
| forgotten: "cs_writing s i = None \<Longrightarrow> cache_step leanAt s (Forget i) (s\<lparr>cs_cache := forget i (cs_cache s)\<rparr>)"

inductive cache_run :: "nat \<Rightarrow> cache_sys \<Rightarrow> cache_event list \<Rightarrow> cache_sys \<Rightarrow> bool" for leanAt where
  stay: "cache_run leanAt s [] s"
| go: "cache_run leanAt s es t \<Longrightarrow> cache_step leanAt t e u \<Longrightarrow> cache_run leanAt s (es @ [e]) u"

definition cache_start :: "(string \<Rightarrow> CalcResultRow list) \<Rightarrow> cache_sys" where
  "cache_start db = \<lparr>cs_db = db, cs_cache = withPassCache, cs_load = Map.empty, cs_writing = Map.empty\<rparr>"

text \<open>Two sets of values that Go's \<open>==\<close> does not tell apart.\<close>

definition same_values :: "(string \<times> f64) list \<Rightarrow> (string \<times> f64) list \<Rightarrow> bool" where
  "same_values a b \<longleftrightarrow> (\<forall>k. rel_option (\<lambda>x y. x = y \<or> feq x y) (map_of a k) (map_of b k))"

definition coherent :: "cache_sys \<Rightarrow> bool" where
  "coherent s \<longleftrightarrow> (\<forall>i m. cs_writing s i = None \<longrightarrow> pc_values (cs_cache s) i = Some m \<longrightarrow> same_values m (db_values (cs_db s i)))"

definition loads_fresh :: "cache_sys \<Rightarrow> bool" where
  "loads_fresh s \<longleftrightarrow> (\<forall>w i m. cs_load s w = Some (i, m) \<longrightarrow> cs_writing s i = None \<longrightarrow> pc_values (cs_cache s) i = None \<longrightarrow>
     m = db_values (cs_db s i))"

definition keeps :: "nat \<Rightarrow> CalcResultRow list \<Rightarrow> bool" where
  "keeps leanAt rows \<longleftrightarrow> length rows < leanAt \<and> row_maps rows [] [] \<noteq> None"

lemma same_values_refl: "same_values a a"
  by (simp add: same_values_def option.rel_refl)

lemma row_maps_values:
  assumes "row_maps rows vs ts = Some (vs', ts')" "same_values vs acc"
  shows "same_values vs' (foldl (\<lambda>m r. AList.update (dimKey (row_DimMembers r)) (row_Value r) m) acc rows)"
  using assms
proof (induction rows arbitrary: vs ts acc)
  case (Cons r rows)
  let ?k = "dimKey (row_DimMembers r)" let ?acc = "AList.update ?k (row_Value r) acc"
  show ?case
  proof (cases "map_of vs ?k")
    case None
    have "same_values ((?k, row_Value r) # vs) ?acc" using Cons.prems(2) by (simp add: same_values_def update_conv')
    from Cons.IH [OF _ this] Cons.prems(1) None show ?thesis by (simp add: Let_def)
  next
    case (Some prev)
    with Cons.prems(1) have "feq prev (row_Value r)" and rec: "row_maps rows vs ts = Some (vs', ts')"
      by (auto simp: Let_def split: if_splits)
    then have "same_values vs ?acc" using Cons.prems(2) Some by (simp add: same_values_def update_conv')
    from Cons.IH [OF rec this] show ?thesis by simp
  qed
qed simp

lemma remember_keeps:
  assumes "keeps leanAt rows"
  obtains vs where "pc_values (remember leanAt i rows c) = (pc_values c)(i \<mapsto> vs)" "same_values vs (db_values rows)"
  using assms row_maps_values [of rows "[]" "[]"] by (auto simp: keeps_def remember_def db_values_def same_values_refl)

lemma keep_values_cache:
  "pc_values (snd (keep_values leanAt i m c)) j = (if j = i \<and> length m < leanAt \<and> pc_values c i = None then Some m else pc_values c j)"
  by (auto simp: keep_values_def split: option.splits)

lemma coherentD: "coherent s \<Longrightarrow> cs_writing s i = None \<Longrightarrow> pc_values (cs_cache s) i = Some m \<Longrightarrow> same_values m (db_values (cs_db s i))"
  by (simp add: coherent_def)

lemma loads_freshD:
  "loads_fresh s \<Longrightarrow> cs_load s w = Some (i, m) \<Longrightarrow> cs_writing s i = None \<Longrightarrow> pc_values (cs_cache s) i = None \<Longrightarrow> m = db_values (cs_db s i)"
  by (simp add: loads_fresh_def)

lemma coherentI:
  "(\<And>i m. cs_writing s i = None \<Longrightarrow> pc_values (cs_cache s) i = Some m \<Longrightarrow> same_values m (db_values (cs_db s i))) \<Longrightarrow> coherent s"
  by (simp add: coherent_def)

lemma loads_freshI:
  "(\<And>w i m. cs_load s w = Some (i, m) \<Longrightarrow> cs_writing s i = None \<Longrightarrow> pc_values (cs_cache s) i = None \<Longrightarrow> m = db_values (cs_db s i)) \<Longrightarrow> loads_fresh s"
  by (simp add: loads_fresh_def)

lemma cache_step_keeps:
  assumes "cache_step leanAt s e t" and co: "coherent s" and lf: "loads_fresh s"
    and wr: "\<And>i rows. cs_writing s i = Some rows \<Longrightarrow> keeps leanAt rows \<and> cs_db s i = rows" and no_forget: "\<And>i. e \<noteq> Forget i"
  shows "coherent t \<and> loads_fresh t"
  using assms(1)
proof cases
  case (begin_load w i)
  note t = \<open>t = s\<lparr>cs_load := (cs_load s)(w \<mapsto> (i, db_values (cs_db s i)))\<rparr>\<close>
  show ?thesis
  proof
    show "coherent t" by (rule coherentI) (simp add: t coherentD [OF co])
    show "loads_fresh t" by (rule loads_freshI) (auto simp: t dest: loads_freshD [OF lf] split: if_splits)
  qed
next
  case (end_load w i m)
  note t = end_load(2)
  show ?thesis
  proof
    show "coherent t"
    proof (rule coherentI)
      fix j m' assume "cs_writing t j = None" "pc_values (cs_cache t) j = Some m'"
      then show "same_values m' (db_values (cs_db t j))"
        using loads_freshD [OF lf end_load(3)] coherentD [OF co, of j m'] by (auto simp: t keep_values_cache same_values_refl split: if_splits)
    qed
    show "loads_fresh t"
    proof (rule loads_freshI)
      fix v j m' assume "cs_load t v = Some (j, m')" "cs_writing t j = None" "pc_values (cs_cache t) j = None"
      then show "m' = db_values (cs_db t j)"
        using loads_freshD [OF lf, of v j m'] by (auto simp: t keep_values_cache split: if_splits)
    qed
  qed
next
  case (commit i rows)
  note t = commit(2)
  show ?thesis
  proof
    show "coherent t" by (rule coherentI) (auto simp: t dest: coherentD [OF co] split: if_splits)
    show "loads_fresh t" by (rule loads_freshI) (auto simp: t dest: loads_freshD [OF lf] split: if_splits)
  qed
next
  case (remembered i rows)
  note t = remembered(2)
  obtain vs where vs: "pc_values (remember leanAt i rows (cs_cache s)) = (pc_values (cs_cache s))(i \<mapsto> vs)" "same_values vs (db_values rows)"
    by (rule remember_keeps [OF conjunct1 [OF wr [OF remembered(3)]]])
  show ?thesis
  proof
    show "coherent t" by (rule coherentI) (use vs wr [OF remembered(3)] in \<open>auto simp: t dest: coherentD [OF co] split: if_splits\<close>)
    show "loads_fresh t" by (rule loads_freshI) (use vs in \<open>auto simp: t dest: loads_freshD [OF lf] split: if_splits\<close>)
  qed
next
  case (forgotten i)
  then show ?thesis using no_forget by blast
qed

lemma cache_run_keeps:
  assumes "cache_run leanAt (cache_start db) es s" "\<And>i rows. Commit i rows \<in> set es \<Longrightarrow> keeps leanAt rows" "\<And>i. Forget i \<notin> set es"
  shows "coherent s \<and> loads_fresh s \<and> (\<forall>i rows. cs_writing s i = Some rows \<longrightarrow> keeps leanAt rows \<and> cs_db s i = rows)"
  using assms
proof (induction "cache_start db" es s rule: cache_run.induct)
  case stay
  show ?case by (simp add: coherent_def loads_fresh_def cache_start_def withPassCache_def)
next
  case (go es t e u)
  then have IH: "coherent t" "loads_fresh t" "\<And>i rows. cs_writing t i = Some rows \<Longrightarrow> keeps leanAt rows \<and> cs_db t i = rows" by auto
  have "coherent u \<and> loads_fresh u" by (rule cache_step_keeps [OF go(3) IH]) (use go(5) in auto)
  moreover have "keeps leanAt rows \<and> cs_db u i = rows" if "cs_writing u i = Some rows" for i rows
    using go(3) that
    by cases (use IH(3) [of i rows] go(4) [of i rows] in \<open>auto split: if_splits\<close>)
  ultimately show ?case by blast
qed

text \<open>
  C13. What the pass cache holds is what the database holds, however the reads and writes of the workers interleave:
  after any run in which every committed result set is one the cache can keep (fewer than \<open>leanCellsAt\<close> rows, no
  two different rows at one intersection) and nothing is forgotten, a metric that is not between its commit and its
  \<open>remember\<close> and has a set in the cache has there exactly the values of its committed rows, although a load may
  store what it read before another worker's write.
\<close>

theorem cache_coherent:
  assumes "cache_run leanAt (cache_start db) es s" and "\<And>i rows. Commit i rows \<in> set es \<Longrightarrow> keeps leanAt rows"
    and "\<And>i. Forget i \<notin> set es" and "cs_writing s i = None" and "pc_values (cs_cache s) i = Some m"
  shows "same_values m (db_values (cs_db s i))"
proof -
  have "coherent s" using cache_run_keeps [OF assms(1)] assms(2,3) by blast
  then show ?thesis using assms(4,5) by (rule coherentD)
qed

definition demo_row :: CalcResultRow where
  "demo_row = \<lparr>row_DimMembers = [], row_Value = Fin 1, row_Text = None\<rparr>"

lemma stale_run:
  "\<exists>s. cache_run leanAt (cache_start (\<lambda>_. [])) [LoadBegin 0 i, Commit i rows, Remember i, LoadEnd 0] s \<and>
     cs_writing s i = None \<and> cs_db s i = rows \<and>
     pc_values (cs_cache s) = pc_values (snd (keep_values leanAt i [] (remember leanAt i rows withPassCache)))"
proof -
  let ?s0 = "cache_start (\<lambda>_. [])"
  let ?s1 = "?s0\<lparr>cs_load := (cs_load ?s0)(0 \<mapsto> (i, db_values (cs_db ?s0 i)))\<rparr>"
  let ?s2 = "?s1\<lparr>cs_db := (cs_db ?s1)(i := rows), cs_writing := (cs_writing ?s1)(i \<mapsto> rows)\<rparr>"
  let ?s3 = "?s2\<lparr>cs_cache := remember leanAt i rows (cs_cache ?s2), cs_writing := (cs_writing ?s2)(i := None)\<rparr>"
  let ?s4 = "?s3\<lparr>cs_load := (cs_load ?s3)(0 := None), cs_cache := snd (keep_values leanAt i [] (cs_cache ?s3))\<rparr>"
  have "cache_run leanAt ?s0 [LoadBegin 0 i] ?s1"
    using go [OF stay begin_load [of ?s0 0 i]] by (simp add: cache_start_def withPassCache_def cached_values_def)
  from go [OF this commit [of _ i leanAt rows]] have "cache_run leanAt ?s0 [LoadBegin 0 i, Commit i rows] ?s2" by (simp add: cache_start_def)
  from go [OF this remembered [of _ i rows]] have "cache_run leanAt ?s0 [LoadBegin 0 i, Commit i rows, Remember i] ?s3" by simp
  from go [OF this end_load [of _ 0 i "[]"]] have "cache_run leanAt ?s0 [LoadBegin 0 i, Commit i rows, Remember i, LoadEnd 0] ?s4"
    by (simp add: cache_start_def db_values_def)
  then show ?thesis by (intro exI [of _ ?s4]) (simp add: cache_start_def)
qed

theorem cache_coherent_witness:
  "\<exists>s m. cache_run 2 (cache_start (\<lambda>_. [])) [LoadBegin 0 ''m'', Commit ''m'' [demo_row], Remember ''m'', LoadEnd 0] s \<and>
     pc_values (cs_cache s) ''m'' = Some m \<and> same_values m (db_values (cs_db s ''m''))"
proof -
  obtain s where s: "cache_run 2 (cache_start (\<lambda>_. [])) [LoadBegin 0 ''m'', Commit ''m'' [demo_row], Remember ''m'', LoadEnd 0] s"
    "cs_writing s ''m'' = None"
    "pc_values (cs_cache s) = pc_values (snd (keep_values 2 ''m'' [] (remember 2 ''m'' [demo_row] withPassCache)))"
    using stale_run by blast
  obtain m where m: "pc_values (cs_cache s) ''m'' = Some m"
    unfolding s(3) by (simp add: keep_values_def remember_def demo_row_def withPassCache_def)
  have "same_values m (db_values (cs_db s ''m''))"
    by (rule cache_coherent [OF s(1) _ _ s(2) m]) (auto simp: keeps_def demo_row_def)
  with s(1) m show ?thesis by blast
qed

text \<open>
  An interleaving that leaves the cache stale: a load that read a metric before it was written stores its set
  after the write has made the cache forget the metric (its new set has \<open>leanCellsAt\<close> rows or more). After the run the
  cache answers with the old values, while the database holds the new ones.
\<close>

lemma stale_after_forget:
  assumes "0 < leanAt"
  shows "\<exists>s rows. cache_run leanAt (cache_start (\<lambda>_. [])) [LoadBegin 0 i, Commit i rows, Remember i, LoadEnd 0] s \<and>
    cs_writing s i = None \<and> cs_db s i = rows \<and> pc_values (cs_cache s) i = Some [] \<and> \<not> same_values [] (db_values rows)"
proof -
  let ?rows = "replicate leanAt demo_row"
  obtain s where s: "cache_run leanAt (cache_start (\<lambda>_. [])) [LoadBegin 0 i, Commit i ?rows, Remember i, LoadEnd 0] s"
    "cs_writing s i = None" "cs_db s i = ?rows"
    "pc_values (cs_cache s) = pc_values (snd (keep_values leanAt i [] (remember leanAt i ?rows withPassCache)))"
    using stale_run by blast
  have "pc_values (cs_cache s) i = Some []" unfolding s(4) using assms by (simp add: keep_values_def remember_def forget_def withPassCache_def)
  moreover have "map_of (foldl (\<lambda>m r. AList.update (dimKey (row_DimMembers r)) (row_Value r) m) acc (replicate n demo_row)) (dimKey []) =
      (if n = 0 then map_of acc (dimKey []) else Some (Fin 1))" for n acc
    by (induction n arbitrary: acc) (simp_all add: update_conv' demo_row_def)
  then have "\<not> same_values [] (db_values ?rows)" using assms
    by (auto simp: same_values_def db_values_def intro!: exI [of _ "dimKey []"])
  ultimately show ?thesis using s(1-3) by blast
qed

subsection \<open>Refusals spread to the readers\<close>

definition operands :: "MetricDef \<Rightarrow> string set" where
  "operands d = (set (f_DependsOnID d) \<union> {f_AggNumeratorID d, f_AggDenominatorID d}) - {[]}"

text \<open>
  The components of a pass are checked one after the other: a metric by itself, the members of a recurrence in their order. One member
  that is refused refuses the recurrence, and all its members are recorded. (For a single metric that records it once more.) A component
  is given by the definitions of its members; a member without one, or an input, is not checked.
\<close>

fun check_members :: "int \<Rightarrow> dimensions \<Rightarrow> (string \<Rightarrow> string list) \<Rightarrow> (string \<rightharpoonup> string) \<Rightarrow> passCache option \<Rightarrow> MetricDef list \<Rightarrow>
    TooLargeError option \<times> passCache option" where
  "check_members maxCells dims dimsOf names c [] = (None, c)"
| "check_members maxCells dims dimsOf names c (d # ds) =
     (case checkSize maxCells c d dims (dimsOf (f_ID d)) names of
        (Some e, c') \<Rightarrow> (Some e, c')
      | (None, c') \<Rightarrow> check_members maxCells dims dimsOf names c' ds)"

definition check_component :: "int \<Rightarrow> dimensions \<Rightarrow> (string \<Rightarrow> string list) \<Rightarrow> (string \<rightharpoonup> string) \<Rightarrow> passCache option \<Rightarrow> MetricDef list \<Rightarrow>
    TooLargeError option \<times> passCache option" where
  "check_component maxCells dims dimsOf names c ds =
     (case check_members maxCells dims dimsOf names c ds of
        (Some e, c') \<Rightarrow> (Some e, map_option (\<lambda>pc. foldl (\<lambda>pc d. refuse pc (f_ID d) (f_Name d)) pc ds) c')
      | (None, c') \<Rightarrow> (None, c'))"

definition size_checks :: "int \<Rightarrow> dimensions \<Rightarrow> (string \<Rightarrow> string list) \<Rightarrow> (string \<rightharpoonup> string) \<Rightarrow> MetricDef list list \<Rightarrow> passCache option" where
  "size_checks maxCells dims dimsOf names cs =
     foldl (\<lambda>c ds. snd (check_component maxCells dims dimsOf names c ds)) (Some withPassCache) cs"

text \<open>
  The metrics of the components \<open>cs\<close> that are too large, and those that read one, at any distance; the members of a component
  stand for each other.
\<close>

inductive too_big :: "int \<Rightarrow> dimensions \<Rightarrow> (string \<Rightarrow> string list) \<Rightarrow> MetricDef list list \<Rightarrow> string \<Rightarrow> bool" for maxCells dims dimsOf cs where
  own_cells: "ds \<in> set cs \<Longrightarrow> d \<in> set ds \<Longrightarrow> maxCells < LeafComboCount dims (dimsOf (f_ID d)) \<Longrightarrow> e \<in> set ds \<Longrightarrow> too_big maxCells dims dimsOf cs (f_ID e)"
| reads_big: "ds \<in> set cs \<Longrightarrow> d \<in> set ds \<Longrightarrow> j \<in> operands d \<Longrightarrow> too_big maxCells dims dimsOf cs j \<Longrightarrow> e \<in> set ds \<Longrightarrow> too_big maxCells dims dimsOf cs (f_ID e)"

definition pass_ids :: "MetricDef list list \<Rightarrow> string set" where
  "pass_ids cs = f_ID ` set (concat cs)"

text \<open>The same along reads of metrics whose component stands before the reader's in \<open>cs\<close>, the order in which a pass checks them.\<close>

inductive big_before :: "int \<Rightarrow> dimensions \<Rightarrow> (string \<Rightarrow> string list) \<Rightarrow> MetricDef list list \<Rightarrow> string \<Rightarrow> bool" for maxCells dims dimsOf cs where
  big_itself: "ds \<in> set cs \<Longrightarrow> d \<in> set ds \<Longrightarrow> maxCells < LeafComboCount dims (dimsOf (f_ID d)) \<Longrightarrow> e \<in> set ds \<Longrightarrow> big_before maxCells dims dimsOf cs (f_ID e)"
| big_operand: "cs = xs @ ds # ys \<Longrightarrow> d \<in> set ds \<Longrightarrow> j \<in> operands d \<Longrightarrow> j \<in> pass_ids xs \<Longrightarrow> big_before maxCells dims dimsOf cs j \<Longrightarrow> e \<in> set ds \<Longrightarrow>
    big_before maxCells dims dimsOf cs (f_ID e)"

lemma pass_ids_simps [simp]: "pass_ids [] = {}" "pass_ids (ds # cs) = f_ID ` set ds \<union> pass_ids cs" "pass_ids (xs @ ys) = pass_ids xs \<union> pass_ids ys"
  by (auto simp: pass_ids_def)

lemma pass_ids_mem: "ds \<in> set cs \<Longrightarrow> d \<in> set ds \<Longrightarrow> f_ID d \<in> pass_ids cs"
  by (auto simp: pass_ids_def)

lemma too_big_id: "too_big maxCells dims dimsOf cs i \<Longrightarrow> i \<in> pass_ids cs"
  by (induction rule: too_big.induct) (simp_all add: pass_ids_mem)

lemma big_before_id: "big_before maxCells dims dimsOf cs i \<Longrightarrow> i \<in> pass_ids cs"
  by (induction rule: big_before.induct) (simp_all add: pass_ids_mem)

lemma big_before_snoc:
  assumes "f_ID ` set ds \<inter> pass_ids cs = {}"
  shows "big_before maxCells dims dimsOf (cs @ [ds]) i \<longleftrightarrow> big_before maxCells dims dimsOf cs i \<or>
    i \<in> f_ID ` set ds \<and> (\<exists>d \<in> set ds. maxCells < LeafComboCount dims (dimsOf (f_ID d)) \<or> (\<exists>j \<in> operands d. big_before maxCells dims dimsOf cs j))"
    (is "?l i \<longleftrightarrow> ?r i")
proof
  show "?r i" if "?l i" using that
  proof induction
    case (big_itself ds' d e)
    then show ?case by (auto intro: big_before.big_itself)
  next
    case (big_operand xs ds' ys d j e)
    show ?case
    proof (cases ys rule: rev_cases)
      case Nil
      with big_operand have "ds' = ds" "xs = cs" by simp_all
      with big_operand assms show ?thesis by blast
    next
      case (snoc ys' y)
      with big_operand have cs: "cs = xs @ ds' # ys'" by simp
      with big_operand assms have "big_before maxCells dims dimsOf cs j" by auto
      from big_before.big_operand [OF cs big_operand(2-4) this big_operand(6)] show ?thesis by blast
    qed
  qed
next
  have mono: "?l j" if "big_before maxCells dims dimsOf cs j" for j
    using that
  proof induction
    case (big_itself ds' d e)
    then show ?case by (intro big_before.big_itself [of ds' _ d]) simp_all
  next
    case (big_operand xs ds' ys d j e)
    then show ?case by (intro big_before.big_operand [of _ xs ds' "ys @ [ds]" d j]) simp_all
  qed
  have read: "?l (f_ID e)" if "d \<in> set ds" "j \<in> operands d" "big_before maxCells dims dimsOf cs j" "e \<in> set ds" for d e j
    by (rule big_before.big_operand [OF _ that(1,2) big_before_id [OF that(3)] mono [OF that(3)] that(4)]) simp
  have own: "?l (f_ID e)" if "d \<in> set ds" "maxCells < LeafComboCount dims (dimsOf (f_ID d))" "e \<in> set ds" for d e
    by (rule big_before.big_itself [where ds = ds and d = d]) (simp_all add: that)
  show "?l i" if "?r i" using that mono read own by blast
qed

lemma checkSize_cache:
  "snd (checkSize maxCells (Some c) d dims ids names) =
     Some (if (\<exists>j \<in> operands d. refusedName c j \<noteq> None) \<or> maxCells < LeafComboCount dims ids then refuse c (f_ID d) (f_Name d) else c)"
proof -
  have "List.map_filter (refusedName c) (f_DependsOnID d @ [f_AggNumeratorID d, f_AggDenominatorID d]) = [] \<longleftrightarrow>
      \<not> (\<exists>j \<in> operands d. refusedName c j \<noteq> None)"
    by (auto simp: List.map_filter_def filter_empty_conv operands_def refusedName_def)
  then show ?thesis by (auto simp: checkSize_def Let_def MetricCells_def split: list.splits)
qed

lemma checkSize_error:
  "fst (checkSize maxCells (Some c) d dims ids names) = None \<longleftrightarrow>
     \<not> ((\<exists>j \<in> operands d. refusedName c j \<noteq> None) \<or> maxCells < LeafComboCount dims ids)"
proof -
  have "List.map_filter (refusedName c) (f_DependsOnID d @ [f_AggNumeratorID d, f_AggDenominatorID d]) = [] \<longleftrightarrow>
      \<not> (\<exists>j \<in> operands d. refusedName c j \<noteq> None)"
    by (auto simp: List.map_filter_def filter_empty_conv operands_def refusedName_def)
  then show ?thesis by (auto simp: checkSize_def Let_def MetricCells_def split: list.splits)
qed

text \<open>A component is refused when one of its members is too large or reads a metric refused before; the members are then recorded.\<close>

definition refuses :: "int \<Rightarrow> dimensions \<Rightarrow> (string \<Rightarrow> string list) \<Rightarrow> passCache \<Rightarrow> MetricDef \<Rightarrow> bool" where
  "refuses maxCells dims dimsOf c d \<longleftrightarrow> (\<exists>j \<in> operands d. refusedName c j \<noteq> None) \<or> maxCells < LeafComboCount dims (dimsOf (f_ID d))"

lemma check_members_result:
  "(fst (check_members maxCells dims dimsOf names (Some c) ds) = None \<longleftrightarrow> \<not> (\<exists>d \<in> set ds. refuses maxCells dims dimsOf c d)) \<and>
   (\<exists>c'. snd (check_members maxCells dims dimsOf names (Some c) ds) = Some c' \<and>
      (c' = c \<or> (\<exists>d \<in> set ds. c' = refuse c (f_ID d) (f_Name d))) \<and>
      (\<not> (\<exists>d \<in> set ds. refuses maxCells dims dimsOf c d) \<longrightarrow> c' = c))"
proof (induction ds)
  case (Cons d ds)
  note e = checkSize_error [of maxCells c d dims "dimsOf (f_ID d)" names, folded refuses_def]
    and k = checkSize_cache [of maxCells c d dims "dimsOf (f_ID d)" names, folded refuses_def]
  show ?case
  proof (cases "refuses maxCells dims dimsOf c d")
    case True
    then have "snd (checkSize maxCells (Some c) d dims (dimsOf (f_ID d)) names) = Some (refuse c (f_ID d) (f_Name d))" using k by simp
    moreover from True e obtain x where "fst (checkSize maxCells (Some c) d dims (dimsOf (f_ID d)) names) = Some x" by auto
    ultimately have "check_members maxCells dims dimsOf names (Some c) (d # ds) = (Some x, Some (refuse c (f_ID d) (f_Name d)))"
      by (auto split: prod.split)
    with True show ?thesis by auto
  next
    case False
    then have "checkSize maxCells (Some c) d dims (dimsOf (f_ID d)) names = (None, Some c)" using e k by (auto intro: prod_eqI)
    with False Cons.IH show ?thesis by auto
  qed
qed simp

definition refused_ids :: "passCache \<Rightarrow> string set" where
  "refused_ids c = {i. refusedName c i \<noteq> None}"

lemma refused_ids_refuse: "i \<noteq> [] \<Longrightarrow> refused_ids (refuse c i n) = insert i (refused_ids c)"
  by (auto simp: refused_ids_def refusedName_def refuse_def split: if_splits)

lemma refused_all:
  "[] \<notin> f_ID ` set ds \<Longrightarrow> refused_ids (foldl (\<lambda>pc d. refuse pc (f_ID d) (f_Name d)) c ds) = f_ID ` set ds \<union> refused_ids c"
  by (induction ds arbitrary: c) (auto simp: refused_ids_refuse)

lemma refuses_ids:
  "refuses maxCells dims dimsOf c d \<longleftrightarrow> maxCells < LeafComboCount dims (dimsOf (f_ID d)) \<or> (\<exists>j \<in> operands d. j \<in> refused_ids c)"
  by (auto simp: refuses_def refused_ids_def)

lemma check_component_result:
  assumes "[] \<notin> f_ID ` set ds"
  shows "(fst (check_component maxCells dims dimsOf names (Some c) ds) = None \<longleftrightarrow> \<not> (\<exists>d \<in> set ds. refuses maxCells dims dimsOf c d)) \<and>
    (\<exists>c'. snd (check_component maxCells dims dimsOf names (Some c) ds) = Some c' \<and>
       refused_ids c' = refused_ids c \<union> (if \<exists>d \<in> set ds. refuses maxCells dims dimsOf c d then f_ID ` set ds else {}))"
proof -
  obtain x c' where m: "check_members maxCells dims dimsOf names (Some c) ds = (x, Some c')"
    using check_members_result [of maxCells dims dimsOf names c ds] by (metis prod.collapse)
  note r = check_members_result [of maxCells dims dimsOf names c ds, unfolded m fst_conv snd_conv]
  show ?thesis
  proof (cases "\<exists>d \<in> set ds. refuses maxCells dims dimsOf c d")
    case True
    with r obtain y where x: "x = Some y" by auto
    have "c' = c \<or> (\<exists>d \<in> set ds. c' = refuse c (f_ID d) (f_Name d))" using r by simp
    then have "f_ID ` set ds \<union> refused_ids c' = refused_ids c \<union> f_ID ` set ds"
      using assms by (elim disjE bexE) (force simp: refused_ids_refuse)+
    then show ?thesis unfolding if_P [OF True] using True by (simp add: check_component_def m x refused_all [OF assms])
  next
    case False
    with r show ?thesis unfolding if_not_P [OF False] by (simp add: check_component_def m)
  qed
qed

lemma size_checks_refused:
  assumes "distinct (map f_ID (concat cs))" "[] \<notin> pass_ids cs"
  shows "\<exists>c. size_checks maxCells dims dimsOf names cs = Some c \<and> refused_ids c = Collect (big_before maxCells dims dimsOf cs)"
  using assms
proof (induction cs rule: rev_induct)
  case Nil
  have "\<not> big_before maxCells dims dimsOf [] i" for i using big_before_id [of maxCells dims dimsOf "[]" i] by auto
  then show ?case by (simp add: size_checks_def withPassCache_def refused_ids_def refusedName_def)
next
  case (snoc ds cs)
  then obtain c where c: "size_checks maxCells dims dimsOf names cs = Some c" "refused_ids c = Collect (big_before maxCells dims dimsOf cs)"
    by auto
  have new: "f_ID ` set ds \<inter> pass_ids cs = {}" "[] \<notin> f_ID ` set ds" using snoc.prems by (auto simp: pass_ids_def)
  have step: "size_checks maxCells dims dimsOf names (cs @ [ds]) = snd (check_component maxCells dims dimsOf names (Some c) ds)"
    using c(1) by (simp add: size_checks_def)
  obtain c' where c': "snd (check_component maxCells dims dimsOf names (Some c) ds) = Some c'"
    "refused_ids c' = refused_ids c \<union> (if \<exists>d \<in> set ds. refuses maxCells dims dimsOf c d then f_ID ` set ds else {})"
    using check_component_result [OF new(2)] by blast
  have "refused_ids c' = Collect (big_before maxCells dims dimsOf (cs @ [ds]))"
    unfolding c'(2) refuses_ids c(2) by (auto simp: big_before_snoc [OF new(1)])
  then show ?case unfolding step c'(1) by blast
qed

text \<open>No metric reads a metric of a later component.\<close>

fun reads_earlier :: "MetricDef list list \<Rightarrow> bool" where
  "reads_earlier [] = True"
| "reads_earlier (ds # cs) = ((\<forall>d \<in> set ds. \<forall>j \<in> operands d. j \<notin> pass_ids cs) \<and> reads_earlier cs)"

lemma reads_earlier_split: "reads_earlier (xs @ ds # ys) \<Longrightarrow> d \<in> set ds \<Longrightarrow> j \<in> operands d \<Longrightarrow> j \<notin> pass_ids ys"
  by (induction xs) auto

lemma big_before_too_big: "big_before maxCells dims dimsOf cs i \<Longrightarrow> too_big maxCells dims dimsOf cs i"
proof (induction rule: big_before.induct)
  case (big_itself ds d e)
  then show ?case by (rule too_big.own_cells)
next
  case (big_operand xs ds ys d j e)
  then show ?case by (intro too_big.reads_big [of ds _ d j]) simp_all
qed

lemma component_unique:
  assumes "distinct (map f_ID (concat cs))" "ds \<in> set cs" "ds' \<in> set cs" "d \<in> set ds" "d' \<in> set ds'" "f_ID d = f_ID d'"
  shows "ds = ds'"
proof -
  have "d = d'" using assms by (auto simp: distinct_map dest: inj_onD)
  moreover have "distinct (concat cs)" using assms(1) by (simp add: distinct_map)
  ultimately show ?thesis using assms(2-5) unfolding distinct_concat_iff by blast
qed

text \<open>A refused member refuses its component.\<close>

lemma big_before_unit:
  assumes "big_before maxCells dims dimsOf cs (f_ID d)" "d \<in> set ds" "ds \<in> set cs" "e \<in> set ds" "distinct (map f_ID (concat cs))"
  shows "big_before maxCells dims dimsOf cs (f_ID e)"
  using assms(1)
proof cases
  case (big_itself ds' d' e')
  with component_unique [OF assms(5,3) _ assms(2)] assms(4) show ?thesis by (auto intro: big_before.big_itself)
next
  case (big_operand xs ds' ys d' j e')
  then have "ds' = ds" using component_unique [OF assms(5,3) _ assms(2), of ds' e'] by simp
  with big_operand assms(4) show ?thesis by (intro big_before.big_operand [of cs xs ds ys d' j]) simp_all
qed

lemma too_big_before:
  assumes "too_big maxCells dims dimsOf cs i" and "reads_earlier cs" and "distinct (map f_ID (concat cs))"
  shows "big_before maxCells dims dimsOf cs i"
  using assms(1)
proof induction
  case (own_cells ds d e)
  then show ?case by (rule big_before.big_itself)
next
  case (reads_big ds d j e)
  obtain xs ys where cs: "cs = xs @ ds # ys" using reads_big(1) by (meson split_list)
  have "j \<notin> pass_ids ys" using reads_earlier_split assms(2) reads_big(2,3) unfolding cs by blast
  with big_before_id [OF reads_big.IH] consider "j \<in> pass_ids xs" | d' where "d' \<in> set ds" "j = f_ID d'" unfolding cs by auto
  then show ?case
  proof cases
    case 1
    show ?thesis by (rule big_before.big_operand [OF cs reads_big.hyps(2,3) 1 reads_big.IH reads_big.hyps(5)])
  next
    case 2
    then show ?thesis using big_before_unit [OF _ 2(1) reads_big.hyps(1,5) assms(3)] reads_big.IH by simp
  qed
qed

text \<open>
  C20. What the size checks refuse, in whatever order a pass checks its components (a metric, or the members of a recurrence): a component is
  refused exactly when one of its members has more cells than allowed or a chain of reads (references of formulas, numerators and denominators
  of ratios), each of a metric whose component was checked before the reader's, leads from it to one that has. So a refused metric always is, or reads at some distance, a
  metric with too many cells; and where no metric reads one of a later component, all of these are refused. A plan orders the references of
  formulas that way; it does not order the operands of a ratio, and a ratio checked before its operand is not refused for it.
\<close>

theorem refusals_spread:
  assumes "distinct (map f_ID (concat (cs @ [ds])))" and "[] \<notin> pass_ids (cs @ [ds])" and "d \<in> set ds"
  shows "((\<exists>e. fst (check_component maxCells dims dimsOf names (size_checks maxCells dims dimsOf names cs) ds) = Some e) \<longleftrightarrow>
      big_before maxCells dims dimsOf (cs @ [ds]) (f_ID d)) \<and>
    (big_before maxCells dims dimsOf (cs @ [ds]) (f_ID d) \<longrightarrow> too_big maxCells dims dimsOf (cs @ [ds]) (f_ID d)) \<and>
    (reads_earlier (cs @ [ds]) \<longrightarrow> too_big maxCells dims dimsOf (cs @ [ds]) (f_ID d) \<longrightarrow> big_before maxCells dims dimsOf (cs @ [ds]) (f_ID d))"
proof (intro conjI impI)
  have new: "f_ID ` set ds \<inter> pass_ids cs = {}" "[] \<notin> f_ID ` set ds" using assms by (auto simp: pass_ids_def)
  obtain c where c: "size_checks maxCells dims dimsOf names cs = Some c" "refused_ids c = Collect (big_before maxCells dims dimsOf cs)"
    using size_checks_refused [of cs maxCells dims dimsOf names] assms by auto
  have "\<not> big_before maxCells dims dimsOf cs (f_ID d)" using big_before_id [of maxCells dims dimsOf cs "f_ID d"] new(1) assms(3) by auto
  then have "big_before maxCells dims dimsOf (cs @ [ds]) (f_ID d) \<longleftrightarrow> (\<exists>x \<in> set ds. refuses maxCells dims dimsOf c x)"
    unfolding big_before_snoc [OF new(1)] refuses_ids c(2) using assms(3) by simp
  then show "(\<exists>e. fst (check_component maxCells dims dimsOf names (size_checks maxCells dims dimsOf names cs) ds) = Some e) \<longleftrightarrow>
      big_before maxCells dims dimsOf (cs @ [ds]) (f_ID d)"
    unfolding c(1) using check_component_result [OF new(2), of maxCells dims dimsOf names c] by auto
qed (use assms(1) in \<open>auto intro: big_before_too_big too_big_before\<close>)

definition size_def :: "string \<Rightarrow> string list \<Rightarrow> MetricDef" where
  "size_def i deps = demo_def\<lparr>f_ID := i, f_Name := i, f_IsInput := False, f_DependsOnID := deps\<rparr>"

text \<open>A recurrence of two metrics, one of which reads a reader of a metric of four cells, where a metric may have two: refused, by the name of the metric between them.\<close>

theorem refusals_spread_witness:
  "fst (check_component 2 [''r'' \<mapsto> demo_region] (\<lambda>i. if i = ''a'' then [''r'', ''r''] else []) Map.empty
      (size_checks 2 [''r'' \<mapsto> demo_region] (\<lambda>i. if i = ''a'' then [''r'', ''r''] else []) Map.empty [[size_def ''a'' []], [size_def ''b'' [''a'']]])
      [size_def ''x'' [''c''], size_def ''c'' [''x'', ''b'']]) =
     Some \<lparr>tl_Metric = ''c'', tl_Cells = 0, tl_Max = 0, tl_Dims = [], tl_Via = ''b''\<rparr> \<and>
   big_before 2 [''r'' \<mapsto> demo_region] (\<lambda>i. if i = ''a'' then [''r'', ''r''] else [])
      [[size_def ''a'' []], [size_def ''b'' [''a'']], [size_def ''x'' [''c''], size_def ''c'' [''x'', ''b'']]] ''x''"
proof -
  let ?dims = "[''r'' \<mapsto> demo_region]" let ?of = "\<lambda>i. if i = ''a'' then [''r'', ''r''] else []"
  let ?cs = "[[size_def ''a'' []], [size_def ''b'' [''a'']]]" let ?ds = "[size_def ''x'' [''c''], size_def ''c'' [''x'', ''b'']]"
  have e: "fst (check_component 2 ?dims ?of Map.empty (size_checks 2 ?dims ?of Map.empty ?cs) ?ds) =
     Some \<lparr>tl_Metric = ''c'', tl_Cells = 0, tl_Max = 0, tl_Dims = [], tl_Via = ''b''\<rparr>"
    by code_simp
  have "distinct (map f_ID (concat (?cs @ [?ds])))" "[] \<notin> pass_ids (?cs @ [?ds])" "size_def ''x'' [''c''] \<in> set ?ds" by (simp_all add: size_def_def)
  from refusals_spread [OF this, of 2 ?dims ?of Map.empty] e
  have "big_before 2 ?dims ?of (?cs @ [?ds]) (f_ID (size_def ''x'' [''c'']))" by blast
  with e show ?thesis by (simp add: size_def_def)
qed

end
