(* ===== verification/Regions.thy ===== *)
theory Regions
  imports PassQueue TimeAxis
begin

text \<open>
  What a pass that follows written cells evaluates (\<open>internal/calculation/region.go\<close> and
  \<open>incremental.go\<close>): the regions of changed cells, how a metric's reads carry them over, and the
  difference between the rows a metric writes and the rows it held.

  A region's bounds are the entries of its map; a \<open>nil\<close> region is \<open>None\<close>. The memos of \<open>coverTest\<close> and of
  the read shapes only save work and are left out. \<open>unmarshal\<close> is \<open>json.Unmarshal\<close> of a stored key.
\<close>

subsection \<open>Regions\<close>

record region =
  rg_bound :: "(string \<times> string list) list"
  rg_aggregates :: bool

definition everywhere :: region where
  "everywhere = \<lparr>rg_bound = [], rg_aggregates = False\<rparr>"

definition unbounded :: "region option \<Rightarrow> bool" where
  "unbounded r = (case r of None \<Rightarrow> False | Some r \<Rightarrow> rg_bound r = [])"

definition region_union :: "region option \<Rightarrow> region option \<Rightarrow> region option" where
  "region_union ra rb =
     (case (ra, rb) of
        (None, _) \<Rightarrow> rb
      | (_, None) \<Rightarrow> ra
      | (Some a, Some b) \<Rightarrow>
          Some \<lparr>rg_bound = List.map_filter (\<lambda>(d, cs). map_option (\<lambda>cs'. (d, List.union cs cs')) (map_of (rg_bound b) d)) (rg_bound a),
                rg_aggregates = (rg_aggregates a \<or> rg_aggregates b)\<rparr>)"

definition region_contains :: "region \<Rightarrow> combo \<Rightarrow> bool" where
  "region_contains r c = list_all (\<lambda>(d, codes). pinned_code c d \<in> set codes) (rg_bound r)"

definition cell_bound :: "dimensions \<Rightarrow> combo \<Rightarrow> (string \<times> string list) list \<Rightarrow> string \<Rightarrow> (string \<times> string list) list" where
  "cell_bound dims c b d =
     (case (map_of c d, dims d) of
        (Some code, Some dm) \<Rightarrow>
          (let leaves = (case LeafDescendants (Some dm) code of None \<Rightarrow> [] | Some cs \<Rightarrow> cs)
           in AList.update d (if leaves = [] then [code] else leaves) b)
      | _ \<Rightarrow> b)"

definition cellRegion :: "dimensions \<Rightarrow> string list \<Rightarrow> combo \<Rightarrow> region" where
  "cellRegion dims dimIDs c = \<lparr>rg_bound = foldl (cell_bound dims c) [] dimIDs, rg_aggregates = False\<rparr>"

subsection \<open>How a metric reads\<close>

record readShape =
  sh_everywhere :: bool
  sh_moving :: "string list"

definition along_time :: "ReferenceUse \<Rightarrow> bool" where
  "along_time r \<longleftrightarrow> MinTimeOffset r \<noteq> 0 \<or> MaxTimeOffset r \<noteq> 0 \<or> UnboundedPast r \<or> UnboundedFuture r \<or>
     Dimensional r \<and> OverriddenDims r = []"

definition shapeOf :: "platform \<Rightarrow> MetricDef \<Rightarrow> string list \<Rightarrow> dimensions \<Rightarrow> (string \<times> string) list \<Rightarrow> readShape" where
  "shapeOf pl d dimIDs dims dimIDToName =
     (case Analyze pl (f_Formula d) of
        Inl _ \<Rightarrow> \<lparr>sh_everywhere = True, sh_moving = []\<rparr>
      | Inr an \<Rightarrow>
          if rangeNames an \<noteq> [] \<or> list_ex (\<lambda>c. \<not> EqualFold (CallFunc c) ''LOOKUP'') (dimCalls an)
          then \<lparr>sh_everywhere = True, sh_moving = []\<rparr>
          else (let named = concat (map OverriddenDims (refs an)) @ dimArgs an @ concat (map CallDims (dimCalls an));
                    alongTime = (usesTime an \<or> timeSums an \<noteq> [] \<or> list_ex along_time (refs an));
                    times = filter (\<lambda>i. case dims i of None \<Rightarrow> False | Some dm \<Rightarrow> d_IsTime dm) dimIDs
                in \<lparr>sh_everywhere = False,
                    sh_moving = concat (map (\<lambda>n. group_names dimIDToName (ToUpper (TrimSpace n))) named) @ (if alongTime then times else [])\<rparr>))"

definition exactTotals :: "string \<Rightarrow> MetricDef option \<Rightarrow> bool" where
  "exactTotals rule d \<longleftrightarrow> rule = ''formula'' \<or> rule = ''rate'' \<or> (case d of None \<Rightarrow> False | Some d \<Rightarrow> f_Text d \<and> \<not> f_IsInput d)"

definition kept_bounds :: "region \<Rightarrow> readShape \<Rightarrow> string list \<Rightarrow> (string \<times> string list) list" where
  "kept_bounds chg shape readerDims =
     foldl (\<lambda>b d. if d \<in> set (sh_moving shape) then b
                  else case map_of (rg_bound chg) d of None \<Rightarrow> b | Some codes \<Rightarrow> AList.update d codes b) [] readerDims"

definition project :: "region option \<Rightarrow> MetricDef \<Rightarrow> string list \<Rightarrow> string \<Rightarrow> readShape \<Rightarrow> string list \<Rightarrow> string \<Rightarrow> region option" where
  "project chg0 depDef depDims depRule shape readerDims readerRule =
     (case chg0 of
        None \<Rightarrow> None
      | Some chg \<Rightarrow>
          if sh_everywhere shape \<or> unbounded chg0 then Some everywhere
          else if exactTotals depRule (Some depDef) \<and> list_ex (\<lambda>d. d \<notin> set readerDims \<or> d \<in> set (sh_moving shape)) depDims
          then Some everywhere
          else Some \<lparr>rg_bound = kept_bounds chg shape readerDims,
                     rg_aggregates = (exactTotals depRule (Some depDef) \<and> rg_aggregates chg \<and> exactTotals readerRule None)\<rparr>)"

subsection \<open>How totals are made\<close>

definition isWord :: "char \<Rightarrow> bool" where
  "isWord r \<longleftrightarrow> r = CHR ''_'' \<or> CHR ''a'' \<le> r \<and> r \<le> CHR ''z'' \<or> CHR ''A'' \<le> r \<and> r \<le> CHR ''Z'' \<or> CHR ''0'' \<le> r \<and> r \<le> CHR ''9''"

function formula_words :: "string \<Rightarrow> string list" where
  "formula_words [] = []"
| "formula_words (c # cs) =
     (if isWord c then takeWhile isWord (c # cs) # formula_words (dropWhile isWord cs) else formula_words cs)"
  by pat_completeness auto
termination
  by (relation "measure length") (auto simp: less_Suc_eq_le length_dropWhile_le)

definition FormulaReferencesDims :: "platform \<Rightarrow> string \<Rightarrow> (string \<times> string) list \<Rightarrow> bool" where
  "FormulaReferencesDims pl expr dimIDToName =
     (if dimIDToName = [] then False
      else let names = map (ToUpper \<circ> snd) dimIDToName
           in case Analyze pl expr of
                Inr an \<Rightarrow> propRefs an \<noteq> [] \<or> dimArgs an \<noteq> [] \<or> dimCalls an \<noteq> [] \<or> list_ex (\<lambda>r. ToUpper (Name r) \<in> set names) (refs an)
              | Inl _ \<Rightarrow> list_ex (\<lambda>w. ToUpper w \<in> set names) (formula_words expr))"

definition EffectiveAggRule :: "platform \<Rightarrow> string \<Rightarrow> string \<Rightarrow> (string \<times> string) list \<Rightarrow> string" where
  "EffectiveAggRule pl aggRule expr dimIDToName =
     (if aggRule = ''average'' \<and> \<not> FormulaReferencesDims pl expr dimIDToName then ''formula'' else aggRule)"

subsection \<open>One metric's part in a pass\<close>

record increment =
  in_in :: "region option"
  in_out :: "region option"
  in_old :: "(string \<times> f64) list"
  in_oldText :: "string \<rightharpoonup> string"

definition partial :: "increment option \<Rightarrow> bool" where
  "partial inc = (case inc of None \<Rightarrow> False | Some i \<Rightarrow> in_in i \<noteq> None \<and> \<not> unbounded (in_in i))"

definition covers_pin :: "dimensions \<Rightarrow> combo \<Rightarrow> string \<times> string list \<Rightarrow> bool" where
  "covers_pin dims c b =
     (case b of (d, codes) \<Rightarrow>
        (case map_of c d of
           None \<Rightarrow> True
         | Some code \<Rightarrow> code \<in> set codes \<or>
             (case dims d of None \<Rightarrow> False
              | Some dm \<Rightarrow> list_ex (\<lambda>l. l \<in> set codes) (case LeafDescendants (Some dm) code of None \<Rightarrow> [] | Some cs \<Rightarrow> cs))))"

definition coverTest :: "increment option \<Rightarrow> dimensions \<Rightarrow> combo \<Rightarrow> bool" where
  "coverTest inc dims c =
     (case inc of
        Some i \<Rightarrow>
          (case in_in i of
             Some r \<Rightarrow> if unbounded (in_in i) \<or> rg_aggregates r then True else list_all (covers_pin dims c) (rg_bound r)
           | None \<Rightarrow> True)
      | None \<Rightarrow> True)"

subsection \<open>What changed in the rows\<close>

record resultDiff =
  df_del :: "string list"
  df_ins :: "CalcResultRow list"
  df_changed :: "region option"

text \<open>The box of the changed leaves, whether a leaf was marked, and whether a row above them was.\<close>

type_synonym marks = "(string \<times> string list) list \<times> bool \<times> bool"

definition mark :: "dimensions \<Rightarrow> string list \<Rightarrow> combo \<Rightarrow> marks \<Rightarrow> marks" where
  "mark dims dimIDs c ms =
     (case ms of (box, leaf, aggregates) \<Rightarrow>
        if length c \<noteq> length dimIDs \<or> \<not> list_all (\<lambda>d. pinned_code c d \<in> set (LeafCodes (dims d))) dimIDs
        then (box, leaf, True)
        else (foldl (\<lambda>b d. AList.map_default d [pinned_code c d] (\<lambda>cs. List.insert (pinned_code c d) cs) b) box dimIDs, True, aggregates))"

definition same_row :: "(string \<rightharpoonup> f64) \<Rightarrow> (string \<rightharpoonup> string) \<Rightarrow> CalcResultRow \<Rightarrow> bool" where
  "same_row old oldText r =
     (let k = dimKey (row_DimMembers r)
      in (case old k of None \<Rightarrow> False | Some v \<Rightarrow> feq v (row_Value r)) \<and> oldText k = row_Text r)"

definition diffResults :: "(string \<Rightarrow> combo option) \<Rightarrow> CalcResultRow list \<Rightarrow> (string \<times> f64) list \<Rightarrow> (string \<rightharpoonup> string) \<Rightarrow> string list \<Rightarrow> dimensions \<Rightarrow> resultDiff" where
  "diffResults unmarshal rows old oldText dimIDs dims =
     (let moved = filter (\<lambda>r. \<not> same_row (map_of old) oldText r) rows;
          keys = map (dimKey \<circ> row_DimMembers) rows;
          gone = filter (\<lambda>k. k \<notin> set keys) (map fst old);
          del = filter (\<lambda>k. map_of old k \<noteq> None) (map (dimKey \<circ> row_DimMembers) moved) @ gone;
          combos = map row_DimMembers moved @ List.map_filter unmarshal gone;
          (box, leaf, aggregates) = foldl (\<lambda>m c. mark dims dimIDs c m) ([], False, False) combos
      in \<lparr>df_del = del, df_ins = moved,
          df_changed =
            (if leaf then Some \<lparr>rg_bound = box, rg_aggregates = aggregates\<rparr>
             else if del \<noteq> [] \<or> moved \<noteq> []
             then Some \<lparr>rg_bound = foldl (\<lambda>b d. AList.update d [] b) [] dimIDs, rg_aggregates = aggregates\<rparr>
             else None)\<rparr>)"

definition cleared :: "(string \<Rightarrow> combo option) \<Rightarrow> string list \<Rightarrow> dimensions \<Rightarrow> increment \<Rightarrow> increment" where
  "cleared unmarshal dimIDs dims inc =
     inc\<lparr>in_out := df_changed (diffResults unmarshal [] (in_old inc) (in_oldText inc) dimIDs dims)\<rparr>"

subsection \<open>The bookkeeping of a pass\<close>

record incremental =
  ic_on :: bool
  ic_req :: passRequest
  ic_requested :: "string list"
  ic_status :: "string \<rightharpoonup> string"
  ic_dims :: dimensions
  ic_metricDimIDs :: "string \<Rightarrow> string list"
  ic_dimIDToName :: "(string \<times> string) list"
  ic_defs :: "string \<rightharpoonup> MetricDef"
  ic_changed :: "string \<rightharpoonup> region"

definition newIncremental :: "passRequest \<Rightarrow> (string + (string \<rightharpoonup> string)) \<Rightarrow> dimensions \<Rightarrow> (string \<Rightarrow> string list) \<Rightarrow> (string \<times> string) list \<Rightarrow>
    (string \<rightharpoonup> MetricDef) \<Rightarrow> incremental" where
  "newIncremental req statuses dims metricDimIDs dimIDToName defs =
     (let base = \<lparr>ic_on = False, ic_req = req, ic_requested = [], ic_status = Map.empty, ic_dims = dims, ic_metricDimIDs = metricDimIDs,
                  ic_dimIDToName = dimIDToName, ic_defs = defs, ic_changed = Map.empty\<rparr>
      in if pr_cells req = [] then base
         else case statuses of
                Inl _ \<Rightarrow> base
              | Inr status \<Rightarrow>
                  base\<lparr>ic_on := True, ic_status := status, ic_requested := pr_ids req,
                       ic_changed := foldl (\<lambda>m c. m(cc_MetricID c :=
                           region_union (m (cc_MetricID c)) (Some (cellRegion dims (metricDimIDs (cc_MetricID c)) (cc_Combo c)))))
                         Map.empty (pr_cells req)\<rparr>)"

definition dependencyIDs :: "MetricDef \<Rightarrow> string list" where
  "dependencyIDs d = f_DependsOnID d @ (if f_AggNumeratorID d \<noteq> [] then [f_AggNumeratorID d] else []) @
     (if f_AggDenominatorID d \<noteq> [] then [f_AggDenominatorID d] else [])"

definition calculated :: "incremental \<Rightarrow> string \<Rightarrow> MetricDef option" where
  "calculated inc i = (case ic_defs inc i of None \<Rightarrow> None | Some d \<Rightarrow> if f_IsInput d then None else Some d)"

text \<open>What a member's read of one dependency adds to the region its component evaluates.\<close>

definition read_region :: "platform \<Rightarrow> incremental \<Rightarrow> string list \<Rightarrow> string \<Rightarrow> MetricDef \<Rightarrow> string \<Rightarrow> region option" where
  "read_region pl inc members i d depID =
     (if depID \<in> set members then None
      else case (ic_defs inc depID, ic_changed inc depID) of
             (Some depDef, Some chg) \<Rightarrow>
               project (Some chg) depDef (ic_metricDimIDs inc depID) (EffectiveAggRule pl (f_AggRule depDef) (f_Formula depDef) (ic_dimIDToName inc))
                 (shapeOf pl d (ic_metricDimIDs inc i) (ic_dims inc) (ic_dimIDToName inc)) (ic_metricDimIDs inc i)
                 (EffectiveAggRule pl (f_AggRule d) (f_Formula d) (ic_dimIDToName inc))
           | _ \<Rightarrow> None)"

definition reads_region :: "platform \<Rightarrow> incremental \<Rightarrow> string list \<Rightarrow> region option" where
  "reads_region pl inc members =
     foldl region_union None
       (concat (map (\<lambda>i. case calculated inc i of None \<Rightarrow> [] | Some d \<Rightarrow> map (read_region pl inc members i d) (dependencyIDs d)) members))"

definition forced_member :: "incremental \<Rightarrow> string \<Rightarrow> bool" where
  "forced_member inc i \<longleftrightarrow> calculated inc i \<noteq> None \<and>
     (i \<in> set (ic_requested inc) \<and> forcedID (ic_req inc) i \<or> ic_status inc i \<noteq> Some ''clean'')"

definition requested_member :: "incremental \<Rightarrow> string \<Rightarrow> bool" where
  "requested_member inc i \<longleftrightarrow> calculated inc i \<noteq> None \<and> i \<in> set (ic_requested inc)"

text \<open>\<open>None\<close>: the component does not run. \<open>Some None\<close>: an ordinary run. \<open>Some (Some r)\<close>: every member evaluates \<open>r\<close>.\<close>

definition inc_plan :: "platform \<Rightarrow> incremental \<Rightarrow> Component \<Rightarrow> region option option" where
  "inc_plan pl inc cp =
     (let members = c_Members cp
      in if \<not> ic_on inc then Some None
         else if list_ex (forced_member inc) members then Some (Some everywhere)
         else if \<not> list_ex (requested_member inc) members then None
         else case reads_region pl inc members of
                None \<Rightarrow> None
              | Some r \<Rightarrow> Some (Some (if c_Recurrence cp then everywhere else r)))"

definition inc_done :: "incremental \<Rightarrow> Component \<Rightarrow> (string \<rightharpoonup> increment) \<Rightarrow> incremental" where
  "inc_done inc cp incs =
     (if \<not> ic_on inc then inc
      else inc\<lparr>ic_changed := foldl (\<lambda>m i. case incs i of None \<Rightarrow> m | Some x \<Rightarrow> m(i := in_out x)) (ic_changed inc) (c_Members cp)\<rparr>)"

subsection \<open>Regions over-state\<close>

definition in_region :: "region option \<Rightarrow> combo \<Rightarrow> bool" where
  "in_region r c = (case r of None \<Rightarrow> False | Some r \<Rightarrow> region_contains r c)"

lemma in_region_simps [simp]: "\<not> in_region None c" "in_region (Some r) c = region_contains r c" "region_contains everywhere c"
  by (simp_all add: in_region_def region_contains_def everywhere_def)

lemma region_containsI: "(\<And>d codes. (d, codes) \<in> set (rg_bound r) \<Longrightarrow> pinned_code c d \<in> set codes) \<Longrightarrow> region_contains r c"
  by (auto simp: region_contains_def list_all_iff)

lemma region_containsD: "region_contains r c \<Longrightarrow> (d, codes) \<in> set (rg_bound r) \<Longrightarrow> pinned_code c d \<in> set codes"
  by (auto simp: region_contains_def list_all_iff)

lemma in_region_union: "in_region a c \<or> in_region b c \<Longrightarrow> in_region (region_union a b) c"
proof (cases a; cases b)
  fix ra rb assume ab: "a = Some ra" "b = Some rb" and c: "in_region a c \<or> in_region b c"
  have "pinned_code c d \<in> set codes"
    if "(d, codes) \<in> set (List.map_filter (\<lambda>(d, cs). map_option (\<lambda>cs'. (d, List.union cs cs')) (map_of (rg_bound rb) d)) (rg_bound ra))" for d codes
  proof -
    from that obtain cs cs' where "(d, cs) \<in> set (rg_bound ra)" "map_of (rg_bound rb) d = Some cs'" "codes = List.union cs cs'"
      by (auto simp: List.map_filter_def split: option.splits)
    with c ab show ?thesis by (auto dest: region_containsD map_of_SomeD)
  qed
  then show ?thesis using ab by (auto simp: region_union_def intro!: region_containsI)
qed (auto simp: region_union_def)

lemma in_region_foldl: "in_region acc c \<or> (\<exists>r \<in> set rs. in_region r c) \<Longrightarrow> in_region (foldl region_union acc rs) c"
proof (induction rs arbitrary: acc)
  case (Cons r rs)
  from Cons.IH [of "region_union acc r"] Cons.prems in_region_union [of acc c r] show ?case by auto
qed simp

subsection \<open>The difference of two row sets\<close>

definition leaf_cell :: "dimensions \<Rightarrow> string list \<Rightarrow> combo \<Rightarrow> bool" where
  "leaf_cell dims dimIDs c \<longleftrightarrow> length c = length dimIDs \<and> (\<forall>d \<in> set dimIDs. pinned_code c d \<in> set (LeafCodes (dims d)))"

definition box_ok :: "string list \<Rightarrow> (string \<times> string list) list \<Rightarrow> bool" where
  "box_ok dimIDs box \<longleftrightarrow> distinct (map fst box) \<and> fst ` set box = set dimIDs"

definition in_box :: "(string \<times> string list) list \<Rightarrow> combo \<Rightarrow> bool" where
  "in_box box c \<longleftrightarrow> (\<forall>(d, codes) \<in> set box. pinned_code c d \<in> set codes)"

lemma in_box_map_of: "distinct (map fst box) \<Longrightarrow> in_box box c \<longleftrightarrow> (\<forall>d codes. map_of box d = Some codes \<longrightarrow> pinned_code c d \<in> set codes)"
  by (auto simp: in_box_def)

abbreviation add_pin :: "combo \<Rightarrow> (string \<times> string list) list \<Rightarrow> string \<Rightarrow> (string \<times> string list) list" where
  "add_pin c b d \<equiv> AList.map_default d [pinned_code c d] (\<lambda>cs. List.insert (pinned_code c d) cs) b"

lemma add_pins:
  "distinct (map fst box) \<Longrightarrow> distinct (map fst (foldl (add_pin c) box ds)) \<and>
     map_of (foldl (add_pin c) box ds) = (\<lambda>d. if d \<in> set ds
        then Some (case map_of box d of None \<Rightarrow> [pinned_code c d] | Some cs \<Rightarrow> List.insert (pinned_code c d) cs) else map_of box d)"
proof (induction ds arbitrary: box)
  case (Cons d ds)
  have d: "distinct (map fst (add_pin c box d))" by (rule distinct_map_default [OF Cons.prems])
  from Cons.IH [OF d] show ?case by (auto simp: map_of_map_default fun_eq_iff split: option.splits)
qed simp

lemma mark_leaf:
  assumes "leaf_cell dims dimIDs c"
  shows "mark dims dimIDs c (box, leaf, agg) = (foldl (add_pin c) box dimIDs, True, agg)"
  using assms by (simp add: mark_def leaf_cell_def list_all_iff)

lemma mark_above:
  assumes "\<not> leaf_cell dims dimIDs c"
  shows "mark dims dimIDs c (box, leaf, agg) = (box, leaf, True)"
  using assms by (auto simp: mark_def leaf_cell_def list_all_iff)

lemma foldl_mark:
  assumes "leaf \<Longrightarrow> box_ok dimIDs box" "\<not> leaf \<Longrightarrow> box = []"
    and "foldl (\<lambda>m c. mark dims dimIDs c m) (box, leaf, agg) cs = (box', leaf', agg')"
  shows "(leaf' \<longleftrightarrow> leaf \<or> (\<exists>c \<in> set cs. leaf_cell dims dimIDs c)) \<and>
    (\<forall>c. leaf_cell dims dimIDs c \<and> c \<in> set cs \<or> leaf \<and> in_box box c \<longrightarrow> in_box box' c)"
  using assms
proof (induction cs arbitrary: box leaf agg)
  case (Cons c cs)
  show ?case
  proof (cases "leaf_cell dims dimIDs c")
    case False
    have "foldl (\<lambda>m c. mark dims dimIDs c m) (box, leaf, True) cs = (box', leaf', agg')"
      using Cons.prems(3) by (simp add: mark_above [OF False])
    from Cons.IH [OF Cons.prems(1,2) this] False show ?thesis by auto
  next
    case True
    let ?b = "foldl (add_pin c) box dimIDs"
    have dist: "distinct (map fst box)" using Cons.prems(1,2) by (cases leaf) (auto simp: box_ok_def)
    note a = add_pins [OF dist, of c dimIDs]
    have dom: "fst ` set ?b = set dimIDs \<union> fst ` set box"
      by (simp add: dom_map_of_conv_image_fst [symmetric] a dom_def) auto
    then have ok: "box_ok dimIDs ?b" using a Cons.prems(1,2) by (cases leaf) (auto simp: box_ok_def)
    have "foldl (\<lambda>m c. mark dims dimIDs c m) (?b, True, agg) cs = (box', leaf', agg')"
      using Cons.prems(3) by (simp add: mark_leaf [OF True])
    from Cons.IH [OF ok _ this] have IH: "leaf'" "\<And>x. leaf_cell dims dimIDs x \<and> x \<in> set cs \<or> in_box ?b x \<Longrightarrow> in_box box' x" by auto
    have "map_of ?b d = None" if "d \<notin> set dimIDs" for d
      using ok that by (auto simp: box_ok_def map_of_eq_None_iff)
    then have "pinned_code c d \<in> set codes" if "map_of ?b d = Some codes" for d codes
      using that by (cases "d \<in> set dimIDs") (auto simp: a split: option.splits)
    then have "in_box ?b c" by (simp add: in_box_map_of a)
    moreover have "in_box ?b x" if x: "leaf" "in_box box x" for x
    proof -
      have "pinned_code x d \<in> set codes" if at: "map_of ?b d = Some codes" for d codes
      proof (cases "d \<in> set dimIDs")
        case True
        then obtain cs where "map_of box d = Some cs"
          using Cons.prems(1) [OF x(1)] by (metis box_ok_def map_of_eq_None_iff not_None_eq)
        with True at a x(2) dist show ?thesis by (auto simp: in_box_map_of)
      next
        case False with at a x(2) dist show ?thesis by (simp add: in_box_map_of)
      qed
      then show ?thesis by (simp add: in_box_map_of a)
    qed
    ultimately show ?thesis using IH True by auto
  qed
qed auto

definition moved_rows :: "CalcResultRow list \<Rightarrow> (string \<times> f64) list \<Rightarrow> (string \<rightharpoonup> string) \<Rightarrow> CalcResultRow list" where
  "moved_rows rows old oldText = filter (\<lambda>r. \<not> same_row (map_of old) oldText r) rows"

definition gone_keys :: "CalcResultRow list \<Rightarrow> (string \<times> f64) list \<Rightarrow> string list" where
  "gone_keys rows old = filter (\<lambda>k. k \<notin> dimKey ` row_DimMembers ` set rows) (map fst old)"

lemma diffResults_fields:
  assumes "d = diffResults unmarshal rows old oldText dimIDs dims"
  shows "df_ins d = moved_rows rows old oldText"
    "df_del d = filter (\<lambda>k. map_of old k \<noteq> None) (map (dimKey \<circ> row_DimMembers) (moved_rows rows old oldText)) @ gone_keys rows old"
    "df_changed d = (case foldl (\<lambda>m c. mark dims dimIDs c m) ([], False, False)
          (map row_DimMembers (moved_rows rows old oldText) @ List.map_filter unmarshal (gone_keys rows old)) of
        (box, leaf, aggregates) \<Rightarrow>
          (if leaf then Some \<lparr>rg_bound = box, rg_aggregates = aggregates\<rparr>
           else if df_del d \<noteq> [] \<or> df_ins d \<noteq> []
           then Some \<lparr>rg_bound = foldl (\<lambda>b d. AList.update d [] b) [] dimIDs, rg_aggregates = aggregates\<rparr>
           else None))"
  unfolding assms diffResults_def Let_def moved_rows_def gone_keys_def
  by (simp_all add: image_comp o_def split: prod.splits)

text \<open>What a store holds at a key after the difference is applied: the keys of \<open>del\<close> deleted, then \<open>ins\<close> inserted.\<close>

definition row_at :: "CalcResultRow list \<Rightarrow> string \<Rightarrow> (f64 \<times> string option) option" where
  "row_at rows k = map_option (\<lambda>r. (row_Value r, row_Text r)) (List.find (\<lambda>r. dimKey (row_DimMembers r) = k) rows)"

definition after_diff :: "(string \<times> f64) list \<Rightarrow> (string \<rightharpoonup> string) \<Rightarrow> resultDiff \<Rightarrow> string \<Rightarrow> (f64 \<times> string option) option" where
  "after_diff old oldText d k =
     (case row_at (df_ins d) k of
        Some x \<Rightarrow> Some x
      | None \<Rightarrow> if k \<in> set (df_del d) then None else map_option (\<lambda>v. (v, oldText k)) (map_of old k))"

definition same_cell :: "f64 \<times> string option \<Rightarrow> f64 \<times> string option \<Rightarrow> bool" where
  "same_cell a b \<longleftrightarrow> (fst a = fst b \<or> feq (fst a) (fst b)) \<and> snd a = snd b"

lemma find_key:
  assumes "distinct (map (dimKey \<circ> row_DimMembers) rows)" "r \<in> set rows"
  shows "List.find (\<lambda>x. dimKey (row_DimMembers x) = dimKey (row_DimMembers r)) rows = Some r"
  using assms by (induction rows) (auto simp: image_iff)

lemma after_diff_rows:
  assumes dist: "distinct (map (dimKey \<circ> row_DimMembers) rows)"
  shows "rel_option same_cell (after_diff old oldText (diffResults unmarshal rows old oldText dimIDs dims) k) (row_at rows k)"
proof (cases "k \<in> dimKey ` row_DimMembers ` set rows")
  case False
  then have "row_at rows k = None" "row_at (moved_rows rows old oldText) k = None"
    by (auto simp: row_at_def find_None_iff moved_rows_def)
  moreover have "map_of old k = None" if "k \<notin> set (gone_keys rows old)"
    using that False by (auto simp: gone_keys_def map_of_eq_None_iff)
  ultimately show ?thesis by (auto simp: after_diff_def diffResults_fields [OF refl])
next
  case True
  then obtain r where r: "r \<in> set rows" "k = dimKey (row_DimMembers r)" by blast
  note f = find_key [OF dist r(1), folded r(2)]
  have at: "row_at rows k = Some (row_Value r, row_Text r)" using f by (simp add: row_at_def)
  show ?thesis
  proof (cases "same_row (map_of old) oldText r")
    case False
    with r(1) have "r \<in> set (moved_rows rows old oldText)" by (simp add: moved_rows_def)
    moreover have "distinct (map (dimKey \<circ> row_DimMembers) (moved_rows rows old oldText))"
      unfolding moved_rows_def using dist distinct_map_filter by blast
    ultimately have "row_at (moved_rows rows old oldText) k = Some (row_Value r, row_Text r)"
      using find_key [of "moved_rows rows old oldText" r] r(2) by (simp add: row_at_def)
    with at show ?thesis by (simp add: after_diff_def diffResults_fields [OF refl] same_cell_def)
  next
    case True
    have "x = r" if "x \<in> set rows" "dimKey (row_DimMembers x) = k" for x
      using find_key [OF dist that(1)] f that(2) by simp
    with True have none: "\<And>x. x \<in> set (moved_rows rows old oldText) \<Longrightarrow> dimKey (row_DimMembers x) \<noteq> k" by (auto simp: moved_rows_def)
    then have "row_at (moved_rows rows old oldText) k = None" by (auto simp: row_at_def find_None_iff)
    moreover have "k \<notin> set (gone_keys rows old)" using r by (auto simp: gone_keys_def)
    moreover from True obtain v where "map_of old k = Some v" "feq v (row_Value r)" "oldText k = row_Text r"
      using r(2) by (auto simp: same_row_def Let_def split: option.splits)
    ultimately show ?thesis using at none by (auto simp: after_diff_def diffResults_fields [OF refl] same_cell_def)
  qed
qed

lemma diff_covers:
  assumes c: "leaf_cell dims dimIDs c"
    "(\<exists>r \<in> set rows. row_DimMembers r = c \<and> \<not> same_row (map_of old) oldText r) \<or>
     (\<exists>k \<in> set (map fst old). k \<notin> dimKey ` row_DimMembers ` set rows \<and> unmarshal k = Some c)"
  shows "in_region (df_changed (diffResults unmarshal rows old oldText dimIDs dims)) c"
proof -
  let ?cs = "map row_DimMembers (moved_rows rows old oldText) @ List.map_filter unmarshal (gone_keys rows old)"
  have "c \<in> set ?cs" using c(2)
    by (auto simp: moved_rows_def gone_keys_def List.map_filter_def image_iff)
  obtain box leaf agg where m: "foldl (\<lambda>m c. mark dims dimIDs c m) ([], False, False) ?cs = (box, leaf, agg)" by (cases "foldl (\<lambda>m c. mark dims dimIDs c m) ([], False, False) ?cs") auto
  from foldl_mark [OF _ _ m] c(1) \<open>c \<in> set ?cs\<close> have "leaf" "in_box box c" by auto
  then show ?thesis unfolding diffResults_fields(3) [OF refl] m by (auto simp: region_contains_def in_box_def list_all_iff)
qed

subsection \<open>A read only fetches under the cell's own pins\<close>





















subsection \<open>What a projection leaves out\<close>






subsection \<open>Writing a metric's rows\<close>

text \<open>
  The rows of one metric in \<open>calc_result\<close>, as a list; two \<open>jsonb\<close> coordinates are equal when their keys are.
  \<open>ReplaceResultsTx\<close> makes the given rows the metric's rows. A failed statement rolls the transaction back and is not modelled.
\<close>

definition ReplaceResultsTx :: "CalcResultRow list \<Rightarrow> CalcResultRow list \<Rightarrow> CalcResultRow list" where
  "ReplaceResultsTx rows table = rows"

definition ApplyResultsDiffTx :: "string list \<Rightarrow> CalcResultRow list \<Rightarrow> nat \<Rightarrow> CalcResultRow list \<Rightarrow> CalcResultRow list \<times> bool" where
  "ApplyResultsDiffTx del ins want table =
     (let t = filter (\<lambda>r. dimKey (row_DimMembers r) \<notin> set del) table @ ins in (t, length t = want))"

definition writeDiffTx :: "CalcResultRow list \<Rightarrow> resultDiff \<Rightarrow> increment \<Rightarrow> CalcResultRow list \<Rightarrow> CalcResultRow list \<times> increment" where
  "writeDiffTx rows diff inc table =
     (case ApplyResultsDiffTx (df_del diff) (df_ins diff) (length rows) table of (t, ok) \<Rightarrow>
        if ok then (t, inc\<lparr>in_out := df_changed diff\<rparr>)
        else (ReplaceResultsTx rows t, inc\<lparr>in_out := Some everywhere\<rparr>))"

definition persistRows :: "(string \<Rightarrow> combo option) \<Rightarrow> CalcResultRow list \<Rightarrow> increment option \<Rightarrow> string list \<Rightarrow> dimensions \<Rightarrow>
    CalcResultRow list \<Rightarrow> CalcResultRow list \<times> increment option" where
  "persistRows unmarshal rows inc dimIDs dims table =
     (case inc of
        None \<Rightarrow> (ReplaceResultsTx rows table, None)
      | Some i \<Rightarrow>
          (let diff = diffResults unmarshal rows (in_old i) (in_oldText i) dimIDs dims
           in if df_del diff = [] \<and> df_ins diff = [] then (table, Some (i\<lparr>in_out := None\<rparr>))
              else (case writeDiffTx rows diff i table of (t, i') \<Rightarrow> (t, Some i'))))"

text \<open>What \<open>loadHeld\<close> read is what the table holds.\<close>

definition held :: "increment \<Rightarrow> CalcResultRow list \<Rightarrow> bool" where
  "held inc table \<longleftrightarrow> (\<forall>k. map_option (\<lambda>v. (v, in_oldText inc k)) (map_of (in_old inc) k) = row_at table k)"

definition row_keys :: "CalcResultRow list \<Rightarrow> string list" where
  "row_keys rows = map (dimKey \<circ> row_DimMembers) rows"

lemma row_at_None: "row_at rows k = None \<longleftrightarrow> k \<notin> set (row_keys rows)"
  by (auto simp: row_at_def find_None_iff row_keys_def)

lemma find_append: "List.find P (xs @ ys) = (case List.find P xs of None \<Rightarrow> List.find P ys | Some x \<Rightarrow> Some x)"
  by (induction xs) auto

lemma row_at_append: "row_at (xs @ ys) k = (case row_at xs k of None \<Rightarrow> row_at ys k | Some x \<Rightarrow> Some x)"
  by (simp add: row_at_def find_append split: option.splits)

lemma row_at_filter: "row_at (filter (\<lambda>r. dimKey (row_DimMembers r) \<notin> S) rows) k = (if k \<in> S then None else row_at rows k)"
  by (induction rows) (auto simp: row_at_def)

lemma applied_rows:
  assumes "held inc table" and dist: "distinct (row_keys rows)"
    and d: "d = diffResults unmarshal rows (in_old inc) (in_oldText inc) dimIDs dims"
  shows "row_at (fst (ApplyResultsDiffTx (df_del d) (df_ins d) n table)) k = after_diff (in_old inc) (in_oldText inc) d k"
proof -
  have at: "row_at table k = map_option (\<lambda>v. (v, in_oldText inc k)) (map_of (in_old inc) k)" using assms(1) by (simp add: held_def)
  have "map_of (in_old inc) k = None" if "k \<notin> set (df_del d)" "row_at (df_ins d) k \<noteq> None"
  proof -
    from that(2) have "k \<in> set (row_keys (moved_rows rows (in_old inc) (in_oldText inc)))"
      using row_at_None by (simp add: diffResults_fields(1) [OF d])
    with that(1) show ?thesis by (auto simp: diffResults_fields(2) [OF d] row_keys_def)
  qed
  then show ?thesis
    by (auto simp: ApplyResultsDiffTx_def Let_def row_at_append row_at_filter after_diff_def at split: option.splits)
qed

lemma no_diff:
  assumes "d = diffResults unmarshal rows (in_old inc) (in_oldText inc) dimIDs dims" "df_del d = []" "df_ins d = []"
  shows "after_diff (in_old inc) (in_oldText inc) d k = map_option (\<lambda>v. (v, in_oldText inc k)) (map_of (in_old inc) k)" "df_changed d = None"
proof -
  show "after_diff (in_old inc) (in_oldText inc) d k = map_option (\<lambda>v. (v, in_oldText inc k)) (map_of (in_old inc) k)"
    using assms by (simp add: after_diff_def row_at_def)
  have "moved_rows rows (in_old inc) (in_oldText inc) = []" "gone_keys rows (in_old inc) = []"
    using assms(2,3) by (simp_all add: diffResults_fields [OF assms(1)])
  then show "df_changed d = None" using assms(2,3) by (simp add: diffResults_fields(3) [OF assms(1)] List.map_filter_def)
qed

lemma same_cell_refl: "same_cell a a"
  by (simp add: same_cell_def)

lemma persisted_rows:
  assumes "held inc table" and dist: "distinct (row_keys rows)"
    and "persistRows unmarshal rows (Some inc) dimIDs dims table = (table', Some inc')"
  shows "rel_option same_cell (row_at table' k) (row_at rows k)"
    and "in_out inc' = df_changed (diffResults unmarshal rows (in_old inc) (in_oldText inc) dimIDs dims) \<or> in_out inc' = Some everywhere"
proof -
  let ?d = "diffResults unmarshal rows (in_old inc) (in_oldText inc) dimIDs dims"
  note after = after_diff_rows [of rows "in_old inc" "in_oldText inc" unmarshal dimIDs dims k] dist
  obtain t ok where t: "ApplyResultsDiffTx (df_del ?d) (df_ins ?d) (length rows) table = (t, ok)" by fastforce
  consider "df_del ?d = []" "df_ins ?d = []" "table' = table" "in_out inc' = None"
    | "table' = t" "in_out inc' = df_changed ?d" | "table' = rows" "in_out inc' = Some everywhere"
    using assms(3) by (cases ok) (auto simp: persistRows_def Let_def writeDiffTx_def ReplaceResultsTx_def t split: if_splits)
  then have "rel_option same_cell (row_at table' k) (row_at rows k) \<and> (in_out inc' = df_changed ?d \<or> in_out inc' = Some everywhere)"
  proof cases
    case 1
    with no_diff [OF refl 1(1,2)] after assms(1) show ?thesis by (simp add: held_def row_keys_def)
  next
    case 2
    with applied_rows [OF assms(1) dist refl, of unmarshal dimIDs dims "length rows" k] t after show ?thesis by (simp add: row_keys_def)
  next
    case 3 then show ?thesis by (simp add: option.rel_refl same_cell_refl)
  qed
  then show "rel_option same_cell (row_at table' k) (row_at rows k)"
    and "in_out inc' = df_changed ?d \<or> in_out inc' = Some everywhere" by blast+
qed

lemma leaf_cell_same:
  assumes "same_combo c c'"
  shows "leaf_cell dims dimIDs c = leaf_cell dims dimIDs c'"
proof -
  have "distinct c" "distinct c'" "set c = set c'" using assms by (auto simp: same_combo_def distinct_map)
  then have "length c = length c'" by (metis distinct_card)
  then show ?thesis by (simp add: leaf_cell_def reads_same(4) [OF assms])
qed

lemma in_region_same: "same_combo c c' \<Longrightarrow> in_region r c = in_region r c'"
  using reads_same(4) [of c c'] by (cases r) (simp_all add: region_contains_def)

lemma diff_outside:
  assumes c: "leaf_cell dims dimIDs c" "distinct (map fst c)" "unmarshal (dimKey c) = Some c'" "same_combo c c'"
    and rows: "\<And>r. r \<in> set rows \<Longrightarrow> distinct (map fst (row_DimMembers r))" "distinct (row_keys rows)"
    and nin: "\<not> in_region (df_changed (diffResults unmarshal rows old oldText dimIDs dims)) c"
  shows "rel_option same_cell (map_option (\<lambda>v. (v, oldText (dimKey c))) (map_of old (dimKey c))) (row_at rows (dimKey c))"
proof (cases "\<exists>r \<in> set rows. dimKey (row_DimMembers r) = dimKey c")
  case True
  then obtain r where r: "r \<in> set rows" "dimKey (row_DimMembers r) = dimKey c" by blast
  have same: "same_combo c (row_DimMembers r)" by (rule same_comboD) (use c rows r in auto)
  have "same_row (map_of old) oldText r"
  proof (rule ccontr)
    assume "\<not> same_row (map_of old) oldText r"
    then have "in_region (df_changed (diffResults unmarshal rows old oldText dimIDs dims)) (row_DimMembers r)"
      using r(1) leaf_cell_same [OF same] c(1) by (intro diff_covers) auto
    with nin in_region_same [OF same] show False by simp
  qed
  then obtain v where v: "map_of old (dimKey c) = Some v" "feq v (row_Value r)" "oldText (dimKey c) = row_Text r"
    using r(2) by (auto simp: same_row_def Let_def split: option.splits)
  have "row_at rows (dimKey c) = Some (row_Value r, row_Text r)"
    using find_key [OF rows(2) [unfolded row_keys_def] r(1)] r(2) by (simp add: row_at_def)
  with v show ?thesis by (simp add: same_cell_def)
next
  case False
  then have "row_at rows (dimKey c) = None" by (auto simp: row_at_None row_keys_def)
  moreover have "map_of old (dimKey c) = None"
  proof (rule ccontr)
    assume "map_of old (dimKey c) \<noteq> None"
    then have "dimKey c \<in> set (map fst old)" by (auto dest: map_of_SomeD intro: rev_image_eqI)
    then have "in_region (df_changed (diffResults unmarshal rows old oldText dimIDs dims)) c'"
      using False c leaf_cell_same [OF c(4)] by (intro diff_covers disjI2 bexI [of _ "dimKey c"]) auto
    with nin in_region_same [OF c(4)] show False by simp
  qed
  ultimately show ?thesis by simp
qed

text \<open>
  C8. Writing the difference is writing the rows. When a metric's table held what the pass read (\<open>loadHeld\<close>), after
  \<open>persistRows\<close> it answers at every key as the rows of the pass do (values that \<open>==\<close> does not tell apart, the same texts), whether
  the difference was applied or the whole set replaced; and the region recorded as changed misses nothing: a leaf cell outside it
  holds after the pass what it held before.
\<close>

theorem persist_exact:
  assumes "held inc table" and "distinct (row_keys rows)" and "\<And>r. r \<in> set rows \<Longrightarrow> distinct (map fst (row_DimMembers r))"
    and "persistRows unmarshal rows (Some inc) dimIDs dims table = (table', Some inc')"
    and "leaf_cell dims dimIDs c" and "unmarshal (dimKey c) = Some c'" and "same_combo c c'"
  shows "rel_option same_cell (row_at table' k) (row_at rows k) \<and>
    (in_region (in_out inc') c \<or> rel_option same_cell (row_at table (dimKey c)) (row_at rows (dimKey c)))"
proof -
  note p = persisted_rows [OF assms(1,2,4)]
  have "rel_option same_cell (row_at table (dimKey c)) (row_at rows (dimKey c))" if "\<not> in_region (in_out inc') c"
  proof -
    from that p(2) have "\<not> in_region (df_changed (diffResults unmarshal rows (in_old inc) (in_oldText inc) dimIDs dims)) c" by auto
    from diff_outside [OF assms(5) _ assms(6,7,3,2) this] assms(1,7) show ?thesis by (simp add: held_def same_combo_def)
  qed
  with p(1) show ?thesis by blast
qed

definition region_row :: "string \<Rightarrow> f64 \<Rightarrow> CalcResultRow" where
  "region_row code v = \<lparr>row_DimMembers = [(''region'', code)], row_Value = v, row_Text = None\<rparr>"

definition region_key :: "string \<Rightarrow> string" where
  "region_key code = dimKey [(''region'', code)]"

definition region_inc :: increment where
  "region_inc = \<lparr>in_in = Some everywhere, in_out = None,
     in_old = [(region_key ''EMEA'', Fin 1), (region_key ''APAC'', Fin 2)], in_oldText = Map.empty\<rparr>"

lemma region_keys: "region_key ''EMEA'' = ''{\"region\":\"EMEA\"}'' \<and> region_key ''APAC'' = ''{\"region\":\"APAC\"}''"
  by code_simp

lemma persistRows_some: "\<exists>table' inc'. persistRows unmarshal rows (Some inc) dimIDs dims table = (table', Some inc')"
  by (auto simp: persistRows_def Let_def split: prod.split)

lemma region_held: "held region_inc [region_row ''EMEA'' (Fin 1), region_row ''APAC'' (Fin 2)]"
  by (simp add: held_def region_inc_def row_at_def region_row_def region_key_def)

theorem persist_exact_witness:
  "\<exists>table' inc'. persistRows (\<lambda>_. Some [(''region'', ''EMEA'')]) [region_row ''EMEA'' (Fin 1), region_row ''APAC'' (Fin 3)] (Some region_inc) [''region'']
      [''region'' \<mapsto> demo_region] [region_row ''EMEA'' (Fin 1), region_row ''APAC'' (Fin 2)] = (table', Some inc') \<and>
     rel_option same_cell (row_at table' (region_key ''APAC'')) (Some (Fin 3, None))"
proof -
  let ?rows = "[region_row ''EMEA'' (Fin 1), region_row ''APAC'' (Fin 3)]"
  let ?table = "[region_row ''EMEA'' (Fin 1), region_row ''APAC'' (Fin 2)]"
  let ?dims = "[''region'' \<mapsto> demo_region]" and ?un = "\<lambda>_. Some [(''region'', ''EMEA'')]"
  obtain table' inc' where p: "persistRows ?un ?rows (Some region_inc) [''region''] ?dims ?table = (table', Some inc')"
    using persistRows_some by blast
  have keys: "distinct (row_keys ?rows)" using region_keys by (simp add: row_keys_def region_row_def region_key_def)
  have members: "\<And>r. r \<in> set ?rows \<Longrightarrow> distinct (map fst (row_DimMembers r))" by (auto simp: region_row_def)
  have "leaf_cell ?dims [''region''] [(''region'', ''EMEA'')]" by (simp add: leaf_cell_def) code_simp
  then have "rel_option same_cell (row_at table' (region_key ''APAC'')) (row_at ?rows (region_key ''APAC''))"
    using persist_exact [OF region_held keys members p, of "[(''region'', ''EMEA'')]" "[(''region'', ''EMEA'')]" "region_key ''APAC''"]
    by (simp add: same_combo_def)
  moreover have "row_at ?rows (region_key ''APAC'') = Some (Fin 3, None)"
    using region_keys by (simp add: row_at_def region_row_def region_key_def)
  ultimately show ?thesis using p by auto
qed




end
