(* ===== verification/Partition.thy ===== *)
theory Partition
  imports PassCache Regions Targets
begin

text \<open>
  The evaluation of one metric's cells (\<open>internal/calculation/scheduler.go\<close>): the leaves and rollups one by one, the totals, the
  slices and periods, and the set of rows they make. What is shown: a partial evaluation makes the rows of a whole one, the
  rows are one per intersection, a slice's leaves are those of a scan, and what happens when no cell evaluates.
\<close>

subsection \<open>Evaluating the cells\<close>

datatype calc_failure =
    CombosFailed nat int string "calc_error option"
  | TotalFailed string calc_error
  | RatioFailed string string
  | SizeRefused TooLargeError
  | NotPrepared string

text \<open>What becomes of the metric's rows: left as they are, all deleted, or replaced.\<close>

datatype rows_written = KeepRows | ClearRows | WriteRows "CalcResultRow list"

definition failed_on_member :: "calc_error \<Rightarrow> bool" where
  "failed_on_member e = (case e of FormulaFailed fe \<Rightarrow> IsMemberNotAvailable fe | _ \<Rightarrow> False)"

record tally =
  ta_failures :: nat
  ta_skipped :: nat
  ta_memberNA :: nat
  ta_firstErr :: "calc_error option"

definition no_failures :: tally where
  "no_failures = \<lparr>ta_failures = 0, ta_skipped = 0, ta_memberNA = 0, ta_firstErr = None\<rparr>"

definition count_failure :: "calc_error \<times> bool \<Rightarrow> tally \<Rightarrow> tally" where
  "count_failure f t =
     (case f of (e, noData) \<Rightarrow>
        if noData then t\<lparr>ta_skipped := ta_skipped t + 1\<rparr>
        else t\<lparr>ta_failures := ta_failures t + 1,
               ta_memberNA := (if failed_on_member e then ta_memberNA t + 1 else ta_memberNA t),
               ta_firstErr := (case ta_firstErr t of None \<Rightarrow> Some e | Some x \<Rightarrow> Some x)\<rparr>)"

definition number_row :: "combo \<Rightarrow> f64 \<Rightarrow> CalcResultRow" where
  "number_row c v = \<lparr>row_DimMembers = c, row_Value = v, row_Text = None\<rparr>"

definition held_row :: "increment option \<Rightarrow> combo \<Rightarrow> CalcResultRow list" where
  "held_row inc c = (case inc of None \<Rightarrow> [] | Some i \<Rightarrow> (case map_of (in_old i) (dimKey c) of None \<Rightarrow> [] | Some v \<Rightarrow> [number_row c v]))"

definition outside_region :: "increment option \<Rightarrow> combo \<Rightarrow> bool" where
  "outside_region inc c \<longleftrightarrow> partial inc \<and> \<not> in_region (Option.bind inc in_in) c"

fun eval_leaves :: "cellEval \<Rightarrow> increment option \<Rightarrow> combo list \<Rightarrow> CalcResultRow list \<Rightarrow> tally \<Rightarrow> CalcResultRow list \<times> tally" where
  "eval_leaves evalOne inc [] rows t = (rows, t)"
| "eval_leaves evalOne inc (c # cs) rows t =
     (if outside_region inc c then eval_leaves evalOne inc cs (rows @ held_row inc c) t
      else case evalOne c of
             Inl f \<Rightarrow> eval_leaves evalOne inc cs rows (count_failure f t)
           | Inr v \<Rightarrow> eval_leaves evalOne inc cs (rows @ [number_row c v]) t)"

definition rollupComboCap :: int where
  "rollupComboCap = 20000"

definition rollup_row :: "cellEval \<Rightarrow> increment option \<Rightarrow> dimensions \<Rightarrow> combo \<Rightarrow> CalcResultRow list" where
  "rollup_row evalOne inc dims c =
     (if partial inc \<and> \<not> coverTest inc dims c then held_row inc c
      else case evalOne c of Inl _ \<Rightarrow> [] | Inr v \<Rightarrow> [number_row c v])"

definition exact_rule :: "string \<Rightarrow> bool" where
  "exact_rule rule \<longleftrightarrow> rule = ''formula'' \<or> rule = ''rate''"

definition rollup_rows :: "cellEval \<Rightarrow> increment option \<Rightarrow> dimensions \<Rightarrow> string list \<Rightarrow> string \<Rightarrow> CalcResultRow list" where
  "rollup_rows evalOne inc dims dimIDs rule =
     (if exact_rule rule then concat (map (rollup_row evalOne inc dims) (RollupCombos dims dimIDs rollupComboCap)) else [])"

subsection \<open>The totals\<close>

definition rateTotal :: "dimensions \<Rightarrow> (string \<Rightarrow> string list) \<Rightarrow> (string \<rightharpoonup> MetricDef) \<Rightarrow> (MetricDef \<Rightarrow> string + (string \<times> f64) list) \<Rightarrow> MetricDef \<Rightarrow> string + f64" where
  "rateTotal dims metricDimIDs defs load d =
     (let operandTotal = (\<lambda>i.
            case defs i of
              None \<Rightarrow> Inl (''operand metric '' @ i @ '' is not in this model/revision'')
            | Some o1 \<Rightarrow>
                (case load o1 of
                   Inl e \<Rightarrow> Inl (''load values for '' @ f_Name o1 @ '': '' @ e)
                 | Inr vm \<Rightarrow>
                     (case map_of vm (dimKey []) of
                        Some t \<Rightarrow> Inr t
                      | None \<Rightarrow>
                          (case fst (ResolveTime dims (mapFetch (map_of vm)) i (metricDimIDs i) (f_AggRule o1) (f_TimeSummary o1) [] ()) of
                             Inl e \<Rightarrow> Inl (''resolve '' @ f_Name o1 @ '': '' @ rollup_text e)
                           | Inr (v, _) \<Rightarrow> Inr v))))
      in if f_AggNumeratorID d = [] \<or> f_AggDenominatorID d = [] then Inl ''rate needs both a numerator and a denominator metric''
         else case operandTotal (f_AggNumeratorID d) of
                Inl e \<Rightarrow> Inl e
              | Inr n \<Rightarrow>
                  (case operandTotal (f_AggDenominatorID d) of
                     Inl e \<Rightarrow> Inl e
                   | Inr den \<Rightarrow>
                       if feq den fzero
                       then Inl (''denominator '' @ (case defs (f_AggDenominatorID d) of None \<Rightarrow> [] | Some x \<Rightarrow> f_Name x) @ '' totals zero'')
                       else Inr (fdiv n den)))"

text \<open>The \<open>'{}'\<close> total and whether it is written.\<close>

definition combined_total :: "leafRows \<Rightarrow> f64 list \<Rightarrow> string \<Rightarrow> timeAxis option \<Rightarrow> string \<Rightarrow> f64 \<times> bool" where
  "combined_total leaves vals rule axis timeSummary =
     (case axis of
        Some a \<Rightarrow> if exact_rule rule then (CombineAgg vals rule, True) else summarizeOverTime leaves a rule timeSummary []
      | None \<Rightarrow> (CombineAgg vals rule, True))"

definition partition_total :: "cellEval \<Rightarrow> string + f64 \<Rightarrow> dimensions \<Rightarrow> string list \<Rightarrow> MetricDef \<Rightarrow> string \<Rightarrow> timeAxis option \<Rightarrow> leafRows \<Rightarrow> f64 list \<Rightarrow>
    calc_failure + f64 \<times> bool" where
  "partition_total evalOne ratio dims dimIDs d rule axis leaves vals =
     (let (agg0, w0) = combined_total leaves vals rule axis (f_TimeSummary d);
          own = (if rule = ''formula''
                 then (case evalOne [] of
                         Inl (ErrBlankResult, _) \<Rightarrow> Inr (agg0, False)
                       | Inl (e, _) \<Rightarrow> Inl (TotalFailed (f_Name d) e)
                       | Inr t \<Rightarrow> Inr (t, w0))
                 else Inr (agg0, w0))
      in case own of
           Inl e \<Rightarrow> Inl e
         | Inr (agg1, w1) \<Rightarrow>
             (let written = (w1 \<and> (Aggregates (f_AggRule d) \<or> LeafCombo dims dimIDs []))
              in if f_AggRule d = ''rate''
                 then (case ratio of Inl m \<Rightarrow> Inl (RatioFailed (f_Name d) m) | Inr t \<Rightarrow> Inr (t, written))
                 else Inr (agg1, written)))"

subsection \<open>Slices and periods\<close>

definition slice_leaves :: "leafRows \<Rightarrow> string \<Rightarrow> string list \<Rightarrow> nat list" where
  "slice_leaves leaves d sub =
     (let rowsOf = (\<lambda>code. filter (\<lambda>i. lr_Member leaves i d = Some code) [0..<lr_Len leaves]);
          lists = filter (\<lambda>l. l \<noteq> []) (map rowsOf sub)
      in if 1 < length lists then sort (concat lists) else concat lists)"

definition slice_row :: "string \<Rightarrow> bool \<Rightarrow> string list \<Rightarrow> dimensions \<Rightarrow> leafRows \<Rightarrow> cellEval \<Rightarrow> timeAxis option \<Rightarrow> string \<Rightarrow> string \<Rightarrow> Dimension \<Rightarrow> Member \<Rightarrow> CalcResultRow list" where
  "slice_row aggRule useEval dimIDs dims leaves evalOne axis timeSummary di d m =
     (let slice = [(di, m_Code m)];
          sub = subtree_pop (d_Members d) [] [m_Code m];
          picked = slice_leaves leaves di sub;
          vals = map (lr_Value leaves) picked;
          plain = (if vals = [] then [] else [number_row slice (CombineAgg vals aggRule)])
      in if \<not> Aggregates aggRule \<and> \<not> LeafCombo dims dimIDs slice then []
         else if useEval then (case evalOne slice of Inl _ \<Rightarrow> [] | Inr v \<Rightarrow> [number_row slice v])
         else (case axis of
                 None \<Rightarrow> plain
               | Some a \<Rightarrow>
                   if di \<noteq> d_ID (ax_dim a) \<or> \<not> IsLeafPeriod m
                   then (case summarizeOverTime (subRows leaves picked) a aggRule timeSummary [(di, sub)] of
                           (v, ok) \<Rightarrow> if ok then [number_row slice v] else [])
                   else plain))"

definition oneDimSliceRows :: "string \<Rightarrow> bool \<Rightarrow> string list \<Rightarrow> dimensions \<Rightarrow> leafRows \<Rightarrow> cellEval \<Rightarrow> timeAxis option \<Rightarrow> string \<Rightarrow> CalcResultRow list" where
  "oneDimSliceRows aggRule dimConditional dimIDs dims leaves evalOne axis timeSummary =
     (let useEval = (exact_rule aggRule \<or> aggRule = ''average'' \<and> \<not> dimConditional)
      in if length dimIDs < 2 then []
         else concat (map (\<lambda>i. case dims i of
                             None \<Rightarrow> []
                           | Some d \<Rightarrow> concat (map (slice_row aggRule useEval dimIDs dims leaves evalOne axis timeSummary i d) (d_Members d))) dimIDs))"

definition aggregatePeriodRows :: "string \<Rightarrow> string list \<Rightarrow> leafRows \<Rightarrow> timeAxis option \<Rightarrow> string \<Rightarrow> CalcResultRow list" where
  "aggregatePeriodRows aggRule dimIDs leaves axis timeSummary =
     (case axis of
        None \<Rightarrow> []
      | Some a \<Rightarrow>
          if length dimIDs \<noteq> 1 \<or> exact_rule aggRule then []
          else concat (map (\<lambda>m.
                 if IsLeafPeriod m then []
                 else case summarizeOverTime leaves a aggRule timeSummary [(d_ID (ax_dim a), subtreeCodes (Some (ax_dim a)) (m_Code m))] of
                        (v, ok) \<Rightarrow> if ok then [number_row [(d_ID (ax_dim a), m_Code m)] v] else []) (d_Members (ax_dim a))))"

subsection \<open>The scalar path of executePartition\<close>

definition nothing_calculated :: "MetricDef \<Rightarrow> int \<Rightarrow> tally \<Rightarrow> rows_written \<times> calc_failure option" where
  "nothing_calculated d cells t =
     (if ta_failures t = 0 then (ClearRows, None)
      else (if ta_memberNA t = ta_failures t then ClearRows else KeepRows, Some (CombosFailed (ta_failures t) cells (f_Name d) (ta_firstErr t))))"

definition some_failed :: "MetricDef \<Rightarrow> int \<Rightarrow> tally \<Rightarrow> calc_failure option" where
  "some_failed d cells t =
     (if 0 < ta_failures t then Some (CombosFailed (ta_failures t) (cells - int (ta_skipped t)) (f_Name d) (ta_firstErr t)) else None)"

text \<open>\<open>evalOne\<close> is the metric's \<open>cellEval\<close>, \<open>ratio\<close> what \<open>rateTotal\<close> answers when the total is made.\<close>

definition scalar_rows :: "platform \<Rightarrow> cellEval \<Rightarrow> string + f64 \<Rightarrow> dimensions \<Rightarrow> string list \<Rightarrow> (string \<times> string) list \<Rightarrow> MetricDef \<Rightarrow> timeAxis option \<Rightarrow> increment option \<Rightarrow>
    rows_written \<times> calc_failure option" where
  "scalar_rows pl evalOne ratio dims dimIDs dimIDToName d axis inc =
     (let combos0 = LeafCombos dims dimIDs;
          combos = (if combos0 = [] then [[]] else combos0);
          rule = EffectiveAggRule pl (f_AggRule d) (f_Formula d) dimIDToName;
          (leaves, t) = eval_leaves evalOne inc combos [] no_failures;
          results = leaves @ rollup_rows evalOne inc dims dimIDs rule
      in if results = [] then nothing_calculated d (int (length combos)) t
         else case partition_total evalOne ratio dims dimIDs d rule axis (resultRows results) (map row_Value results) of
                Inl e \<Rightarrow> (KeepRows, Some e)
              | Inr (aggregate, writeAggregate) \<Rightarrow>
                  (WriteRows (filter (\<lambda>r. row_DimMembers r \<noteq> []) results @
                     oneDimSliceRows rule (FormulaReferencesDims pl (f_Formula d) dimIDToName) dimIDs dims (resultRows results) evalOne axis (f_TimeSummary d) @
                     aggregatePeriodRows rule dimIDs (resultRows results) axis (f_TimeSummary d) @
                     (if writeAggregate then [number_row [] aggregate] else [])),
                   some_failed d (int (length combos)) t))"

subsection \<open>Texts\<close>

definition text_row :: "combo \<Rightarrow> string \<Rightarrow> CalcResultRow" where
  "text_row c s = \<lparr>row_DimMembers = c, row_Value = fzero, row_Text = Some s\<rparr>"

fun eval_texts :: "(combo \<Rightarrow> calc_error \<times> bool + string) \<Rightarrow> combo list \<Rightarrow> CalcResultRow list \<Rightarrow> tally \<Rightarrow> CalcResultRow list \<times> tally" where
  "eval_texts evalText [] rows t = (rows, t)"
| "eval_texts evalText (c # cs) rows t =
     (case evalText c of
        Inl (e, noData) \<Rightarrow> eval_texts evalText cs rows (if noData \<or> e = ErrBlankResult then t else count_failure (e, False) t)
      | Inr s \<Rightarrow> eval_texts evalText cs (if s = [] then rows else rows @ [text_row c s]) t)"

definition executeText :: "(combo \<Rightarrow> calc_error \<times> bool + string) \<Rightarrow> dimensions \<Rightarrow> string list \<Rightarrow> MetricDef \<Rightarrow> rows_written \<times> calc_failure option" where
  "executeText evalText dims dimIDs d =
     (let combos0 = LeafCombos dims dimIDs;
          combos1 = (if combos0 = [] then [[]] else combos0);
          combos = (if f_AggRule d = ''formula'' \<and> dimIDs \<noteq> [] then combos1 @ RollupCombos dims dimIDs rollupComboCap @ [[]] else combos1);
          (rows, t) = eval_texts evalText combos [] no_failures;
          failed = Some (CombosFailed (ta_failures t) (int (length combos)) (f_Name d) (ta_firstErr t))
      in if rows = [] \<and> 0 < ta_failures t then (KeepRows, failed)
         else (WriteRows rows, if 0 < ta_failures t then failed else None))"

lemma outside_None [simp]: "\<not> outside_region None c"
  by (simp add: outside_region_def partial_def)

subsection \<open>The leaves of a slice\<close>

text \<open>
  C23. The leaves of a slice, found through the lists kept by member code and then sorted, are those a scan of every leaf meets, in its
  order: the leaves whose member lies at or below the slice's member. The order in which the subtree's codes are met does not matter.
\<close>

theorem slices_scan:
  "slice_leaves leaves d (subtree_pop ms [] [code]) =
     filter (\<lambda>i. \<exists>c. lr_Member leaves i d = Some c \<and> (code, c) \<in> (child_of ms)\<^sup>*) [0..<lr_Len leaves]"
proof -
  let ?sub = "subtree_pop ms [] [code]" and ?P = "\<lambda>c i. lr_Member leaves i d = Some c"
  let ?ls = "map (\<lambda>c. filter (?P c) [0..<lr_Len leaves]) ?sub"
  have sub: "set ?sub = (child_of ms)\<^sup>* `` {code}" "distinct ?sub" using subtree_pop_reach [of "[]" ms "[code]"] by auto
  have "sorted l" if "l \<in> set ?ls" for l using that sorted_upt by (auto simp: sorted_wrt_filter simp del: subtree_pop.simps)
  then have "slice_leaves leaves d ?sub = sort (concat ?ls)"
    using concat_one_sorted [of ?ls] by (auto simp: slice_leaves_def Let_def concat_nonempty simp del: subtree_pop.simps)
  also have "\<dots> = filter (\<lambda>i. \<exists>c \<in> set ?sub. ?P c i) [0..<lr_Len leaves]" by (rule sort_concat_filters [OF sub(2)]) auto
  finally show ?thesis using sub(1) by (simp add: Bex_def conj_commute del: subtree_pop.simps)
qed

subsection \<open>A pass that follows written cells\<close>

text \<open>
  What the metric holds at a cell is what an evaluation there gives: the value, or no row. A cell is clean when its evaluation gives
  a value or finds no data.
\<close>

definition held_current :: "cellEval \<Rightarrow> increment \<Rightarrow> combo \<Rightarrow> bool" where
  "held_current evalOne i c \<longleftrightarrow> map_of (in_old i) (dimKey c) = (case evalOne c of Inl _ \<Rightarrow> None | Inr v \<Rightarrow> Some v)"

definition clean_at :: "cellEval \<Rightarrow> combo \<Rightarrow> bool" where
  "clean_at evalOne c = (case evalOne c of Inl (e, noData) \<Rightarrow> noData | Inr _ \<Rightarrow> True)"

definition same_tally :: "tally \<Rightarrow> tally \<Rightarrow> bool" where
  "same_tally t u \<longleftrightarrow> ta_failures t = ta_failures u \<and> ta_memberNA t = ta_memberNA u \<and> ta_firstErr t = ta_firstErr u"

lemma same_tally_count [simp]:
  "same_tally t u \<Longrightarrow> same_tally (count_failure f t) (count_failure f u)"
  "same_tally t u \<Longrightarrow> same_tally t (count_failure (e, True) u)"
  by (auto simp: same_tally_def count_failure_def split: prod.splits)

lemma held_current_row:
  "held_current evalOne i c \<Longrightarrow> held_row (Some i) c = (case evalOne c of Inl _ \<Rightarrow> [] | Inr v \<Rightarrow> [number_row c v])"
  by (auto simp: held_current_def held_row_def split: sum.splits)

lemma partial_leaves:
  assumes "\<forall>c \<in> set cs. outside_region (Some i) c \<longrightarrow> held_current evalOne i c \<and> clean_at evalOne c" "same_tally t u"
  shows "fst (eval_leaves evalOne (Some i) cs rows t) = fst (eval_leaves evalOne None cs rows u) \<and>
    same_tally (snd (eval_leaves evalOne (Some i) cs rows t)) (snd (eval_leaves evalOne None cs rows u))"
  using assms
proof (induction cs arbitrary: rows t u)
  case (Cons c cs)
  show ?case
  proof (cases "outside_region (Some i) c")
    case True
    then have cur: "held_current evalOne i c" and clean: "clean_at evalOne c" using Cons.prems by simp_all
    have "same_tally t (case evalOne c of Inl f \<Rightarrow> count_failure f u | Inr v \<Rightarrow> u)"
      using clean Cons.prems(2) by (auto simp: clean_at_def split: sum.splits prod.splits)
    then show ?thesis using Cons True by (auto simp: held_current_row [OF cur] split: sum.splits)
  next
    case False
    then show ?thesis using Cons by (auto split: sum.splits)
  qed
qed simp

lemma partial_rollups:
  assumes "\<forall>c \<in> set (RollupCombos dims dimIDs rollupComboCap). \<not> coverTest (Some i) dims c \<longrightarrow> held_current evalOne i c"
  shows "exact_rule rule \<Longrightarrow> rollup_rows evalOne (Some i) dims dimIDs rule = rollup_rows evalOne None dims dimIDs rule"
  using assms by (auto simp: rollup_rows_def rollup_row_def held_current_row partial_def intro!: arg_cong [where f = concat] map_cong)

text \<open>The cells whose held values a pass keeps: the leaves outside the region and, for a rule of its own, the rollups it does not cover.\<close>

definition kept_leaves :: "dimensions \<Rightarrow> string list \<Rightarrow> increment \<Rightarrow> combo list" where
  "kept_leaves dims dimIDs i = filter (outside_region (Some i)) (if LeafCombos dims dimIDs = [] then [[]] else LeafCombos dims dimIDs)"

definition kept_rollups :: "dimensions \<Rightarrow> string list \<Rightarrow> string \<Rightarrow> increment \<Rightarrow> combo list" where
  "kept_rollups dims dimIDs rule i = (if exact_rule rule then filter (\<lambda>c. \<not> coverTest (Some i) dims c) (RollupCombos dims dimIDs rollupComboCap) else [])"

lemma partial_rows:
  assumes "\<forall>c \<in> set (kept_leaves dims dimIDs i). held_current evalOne i c \<and> clean_at evalOne c"
    and "\<forall>c \<in> set (kept_rollups dims dimIDs (EffectiveAggRule pl (f_AggRule d) (f_Formula d) names) i). held_current evalOne i c"
  shows "fst (scalar_rows pl evalOne ratio dims dimIDs names d axis (Some i)) = fst (scalar_rows pl evalOne ratio dims dimIDs names d axis None)"
    "snd (scalar_rows pl evalOne ratio dims dimIDs names d axis (Some i)) = None \<longleftrightarrow> snd (scalar_rows pl evalOne ratio dims dimIDs names d axis None) = None"
proof -
  let ?cs = "if LeafCombos dims dimIDs = [] then [[]] else LeafCombos dims dimIDs"
  let ?rule = "EffectiveAggRule pl (f_AggRule d) (f_Formula d) names"
  obtain rows t where p: "eval_leaves evalOne (Some i) ?cs [] no_failures = (rows, t)" by fastforce
  obtain rows' u where f: "eval_leaves evalOne None ?cs [] no_failures = (rows', u)" by fastforce
  have "same_tally no_failures no_failures" by (simp add: same_tally_def)
  from partial_leaves [OF _ this, of ?cs i evalOne "[]"] assms have rows: "rows' = rows" and tally: "same_tally t u"
    unfolding p f by (auto simp: kept_leaves_def)
  have roll: "rollup_rows evalOne (Some i) dims dimIDs ?rule = rollup_rows evalOne None dims dimIDs ?rule"
  proof (cases "exact_rule ?rule")
    case True
    then show ?thesis using assms by (intro partial_rollups) (auto simp: kept_rollups_def)
  qed (simp add: rollup_rows_def)
  have none: "fst (nothing_calculated d n t) = fst (nothing_calculated d n u)" for n
    using tally by (simp add: nothing_calculated_def same_tally_def)
  have failed: "snd (nothing_calculated d n t) = None \<longleftrightarrow> snd (nothing_calculated d n u) = None"
      "some_failed d n t = None \<longleftrightarrow> some_failed d n u = None" for n
    using tally by (auto simp: nothing_calculated_def some_failed_def same_tally_def split: if_splits)
  show "fst (scalar_rows pl evalOne ratio dims dimIDs names d axis (Some i)) = fst (scalar_rows pl evalOne ratio dims dimIDs names d axis None)"
    unfolding scalar_rows_def Let_def p f using rows none by (simp add: roll split: sum.split)
  show "snd (scalar_rows pl evalOne ratio dims dimIDs names d axis (Some i)) = None \<longleftrightarrow> snd (scalar_rows pl evalOne ratio dims dimIDs names d axis None) = None"
    unfolding scalar_rows_def Let_def p f using rows failed by (auto simp add: roll split: sum.split)
qed

subsection \<open>One row per intersection\<close>

lemma eval_leaves_members_eq:
  "map row_DimMembers (fst (eval_leaves evalOne inc cs rows t)) =
     map row_DimMembers rows @ filter (\<lambda>c. if outside_region inc c then held_row inc c \<noteq> [] else \<not> isl (evalOne c)) cs"
proof (induction cs arbitrary: rows t)
  case (Cons c cs)
  have "map row_DimMembers (held_row inc c) = (if held_row inc c = [] then [] else [c])"
    by (auto simp: held_row_def number_row_def split: option.splits)
  then show ?case using Cons by (auto simp: number_row_def split: sum.splits)
qed simp

lemma rollup_rows_members_eq:
  "map row_DimMembers (rollup_rows evalOne inc dims dimIDs rule) =
     filter (\<lambda>c. rollup_row evalOne inc dims c \<noteq> []) (if exact_rule rule then RollupCombos dims dimIDs rollupComboCap else [])"
proof -
  have "map row_DimMembers (concat (map (rollup_row evalOne inc dims) cs)) = filter (\<lambda>c. rollup_row evalOne inc dims c \<noteq> []) cs" for cs
  proof (induction cs)
    case (Cons c cs)
    have "map row_DimMembers (rollup_row evalOne inc dims c) = (if rollup_row evalOne inc dims c = [] then [] else [c])"
      by (auto simp: rollup_row_def held_row_def number_row_def split: option.splits sum.splits)
    with Cons show ?case by simp
  qed simp
  then show ?thesis by (simp add: rollup_rows_def)
qed

definition codes_distinct :: "dimensions \<Rightarrow> string list \<Rightarrow> bool" where
  "codes_distinct dims dimIDs \<longleftrightarrow> distinct dimIDs \<and> (\<forall>i \<in> set dimIDs. case dims i of None \<Rightarrow> True | Some d \<Rightarrow> distinct (map m_Code (d_Members d)))"

lemma lattice_codes: "lattice dims n t ids = Some css \<Longrightarrow> css = map (\<lambda>i. map m_Code (d_Members (the (dims i)))) ids \<and> (\<forall>i \<in> set ids. dims i \<noteq> None)"
  by (induction ids arbitrary: t css) (auto simp: Let_def split: option.splits if_splits)

lemma zip_inj_on: "inj_on (zip ids) {cs. length cs = length ids}"
  by (auto simp: inj_on_def) (metis map_snd_zip)

lemma combos_distinct:
  assumes "codes_distinct dims dimIDs"
  shows "distinct (LeafCombos dims dimIDs)" "distinct (RollupCombos dims dimIDs n)"
    "set (LeafCombos dims dimIDs) \<inter> set (RollupCombos dims dimIDs n) = {}"
    "c \<in> set (LeafCombos dims dimIDs) \<union> set (RollupCombos dims dimIDs n) \<Longrightarrow> map fst c = dimIDs"
proof -
  have ids: "distinct dimIDs" using assms by (simp add: codes_distinct_def)
  have cart: "distinct (cartesianProduct dimIDs css)" if "\<forall>cs \<in> set css. distinct cs" "length css = length dimIDs" for css
    using that ids distinct_product_lists [OF that(1)]
    by (auto simp: cartesianProduct_eq distinct_map in_set_product_lists_length intro!: inj_on_subset [OF zip_inj_on])
  have names: "map fst c = dimIDs" if "c \<in> set (cartesianProduct dimIDs css)" "length css = length dimIDs" for css
    using that ids by (auto simp: cartesianProduct_eq in_set_product_lists_length)
  have leaf: "distinct (allLeafCodes (dims i))" if "i \<in> set dimIDs" for i
    using assms that by (auto simp: codes_distinct_def allLeafCodes_def Let_def distinct_map_filter split: option.splits)
  then show "distinct (LeafCombos dims dimIDs)" unfolding LeafCombos_def by (intro cart) auto
  show "distinct (RollupCombos dims dimIDs n)"
    using assms by (auto simp: RollupCombos_def codes_distinct_def dest!: lattice_codes intro!: distinct_filter cart split: option.splits)
  show "c \<in> set (LeafCombos dims dimIDs) \<union> set (RollupCombos dims dimIDs n) \<Longrightarrow> map fst c = dimIDs"
    using names [of "map (\<lambda>i. allLeafCodes (dims i)) dimIDs"] names [of "map (\<lambda>i. map m_Code (d_Members (the (dims i)))) dimIDs"]
    by (auto simp: LeafCombos_def RollupCombos_def dest!: lattice_codes split: option.splits if_splits)
  have "all_leaf dims dimIDs c" if c: "c \<in> set (LeafCombos dims dimIDs)" for c
  proof -
    obtain cs where cs: "c = zip dimIDs cs" "list_all2 (\<lambda>x i. x \<in> set (allLeafCodes (dims i))) cs dimIDs"
      using c ids by (auto simp: LeafCombos_def cartesianProduct_eq product_lists_set list_all2_map2)
    then show ?thesis using ids
      by (auto simp: all_leaf_def list_all_length map_of_zip_nth list_all2_conv_all_nth)
  qed
  then show "set (LeafCombos dims dimIDs) \<inter> set (RollupCombos dims dimIDs n) = {}"
    by (auto simp: RollupCombos_def split: option.splits)
qed

text \<open>The slices and periods: one row at most for each member, keyed by its dimension and code.\<close>

lemma slice_row_members:
  "slice_row rule ue ids dims lv ev axis ts i d m = [] \<or> (\<exists>v. slice_row rule ue ids dims lv ev axis ts i d m = [number_row [(i, m_Code m)] v])"
  by (auto simp: slice_row_def Let_def simp del: subtree_pop.simps split: option.splits sum.splits prod.splits if_splits)

lemma keyed_rows:
  assumes "\<And>x. f x = [] \<or> (\<exists>v. f x = [number_row (g x) v])"
  shows "map row_DimMembers (concat (map f xs)) = map g (filter (\<lambda>x. f x \<noteq> []) xs)"
proof (induction xs)
  case (Cons x xs)
  then show ?case using assms [of x] by (auto simp: number_row_def)
qed simp

lemma slices_distinct:
  assumes "codes_distinct dims ids"
  shows "distinct (map row_DimMembers (oneDimSliceRows rule cond ids dims lv ev axis ts))"
    "r \<in> set (oneDimSliceRows rule cond ids dims lv ev axis ts) \<Longrightarrow> 2 \<le> length ids \<and> (\<exists>i x. row_DimMembers r = [(i, x)])"
proof -
  define ue where "ue \<longleftrightarrow> exact_rule rule \<or> rule = ''average'' \<and> \<not> cond"
  define f where "f i = (case dims i of None \<Rightarrow> [] | Some d \<Rightarrow> concat (map (slice_row rule ue ids dims lv ev axis ts i d) (d_Members d)))" for i
  have rows: "oneDimSliceRows rule cond ids dims lv ev axis ts = (if length ids < 2 then [] else concat (map f ids))"
    by (simp add: oneDimSliceRows_def f_def [abs_def] ue_def Let_def cong: if_cong option.case_cong)
  have f: "\<exists>xs. distinct xs \<and> map row_DimMembers (f i) = map (\<lambda>x. [(i, x)]) xs" if "i \<in> set ids" for i
  proof (cases "dims i")
    case (Some d)
    let ?r = "slice_row rule ue ids dims lv ev axis ts i d"
    have "map row_DimMembers (f i) = map (\<lambda>x. [(i, x)]) (map m_Code (filter (\<lambda>m. ?r m \<noteq> []) (d_Members d)))"
      using keyed_rows [of ?r "\<lambda>m. [(i, m_Code m)]", OF slice_row_members] by (simp add: f_def Some comp_def)
    moreover have "distinct (map m_Code (filter (\<lambda>m. ?r m \<noteq> []) (d_Members d)))"
      using assms that Some by (auto simp: codes_distinct_def distinct_map_filter)
    ultimately show ?thesis by blast
  qed (simp add: f_def exI [of _ "[]"])
  have key: "\<exists>x. row_DimMembers r = [(j, x)]" if "r \<in> set (f j)" "j \<in> set ids" for r j
  proof -
    from f [OF that(2)] obtain ys where "map row_DimMembers (f j) = map (\<lambda>x. [(j, x)]) ys" by blast
    then have "row_DimMembers r \<in> set (map (\<lambda>x. [(j, x)]) ys)" using that(1) by (metis image_eqI list.set_map)
    then show ?thesis by auto
  qed
  have "distinct (map row_DimMembers (concat (map f js)))" if "distinct js" "set js \<subseteq> set ids" for js
    using that
  proof (induction js)
    case (Cons i js)
    have "row_DimMembers q \<noteq> row_DimMembers r" if "q \<in> set (f i)" "j \<in> set js" "r \<in> set (f j)" for q j r
      using key [of q i] key [of r j] that Cons.prems by auto
    then have "row_DimMembers ` set (f i) \<inter> row_DimMembers ` set (concat (map f js)) = {}" by auto
    moreover obtain xs where "distinct xs" "map row_DimMembers (f i) = map (\<lambda>x. [(i, x)]) xs" using f [of i] Cons.prems by auto
    then have "distinct (map row_DimMembers (f i))" by (simp add: distinct_map inj_on_def)
    ultimately show ?case using Cons by simp
  qed simp
  then show "distinct (map row_DimMembers (oneDimSliceRows rule cond ids dims lv ev axis ts))"
    using assms by (simp add: rows codes_distinct_def)
  show "2 \<le> length ids \<and> (\<exists>i x. row_DimMembers r = [(i, x)])" if "r \<in> set (oneDimSliceRows rule cond ids dims lv ev axis ts)"
  proof -
    from that obtain i where "i \<in> set ids" "r \<in> set (f i)" "2 \<le> length ids" by (auto simp: rows not_less split: if_splits)
    with key [of r i] show ?thesis by auto
  qed
qed

lemma timeAxis_loop_dim:
  "timeAxis_loop dims ax ids = Inr (Some a) \<Longrightarrow> ax = Some a \<or> (\<exists>i \<in> set ids. dims i = Some (ax_dim a) \<and> d_IsTime (ax_dim a))"
  by (induction dims ax ids rule: timeAxis_loop.induct) (auto simp: axis_of_def Let_def split: option.splits if_splits)

text \<open>Every dimension is stored under its own identifier.\<close>

definition dims_named :: "dimensions \<Rightarrow> string list \<Rightarrow> bool" where
  "dims_named dims dimIDs \<longleftrightarrow> list_all (\<lambda>i. case dims i of None \<Rightarrow> True | Some d \<Rightarrow> d_ID d = i) dimIDs"

lemma periods_distinct:
  assumes "codes_distinct dims ids" "dims_named dims ids" "timeAxisFor dims ids = Inr axis"
  shows "distinct (map row_DimMembers (aggregatePeriodRows rule ids lv axis ts))"
    "r \<in> set (aggregatePeriodRows rule ids lv axis ts) \<Longrightarrow> length ids = 1 \<and> \<not> exact_rule rule \<and>
      (\<exists>i x. row_DimMembers r = [(i, x)] \<and> i \<in> set ids \<and> x \<notin> set (allLeafCodes (dims i)))"
proof -
  define f where "f a m = (if IsLeafPeriod m then []
    else case summarizeOverTime lv a rule ts [(d_ID (ax_dim a), subtreeCodes (Some (ax_dim a)) (m_Code m))] of
      (v, ok) \<Rightarrow> if ok then [number_row [(d_ID (ax_dim a), m_Code m)] v] else [])" for a m
  have rows: "aggregatePeriodRows rule ids lv axis ts =
      (case axis of None \<Rightarrow> [] | Some a \<Rightarrow> if length ids \<noteq> 1 \<or> exact_rule rule then [] else concat (map (f a) (d_Members (ax_dim a))))"
    by (simp add: aggregatePeriodRows_def f_def [abs_def] cong: if_cong option.case_cong)
  have keyed: "map row_DimMembers (concat (map (f a) ms)) = map (\<lambda>m. [(d_ID (ax_dim a), m_Code m)]) (filter (\<lambda>m. f a m \<noteq> []) ms)" for a ms
    by (rule keyed_rows) (auto simp: f_def split: prod.splits)
  have axis: "\<exists>i \<in> set ids. dims i = Some (ax_dim a) \<and> d_IsTime (ax_dim a) \<and> d_ID (ax_dim a) = i \<and> distinct (map m_Code (d_Members (ax_dim a)))"
    if "axis = Some a" for a
    using timeAxis_loop_dim [of dims None ids a] assms that by (force simp: timeAxisFor_def dims_named_def codes_distinct_def list_all_iff)
  show "distinct (map row_DimMembers (aggregatePeriodRows rule ids lv axis ts))"
  proof (cases axis)
    case (Some a)
    from axis [OF this] have "distinct (map m_Code (d_Members (ax_dim a)))" by blast
    then have "distinct (map (\<lambda>m. [(d_ID (ax_dim a), m_Code m)]) (filter (\<lambda>m. f a m \<noteq> []) (d_Members (ax_dim a))))"
      by (auto simp: distinct_map inj_on_def)
    then show ?thesis using rows by (simp add: Some keyed)
  qed (simp add: aggregatePeriodRows_def)
  show "length ids = 1 \<and> \<not> exact_rule rule \<and> (\<exists>i x. row_DimMembers r = [(i, x)] \<and> i \<in> set ids \<and> x \<notin> set (allLeafCodes (dims i)))"
    if r: "r \<in> set (aggregatePeriodRows rule ids lv axis ts)"
  proof -
    from r obtain a m where a: "axis = Some a" "length ids = 1" "\<not> exact_rule rule" and m: "m \<in> set (d_Members (ax_dim a))" "r \<in> set (f a m)"
      by (auto simp: rows split: option.splits if_splits)
    from axis [OF a(1)] have i: "d_ID (ax_dim a) \<in> set ids" "dims (d_ID (ax_dim a)) = Some (ax_dim a)" "d_IsTime (ax_dim a)"
      "inj_on m_Code (set (d_Members (ax_dim a)))" by (auto simp: distinct_map)
    have "\<not> IsLeafPeriod m" "row_DimMembers r = [(d_ID (ax_dim a), m_Code m)]"
      using m(2) by (auto simp: f_def number_row_def split: if_splits prod.splits)
    moreover from this(1) m(1) i have "m_Code m \<notin> set (allLeafCodes (dims (d_ID (ax_dim a))))"
      by (auto simp: allLeafCodes_def Let_def dest: inj_onD)
    ultimately show ?thesis using a i by blast
  qed
qed

definition row_shape :: "string list \<Rightarrow> combo \<Rightarrow> bool" where
  "row_shape ids c \<longleftrightarrow> map fst c = ids \<or> (\<exists>i x. c = [(i, x)]) \<or> c = []"

lemma row_shape_key:
  assumes "distinct ids" "row_shape ids c" "row_shape ids e" "dimKey c = dimKey e"
  shows "c = e"
proof -
  have fsts: "distinct (map fst c)" "distinct (map fst e)" using assms(1-3) by (auto simp: row_shape_def)
  have m: "map_of c = map_of e" by (rule same_combo_map_of [OF same_comboD [OF fsts assms(4)]])
  then have "set (map fst c) = set (map fst e)" by (metis dom_map_of_conv_image_fst list.set_map)
  moreover have "map fst c = ids \<or> length (map fst c) \<le> 1" "map fst e = ids \<or> length (map fst e) \<le> 1" using assms(2,3) by (auto simp: row_shape_def)
  moreover have "length (map fst c) = length (map fst e)" using calculation(1) fsts by (metis distinct_card)
  ultimately have names: "map fst c = map fst e" by (cases "map fst c"; cases "map fst e") auto
  then have "map snd c = map snd e"
    using map_of_zip_inject [of "map snd c" "map fst c" "map snd e"] m fsts(1) by (metis length_map zip_map_fst_snd)
  with names show ?thesis by (metis zip_map_fst_snd)
qed

lemma keys_distinct:
  assumes "distinct ids" "distinct (map row_DimMembers rows)" "\<forall>r \<in> set rows. row_shape ids (row_DimMembers r)"
  shows "distinct (row_keys rows)"
proof -
  have "inj_on dimKey (row_DimMembers ` set rows)" using row_shape_key [OF assms(1)] assms(3) by (auto simp: inj_on_def)
  then show ?thesis using assms(2) by (simp add: row_keys_def distinct_map comp_inj_on flip: map_map)
qed

lemma scalar_rows_parts:
  assumes "scalar_rows pl evalOne ratio dims ids names d axis inc = (WriteRows rows, failed)"
  obtains leaves agg where
    "rows = filter (\<lambda>r. row_DimMembers r \<noteq> []) (fst (eval_leaves evalOne inc (if LeafCombos dims ids = [] then [[]] else LeafCombos dims ids) [] no_failures) @
        rollup_rows evalOne inc dims ids (EffectiveAggRule pl (f_AggRule d) (f_Formula d) names)) @
      oneDimSliceRows (EffectiveAggRule pl (f_AggRule d) (f_Formula d) names) (FormulaReferencesDims pl (f_Formula d) names) ids dims leaves evalOne axis (f_TimeSummary d) @
      aggregatePeriodRows (EffectiveAggRule pl (f_AggRule d) (f_Formula d) names) ids leaves axis (f_TimeSummary d) @ agg"
    "agg = [] \<or> (\<exists>v. agg = [number_row [] v])"
proof -
  let ?rule = "EffectiveAggRule pl (f_AggRule d) (f_Formula d) names"
  obtain rs t where e: "eval_leaves evalOne inc (if LeafCombos dims ids = [] then [[]] else LeafCombos dims ids) [] no_failures = (rs, t)" by fastforce
  let ?res = "rs @ rollup_rows evalOne inc dims ids ?rule"
  have "?res \<noteq> []" using assms by (auto simp: scalar_rows_def Let_def e nothing_calculated_def split: if_splits)
  with assms obtain v w where pt: "partition_total evalOne ratio dims ids d ?rule axis (resultRows ?res) (map row_Value ?res) = Inr (v, w)"
    by (auto simp: scalar_rows_def Let_def e split: sum.splits)
  from \<open>?res \<noteq> []\<close> assms show thesis unfolding scalar_rows_def Let_def e prod.case fst_conv pt
    by (intro that [of "resultRows ?res" "if w then [number_row [] v] else []"]) (auto simp del: filter_append simp add: e)
qed

text \<open>The parts of the written set: the cells, the slices, the periods and the total, and what their keys look like.\<close>

lemma written_parts:
  assumes ids: "codes_distinct dims ids" "dims_named dims ids" "timeAxisFor dims ids = Inr axis"
    and rows: "scalar_rows pl evalOne ratio dims ids names d axis inc = (WriteRows rows, failed)"
  defines "rule \<equiv> EffectiveAggRule pl (f_AggRule d) (f_Formula d) names"
    and "cells \<equiv> filter (\<lambda>r. row_DimMembers r \<noteq> []) (fst (eval_leaves evalOne inc (if LeafCombos dims ids = [] then [[]] else LeafCombos dims ids) [] no_failures) @
      rollup_rows evalOne inc dims ids (EffectiveAggRule pl (f_AggRule d) (f_Formula d) names))"
  obtains slices periods agg where "rows = cells @ slices @ periods @ agg" "distinct (map row_DimMembers cells)"
    "distinct (map row_DimMembers slices)" "distinct (map row_DimMembers periods)" "agg = [] \<or> (\<exists>v. agg = [number_row [] v])"
    "\<And>r. r \<in> set cells \<Longrightarrow> map fst (row_DimMembers r) = ids \<and> row_DimMembers r \<noteq> [] \<and> (exact_rule rule \<or> row_DimMembers r \<in> set (LeafCombos dims ids))"
    "\<And>r. r \<in> set slices \<Longrightarrow> 2 \<le> length ids \<and> (\<exists>i x. row_DimMembers r = [(i, x)])"
    "\<And>r. r \<in> set periods \<Longrightarrow> length ids = 1 \<and> \<not> exact_rule rule \<and>
      (\<exists>i x. row_DimMembers r = [(i, x)] \<and> i \<in> set ids \<and> x \<notin> set (allLeafCodes (dims i)))"
proof -
  let ?cs = "if LeafCombos dims ids = [] then [[]] else LeafCombos dims ids"
  let ?ro = "if exact_rule rule then RollupCombos dims ids rollupComboCap else []"
  obtain leaves agg where parts: "rows = cells @ oneDimSliceRows rule (FormulaReferencesDims pl (f_Formula d) names) ids dims leaves evalOne axis (f_TimeSummary d) @
      aggregatePeriodRows rule ids leaves axis (f_TimeSummary d) @ agg" and agg: "agg = [] \<or> (\<exists>v. agg = [number_row [] v])"
    using scalar_rows_parts [OF rows] unfolding cells_def rule_def by blast
  note combos = combos_distinct(1) [OF ids(1)] combos_distinct(2,3) [OF ids(1), where n = rollupComboCap]
  have mem: "map row_DimMembers cells = filter (\<lambda>c. c \<noteq> []) (filter (\<lambda>c. if outside_region inc c then held_row inc c \<noteq> [] else \<not> isl (evalOne c)) ?cs @
      filter (\<lambda>c. rollup_row evalOne inc dims c \<noteq> []) ?ro)"
  proof -
    have members: "map row_DimMembers (filter (\<lambda>r. row_DimMembers r \<noteq> []) xs) = filter (\<lambda>c. c \<noteq> []) (map row_DimMembers xs)" for xs
      by (simp add: filter_map comp_def)
    show ?thesis unfolding cells_def rule_def members map_append eval_leaves_members_eq rollup_rows_members_eq list.map append_Nil ..
  qed
  have dist: "distinct (map row_DimMembers cells)" unfolding mem using combos by auto
  have cell: "map fst (row_DimMembers r) = ids \<and> row_DimMembers r \<noteq> [] \<and> (exact_rule rule \<or> row_DimMembers r \<in> set (LeafCombos dims ids))" if "r \<in> set cells" for r
  proof -
    from that have "row_DimMembers r \<in> set (map row_DimMembers cells)" by simp
    then have "row_DimMembers r \<noteq> [] \<and> (row_DimMembers r \<in> set (LeafCombos dims ids) \<or> exact_rule rule \<and> row_DimMembers r \<in> set (RollupCombos dims ids rollupComboCap))"
      unfolding mem by (auto split: if_splits)
    then show ?thesis using combos_distinct(4) [OF ids(1), where n = rollupComboCap and c = "row_DimMembers r"] by auto
  qed
  show thesis by (rule that [OF parts dist slices_distinct(1) [OF ids(1)] periods_distinct(1) [OF ids] agg cell slices_distinct(2) [OF ids(1)] periods_distinct(2) [OF ids]])
qed

lemma single_key_parts:
  assumes "codes_distinct dims ids" "r \<in> set rows" "rows = cells @ slices @ periods @ agg" "agg = [] \<or> (\<exists>v. agg = [number_row [] v])"
    "\<And>r. r \<in> set cells \<Longrightarrow> map fst (row_DimMembers r) = ids" "\<And>r. r \<in> set slices \<union> set periods \<Longrightarrow> \<exists>i x. row_DimMembers r = [(i, x)]"
  shows "row_shape ids (row_DimMembers r)"
proof -
  consider "r \<in> set cells" | "r \<in> set slices \<union> set periods" | "r \<in> set agg" using assms(2,3) by auto
  then show ?thesis by cases (use assms(4) assms(5,6) [of r] in \<open>auto simp: number_row_def row_shape_def\<close>)
qed

lemma scalar_rows_distinct:
  assumes ids: "codes_distinct dims ids" "dims_named dims ids" "timeAxisFor dims ids = Inr axis"
    and rows: "scalar_rows pl evalOne ratio dims ids names d axis inc = (WriteRows rows, failed)"
  shows "distinct (row_keys rows)" "\<forall>r \<in> set rows. row_shape ids (row_DimMembers r)"
proof -
  define cells where "cells = filter (\<lambda>r. row_DimMembers r \<noteq> []) (fst (eval_leaves evalOne inc (if LeafCombos dims ids = [] then [[]] else LeafCombos dims ids) [] no_failures) @
      rollup_rows evalOne inc dims ids (EffectiveAggRule pl (f_AggRule d) (f_Formula d) names))"
  obtain slices periods agg where all: "rows = cells @ slices @ periods @ agg" and dist: "distinct (map row_DimMembers cells)"
      "distinct (map row_DimMembers slices)" "distinct (map row_DimMembers periods)" and agg: "agg = [] \<or> (\<exists>v. agg = [number_row [] v])"
    and cell: "\<And>r. r \<in> set cells \<Longrightarrow> map fst (row_DimMembers r) = ids \<and> row_DimMembers r \<noteq> [] \<and>
      (exact_rule (EffectiveAggRule pl (f_AggRule d) (f_Formula d) names) \<or> row_DimMembers r \<in> set (LeafCombos dims ids))"
    and sl: "\<And>r. r \<in> set slices \<Longrightarrow> 2 \<le> length ids \<and> (\<exists>i x. row_DimMembers r = [(i, x)])"
    and pe: "\<And>r. r \<in> set periods \<Longrightarrow> length ids = 1 \<and> \<not> exact_rule (EffectiveAggRule pl (f_AggRule d) (f_Formula d) names) \<and>
      (\<exists>i x. row_DimMembers r = [(i, x)] \<and> i \<in> set ids \<and> x \<notin> set (allLeafCodes (dims i)))"
    by (rule written_parts [OF assms, folded cells_def]) (rule that; assumption)
  have cs: "row_DimMembers ` set cells \<inter> row_DimMembers ` set slices = {}" using cell sl by fastforce
  have "row_DimMembers r \<noteq> row_DimMembers q" if "r \<in> set cells" "q \<in> set periods" for r q
  proof
    assume eq: "row_DimMembers r = row_DimMembers q"
    from pe [OF that(2)] obtain i x where q: "row_DimMembers q = [(i, x)]" "i \<in> set ids" "x \<notin> set (allLeafCodes (dims i))" "length ids = 1"
        "\<not> exact_rule (EffectiveAggRule pl (f_AggRule d) (f_Formula d) names)" by auto
    then have "[(i, x)] \<in> set (LeafCombos dims [i])" using cell [OF that(1)] eq by (auto simp: length_Suc_conv)
    then show False using q(3) by (auto simp: LeafCombos_def in_cartesianProduct list_all2_Cons2)
  qed
  then have cp: "row_DimMembers ` set cells \<inter> row_DimMembers ` set periods = {}" by auto
  have sp: "slices = [] \<or> periods = []" using sl [of "hd slices"] pe [of "hd periods"] by (cases slices; cases periods) auto
  show shape: "\<forall>r \<in> set rows. row_shape ids (row_DimMembers r)"
  proof
    fix r assume "r \<in> set rows"
    from single_key_parts [OF ids(1) this all agg] cell sl pe
    show "row_shape ids (row_DimMembers r)" by blast
  qed
  have "distinct (map row_DimMembers (cells @ slices @ periods))" using dist cs cp sp by auto
  moreover have "\<forall>r \<in> set (cells @ slices @ periods). row_DimMembers r \<noteq> []" using cell sl pe by fastforce
  ultimately have "distinct (map row_DimMembers rows)" using agg by (auto simp: all number_row_def)
  then show "distinct (row_keys rows)" using keys_distinct [OF _ _ shape] ids(1) by (simp add: codes_distinct_def)
qed

subsection \<open>What a clean run leaves at its cells\<close>

definition value_rows :: "cellEval \<Rightarrow> combo list \<Rightarrow> CalcResultRow list" where
  "value_rows evalOne cs = map (\<lambda>c. number_row c (projr (evalOne c))) (filter (\<lambda>c. \<not> isl (evalOne c)) cs)"

lemma value_rows_simps [simp]:
  "value_rows evalOne [] = []"
  "value_rows evalOne (c # cs) = (case evalOne c of Inl _ \<Rightarrow> [] | Inr v \<Rightarrow> [number_row c v]) @ value_rows evalOne cs"
  by (simp_all add: value_rows_def split: sum.split)

lemma eval_leaves_whole: "fst (eval_leaves evalOne None cs rows t) = rows @ value_rows evalOne cs"
  by (induction cs arbitrary: rows t) (auto split: sum.splits)

lemma eval_leaves_clean:
  "ta_failures (snd (eval_leaves evalOne None cs rows t)) = 0 \<longleftrightarrow> ta_failures t = 0 \<and> (\<forall>c \<in> set cs. clean_at evalOne c)"
  by (induction cs arbitrary: rows t) (auto simp: clean_at_def count_failure_def split: sum.splits)

lemma rollup_rows_whole:
  "rollup_rows evalOne None dims ids rule = (if exact_rule rule then value_rows evalOne (RollupCombos dims ids rollupComboCap) else [])"
proof -
  have "concat (map (rollup_row evalOne None dims) cs) = value_rows evalOne cs" for cs
    by (induction cs) (simp_all add: rollup_row_def partial_def)
  then show ?thesis by (simp add: rollup_rows_def)
qed

lemma clean_run:
  assumes "scalar_rows pl evalOne ratio dims ids names d axis None = (w, None)" "LeafCombos dims ids \<noteq> []"
  defines "cells \<equiv> value_rows evalOne (LeafCombos dims ids) @ rollup_rows evalOne None dims ids (EffectiveAggRule pl (f_AggRule d) (f_Formula d) names)"
  shows "\<forall>c \<in> set (LeafCombos dims ids). clean_at evalOne c" "w = ClearRows \<and> cells = [] \<or> (\<exists>rows. w = WriteRows rows)"
proof -
  obtain rs t where e: "eval_leaves evalOne None (LeafCombos dims ids) [] no_failures = (rs, t)" by fastforce
  have rs: "rs = value_rows evalOne (LeafCombos dims ids)" using eval_leaves_whole [of evalOne "LeafCombos dims ids" "[]" no_failures] e by simp
  have "ta_failures t = 0 \<and> (w = ClearRows \<and> cells = [] \<or> (\<exists>rows. w = WriteRows rows))"
    using assms(1,2) by (auto simp: scalar_rows_def Let_def e nothing_calculated_def some_failed_def cells_def rs split: if_splits sum.splits)
  then show "\<forall>c \<in> set (LeafCombos dims ids). clean_at evalOne c" "w = ClearRows \<and> cells = [] \<or> (\<exists>rows. w = WriteRows rows)"
    using eval_leaves_clean [of evalOne "LeafCombos dims ids" "[]" no_failures] by (auto simp: e)
qed

lemma combos_named:
  assumes "distinct dimIDs" "dimIDs \<noteq> []"
  shows "[] \<notin> set (LeafCombos dims dimIDs)" "[] \<notin> set (RollupCombos dims dimIDs n)"
proof -
  have named: "[] \<notin> set (cartesianProduct dimIDs css)" if "length css = length dimIDs" for css
    using that assms by (cases dimIDs) (auto simp: cartesianProduct_eq product_lists_set zip_eq_Nil_iff list_all2_Cons2)
  then show "[] \<notin> set (LeafCombos dims dimIDs)" by (simp add: LeafCombos_def)
  have "length css = length dimIDs" if "lattice dims n t dimIDs = Some css" for t css
    using that by (induction dimIDs arbitrary: t css) (auto simp: Let_def split: option.splits if_splits)
  then show "[] \<notin> set (RollupCombos dims dimIDs n)" using named by (auto simp: RollupCombos_def split: option.splits)
qed

lemma row_at_in: "distinct (row_keys rows) \<Longrightarrow> r \<in> set rows \<Longrightarrow> row_at rows (dimKey (row_DimMembers r)) = Some (row_Value r, row_Text r)"
  by (simp add: row_at_def find_key row_keys_def)

lemma value_rows_in: "r \<in> set (value_rows evalOne cs) \<longleftrightarrow> (\<exists>c v. c \<in> set cs \<and> evalOne c = Inr v \<and> r = number_row c v)"
proof (induction cs)
  case (Cons a cs)
  then show ?case by (cases "evalOne a") auto
qed simp

lemma clean_cells:
  assumes ids: "codes_distinct dims ids" "dims_named dims ids" "timeAxisFor dims ids = Inr axis"
    and run: "scalar_rows pl evalOne ratio dims ids names d axis None = (WriteRows rows, None)" and some: "LeafCombos dims ids \<noteq> []" "ids \<noteq> []"
    and c: "c \<in> set (LeafCombos dims ids) \<union> (if exact_rule (EffectiveAggRule pl (f_AggRule d) (f_Formula d) names) then set (RollupCombos dims ids rollupComboCap) else {})"
  shows "row_at rows (dimKey c) = (case evalOne c of Inl _ \<Rightarrow> None | Inr v \<Rightarrow> Some (v, None))"
proof -
  let ?rule = "EffectiveAggRule pl (f_AggRule d) (f_Formula d) names"
  define cells where "cells = filter (\<lambda>r. row_DimMembers r \<noteq> []) (fst (eval_leaves evalOne None (if LeafCombos dims ids = [] then [[]] else LeafCombos dims ids) [] no_failures) @
      rollup_rows evalOne None dims ids ?rule)"
  obtain slices periods agg where all: "rows = cells @ slices @ periods @ agg" and agg: "agg = [] \<or> (\<exists>v. agg = [number_row [] v])"
    and sl: "\<And>r. r \<in> set slices \<Longrightarrow> 2 \<le> length ids \<and> (\<exists>i x. row_DimMembers r = [(i, x)])"
    and pe: "\<And>r. r \<in> set periods \<Longrightarrow> length ids = 1 \<and> \<not> exact_rule ?rule \<and> (\<exists>i x. row_DimMembers r = [(i, x)] \<and> i \<in> set ids \<and> x \<notin> set (allLeafCodes (dims i)))"
    by (rule written_parts [OF ids run, folded cells_def]) (rule that; assumption)
  have dist: "distinct ids" using ids(1) by (simp add: codes_distinct_def)
  have names: "map fst c = ids" "c \<noteq> []" using combos_distinct(4) [OF ids(1), of c rollupComboCap] c some(2) by (auto split: if_splits)
  have cells: "r \<in> set cells \<longleftrightarrow> (\<exists>e v. e \<in> set (LeafCombos dims ids) \<union> (if exact_rule ?rule then set (RollupCombos dims ids rollupComboCap) else {}) \<and> e \<noteq> [] \<and> evalOne e = Inr v \<and> r = number_row e v)" for r
    using some(1) by (auto simp: cells_def eval_leaves_whole rollup_rows_whole value_rows_in number_row_def)
  note keys = scalar_rows_distinct [OF ids run]
  show ?thesis
  proof (cases "evalOne c")
    case (Inr v)
    then have "number_row c v \<in> set rows" using cells [of "number_row c v"] c names(2) all by auto
    from row_at_in [OF keys(1) this] Inr show ?thesis by (simp add: number_row_def)
  next
    case (Inl f)
    have "dimKey (row_DimMembers r) \<noteq> dimKey c" if r: "r \<in> set rows" for r
    proof
      assume eq: "dimKey (row_DimMembers r) = dimKey c"
      have "row_shape ids c" using names(1) by (simp add: row_shape_def)
      from row_shape_key [OF dist bspec [OF keys(2) r] this eq] have same: "row_DimMembers r = c" .
      consider "r \<in> set cells" | "r \<in> set slices" | "r \<in> set periods" | "r \<in> set agg" using r all by auto
      then show False
      proof cases
        case 1 then show False using cells [of r] same Inl by (auto simp: number_row_def)
      next
        case 2 then show False using sl [of r] same names(1) by auto
      next
        case 3
        then obtain i x where q: "c = [(i, x)]" "ids = [i]" "x \<notin> set (allLeafCodes (dims i))" "\<not> exact_rule ?rule" using pe [of r] same names(1) by (auto simp: length_Suc_conv)
        then have "[(i, x)] \<in> set (LeafCombos dims [i])" using c by simp
        then show False using q(3) by (auto simp: LeafCombos_def in_cartesianProduct list_all2_Cons2)
      next
        case 4 then show False using agg same names(2) by (auto simp: number_row_def)
      qed
    qed
    then show ?thesis using Inl by (simp add: row_at_def find_None_iff)
  qed
qed

lemma scalar_rows_numbers:
  assumes "scalar_rows pl evalOne ratio dims ids names d axis None = (WriteRows rows, failed)" "r \<in> set rows"
  shows "row_Text r = None"
proof -
  have sl: "row_Text q = None" if "q \<in> set (oneDimSliceRows rule cond ids dims lv evalOne axis ts)" for q rule cond lv ts
  proof -
    from that obtain ue i x m where "q \<in> set (slice_row rule ue ids dims lv evalOne axis ts i x m)" by (auto simp: oneDimSliceRows_def Let_def split: if_splits option.splits)
    with slice_row_members [of rule ue ids dims lv evalOne axis ts i x m] show ?thesis by (auto simp: number_row_def)
  qed
  have pe: "row_Text q = None" if "q \<in> set (aggregatePeriodRows rule ids lv axis ts)" for q rule lv ts
    using that by (auto simp: aggregatePeriodRows_def number_row_def split: option.splits if_splits prod.splits)
  obtain leaves agg where rows: "rows = filter (\<lambda>r. row_DimMembers r \<noteq> []) (fst (eval_leaves evalOne None (if LeafCombos dims ids = [] then [[]] else LeafCombos dims ids) [] no_failures) @
        rollup_rows evalOne None dims ids (EffectiveAggRule pl (f_AggRule d) (f_Formula d) names)) @
      oneDimSliceRows (EffectiveAggRule pl (f_AggRule d) (f_Formula d) names) (FormulaReferencesDims pl (f_Formula d) names) ids dims leaves evalOne axis (f_TimeSummary d) @
      aggregatePeriodRows (EffectiveAggRule pl (f_AggRule d) (f_Formula d) names) ids leaves axis (f_TimeSummary d) @ agg"
    "agg = [] \<or> (\<exists>v. agg = [number_row [] v])" by (rule scalar_rows_parts [OF assms(1)])
  consider "r \<in> set (value_rows evalOne (if LeafCombos dims ids = [] then [[]] else LeafCombos dims ids))" | "r \<in> set (rollup_rows evalOne None dims ids (EffectiveAggRule pl (f_AggRule d) (f_Formula d) names))"
    | "row_Text r = None" using assms(2) sl pe rows(2) unfolding rows(1) eval_leaves_whole by (auto simp: number_row_def)
  then show ?thesis by cases (auto simp: rollup_rows_whole value_rows_in number_row_def split: if_splits)
qed

definition demo_eval :: cellEval where
  "demo_eval c = (case map_of c ''region'' of Some code \<Rightarrow> if code = ''EMEA'' then Inr (Fin 1) else Inr (Fin 5) | None \<Rightarrow> Inr (Fin 6))"

definition demo_number :: MetricDef where
  "demo_number = demo_def\<lparr>f_IsInput := False, f_Formula := ''1''\<rparr>"

lemma row_maps_distinct:
  assumes "distinct (row_keys rows)" "set (row_keys rows) \<inter> fst ` set vs = {}"
  shows "\<exists>vs' ts'. row_maps rows vs ts = Some (vs', ts') \<and>
    (\<forall>k. map_of vs' k = (case row_at rows k of None \<Rightarrow> map_of vs k | Some x \<Rightarrow> Some (fst x)))"
  using assms
proof (induction rows arbitrary: vs ts)
  case (Cons r rows)
  let ?k = "dimKey (row_DimMembers r)" and ?ts = "case row_Text r of None \<Rightarrow> ts | Some t \<Rightarrow> (dimKey (row_DimMembers r), t) # ts"
  have new: "map_of vs ?k = None" using Cons.prems(2) by (auto simp: row_keys_def map_of_eq_None_iff)
  have "distinct (row_keys rows)" "set (row_keys rows) \<inter> fst ` set ((?k, row_Value r) # vs) = {}" using Cons.prems by (auto simp: row_keys_def)
  from Cons.IH [OF this, of ?ts] obtain vs' ts' where ih: "row_maps rows ((?k, row_Value r) # vs) ?ts = Some (vs', ts')"
    "\<forall>k. map_of vs' k = (case row_at rows k of None \<Rightarrow> map_of ((?k, row_Value r) # vs) k | Some x \<Rightarrow> Some (fst x))" by blast
  have "row_at rows ?k = None" using Cons.prems(1) row_at_None by (auto simp: row_keys_def)
  with ih new show ?case by (auto simp: row_at_def split: option.splits)
qed (simp add: row_at_def)

text \<open>
  C10. The rows of a metric are one per intersection. When no dimension repeats a code and the time axis is the metric's own, the leaves, the
  rollups, the slices, the periods and the total that a number metric's evaluation writes never meet: their keys are distinct; and what the pass
  cache then remembers of them, below the limit, answers at every key with the row's value.
\<close>

theorem partition_rows_unique:
  assumes "codes_distinct dims ids" and "dims_named dims ids" and "timeAxisFor dims ids = Inr axis"
    and "scalar_rows pl evalOne ratio dims ids names d axis inc = (WriteRows rows, failed)"
  shows "distinct (row_keys rows) \<and>
    (leanAt \<le> length rows \<or> (\<exists>vs. pc_values (remember leanAt i rows c) i = Some vs \<and> (\<forall>k. map_of vs k = map_option fst (row_at rows k))))"
proof -
  note dist = scalar_rows_distinct(1) [OF assms]
  from row_maps_distinct [OF dist, of "[]" "[]"] obtain vs ts where "row_maps rows [] [] = Some (vs, ts)" "\<forall>k. map_of vs k = map_option fst (row_at rows k)"
    by (auto simp: map_option_case cong: option.case_cong)
  with dist show ?thesis by (auto simp: remember_def)
qed

theorem partition_rows_unique_witness:
  "\<exists>rows failed. scalar_rows demo_platform demo_eval (Inl []) [''region'' \<mapsto> demo_region] [''region''] [(''region'', ''Region'')] demo_number None None = (WriteRows rows, failed) \<and>
     length rows = 3 \<and> distinct (row_keys rows)"
proof -
  let ?run = "scalar_rows demo_platform demo_eval (Inl []) [''region'' \<mapsto> demo_region] [''region''] [(''region'', ''Region'')] demo_number None None"
  have run: "?run = (WriteRows [region_row ''EMEA'' (Fin 1), region_row ''APAC'' (Fin 5), number_row [] (Fin 6)], None)" by code_simp
  have "distinct (row_keys [region_row ''EMEA'' (Fin 1), region_row ''APAC'' (Fin 5), number_row [] (Fin 6)])"
    using partition_rows_unique [OF _ _ _ run] by (simp add: codes_distinct_def dims_named_def timeAxisFor_def demo_region_def)
  with run show ?thesis by auto
qed

subsection \<open>When no cell evaluates\<close>

definition real_failures :: "(combo \<Rightarrow> calc_error \<times> bool) \<Rightarrow> combo list \<Rightarrow> calc_error list" where
  "real_failures failure cs = map (fst \<circ> failure) (filter (\<lambda>c. \<not> snd (failure c)) cs)"

lemma eval_leaves_fail:
  assumes "\<forall>c \<in> set cs. evalOne c = Inl (failure c)"
  shows "fst (eval_leaves evalOne None cs rows t) = rows"
    "ta_failures (snd (eval_leaves evalOne None cs rows t)) = ta_failures t + length (real_failures failure cs)"
    "ta_memberNA (snd (eval_leaves evalOne None cs rows t)) = ta_memberNA t + length (filter failed_on_member (real_failures failure cs))"
    "ta_firstErr (snd (eval_leaves evalOne None cs rows t)) =
       (case ta_firstErr t of Some e \<Rightarrow> Some e | None \<Rightarrow> case real_failures failure cs of [] \<Rightarrow> None | e # _ \<Rightarrow> Some e)"
  using assms by (induction cs arbitrary: t) (auto simp: real_failures_def count_failure_def split: prod.splits option.splits)

lemma filter_all: "length (filter P xs) = length xs \<longleftrightarrow> list_all P xs"
  by (metis filter_id_conv length_filter_less list_all_iff nat_neq_iff)

text \<open>
  C22. What happens when no cell of a metric evaluates, under a rule that combines its leaves. Without one failure of its own (no data anywhere) the stored rows are deleted and
  nothing fails. Otherwise the evaluation fails with the number of those failures, the number of cells and the first of them; the last good rows
  stay, except when every failure names a member that does not exist: then they are deleted.
\<close>

theorem nothing_evaluates:
  assumes "\<forall>c \<in> set (LeafCombos dims ids). evalOne c = Inl (failure c)" and "LeafCombos dims ids \<noteq> []"
    and "\<not> exact_rule (EffectiveAggRule pl (f_AggRule d) (f_Formula d) names)"
  shows "scalar_rows pl evalOne ratio dims ids names d axis None =
     (case real_failures failure (LeafCombos dims ids) of
        [] \<Rightarrow> (ClearRows, None)
      | e # es \<Rightarrow> (if list_all failed_on_member (e # es) then ClearRows else KeepRows,
          Some (CombosFailed (length (e # es)) (int (length (LeafCombos dims ids))) (f_Name d) (Some e))))"
proof -
  obtain rows t where e: "eval_leaves evalOne None (LeafCombos dims ids) [] no_failures = (rows, t)" by fastforce
  note f = eval_leaves_fail [OF assms(1), of "[]" no_failures, unfolded e snd_conv fst_conv]
  have first: "ta_failures t = length (real_failures failure (LeafCombos dims ids))"
      "ta_firstErr t = (case real_failures failure (LeafCombos dims ids) of [] \<Rightarrow> None | e # _ \<Rightarrow> Some e)"
    using f(2,4) by (simp_all add: no_failures_def)
  have "rows = []" using f(1) by simp
  moreover have "ta_memberNA t = ta_failures t \<longleftrightarrow> list_all failed_on_member (real_failures failure (LeafCombos dims ids))"
    using f(2,3) filter_all by (simp add: no_failures_def)
  ultimately show ?thesis using assms(2,3) first
    by (cases "real_failures failure (LeafCombos dims ids)") (simp_all add: scalar_rows_def Let_def e rollup_rows_def nothing_calculated_def)
qed

definition demo_zero :: cellEval where
  "demo_zero c = Inl (FormulaFailed \<lparr>Code = ''DIV0'', Message = [], memberNotAvailable = False\<rparr>, c = [(''region'', ''EMEA'')])"

theorem nothing_evaluates_witness:
  "scalar_rows demo_platform demo_zero (Inl []) [''region'' \<mapsto> demo_region] [''region''] [(''region'', ''Region'')] demo_number None None =
     (KeepRows, Some (CombosFailed 1 2 ''Sales'' (Some (FormulaFailed \<lparr>Code = ''DIV0'', Message = [], memberNotAvailable = False\<rparr>))))"
proof -
  have combos: "LeafCombos [''region'' \<mapsto> demo_region] [''region''] = [[(''region'', ''EMEA'')], [(''region'', ''APAC'')]]" by code_simp
  have rule: "\<not> exact_rule (EffectiveAggRule demo_platform (f_AggRule demo_number) (f_Formula demo_number) [(''region'', ''Region'')])" by code_simp
  show ?thesis
    by (subst nothing_evaluates [where failure = "projl \<circ> demo_zero"])
      (use combos rule in \<open>simp_all add: demo_zero_def real_failures_def demo_number_def demo_def_def failed_on_member_def IsMemberNotAvailable_def\<close>)
qed

end
