(* ===== verification/Lean.thy ===== *)
theory Lean
  imports Partition "HOL-Library.Word"
begin

text \<open>
  The path of a metric with very many cells (\<open>internal/calculation/lean.go\<close>): its leaves as 32-bit member indices, enumerated by an
  odometer and read through the same interface as the ordinary rows. What is shown: it writes what the ordinary path writes.
\<close>

subsection \<open>Leaves as member indices\<close>

record compactRows =
  cr_dimIDs :: "string list"
  cr_pos :: "string \<rightharpoonup> nat"
  cr_codes :: "string list list"
  cr_idx :: "32 word list"
  cr_vals :: "f64 list"

definition newCompactRows :: "dimensions \<Rightarrow> string list \<Rightarrow> compactRows" where
  "newCompactRows dims dimIDs =
     \<lparr>cr_dimIDs = dimIDs, cr_pos = map_of (rev (zip dimIDs [0..<length dimIDs])), cr_codes = map (\<lambda>i. LeafCodes (dims i)) dimIDs, cr_idx = [], cr_vals = []\<rparr>"

text \<open>
  The odometer of \<open>each\<close>: the last dimension moves first, a dimension at its end starts over and carries into the one
  before it. \<open>None\<close>: the first dimension is at its end too.
\<close>

fun advance_at :: "nat list \<Rightarrow> nat list \<Rightarrow> nat list option" where
  "advance_at (n # lens) (a # ps) =
     (case advance_at lens ps of
        Some ps' \<Rightarrow> Some (a # ps')
      | None \<Rightarrow> if a + 1 < n then Some ((a + 1) # map (\<lambda>_. 0) ps) else None)"
| "advance_at _ _ = None"

fun positions_from :: "nat \<Rightarrow> nat list \<Rightarrow> nat list \<Rightarrow> nat list list" where
  "positions_from 0 lens ps = []"
| "positions_from (Suc fuel) lens ps =
     ps # (case advance_at lens ps of None \<Rightarrow> [] | Some ps' \<Rightarrow> positions_from fuel lens ps')"

definition each_position :: "compactRows \<Rightarrow> nat list list" where
  "each_position c =
     (let lens = map length (cr_codes c)
      in if list_ex (\<lambda>n. n = 0) lens then [] else positions_from (prod_list lens) lens (map (\<lambda>_. 0) lens))"

definition position_combo :: "compactRows \<Rightarrow> nat list \<Rightarrow> combo" where
  "position_combo c ps = zip (cr_dimIDs c) (map2 (!) (cr_codes c) ps)"

definition compact_add :: "nat list \<Rightarrow> f64 \<Rightarrow> compactRows \<Rightarrow> compactRows" where
  "compact_add ps v c = c\<lparr>cr_idx := cr_idx c @ map of_nat ps, cr_vals := cr_vals c @ [v]\<rparr>"

definition compact_code :: "compactRows \<Rightarrow> nat \<Rightarrow> nat \<Rightarrow> string" where
  "compact_code c i p = cr_codes c ! p ! unat (cr_idx c ! (i * length (cr_dimIDs c) + p))"

definition compact_leaves :: "compactRows \<Rightarrow> leafRows" where
  "compact_leaves c =
     \<lparr>lr_Len = length (cr_vals c), lr_Member = (\<lambda>i d. map_option (compact_code c i) (cr_pos c d)), lr_Value = (\<lambda>i. cr_vals c ! i)\<rparr>"

definition compact_row :: "compactRows \<Rightarrow> nat \<Rightarrow> CalcResultRow" where
  "compact_row c i = number_row (zip (cr_dimIDs c) (map (compact_code c i) [0..<length (cr_dimIDs c)])) (cr_vals c ! i)"

definition compact_rows :: "compactRows \<Rightarrow> CalcResultRow list" where
  "compact_rows c = map (compact_row c) [0..<length (cr_vals c)]"

fun lean_leaves :: "cellEval \<Rightarrow> nat list list \<Rightarrow> compactRows \<Rightarrow> tally \<Rightarrow> compactRows \<times> tally" where
  "lean_leaves evalOne [] c t = (c, t)"
| "lean_leaves evalOne (ps # pss) c t =
     (case evalOne (position_combo c ps) of
        Inl f \<Rightarrow> lean_leaves evalOne pss c (count_failure f t)
      | Inr v \<Rightarrow> lean_leaves evalOne pss (compact_add ps v c) t)"

definition executeLean :: "platform \<Rightarrow> cellEval \<Rightarrow> string + f64 \<Rightarrow> dimensions \<Rightarrow> string list \<Rightarrow> (string \<times> string) list \<Rightarrow> MetricDef \<Rightarrow> timeAxis option \<Rightarrow>
    rows_written \<times> calc_failure option" where
  "executeLean pl evalOne ratio dims dimIDs dimIDToName d axis =
     (let rule = EffectiveAggRule pl (f_AggRule d) (f_Formula d) dimIDToName;
          cells = LeafComboCount dims dimIDs;
          c0 = newCompactRows dims dimIDs;
          (c, t) = lean_leaves evalOne (each_position c0) c0 no_failures;
          extra = rollup_rows evalOne None dims dimIDs rule
      in if cr_vals c = [] \<and> extra = [] then nothing_calculated d cells t
         else case partition_total evalOne ratio dims dimIDs d rule axis (compact_leaves c) (cr_vals c @ map row_Value extra) of
                Inl e \<Rightarrow> (KeepRows, Some e)
              | Inr (aggregate, writeAggregate) \<Rightarrow>
                  (WriteRows (compact_rows c @ extra @
                     oneDimSliceRows rule (FormulaReferencesDims pl (f_Formula d) dimIDToName) dimIDs dims (compact_leaves c) evalOne axis (f_TimeSummary d) @
                     aggregatePeriodRows rule dimIDs (compact_leaves c) axis (f_TimeSummary d) @
                     (if writeAggregate then [number_row [] aggregate] else [])),
                   some_failed d cells t))"

subsection \<open>The order of the leaves\<close>

inductive walks :: "nat list \<Rightarrow> nat list \<Rightarrow> nat list list \<Rightarrow> bool" for lens where
  last_position: "advance_at lens ps = None \<Longrightarrow> walks lens ps [ps]"
| next_position: "advance_at lens ps = Some ps' \<Longrightarrow> walks lens ps' pss \<Longrightarrow> walks lens ps (ps # pss)"

lemma walks_positions: "walks lens ps pss \<Longrightarrow> length pss \<le> fuel \<Longrightarrow> positions_from fuel lens ps = pss"
proof (induction arbitrary: fuel rule: walks.induct)
  case (last_position ps) then show ?case by (cases fuel) auto
next
  case (next_position ps ps' pss) then show ?case by (cases fuel) auto
qed

lemma advance_length: "advance_at lens ps = Some ps' \<Longrightarrow> length ps' = length ps"
  by (induction lens ps arbitrary: ps' rule: advance_at.induct) (auto split: option.splits if_splits)

lemma walks_Cons:
  assumes "walks lens ps pss" "a + 1 < n \<Longrightarrow> walks (n # lens) ((a + 1) # map (\<lambda>_. 0) ps) rest" "\<not> a + 1 < n \<Longrightarrow> rest = []"
  shows "walks (n # lens) (a # ps) (map ((#) a) pss @ rest)"
  using assms
proof (induction rule: walks.induct)
  case (last_position ps)
  show ?case
  proof (cases "a + 1 < n")
    case True
    with last_position show ?thesis by (auto intro!: next_position)
  next
    case False
    with last_position show ?thesis by (auto intro!: walks.last_position)
  qed
next
  case (next_position ps ps' pss)
  have "map (\<lambda>_. 0 :: nat) ps' = map (\<lambda>_. 0) ps" using advance_length [OF next_position(1)] by (simp add: map_replicate_const)
  with next_position show ?case by (auto intro!: walks.next_position)
qed

lemma walks_all:
  assumes "list_all (\<lambda>n. 0 < n) lens"
  shows "walks lens (map (\<lambda>_. 0) lens) (product_lists (map (\<lambda>n. [0..<n]) lens))"
  using assms
proof (induction lens)
  case Nil
  show ?case using last_position [of "[]" "[]"] by simp
next
  case (Cons n lens)
  let ?z = "map (\<lambda>_. 0 :: nat) lens" let ?pss = "product_lists (map (\<lambda>n. [0..<n]) lens)"
  have IH: "walks lens ?z ?pss" using Cons by simp
  have "a < n \<Longrightarrow> walks (n # lens) (a # ?z) (concat (map (\<lambda>b. map ((#) b) ?pss) [a..<n]))" for a
  proof (induction "n - a" arbitrary: a)
    case (Suc k)
    have "walks (n # lens) (a # ?z) (map ((#) a) ?pss @ concat (map (\<lambda>b. map ((#) b) ?pss) [Suc a..<n]))"
      by (rule walks_Cons [OF IH]) (use Suc in \<open>auto simp: comp_def\<close>)
    with Suc.prems show ?case by (simp add: upt_rec [of a n])
  qed simp
  from this [of 0] Cons.prems show ?case by simp
qed

lemma length_product: "length (product_lists xss) = prod_list (map length xss)"
  by (rule length_product_lists_prod)

lemma each_position_all: "each_position c = product_lists (map (\<lambda>codes. [0..<length codes]) (cr_codes c))"
proof (cases "list_all (\<lambda>n. 0 < n) (map length (cr_codes c))")
  case True
  then have "\<not> list_ex (\<lambda>n. n = 0) (map length (cr_codes c))" by (auto simp: list_all_iff list_ex_iff)
  moreover have "positions_from (prod_list (map length (cr_codes c))) (map length (cr_codes c)) (map (\<lambda>_. 0) (map length (cr_codes c))) =
      product_lists (map (\<lambda>n. [0..<n]) (map length (cr_codes c)))"
    by (rule walks_positions [OF walks_all [OF True]]) (simp add: length_product comp_def)
  ultimately show ?thesis by (simp add: each_position_def Let_def comp_def)
next
  case False
  then obtain codes where "codes \<in> set (cr_codes c)" "codes = []" by (auto simp: list_all_iff)
  then have "0 \<in> set (map length (map (\<lambda>codes. [0..<length codes]) (cr_codes c)))" by force
  then have "length (product_lists (map (\<lambda>codes. [0..<length codes]) (cr_codes c))) = 0" unfolding length_product by (simp add: prod_list_zero_iff)
  then have "product_lists (map (\<lambda>codes. [0..<length codes]) (cr_codes c)) = []" by simp
  moreover have "list_ex (\<lambda>n. n = 0) (map length (cr_codes c))" using False by (auto simp: list_all_iff list_ex_iff)
  ultimately show ?thesis by (simp add: each_position_def)
qed

subsection \<open>Two stores of the same leaves\<close>

text \<open>
  The interface \<open>leafRows\<close>: a store of leaves shows them through \<open>view\<close> and stands for the rows \<open>rows_of\<close>. Whatever is
  reduced through the interface is what the rows give.
\<close>

lemma summarize_same:
  assumes "same_rows a b"
  shows "summarizeOverTime a axis rule ts subtrees = summarizeOverTime b axis rule ts subtrees"
proof -
  have "foldl (add_leaf a axis subtrees) acc is = foldl (add_leaf b axis subtrees) acc is" if "set is \<subseteq> {..<lr_Len a}" for acc "is"
    using that assms
    by (induction "is" arbitrary: acc) (auto simp: add_leaf_def member_code_def same_rows_def split: option.splits)
  from this [of "[0..<lr_Len a]" "[]"] assms atLeast0LessThan
  have "foldl (add_leaf a axis subtrees) [] [0..<lr_Len a] = foldl (add_leaf b axis subtrees) [] [0..<lr_Len b]" by (auto simp: same_rows_def)
  then show ?thesis by (simp add: summarizeOverTime_def)
qed

lemma slice_leaves_bound: "set (slice_leaves leaves d sub) \<subseteq> {..<lr_Len leaves}"
  by (auto simp: slice_leaves_def Let_def)

lemma slice_leaves_same:
  assumes "same_rows a b"
  shows "slice_leaves a d sub = slice_leaves b d sub"
proof -
  have "filter (\<lambda>i. lr_Member a i d = Some code) [0..<lr_Len a] = filter (\<lambda>i. lr_Member b i d = Some code) [0..<lr_Len b]" for code
    using assms by (auto simp: same_rows_def intro!: filter_cong)
  then show ?thesis by (simp only: slice_leaves_def)
qed

lemma subRows_same: "same_rows a b \<Longrightarrow> set idx \<subseteq> {..<lr_Len a} \<Longrightarrow> same_rows (subRows a idx) (subRows b idx)"
  by (auto simp: same_rows_def subRows_def subset_iff)

lemma slice_row_same:
  assumes "same_rows a b"
  shows "slice_row rule ue ids dims a ev axis ts di d m = slice_row rule ue ids dims b ev axis ts di d m"
proof -
  let ?sub = "subtree_pop (d_Members d) [] [m_Code m]"
  have p: "slice_leaves a di ?sub = slice_leaves b di ?sub" by (rule slice_leaves_same [OF assms])
  have v: "map (lr_Value a) (slice_leaves b di ?sub) = map (lr_Value b) (slice_leaves b di ?sub)"
    using assms slice_leaves_bound [of b di ?sub] by (auto simp: same_rows_def)
  have s: "summarizeOverTime (subRows a (slice_leaves b di ?sub)) x rule ts y = summarizeOverTime (subRows b (slice_leaves b di ?sub)) x rule ts y" for x y
    using assms slice_leaves_bound [of b di ?sub] by (intro summarize_same subRows_same) (auto simp: same_rows_def)
  show ?thesis by (simp add: slice_row_def Let_def p v s del: subtree_pop.simps cong: if_cong option.case_cong)
qed

locale leaf_store =
  fixes view :: "'s \<Rightarrow> leafRows" and rows_of :: "'s \<Rightarrow> CalcResultRow list" and ok :: "'s \<Rightarrow> bool"
  assumes view_rows: "ok s \<Longrightarrow> same_rows (view s) (resultRows (rows_of s))"
begin

lemma store_slices:
  "ok s \<Longrightarrow> oneDimSliceRows rule cond ids dims (view s) ev axis ts = oneDimSliceRows rule cond ids dims (resultRows (rows_of s)) ev axis ts"
proof -
  assume "ok s"
  then have "slice_row rule ue ids dims (view s) ev axis ts = slice_row rule ue ids dims (resultRows (rows_of s)) ev axis ts" for ue
    by (intro ext slice_row_same view_rows)
  then show ?thesis by (simp add: oneDimSliceRows_def cong: option.case_cong)
qed

lemma store_periods:
  "ok s \<Longrightarrow> aggregatePeriodRows rule ids (view s) axis ts = aggregatePeriodRows rule ids (resultRows (rows_of s)) axis ts"
  by (simp add: aggregatePeriodRows_def summarize_same [OF view_rows] cong: if_cong option.case_cong)

lemma store_total:
  "ok s \<Longrightarrow> partition_total ev ratio dims ids d rule axis (view s) vals = partition_total ev ratio dims ids d rule axis (resultRows (rows_of s)) vals"
  by (simp add: partition_total_def combined_total_def summarize_same [OF view_rows] cong: if_cong option.case_cong)

end

interpretation row_store: leaf_store resultRows id "\<lambda>_. True"
  by unfold_locales (simp add: same_rows_def)

definition compact_ok :: "compactRows \<Rightarrow> bool" where
  "compact_ok c \<longleftrightarrow> distinct (cr_dimIDs c) \<and> cr_pos c = map_of (rev (zip (cr_dimIDs c) [0..<length (cr_dimIDs c)])) \<and>
     length (cr_codes c) = length (cr_dimIDs c) \<and> length (cr_idx c) = length (cr_vals c) * length (cr_dimIDs c) \<and>
     (\<forall>codes \<in> set (cr_codes c). length codes \<le> 2 ^ 32)"

lemma compact_pos:
  assumes "compact_ok c"
  shows "map_option f (cr_pos c d) = map_of (zip (cr_dimIDs c) (map f [0..<length (cr_dimIDs c)])) d"
proof -
  let ?n = "length (cr_dimIDs c)"
  have dist: "distinct (map fst (zip (cr_dimIDs c) [0..<?n]))" using assms by (simp add: compact_ok_def)
  have "cr_pos c = map_of (zip (cr_dimIDs c) [0..<?n])" using assms dist
    by (simp add: compact_ok_def map_of_inject_set rev_map [symmetric])
  moreover have "map_option f (map_of (zip xs is) d) = map_of (zip xs (map f is)) d" for xs "is"
    by (induction xs "is" rule: list_induct2') auto
  ultimately show ?thesis by simp
qed

interpretation compact_store: leaf_store compact_leaves compact_rows compact_ok
  by unfold_locales
    (auto simp: same_rows_def compact_leaves_def resultRows_def compact_rows_def compact_row_def number_row_def compact_pos fun_eq_iff)

subsection \<open>The lean path writes what the ordinary path writes\<close>

definition position_ok :: "compactRows \<Rightarrow> nat list \<Rightarrow> bool" where
  "position_ok c ps \<longleftrightarrow> list_all2 (\<lambda>p codes. p < length codes) ps (cr_codes c)"

lemma compact_add_sel [simp]:
  "cr_dimIDs (compact_add ps v c) = cr_dimIDs c" "cr_pos (compact_add ps v c) = cr_pos c" "cr_codes (compact_add ps v c) = cr_codes c"
  "cr_vals (compact_add ps v c) = cr_vals c @ [v]" "cr_idx (compact_add ps v c) = cr_idx c @ map of_nat ps"
  by (simp_all add: compact_add_def)

lemma compact_code_old:
  assumes "compact_ok c" "i < length (cr_vals c)" "p < length (cr_dimIDs c)"
  shows "compact_code (compact_add ps v c) i p = compact_code c i p"
proof -
  have "i * length (cr_dimIDs c) + p < Suc i * length (cr_dimIDs c)" using assms(3) by simp
  also have "\<dots> \<le> length (cr_vals c) * length (cr_dimIDs c)" using assms(2) by (intro mult_le_mono1) simp
  finally show ?thesis using assms(1) by (simp add: compact_code_def compact_ok_def nth_append)
qed

lemma compact_code_new:
  assumes "compact_ok c" "position_ok c ps" "p < length (cr_dimIDs c)"
  shows "compact_code (compact_add ps v c) (length (cr_vals c)) p = cr_codes c ! p ! (ps ! p)"
proof -
  have len: "length ps = length (cr_dimIDs c)" using assms by (simp add: compact_ok_def position_ok_def list_all2_lengthD)
  have "ps ! p < length (cr_codes c ! p)" using list_all2_nthD [OF assms(2) [unfolded position_ok_def]] assms(3) len by simp
  also have "\<dots> \<le> 2 ^ 32" using assms(1,3) by (auto simp: compact_ok_def)
  finally have "unat (of_nat (ps ! p) :: 32 word) = ps ! p" by (simp add: unat_of_nat)
  then show ?thesis using assms len by (simp add: compact_code_def compact_ok_def nth_append)
qed

lemma compact_rows_add:
  assumes "compact_ok c" "position_ok c ps"
  shows "compact_rows (compact_add ps v c) = compact_rows c @ [number_row (position_combo c ps) v]"
proof -
  let ?c = "compact_add ps v c"
  have len: "length ps = length (cr_dimIDs c)" "length (cr_codes c) = length (cr_dimIDs c)"
    using assms by (simp_all add: compact_ok_def position_ok_def list_all2_lengthD)
  have "compact_row ?c i = compact_row c i" if "i < length (cr_vals c)" for i
    using that by (auto simp: compact_row_def nth_append compact_code_old [OF assms(1) that] intro!: arg_cong2 [where f = number_row] arg_cong2 [where f = zip])
  moreover have "map (compact_code ?c (length (cr_vals c))) [0..<length (cr_dimIDs c)] = map2 (!) (cr_codes c) ps"
    using len by (auto simp: compact_code_new [OF assms] intro!: nth_equalityI)
  then have "compact_row ?c (length (cr_vals c)) = number_row (position_combo c ps) v"
    by (simp add: compact_row_def position_combo_def nth_append)
  ultimately show ?thesis by (simp add: compact_rows_def)
qed

lemma compact_add_ok: "compact_ok c \<Longrightarrow> position_ok c ps \<Longrightarrow> compact_ok (compact_add ps v c)"
  by (auto simp: compact_ok_def position_ok_def dest: list_all2_lengthD)

lemma lean_leaves_rows:
  assumes "compact_ok c" "list_all (position_ok c) pss" "lean_leaves evalOne pss c t = (c', t')"
  shows "eval_leaves evalOne None (map (position_combo c) pss) (compact_rows c) t = (compact_rows c', t') \<and> compact_ok c' \<and>
    length (cr_vals c') = length (compact_rows c') \<and> map row_Value (compact_rows c') = cr_vals c'"
  using assms
proof (induction pss arbitrary: c t)
  case Nil
  then show ?case by (auto simp: compact_rows_def compact_row_def number_row_def map_nth intro!: nth_equalityI)
next
  case (Cons ps pss)
  show ?case
  proof (cases "evalOne (position_combo c ps)")
    case (Inl f)
    with Cons show ?thesis by simp
  next
    case (Inr v)
    have ok: "compact_ok (compact_add ps v c)" using Cons.prems by (simp add: compact_add_ok)
    have same: "position_combo (compact_add ps v c) = position_combo c" "position_ok (compact_add ps v c) = position_ok c"
      by (auto simp: position_combo_def position_ok_def fun_eq_iff)
    show ?thesis using Cons.IH [OF ok, of "t"] Cons.prems Inr by (simp add: same compact_rows_add)
  qed
qed

lemma index_product:
  "map (map2 (!) css) (product_lists (map (\<lambda>cs. [0..<length cs]) css)) = product_lists css"
proof (induction css)
  case (Cons cs css)
  have "map (map2 (!) (cs # css)) (concat (map (\<lambda>p. map ((#) p) ps) js)) = concat (map (\<lambda>p. map ((#) (cs ! p)) (map (map2 (!) css) ps)) js)" for ps js
    by (induction js) (simp_all add: comp_def)
  moreover have "concat (map (\<lambda>p. map ((#) (cs ! p)) xs) [0..<length cs]) = concat (map (\<lambda>x. map ((#) x) xs) cs)" for xs
  proof -
    have "map (\<lambda>p. map ((#) (cs ! p)) xs) [0..<length cs] = map (\<lambda>x. map ((#) x) xs) (map ((!) cs) [0..<length cs])" by (simp add: comp_def)
    then show ?thesis by (simp only: map_nth)
  qed
  ultimately show ?case using Cons.IH by (simp del: map_map)
qed simp

lemma new_compact:
  assumes "distinct dimIDs" "\<forall>i \<in> set dimIDs. length (LeafCodes (dims i)) \<le> 2 ^ 32"
  defines "c0 \<equiv> newCompactRows dims dimIDs"
  shows "compact_ok c0" "compact_rows c0 = []" "list_all (position_ok c0) (each_position c0)"
    "map (position_combo c0) (each_position c0) = LeafCombos dims dimIDs"
proof -
  show "compact_ok c0" "compact_rows c0 = []" using assms by (auto simp: compact_ok_def newCompactRows_def compact_rows_def)
  have codes: "cr_codes c0 = map (\<lambda>i. allLeafCodes (dims i)) dimIDs" "cr_dimIDs c0 = dimIDs"
    by (simp_all add: c0_def newCompactRows_def LeafCodes_def)
  show "list_all (position_ok c0) (each_position c0)"
    unfolding each_position_all list_all_iff
    by (auto simp: product_lists_set position_ok_def list_all2_conv_all_nth)
  have "map (position_combo c0) (each_position c0) = map (zip dimIDs) (map (map2 (!) (cr_codes c0)) (each_position c0))"
    by (simp add: position_combo_def codes)
  also have "\<dots> = map (zip dimIDs) (product_lists (map (\<lambda>i. allLeafCodes (dims i)) dimIDs))"
    unfolding each_position_all index_product codes ..
  finally show "map (position_combo c0) (each_position c0) = LeafCombos dims dimIDs"
    using assms(1) by (simp add: LeafCombos_def cartesianProduct_eq)
qed

lemma rows_named:
  assumes "r \<in> set (fst (eval_leaves evalOne inc cs [] t) @ rollup_rows evalOne inc dims dimIDs rule)"
  shows "row_DimMembers r \<in> set cs \<union> set (RollupCombos dims dimIDs rollupComboCap)"
proof -
  from assms have "row_DimMembers r \<in> set (map row_DimMembers (fst (eval_leaves evalOne inc cs [] t))) \<union> set (map row_DimMembers (rollup_rows evalOne inc dims dimIDs rule))" by auto
  then show ?thesis unfolding eval_leaves_members_eq rollup_rows_members_eq by (auto split: if_splits)
qed

lemma exact_reductions:
  assumes "exact_rule rule"
  shows "oneDimSliceRows rule cond ids dims a ev axis ts = oneDimSliceRows rule cond ids dims b ev axis ts"
    "aggregatePeriodRows rule ids a axis ts = aggregatePeriodRows rule ids b axis ts"
    "partition_total ev ratio dims ids d rule axis a vals = partition_total ev ratio dims ids d rule axis b vals"
proof -
  have "slice_row rule True ids dims a ev axis ts i x m = slice_row rule True ids dims b ev axis ts i x m" for i x m
    by (simp add: slice_row_def Let_def del: subtree_pop.simps)
  then have "slice_row rule True ids dims a ev axis ts = slice_row rule True ids dims b ev axis ts" by (intro ext)
  then show "oneDimSliceRows rule cond ids dims a ev axis ts = oneDimSliceRows rule cond ids dims b ev axis ts"
    using assms by (simp add: oneDimSliceRows_def cong: option.case_cong)
  show "aggregatePeriodRows rule ids a axis ts = aggregatePeriodRows rule ids b axis ts"
    "partition_total ev ratio dims ids d rule axis a vals = partition_total ev ratio dims ids d rule axis b vals"
    using assms by (simp_all add: aggregatePeriodRows_def partition_total_def combined_total_def split: option.splits)
qed

lemma lean_same_core:
  assumes ids: "distinct dimIDs" "dimIDs \<noteq> []" "\<forall>i \<in> set dimIDs. length (LeafCodes (dims i)) \<le> 2 ^ 32"
    and cells: "LeafCombos dims dimIDs \<noteq> []" "LeafComboCount dims dimIDs = int (length (LeafCombos dims dimIDs))"
  shows "executeLean pl evalOne ratio dims dimIDs names d axis = scalar_rows pl evalOne ratio dims dimIDs names d axis None"
proof -
  let ?c0 = "newCompactRows dims dimIDs" and ?rule = "EffectiveAggRule pl (f_AggRule d) (f_Formula d) names"
  let ?extra = "rollup_rows evalOne None dims dimIDs ?rule"
  obtain c t where lean: "lean_leaves evalOne (each_position ?c0) ?c0 no_failures = (c, t)" by (cases "lean_leaves evalOne (each_position ?c0) ?c0 no_failures")
  note c0 = new_compact [OF ids(1,3)]
  have leaves: "eval_leaves evalOne None (LeafCombos dims dimIDs) [] no_failures = (compact_rows c, t)"
    and ok: "compact_ok c" and vals: "map row_Value (compact_rows c) = cr_vals c" and n: "length (cr_vals c) = length (compact_rows c)"
    using lean_leaves_rows [OF c0(1,3) lean] by (simp_all add: c0)
  have "row_DimMembers r \<noteq> []" if "r \<in> set (compact_rows c @ ?extra)" for r
    using rows_named [of r evalOne None "LeafCombos dims dimIDs" no_failures dims dimIDs ?rule] that combos_named [OF ids(1,2)] by (auto simp: leaves)
  then have kept: "filter (\<lambda>r. row_DimMembers r \<noteq> []) (compact_rows c @ ?extra) = compact_rows c @ ?extra" by (intro filter_True) auto
  let ?all = "resultRows (compact_rows c @ ?extra)"
  have same: "oneDimSliceRows ?rule cond dimIDs dims (compact_leaves c) evalOne axis ts = oneDimSliceRows ?rule cond dimIDs dims ?all evalOne axis ts"
      "aggregatePeriodRows ?rule dimIDs (compact_leaves c) axis ts = aggregatePeriodRows ?rule dimIDs ?all axis ts"
      "partition_total evalOne ratio dims dimIDs d ?rule axis (compact_leaves c) vs = partition_total evalOne ratio dims dimIDs d ?rule axis ?all vs"
    for cond ts vs
  proof -
    have "?extra = []" if "\<not> exact_rule ?rule" using that by (simp add: rollup_rows_def)
    then have st: "exact_rule ?rule \<or> ?extra = []" by blast
    show "oneDimSliceRows ?rule cond dimIDs dims (compact_leaves c) evalOne axis ts = oneDimSliceRows ?rule cond dimIDs dims ?all evalOne axis ts"
      using st by (elim disjE) (simp_all add: exact_reductions(1) [where a = ?all and b = "compact_leaves c"] compact_store.store_slices [OF ok])
    show "aggregatePeriodRows ?rule dimIDs (compact_leaves c) axis ts = aggregatePeriodRows ?rule dimIDs ?all axis ts"
      using st by (elim disjE) (simp_all add: exact_reductions(2) [where a = ?all and b = "compact_leaves c"] compact_store.store_periods [OF ok])
    show "partition_total evalOne ratio dims dimIDs d ?rule axis (compact_leaves c) vs = partition_total evalOne ratio dims dimIDs d ?rule axis ?all vs"
      using st by (elim disjE) (simp_all add: exact_reductions(3) [where a = ?all and b = "compact_leaves c"] compact_store.store_total [OF ok])
  qed
  have empty: "cr_vals c = [] \<longleftrightarrow> compact_rows c = []" using n by (metis length_0_conv)
  show ?thesis
    using cells kept vals by (simp add: executeLean_def scalar_rows_def Let_def lean leaves same empty del: filter_append cong: if_cong sum.case_cong)
qed

text \<open>
  C9. The lean path writes what the ordinary path writes. For a metric with dimensions, each of at most \<open>2 ^ 32\<close> leaves, and no more cells than
  \<open>LeafComboCount\<close> can count, evaluating the cells by the odometer over member indices, keeping each leaf as 32-bit indices and a value, and reducing the totals, slices and
  periods from that store gives the rows, in their order, and the failure that the evaluation over \<open>LeafCombos\<close> gives, for every rule.
\<close>

theorem lean_same:
  assumes "distinct dimIDs" and "dimIDs \<noteq> []" and "LeafCombos dims dimIDs \<noteq> []"
    and "\<forall>i \<in> set dimIDs. length (LeafCodes (dims i)) \<le> 2 ^ 32" and "int (length (LeafCombos dims dimIDs)) \<le> half_max_int64"
  shows "executeLean pl evalOne ratio dims dimIDs names d axis = scalar_rows pl evalOne ratio dims dimIDs names d axis None"
proof (rule lean_same_core [OF assms(1,2,4,3)])
  have "allLeafCodes (dims i) \<noteq> []" if "i \<in> set dimIDs" for i
  proof
    assume "allLeafCodes (dims i) = []"
    then have "0 \<in> set (map (\<lambda>i. int (length (allLeafCodes (dims i)))) dimIDs)" using that by force
    then have "int (length (LeafCombos dims dimIDs)) = 0"
      unfolding length_LeafCombos [OF assms(1)] by (simp add: prod_list_zero_iff)
    with assms(3) show False by simp
  qed
  then show "LeafComboCount dims dimIDs = int (length (LeafCombos dims dimIDs))"
    using LeafComboCount_prod [of dimIDs dims] assms(5) by (simp add: length_LeafCombos [OF assms(1)])
qed

theorem lean_same_witness:
  "executeLean demo_platform demo_eval (Inl []) [''region'' \<mapsto> demo_region] [''region''] [(''region'', ''Region'')] demo_number None =
     (WriteRows [region_row ''EMEA'' (Fin 1), region_row ''APAC'' (Fin 5), number_row [] (Fin 6)], None)"
proof -
  let ?dims = "[''region'' \<mapsto> demo_region]"
  have combos: "LeafCombos ?dims [''region''] = [[(''region'', ''EMEA'')], [(''region'', ''APAC'')]]" "length (LeafCodes (?dims ''region'')) = 2" by code_simp+
  have "scalar_rows demo_platform demo_eval (Inl []) ?dims [''region''] [(''region'', ''Region'')] demo_number None None =
      (WriteRows [region_row ''EMEA'' (Fin 1), region_row ''APAC'' (Fin 5), number_row [] (Fin 6)], None)" by code_simp
  then show ?thesis
    by (subst lean_same) (use combos in \<open>simp_all add: half_max_int64_def\<close>)
qed

end
