(* ===== verification/Execute.thy ===== *)
theory Execute
  imports Lean
begin

text \<open>
  \<open>executePartition\<close> (\<open>internal/calculation/scheduler.go\<close>): the size check, the choice of the path, what the metric held, the
  evaluation, and what is written to the table, the pass cache and the increment. What is shown: a pass that follows written cells
  leaves the table a whole pass would leave.
\<close>

subsection \<open>executePartition\<close>

text \<open>
  What a partition's evaluation is given: the configuration, the definitions and dimensions of the pass, how this metric's own
  values and texts are loaded, what \<open>valueMap\<close> answers for the operands of a ratio, the evaluators \<open>newEvalEnv\<close> builds, and the time-series path.
\<close>

record partition_state =
  px_table :: "CalcResultRow list"
  px_cache :: "passCache option"
  px_inc :: "increment option"

record partition_env =
  pe_platform :: platform
  pe_maxCells :: int
  pe_leanAt :: nat
  pe_dims :: dimensions
  pe_metricDims :: "string \<Rightarrow> string list"
  pe_names :: "(string \<times> string) list"
  pe_defs :: "string \<rightharpoonup> MetricDef"
  pe_unmarshal :: "string \<Rightarrow> combo option"
  pe_loadValues :: "string \<Rightarrow> string + (string \<times> f64) list"
  pe_loadTexts :: "string \<Rightarrow> string + (string \<times> string) list"
  pe_operand :: "MetricDef \<Rightarrow> string + (string \<times> f64) list"
  pe_cellEvaluator :: "MetricDef \<Rightarrow> string + cellEval"
  pe_textEvaluator :: "MetricDef \<Rightarrow> string + (combo \<Rightarrow> calc_error \<times> bool + string)"
  pe_timeSeries :: "MetricDef \<Rightarrow> timeAxis \<Rightarrow> partition_state \<Rightarrow> calc_failure option \<times> partition_state"

definition readsTextMetric :: "MetricDef \<Rightarrow> (string \<rightharpoonup> MetricDef) \<Rightarrow> bool" where
  "readsTextMetric d defs = list_ex (\<lambda>i. case defs i of None \<Rightarrow> False | Some x \<Rightarrow> f_Text x) (f_DependsOnID d)"

definition takes_lean :: "partition_env \<Rightarrow> MetricDef \<Rightarrow> bool" where
  "takes_lean env d \<longleftrightarrow> \<not> f_Text d \<and> \<not> readsTextMetric d (pe_defs env) \<and> pe_metricDims env (f_ID d) \<noteq> [] \<and>
     int (pe_leanAt env) \<le> LeafComboCount (pe_dims env) (pe_metricDims env (f_ID d))"

definition loadHeld :: "partition_env \<Rightarrow> MetricDef \<Rightarrow> partition_state \<Rightarrow> calc_failure option \<times> partition_state" where
  "loadHeld env d s =
     (case px_inc s of
        None \<Rightarrow> (None, s)
      | Some i \<Rightarrow>
          (case valueMap (pe_leanAt env) (pe_loadValues env) (px_cache s) d of
             (Inl e, c) \<Rightarrow> (Some (NotPrepared (''load the values '' @ f_Name d @ '' holds: '' @ e)), s\<lparr>px_cache := c\<rparr>)
           | (Inr m, c) \<Rightarrow>
               (let i' = i\<lparr>in_old := m, in_oldText := Map.empty\<rparr>
                in if \<not> f_Text d then (None, s\<lparr>px_cache := c, px_inc := Some i'\<rparr>)
                   else (case textMap (pe_loadTexts env) c d of
                           (Inl e, c') \<Rightarrow> (Some (NotPrepared (''load the texts '' @ f_Name d @ '' holds: '' @ e)), s\<lparr>px_cache := c', px_inc := Some i'\<rparr>)
                         | (Inr ts, c') \<Rightarrow> (None, s\<lparr>px_cache := c', px_inc := Some (i'\<lparr>in_oldText := map_of ts\<rparr>)\<rparr>)))))"

text \<open>\<open>ClearAllResults\<close> with \<open>cleared\<close>, or \<open>persistRows\<close>, then \<open>remember\<close>. The lean path replaces the set and forgets it.\<close>

definition put_rows :: "partition_env \<Rightarrow> MetricDef \<Rightarrow> rows_written \<Rightarrow> partition_state \<Rightarrow> partition_state" where
  "put_rows env d w s =
     (let ids = pe_metricDims env (f_ID d); keep = (\<lambda>rows. map_option (remember (pe_leanAt env) (f_ID d) rows) (px_cache s))
      in case w of
           KeepRows \<Rightarrow> s
         | ClearRows \<Rightarrow> s\<lparr>px_table := [], px_cache := keep [], px_inc := map_option (cleared (pe_unmarshal env) ids (pe_dims env)) (px_inc s)\<rparr>
         | WriteRows rows \<Rightarrow>
             (case persistRows (pe_unmarshal env) rows (px_inc s) ids (pe_dims env) (px_table s) of (t, inc) \<Rightarrow>
                s\<lparr>px_table := t, px_cache := keep rows, px_inc := inc\<rparr>))"

definition put_lean :: "partition_env \<Rightarrow> MetricDef \<Rightarrow> rows_written \<Rightarrow> partition_state \<Rightarrow> partition_state" where
  "put_lean env d w s =
     (case w of
        KeepRows \<Rightarrow> s
      | ClearRows \<Rightarrow> s\<lparr>px_table := [], px_cache := map_option (remember (pe_leanAt env) (f_ID d) []) (px_cache s)\<rparr>
      | WriteRows rows \<Rightarrow> s\<lparr>px_table := ReplaceResultsTx rows (px_table s), px_cache := map_option (forget (f_ID d)) (px_cache s)\<rparr>)"

definition number_partition :: "partition_env \<Rightarrow> MetricDef \<Rightarrow> bool \<Rightarrow> timeAxis option \<Rightarrow> partition_state \<Rightarrow> calc_failure option \<times> partition_state" where
  "number_partition env d lean axis s =
     (let dims = pe_dims env; ids = pe_metricDims env (f_ID d); ratio = rateTotal dims (pe_metricDims env) (pe_defs env) (pe_operand env) d
      in case pe_cellEvaluator env d of
           Inl e \<Rightarrow> (Some (NotPrepared e), s)
         | Inr evalOne \<Rightarrow>
             if lean then (case executeLean (pe_platform env) evalOne ratio dims ids (pe_names env) d axis of (w, f) \<Rightarrow> (f, put_lean env d w s))
             else (case scalar_rows (pe_platform env) evalOne ratio dims ids (pe_names env) d axis (px_inc s) of (w, f) \<Rightarrow> (f, put_rows env d w s)))"

definition evaluate_partition :: "partition_env \<Rightarrow> MetricDef \<Rightarrow> bool \<Rightarrow> partition_state \<Rightarrow> calc_failure option \<times> partition_state" where
  "evaluate_partition env d lean s =
     (let ids = pe_metricDims env (f_ID d)
      in if f_Text d \<and> \<not> f_IsInput d
         then (case pe_textEvaluator env d of
                 Inl e \<Rightarrow> (Some (NotPrepared e), s)
               | Inr evalText \<Rightarrow> (case executeText evalText (pe_dims env) ids d of (w, f) \<Rightarrow> (f, put_rows env d w s)))
         else (case timeAxisFor (pe_dims env) ids of
                 Inl e \<Rightarrow> (Some (NotPrepared e), s)
               | Inr axis \<Rightarrow>
                   (case axis of
                      Some a \<Rightarrow> if usesTimeSeries (pe_platform env) (f_Formula d) then pe_timeSeries env d a s else number_partition env d lean axis s
                    | None \<Rightarrow> number_partition env d lean axis s)))"

definition executePartition :: "partition_env \<Rightarrow> MetricDef \<Rightarrow> partition_state \<Rightarrow> calc_failure option \<times> partition_state" where
  "executePartition env d s =
     (case checkSize (pe_maxCells env) (px_cache s) d (pe_dims env) (pe_metricDims env (f_ID d)) (map_of (pe_names env)) of
        (Some e, c) \<Rightarrow> (Some (SizeRefused e), s\<lparr>px_cache := c\<rparr>)
      | (None, c) \<Rightarrow>
          if takes_lean env d
          then (case evaluate_partition env d True (s\<lparr>px_cache := c, px_inc := None\<rparr>) of
                  (f, s') \<Rightarrow> (f, s'\<lparr>px_inc := map_option (\<lambda>i. i\<lparr>in_out := Some everywhere\<rparr>) (px_inc s)\<rparr>))
          else (case loadHeld env d (s\<lparr>px_cache := c\<rparr>) of
                  (Some e, s') \<Rightarrow> (Some e, s')
                | (None, s') \<Rightarrow> evaluate_partition env d False s'))"

lemma checkSize_passes: "checkSize n c d dims ids names = (None, c') \<Longrightarrow> c' = c"
  by (auto simp: checkSize_def Let_def split: list.splits prod.splits if_splits)

lemma persist_replaced:
  assumes "held i table" "distinct (row_keys rows)"
  shows "rel_option same_cell (row_at (fst (persistRows un rows (Some i) ids dims table)) k) (row_at (fst (persistRows un rows None ids dims table)) k)"
proof -
  obtain t i' where p: "persistRows un rows (Some i) ids dims table = (t, Some i')" using persistRows_some by blast
  from persisted_rows(1) [OF assms p] show ?thesis by (simp add: p) (simp add: persistRows_def ReplaceResultsTx_def)
qed

lemma same_cells_refl: "rel_option same_cell x x"
  by (cases x) (simp_all add: same_cell_refl)

lemma put_partial:
  assumes "px_inc s = Some i" "held i (px_table s)" "\<And>rows. w = WriteRows rows \<Longrightarrow> distinct (row_keys rows)" "px_table s' = px_table s" "px_inc s' = None"
  shows "rel_option same_cell (row_at (px_table (put_rows env d w s)) k) (row_at (px_table (put_rows env d w s')) k)"
proof (cases w)
  case (WriteRows rows)
  let ?p = "\<lambda>inc. persistRows (pe_unmarshal env) rows inc (pe_metricDims env (f_ID d)) (pe_dims env) (px_table s)"
  have "px_table (put_rows env d w s) = fst (?p (Some i))" "px_table (put_rows env d w s') = fst (?p None)"
    using assms(1,4,5) by (simp_all add: put_rows_def Let_def WriteRows split: prod.split)
  then show ?thesis using persist_replaced [OF assms(2) assms(3) [OF WriteRows]] by simp
qed (use assms(4) in \<open>simp_all add: put_rows_def same_cells_refl\<close>)

text \<open>A number metric whose cells are evaluated one by one.\<close>

definition scalar_metric :: "partition_env \<Rightarrow> MetricDef \<Rightarrow> bool" where
  "scalar_metric env d \<longleftrightarrow> \<not> f_Text d \<and> codes_distinct (pe_dims env) (pe_metricDims env (f_ID d)) \<and> dims_named (pe_dims env) (pe_metricDims env (f_ID d)) \<and>
     (case timeAxisFor (pe_dims env) (pe_metricDims env (f_ID d)) of Inl _ \<Rightarrow> False | Inr axis \<Rightarrow> Option.is_none axis \<or> \<not> usesTimeSeries (pe_platform env) (f_Formula d))"

definition partition_rule :: "partition_env \<Rightarrow> MetricDef \<Rightarrow> string" where
  "partition_rule env d = EffectiveAggRule (pe_platform env) (f_AggRule d) (f_Formula d) (pe_names env)"

definition partition_run :: "partition_env \<Rightarrow> MetricDef \<Rightarrow> cellEval \<Rightarrow> increment option \<Rightarrow> rows_written \<times> calc_failure option" where
  "partition_run env d evalOne =
     scalar_rows (pe_platform env) evalOne (rateTotal (pe_dims env) (pe_metricDims env) (pe_defs env) (pe_operand env) d) (pe_dims env) (pe_metricDims env (f_ID d)) (pe_names env) d
       (projr (timeAxisFor (pe_dims env) (pe_metricDims env (f_ID d))))"

lemma scalar_metric_body:
  assumes "scalar_metric env d" "pe_cellEvaluator env d = Inr evalOne"
  shows "evaluate_partition env d False x = (case partition_run env d evalOne (px_inc x) of (w, f) \<Rightarrow> (f, put_rows env d w x))"
  using assms by (auto simp: scalar_metric_def partition_run_def evaluate_partition_def number_partition_def Let_def Option.is_none_def split: sum.splits option.split)

lemma partition_run_distinct:
  "scalar_metric env d \<Longrightarrow> partition_run env d evalOne inc = (WriteRows rows, f) \<Longrightarrow> distinct (row_keys rows)"
  unfolding partition_run_def scalar_metric_def by (rule scalar_rows_distinct(1)) (auto split: sum.splits)

lemma partial_partition:
  assumes sm: "scalar_metric env d" and ev: "pe_cellEvaluator env d = Inr evalOne"
    and "px_inc s = Some i" and "fst (valueMap (pe_leanAt env) (pe_loadValues env) (px_cache s) d) = Inr old"
    and "i' = i\<lparr>in_old := old, in_oldText := Map.empty\<rparr>" and "held i' (px_table s)"
    and kept: "\<forall>c \<in> set (kept_leaves (pe_dims env) (pe_metricDims env (f_ID d)) i'). held_current evalOne i' c \<and> clean_at evalOne c"
      "\<forall>c \<in> set (kept_rollups (pe_dims env) (pe_metricDims env (f_ID d)) (partition_rule env d) i'). held_current evalOne i' c"
  shows "rel_option same_cell (row_at (px_table (snd (executePartition env d s))) k)
      (row_at (px_table (snd (executePartition env d (s\<lparr>px_inc := None\<rparr>)))) k) \<and>
    (fst (executePartition env d s) = None \<longleftrightarrow> fst (executePartition env d (s\<lparr>px_inc := None\<rparr>)) = None)"
proof -
  obtain e c where cs: "checkSize (pe_maxCells env) (px_cache s) d (pe_dims env) (pe_metricDims env (f_ID d)) (map_of (pe_names env)) = (e, c)" by fastforce
  consider (refused) x where "e = Some x" | (lean) "e = None" "takes_lean env d" | (run) "e = None" "\<not> takes_lean env d" by (cases e) auto
  then show ?thesis
  proof cases
    case run
    have c: "c = px_cache s" using checkSize_passes [of _ _ d] cs run by simp
    obtain c1 where load: "loadHeld env d s = (None, s\<lparr>px_cache := c1, px_inc := Some i'\<rparr>)"
      using sm assms(3-5) by (cases "valueMap (pe_leanAt env) (pe_loadValues env) (px_cache s) d") (simp add: loadHeld_def scalar_metric_def)
    obtain w f where r1: "partition_run env d evalOne (Some i') = (w, f)" by fastforce
    obtain w' f' where r2: "partition_run env d evalOne None = (w', f')" by fastforce
    have same: "w' = w" "f = None \<longleftrightarrow> f' = None"
      using partial_rows [OF kept [unfolded partition_rule_def]] r1 r2 by (simp_all add: partition_run_def) (metis fst_conv, metis snd_conv)
    have "distinct (row_keys rows)" if "w = WriteRows rows" for rows using partition_run_distinct [OF sm] r1 that by blast
    from put_partial [OF _ _ this, of "s\<lparr>px_cache := c1, px_inc := Some i'\<rparr>" i' w "s\<lparr>px_inc := None\<rparr>" env d k] assms(6)
    have "rel_option same_cell (row_at (px_table (put_rows env d w (s\<lparr>px_cache := c1, px_inc := Some i'\<rparr>))) k)
        (row_at (px_table (put_rows env d w (s\<lparr>px_inc := None\<rparr>))) k)" by simp
    moreover have "s\<lparr>px_cache := px_cache s\<rparr> = s" "s\<lparr>px_cache := px_cache s, px_inc := None\<rparr> = s\<lparr>px_inc := None\<rparr>" by simp_all
    ultimately show ?thesis using run cs load same r1 r2
      by (simp add: executePartition_def c scalar_metric_body [OF sm ev] loadHeld_def [of env d "s\<lparr>px_inc := None\<rparr>"])
  qed (use cs in \<open>simp_all add: executePartition_def same_cells_refl split: prod.split\<close>)
qed

lemma db_values_at: "distinct (row_keys rows) \<Longrightarrow> map_of (db_values rows) k = map_option fst (row_at rows k)"
proof -
  have "map_of (foldl (\<lambda>m r. AList.update (dimKey (row_DimMembers r)) (row_Value r) m) acc rows) k =
      (case row_at rows k of None \<Rightarrow> map_of acc k | Some x \<Rightarrow> Some (fst x))" if "distinct (row_keys rows)" for acc rows
    using that
  proof (induction rows arbitrary: acc)
    case (Cons r rows)
    have "row_at rows (dimKey (row_DimMembers r)) = None" using Cons.prems row_at_None by (auto simp: row_keys_def)
    with Cons show ?case by (auto simp: row_at_def row_keys_def update_conv' split: option.splits)
  qed (simp add: row_at_def)
  from this [of rows "[]"] show "distinct (row_keys rows) \<Longrightarrow> ?thesis" by (simp add: db_values_def map_option_case cong: option.case_cong)
qed

text \<open>What is left after a clean run without an increment: a table that holds at each cell what its evaluation gives.\<close>

lemma clean_partition:
  assumes sm: "scalar_metric env d" "\<not> takes_lean env d" "pe_cellEvaluator env d = Inr evalOne" and run: "px_inc s = None" "executePartition env d s = (None, s')"
  obtains w where "partition_run env d evalOne None = (w, None)" "px_table s' = (case w of WriteRows rows \<Rightarrow> rows | ClearRows \<Rightarrow> [] | KeepRows \<Rightarrow> px_table s)"
proof -
  obtain e c where cs: "checkSize (pe_maxCells env) (px_cache s) d (pe_dims env) (pe_metricDims env (f_ID d)) (map_of (pe_names env)) = (e, c)" by fastforce
  have e: "e = None" "c = px_cache s" using run(2) cs checkSize_passes [of "pe_maxCells env" "px_cache s" d] by (cases e; simp add: executePartition_def)+
  obtain w f where r: "partition_run env d evalOne None = (w, f)" by fastforce
  have "(f, put_rows env d w s) = (None, s')"
    using run cs sm(2) e by (simp add: executePartition_def loadHeld_def scalar_metric_body [OF sm(1,3)] r)
  with run(1) show thesis by (intro that [of w]) (auto simp: r put_rows_def persistRows_def ReplaceResultsTx_def Let_def split: rows_written.split)
qed

lemma ran_evaluator:
  assumes "scalar_metric env d" "\<not> takes_lean env d" "px_inc s = None" "executePartition env d s = (None, s')"
  shows "\<exists>ev. pe_cellEvaluator env d = Inr ev"
proof (cases "pe_cellEvaluator env d")
  case (Inl e)
  obtain x c where cs: "checkSize (pe_maxCells env) (px_cache s) d (pe_dims env) (pe_metricDims env (f_ID d)) (map_of (pe_names env)) = (x, c)" by fastforce
  have "fst (evaluate_partition env d False y) \<noteq> None" for y
    using assms(1) Inl by (auto simp: scalar_metric_def evaluate_partition_def number_partition_def Let_def Option.is_none_def split: sum.splits option.split)
  from this [of "s\<lparr>px_cache := c\<rparr>"] show ?thesis using assms(2-4) cs by (cases x) (auto simp: executePartition_def loadHeld_def)
qed simp

lemma clean_table:
  assumes sm: "scalar_metric env d" "\<not> takes_lean env d" "pe_cellEvaluator env d = Inr evalOne" and run: "px_inc s = None" "executePartition env d s = (None, s')"
    and some: "LeafCombos (pe_dims env) (pe_metricDims env (f_ID d)) \<noteq> []" "pe_metricDims env (f_ID d) \<noteq> []"
  shows "map_option (\<lambda>v. (v, None)) (map_of (db_values (px_table s')) k) = row_at (px_table s') k"
    "\<forall>c \<in> set (LeafCombos (pe_dims env) (pe_metricDims env (f_ID d))). clean_at evalOne c"
    "c \<in> set (LeafCombos (pe_dims env) (pe_metricDims env (f_ID d))) \<union> (if exact_rule (partition_rule env d) then set (RollupCombos (pe_dims env) (pe_metricDims env (f_ID d)) rollupComboCap) else {}) \<Longrightarrow>
      map_of (db_values (px_table s')) (dimKey c) = (case evalOne c of Inl _ \<Rightarrow> None | Inr v \<Rightarrow> Some v)"
proof -
  let ?ids = "pe_metricDims env (f_ID d)" and ?dims = "pe_dims env"
  obtain w where w: "partition_run env d evalOne None = (w, None)" "px_table s' = (case w of WriteRows rows \<Rightarrow> rows | ClearRows \<Rightarrow> [] | KeepRows \<Rightarrow> px_table s)"
    using clean_partition [OF sm run] .
  note parts = clean_run [OF w(1) [unfolded partition_run_def] some(1), folded partition_rule_def]
  from parts(1) show "\<forall>c \<in> set (LeafCombos ?dims ?ids). clean_at evalOne c" .
  have dims: "codes_distinct ?dims ?ids" "dims_named ?dims ?ids" "timeAxisFor ?dims ?ids = Inr (projr (timeAxisFor ?dims ?ids))"
    using sm(1) by (auto simp: scalar_metric_def split: sum.splits)
  have keys: "distinct (row_keys (px_table s'))" 
    using partition_run_distinct [OF sm(1), of evalOne None] parts(2) w by (auto simp: row_keys_def)
  have texts: "row_Text r = None" if "r \<in> set (px_table s')" for r
    using parts(2) w that by (auto simp: partition_run_def dest: scalar_rows_numbers)
  show held: "map_option (\<lambda>v. (v, None)) (map_of (db_values (px_table s')) k) = row_at (px_table s') k" for k
    using texts by (auto simp: db_values_at [OF keys] row_at_def option.map_comp comp_def find_Some_iff intro!: option.map_cong)
  show "map_of (db_values (px_table s')) (dimKey c) = (case evalOne c of Inl _ \<Rightarrow> None | Inr v \<Rightarrow> Some v)"
    if c: "c \<in> set (LeafCombos ?dims ?ids) \<union> (if exact_rule (partition_rule env d) then set (RollupCombos ?dims ?ids rollupComboCap) else {})"
  proof (cases w)
    case (WriteRows rows)
    from clean_cells [OF dims w(1) [unfolded partition_run_def WriteRows] some c [unfolded partition_rule_def]] w(2) WriteRows
    show ?thesis using db_values_at [OF keys, of "dimKey c"] by (simp split: sum.split)
  next
    case ClearRows
    with parts(2) have "value_rows evalOne (LeafCombos ?dims ?ids) = []" "exact_rule (partition_rule env d) \<Longrightarrow> value_rows evalOne (RollupCombos ?dims ?ids rollupComboCap) = []"
      by (auto simp: rollup_rows_whole)
    with c have "isl (evalOne c)" by (auto simp: value_rows_def filter_empty_conv split: if_splits)
    with ClearRows w(2) show ?thesis by (auto simp: isl_def db_values_def)
  qed (use parts(2) in simp)
qed

lemma kept_same [simp]:
  "kept_leaves dims ids (i\<lparr>in_old := m, in_oldText := n\<rparr>) = kept_leaves dims ids i"
  "kept_rollups dims ids rule (i\<lparr>in_old := m, in_oldText := n\<rparr>) = kept_rollups dims ids rule i"
proof -
  have "outside_region (Some (i\<lparr>in_old := m, in_oldText := n\<rparr>)) = outside_region (Some i)"
    "coverTest (Some (i\<lparr>in_old := m, in_oldText := n\<rparr>)) = coverTest (Some i)"
    by (simp_all add: fun_eq_iff outside_region_def partial_def coverTest_def cong: option.case_cong)
  then show "kept_leaves dims ids (i\<lparr>in_old := m, in_oldText := n\<rparr>) = kept_leaves dims ids i"
    "kept_rollups dims ids rule (i\<lparr>in_old := m, in_oldText := n\<rparr>) = kept_rollups dims ids rule i" by (simp_all add: kept_leaves_def kept_rollups_def)
qed

lemma load_uncached:
  assumes "load (f_ID d) = Inr m" "case c of None \<Rightarrow> True | Some pc \<Rightarrow> pc_values pc (f_ID d) = None"
  shows "fst (valueMap n load c d) = Inr m"
  using assms by (auto simp: valueMap_def cached_values_def keep_values_def split: option.splits prod.splits if_splits)

lemma incremental_partition:
  assumes "scalar_metric env d" and "\<not> takes_lean env d" and "pe_metricDims env (f_ID d) \<noteq> []" and "LeafCombos (pe_dims env) (pe_metricDims env (f_ID d)) \<noteq> []"
    and "pe_cellEvaluator env d = Inr evalOld" and "px_inc s0 = None" and "executePartition env d s0 = (None, s1)"
    and "env' = env\<lparr>pe_cellEvaluator := evaluator, pe_operand := ops, pe_loadValues := loads\<rparr>" and "evaluator d = Inr evalNew" and "loads (f_ID d) = Inr (db_values (px_table s1))"
    and "px_table s = px_table s1" and "px_inc s = Some i" and "case px_cache s of None \<Rightarrow> True | Some c \<Rightarrow> pc_values c (f_ID d) = None"
    and "\<forall>c \<in> set (kept_leaves (pe_dims env) (pe_metricDims env (f_ID d)) i @ kept_rollups (pe_dims env) (pe_metricDims env (f_ID d)) (partition_rule env d) i). evalNew c = evalOld c"
  shows "rel_option same_cell (row_at (px_table (snd (executePartition env' d s))) k)
      (row_at (px_table (snd (executePartition env' d (s\<lparr>px_inc := None\<rparr>)))) k) \<and>
    (fst (executePartition env' d s) = None \<longleftrightarrow> fst (executePartition env' d (s\<lparr>px_inc := None\<rparr>)) = None)"
proof -
  let ?i = "i\<lparr>in_old := db_values (px_table s1), in_oldText := Map.empty\<rparr>"
  note tab = clean_table [OF assms(1,2,5,6,7,4,3)]
  have env': "scalar_metric env' d" "pe_cellEvaluator env' d = Inr evalNew" "pe_dims env' = pe_dims env" "pe_metricDims env' = pe_metricDims env" "partition_rule env' d = partition_rule env d"
    using assms(1,8,9) by (simp_all add: scalar_metric_def partition_rule_def cong: sum.case_cong)
  have "fst (valueMap (pe_leanAt env') (pe_loadValues env') (px_cache s) d) = Inr (db_values (px_table s1))"
    using assms(8) load_uncached [of loads d] assms(10,13) by simp
  moreover have "held ?i (px_table s)" unfolding held_def using tab(1) assms(11) by simp
  moreover have "held_current evalNew ?i c" if "c \<in> set (kept_leaves (pe_dims env) (pe_metricDims env (f_ID d)) i @ kept_rollups (pe_dims env) (pe_metricDims env (f_ID d)) (partition_rule env d) i)" for c
    using tab(3) [of c] assms(4,14) that by (auto simp: held_current_def kept_leaves_def kept_rollups_def split: if_splits)
  moreover have "clean_at evalNew c" if "c \<in> set (kept_leaves (pe_dims env) (pe_metricDims env (f_ID d)) i)" for c
    using tab(2) assms(4,14) that by (auto simp: clean_at_def kept_leaves_def)
  ultimately show ?thesis by (intro partial_partition [OF env'(1,2) assms(12) _ refl]) (auto simp: env'(3-5))
qed

text \<open>
  C5. A pass that follows written cells ends where a whole one does. A number metric was calculated cleanly, every cell by its
  evaluation \<open>evalOld\<close>. In a later pass the evaluation is \<open>evalNew\<close>, which agrees with it at the leaves outside the increment's region and at the rollups the region
  does not cover. \<open>executePartition\<close> with that increment (what the metric holds is read, the kept cells copied, the
  others evaluated, the difference written) leaves a table that answers at every key as the table does after the same pass without the increment (values that
  \<open>==\<close> does not tell apart), and fails exactly when that one does.
\<close>

theorem partition_incremental:
  assumes "scalar_metric env d" and "\<not> takes_lean env d" and "pe_metricDims env (f_ID d) \<noteq> []" and "LeafCombos (pe_dims env) (pe_metricDims env (f_ID d)) \<noteq> []"
    and "pe_cellEvaluator env d = Inr evalOld" and "px_inc s0 = None" and "executePartition env d s0 = (None, s1)"
    and "env' = env\<lparr>pe_cellEvaluator := evaluator, pe_operand := ops, pe_loadValues := loads\<rparr>" and "evaluator d = Inr evalNew" and "loads (f_ID d) = Inr (db_values (px_table s1))"
    and "px_table s = px_table s1" and "px_inc s = Some i" and "case px_cache s of None \<Rightarrow> True | Some c \<Rightarrow> pc_values c (f_ID d) = None"
    and "\<forall>c \<in> set (kept_leaves (pe_dims env) (pe_metricDims env (f_ID d)) i @ kept_rollups (pe_dims env) (pe_metricDims env (f_ID d)) (partition_rule env d) i). evalNew c = evalOld c"
  shows "rel_option same_cell (row_at (px_table (snd (executePartition env' d s))) k)
      (row_at (px_table (snd (executePartition env' d (s\<lparr>px_inc := None\<rparr>)))) k) \<and>
    (fst (executePartition env' d s) = None \<longleftrightarrow> fst (executePartition env' d (s\<lparr>px_inc := None\<rparr>)) = None)"
  using assms by (rule incremental_partition)

definition demo_env :: partition_env where
  "demo_env = \<lparr>pe_platform = demo_platform, pe_maxCells = 100, pe_leanAt = 50, pe_dims = [''region'' \<mapsto> demo_region], pe_metricDims = (\<lambda>_. [''region'']),
     pe_names = [(''region'', ''Region'')], pe_defs = Map.empty, pe_unmarshal = (\<lambda>_. None), pe_loadValues = (\<lambda>_. Inr []),
     pe_loadTexts = (\<lambda>_. Inr []), pe_operand = (\<lambda>_. Inr []), pe_cellEvaluator = (\<lambda>_. Inr demo_eval), pe_textEvaluator = (\<lambda>_. Inl []),
     pe_timeSeries = (\<lambda>_ _ s. (None, s))\<rparr>"

definition demo_table :: "f64 \<Rightarrow> f64 \<Rightarrow> CalcResultRow list" where
  "demo_table apac total1 = [region_row ''EMEA'' (Fin 1), region_row ''APAC'' apac, number_row [] total1]"

definition demo_state :: "CalcResultRow list \<Rightarrow> increment option \<Rightarrow> partition_state" where
  "demo_state rows inc = \<lparr>px_table = rows, px_cache = None, px_inc = inc\<rparr>"

definition demo_inc :: increment where
  "demo_inc = \<lparr>in_in = Some \<lparr>rg_bound = [(''region'', [''APAC''])], rg_aggregates = False\<rparr>, in_out = None, in_old = [], in_oldText = Map.empty\<rparr>"

definition demo_later :: cellEval where
  "demo_later c = (if c = [(''region'', ''APAC'')] then Inr (Fin 7) else demo_eval c)"

definition demo_env_later :: partition_env where
  "demo_env_later = demo_env\<lparr>pe_cellEvaluator := (\<lambda>_. Inr demo_later), pe_operand := (\<lambda>_. Inr []), pe_loadValues := (\<lambda>_. Inr (db_values (demo_table (Fin 5) (Fin 6))))\<rparr>"

lemma uncached_run:
  assumes "scalar_metric env d" "\<not> takes_lean env d" "pe_cellEvaluator env d = Inr evalOne" "partition_run env d evalOne None = (WriteRows rows, f)"
    and "fst (MetricCells (pe_dims env) (pe_metricDims env (f_ID d)) (map_of (pe_names env))) \<le> pe_maxCells env"
  shows "executePartition env d (demo_state [] None) = (f, demo_state rows None)"
proof -
  have "checkSize (pe_maxCells env) None d (pe_dims env) (pe_metricDims env (f_ID d)) (map_of (pe_names env)) = (None, None)"
    using assms(5) by (auto simp: checkSize_def Let_def split: prod.split)
  moreover have "persistRows u rows None ids dims t = (rows, None)" for u rows ids dims t by (simp add: persistRows_def ReplaceResultsTx_def)
  ultimately show ?thesis using assms(1-4)
    by (simp add: executePartition_def demo_state_def loadHeld_def put_rows_def scalar_metric_body)
qed

lemma demo_before:
  "executePartition demo_env demo_number (demo_state [] None) = (None, demo_state (demo_table (Fin 5) (Fin 6)) None)"
proof -
  have sm: "scalar_metric demo_env demo_number" "\<not> takes_lean demo_env demo_number" by code_simp+
  have run: "partition_run demo_env demo_number demo_eval None = (WriteRows (demo_table (Fin 5) (Fin 6)), None)" by code_simp
  have "fst (MetricCells (pe_dims demo_env) (pe_metricDims demo_env (f_ID demo_number)) (map_of (pe_names demo_env))) \<le> pe_maxCells demo_env" by code_simp
  then show ?thesis using uncached_run [OF sm _ run] by (simp add: demo_env_def)
qed

theorem partition_incremental_witness:
  "rel_option same_cell (row_at (px_table (snd (executePartition demo_env_later demo_number (demo_state (demo_table (Fin 5) (Fin 6)) (Some demo_inc))))) (region_key ''APAC'')) (Some (Fin 7, None)) \<and>
   fst (executePartition demo_env_later demo_number (demo_state (demo_table (Fin 5) (Fin 6)) (Some demo_inc))) = None"
proof -
  let ?s = "demo_state (demo_table (Fin 5) (Fin 6))"
  have full: "row_at (px_table (snd (executePartition demo_env_later demo_number (?s None)))) (region_key ''APAC'') = Some (Fin 7, None)"
    "fst (executePartition demo_env_later demo_number (?s None)) = None" by code_simp+
  have sm: "scalar_metric demo_env demo_number" "\<not> takes_lean demo_env demo_number" by code_simp+
  have kept: "kept_leaves (pe_dims demo_env) (pe_metricDims demo_env (f_ID demo_number)) demo_inc = [[(''region'', ''EMEA'')]]"
    "kept_rollups (pe_dims demo_env) (pe_metricDims demo_env (f_ID demo_number)) (partition_rule demo_env demo_number) demo_inc = []"
    "LeafCombos (pe_dims demo_env) (pe_metricDims demo_env (f_ID demo_number)) = [[(''region'', ''EMEA'')], [(''region'', ''APAC'')]]" by code_simp+
  have st: "?s (Some demo_inc)\<lparr>px_inc := None\<rparr> = ?s None" by (simp add: demo_state_def)
  have "rel_option same_cell (row_at (px_table (snd (executePartition demo_env_later demo_number (?s (Some demo_inc))))) (region_key ''APAC''))
      (row_at (px_table (snd (executePartition demo_env_later demo_number (?s (Some demo_inc)\<lparr>px_inc := None\<rparr>)))) (region_key ''APAC'')) \<and>
    (fst (executePartition demo_env_later demo_number (?s (Some demo_inc))) = None \<longleftrightarrow> fst (executePartition demo_env_later demo_number (?s (Some demo_inc)\<lparr>px_inc := None\<rparr>)) = None)"
    by (rule partition_incremental [OF sm _ _ _ _ demo_before, where i = demo_inc and evalOld = demo_eval and evalNew = demo_later and evaluator = "\<lambda>_. Inr demo_later"])
      (use kept in \<open>simp_all add: demo_env_later_def demo_later_def demo_state_def\<close>, simp_all add: demo_env_def)
  then show ?thesis unfolding st full by simp
qed

end
