(* ===== verification/CellEval.thy ===== *)
theory CellEval
  imports TimeAxis
begin

text \<open>
  The evaluation of a metric's formula at a cell (\<open>internal/calculation/ondemand.go\<close>): loading what the formula reads, binding its variables, the outcome
  of a cell, and the evaluators of sources built on demand. What is shown: the chain of sources ends, and two states of the values evaluate alike where they read alike.
\<close>

subsection \<open>Loading what a formula reads\<close>

text \<open>
  What evaluating any metric of a revision needs. \<open>en_values\<close> and \<open>en_texts\<close> are what \<open>valueMap\<close> and \<open>textMap\<close> answer in the pass.
  \<open>en_read\<close> says whether a LOOKUP or a conditional aggregation of the metric's formula meets a value other than zero at a cell (the
  flag \<open>data\<close> of the reads), \<open>en_time\<close> is the time context of a text calculation (\<open>timeAt\<close>).
\<close>

record evalEnv =
  en_platform :: platform
  en_dims :: dimensions
  en_metricDims :: "string \<Rightarrow> string list"
  en_names :: "(string \<times> string) list"
  en_meta :: DimMetadata
  en_defs :: "string \<rightharpoonup> MetricDef"
  en_values :: "MetricDef \<Rightarrow> string + (string \<times> f64) list"
  en_texts :: "MetricDef \<Rightarrow> string + (string \<times> string) list"
  en_read :: "MetricDef \<Rightarrow> combo \<Rightarrow> bool"
  en_time :: "MetricDef \<Rightarrow> combo \<Rightarrow> TimeEvalContext option"

definition source_eval :: "evalEnv \<Rightarrow> (MetricDef \<Rightarrow> string + cellEval) \<Rightarrow> MetricDef \<Rightarrow> calc_error + cellEval" where
  "source_eval env evaluator dp =
     map_sum OtherError id
       (case timeAxisFor (en_dims env) (en_metricDims env (f_ID dp)) of
          Inl e \<Rightarrow> Inl e
        | Inr axis \<Rightarrow>
            if \<not> Option.is_none axis \<and> usesTimeSeries (en_platform env) (f_Formula dp)
            then Inl (f_Name dp @ '' (agg_rule '' @ f_AggRule dp @ '') has no computed value at these coordinates, and a time-series formula is not evaluated on demand'')
            else evaluator dp)"

definition exact_source :: "evalEnv \<Rightarrow> (MetricDef \<Rightarrow> string + cellEval) \<Rightarrow> MetricDef \<Rightarrow> (string \<rightharpoonup> f64) \<Rightarrow> exactSource option" where
  "exact_source env evaluator dp valueMap =
     map_option (\<lambda>rows. \<lparr>x_dims = en_dims env, x_rows = rows, x_eval = source_eval env evaluator dp, x_memo = Map.empty\<rparr>) (exactRows (Some dp) valueMap)"

fun loadDependencies :: "evalEnv \<Rightarrow> (MetricDef \<Rightarrow> string + cellEval) \<Rightarrow> string list \<Rightarrow> string + (string \<rightharpoonup> unit RawValue) \<times> (string \<rightharpoonup> exactSource)" where
  "loadDependencies env evaluator [] = Inr (Map.empty, Map.empty)"
| "loadDependencies env evaluator (i # ids) =
     (case en_defs env i of
        None \<Rightarrow> Inl (''dependency '' @ i @ '' not found in model'')
      | Some dp \<Rightarrow>
          (case en_values env dp of
             Inl e \<Rightarrow> Inl (''load values for '' @ f_Name dp @ '': '' @ e)
           | Inr m \<Rightarrow>
               map_sum id (\<lambda>(fetch, sources). (fetch(i \<mapsto> mapFetch (map_of m)),
                   (case exact_source env evaluator dp (map_of m) of None \<Rightarrow> sources | Some src \<Rightarrow> sources(i \<mapsto> src))))
                 (loadDependencies env evaluator ids)))"

fun loadTexts :: "evalEnv \<Rightarrow> string list \<Rightarrow> string + (string \<rightharpoonup> (string \<rightharpoonup> string))" where
  "loadTexts env [] = Inr Map.empty"
| "loadTexts env (i # ids) =
     (case en_defs env i of
        None \<Rightarrow> loadTexts env ids
      | Some dp \<Rightarrow>
          if \<not> f_Text dp then loadTexts env ids
          else (case en_texts env dp of
                  Inl e \<Rightarrow> Inl (''load the text of '' @ f_Name dp @ '': '' @ e)
                | Inr m \<Rightarrow> map_sum id (\<lambda>texts. texts(i \<mapsto> map_of m)) (loadTexts env ids)))"

text \<open>The text of a metric at the cell's own members of its dimensions; empty when the cell leaves one open.\<close>

definition noteAt :: "evalEnv \<Rightarrow> (string \<rightharpoonup> (string \<rightharpoonup> string)) \<Rightarrow> string \<Rightarrow> combo \<Rightarrow> string" where
  "noteAt env texts depID cmb =
     (let own = map (\<lambda>d. map_option (Pair d) (map_of cmb d)) (en_metricDims env depID)
      in if list_ex Option.is_none own then []
         else case Option.bind (texts depID) (\<lambda>m. m (dimKey (AList.updates (map (fst \<circ> the) own) (map (snd \<circ> the) own) []))) of None \<Rightarrow> [] | Some s \<Rightarrow> s)"

subsection \<open>Binding the variables of a cell\<close>

record bound_vars =
  bv_values :: "(string \<times> f64) list"
  bv_notes :: "(string \<times> string) list"
  bv_blank :: "string list"

text \<open>
  The dependencies in the order of the definition. A failing read ends the binding; the wrapped error is the error itself. \<open>plain\<close> is
  \<open>None\<close> when the formula does not parse: then every dependency is bound.
\<close>

fun bind_deps :: "evalEnv \<Rightarrow> (string \<rightharpoonup> unit RawValue) \<Rightarrow> (string \<rightharpoonup> exactSource) \<Rightarrow> (string \<rightharpoonup> (string \<rightharpoonup> string)) \<Rightarrow> string list option \<Rightarrow> combo \<Rightarrow>
    string list \<Rightarrow> bound_vars \<Rightarrow> calc_error + bound_vars" where
  "bind_deps env fetch sources texts plain cmb [] b = Inr b"
| "bind_deps env fetch sources texts plain cmb (i # ids) b =
     (case en_defs env i of
        None \<Rightarrow> bind_deps env fetch sources texts plain cmb ids b
      | Some dp \<Rightarrow>
          if (case plain of None \<Rightarrow> False | Some names \<Rightarrow> ToUpper (f_Name dp) \<notin> set names) then bind_deps env fetch sources texts plain cmb ids b
          else if \<not> Option.is_none (texts i)
          then bind_deps env fetch sources texts plain cmb ids (b\<lparr>bv_notes := AList.update (f_Name dp) (noteAt env texts i cmb) (bv_notes b)\<rparr>)
          else case fst (resolveDependency (en_dims env) dp (en_metricDims env i) cmb (case fetch i of None \<Rightarrow> mapFetch Map.empty | Some f \<Rightarrow> f) (sources i)) of
                 Inl e \<Rightarrow> Inl e
               | Inr (v, found) \<Rightarrow>
                   bind_deps env fetch sources texts plain cmb ids
                     (b\<lparr>bv_values := AList.update (f_Name dp) v (bv_values b),
                        bv_blank := (if found then bv_blank b else bv_blank b @ [ToUpper (f_Name dp)])\<rparr>))"

definition cell_vars :: "evalEnv \<Rightarrow> combo \<Rightarrow> bound_vars \<Rightarrow> (string \<times> Value) list" where
  "cell_vars env cmb b =
     (let put = (\<lambda>m (k, v). AList.update (ToUpper k) v m);
          vals = foldl put [] (map (\<lambda>(n, v). (n, NumberVal v)) (bv_values b));
          notes = foldl put vals (map (\<lambda>(n, s). (n, StringVal s)) (bv_notes b))
      in foldl put notes (List.map_filter (\<lambda>(i, code). map_option (\<lambda>n. (n, StringVal code)) (map_of (en_names env) i)) cmb))"

subsection \<open>Evaluating a cell\<close>

text \<open>The outcome of the formula's value \<open>result\<close>, once it is encoded.\<close>

definition cell_outcome :: "MetricDef \<Rightarrow> bool \<Rightarrow> Value \<Rightarrow> calc_error \<times> bool + Value" where
  "cell_outcome d noData result =
     (case result of
        ErrorVal e \<Rightarrow> Inl (FormulaFailed e, noData \<and> \<not> IsMemberNotAvailable e)
      | _ \<Rightarrow> if IsBlank result then Inl (ErrBlankResult, True)
             else if Number result = None \<and> \<not> f_Text d then Inl (FormulaFailed ErrValue, noData)
             else Inr result)"

definition evalCell :: "evalEnv \<Rightarrow> (string \<rightharpoonup> unit RawValue) \<Rightarrow> (string \<rightharpoonup> exactSource) \<Rightarrow> (string \<rightharpoonup> (string \<rightharpoonup> string)) \<Rightarrow> MetricDef \<Rightarrow> combo \<Rightarrow> calc_error \<times> bool + Value" where
  "evalCell env fetch sources texts d cmb =
     (let parsed = parse (f_Formula d); plain = (case parsed of Inl _ \<Rightarrow> None | Inr n \<Rightarrow> Some (plainReferences n))
      in case bind_deps env fetch sources texts plain cmb (f_DependsOnID d) \<lparr>bv_values = [], bv_notes = [], bv_blank = []\<rparr> of
           Inl e \<Rightarrow> Inl (e, False)
         | Inr b \<Rightarrow>
             (let noData = (\<lambda>seen. f_DependsOnID d \<noteq> [] \<and> \<not> seen \<and> list_all (\<lambda>(_, v). is_zero v) (bv_values b))
              in case parsed of
                   Inl e \<Rightarrow> Inl (OtherError e, noData False)
                 | Inr n \<Rightarrow>
                     (let reads = newDimReads (en_meta env) d (en_defs env) (en_metricDims env) fetch sources True;
                          ctx = \<lparr>Vars = Some (cell_vars env cmb b), Blank = bv_blank b, Funcs = [], Time = (if f_Text d then en_time env d cmb else None),
                                 Dim = Some (dim_context reads cmb)\<rparr>
                      in cell_outcome d (noData (en_read env d cmb)) (EncodeResult (Some (en_meta env)) (f_Name d) (EvalNode (en_platform env) ctx n)))))"

definition valueEvaluator :: "evalEnv \<Rightarrow> (MetricDef \<Rightarrow> string + cellEval) \<Rightarrow> MetricDef \<Rightarrow> string + (combo \<Rightarrow> calc_error \<times> bool + Value)" where
  "valueEvaluator env evaluator d =
     (case loadDependencies env evaluator (f_DependsOnID d) of
        Inl e \<Rightarrow> Inl e
      | Inr (fetch, sources) \<Rightarrow>
          (case loadTexts env (f_DependsOnID d) of
             Inl e \<Rightarrow> Inl e
           | Inr texts \<Rightarrow> Inr (evalCell env fetch sources texts d)))"

definition number_of :: "calc_error \<times> bool + Value \<Rightarrow> calc_error \<times> bool + f64" where
  "number_of r = (case r of Inl e \<Rightarrow> Inl e | Inr v \<Rightarrow> (case Number v of None \<Rightarrow> Inl (FormulaFailed ErrValue, False) | Some n \<Rightarrow> Inr n))"

definition cellEvaluator :: "evalEnv \<Rightarrow> (MetricDef \<Rightarrow> string + cellEval) \<Rightarrow> MetricDef \<Rightarrow> string + cellEval" where
  "cellEvaluator env evaluator d = map_sum id (\<lambda>f c. number_of (f c)) (valueEvaluator env evaluator d)"

definition textEvaluator :: "evalEnv \<Rightarrow> (MetricDef \<Rightarrow> string + cellEval) \<Rightarrow> MetricDef \<Rightarrow> string + (combo \<Rightarrow> calc_error \<times> bool + string)" where
  "textEvaluator env evaluator d = map_sum id (\<lambda>f c. map_sum id Text (f c)) (valueEvaluator env evaluator d)"

text \<open>
  The evaluator of a metric builds those of its formula and ratio sources when a read first needs them, and they those of theirs: \<open>fuel\<close>
  bounds the depth of that chain.
\<close>

fun evaluators :: "nat \<Rightarrow> evalEnv \<Rightarrow> MetricDef \<Rightarrow> string + cellEval" where
  "evaluators 0 env d = Inl (f_Name d @ '' depends on itself'')"
| "evaluators (Suc fuel) env d = cellEvaluator env (evaluators fuel env) d"

subsection \<open>The chain of sources ends\<close>

definition exact_metric :: "MetricDef \<Rightarrow> bool" where
  "exact_metric d \<longleftrightarrow> \<not> f_IsInput d \<and> (f_AggRule d = ''formula'' \<or> f_AggRule d = ''rate'')"

definition exact_deps :: "evalEnv \<Rightarrow> MetricDef \<Rightarrow> MetricDef list" where
  "exact_deps env d = filter exact_metric (List.map_filter (en_defs env) (f_DependsOnID d))"

lemma exact_source_cong:
  "(exact_metric dp \<Longrightarrow> S dp = S' dp) \<Longrightarrow> exact_source env S dp m = exact_source env S' dp m"
  by (auto simp: exact_source_def exactRows_def exact_metric_def source_eval_def cong: sum.case_cong if_cong)

lemma loadDependencies_cong:
  "(\<And>i dp. i \<in> set ids \<Longrightarrow> en_defs env i = Some dp \<Longrightarrow> exact_metric dp \<Longrightarrow> S dp = S' dp) \<Longrightarrow> loadDependencies env S ids = loadDependencies env S' ids"
proof (induction ids)
  case (Cons i ids)
  have "loadDependencies env S ids = loadDependencies env S' ids" by (rule Cons.IH) (rule Cons.prems, simp_all)
  moreover have "exact_source env S dp m = exact_source env S' dp m" if "en_defs env i = Some dp" for dp m
    by (rule exact_source_cong) (rule Cons.prems [of i], simp_all add: that)
  ultimately show ?case by (auto split: option.splits sum.splits)
qed simp

lemma cellEvaluator_cong:
  assumes "\<And>dp. dp \<in> set (exact_deps env d) \<Longrightarrow> S dp = S' dp"
  shows "cellEvaluator env S d = cellEvaluator env S' d"
proof -
  have "loadDependencies env S (f_DependsOnID d) = loadDependencies env S' (f_DependsOnID d)"
    by (rule loadDependencies_cong) (rule assms, force simp: exact_deps_def List.map_filter_def)
  then show ?thesis by (simp add: cellEvaluator_def valueEvaluator_def)
qed

text \<open>
  The bound on the chain of sources, which the code does not have, does not matter where the formula and ratio sources of a model's metrics do not
  form a cycle (each has a lower rank than the metric that reads it): above a metric's rank its evaluator is the same for every bound.
\<close>

lemma evaluators_settle:
  assumes "d \<in> ran (en_defs env)" and "\<forall>e \<in> ran (en_defs env). \<forall>dp \<in> set (exact_deps env e). height dp < height e" and "height d < n"
  shows "evaluators n env d = evaluators (Suc (height d)) env d"
  using assms(1,3)
proof (induction "height d" arbitrary: d n rule: less_induct)
  case less
  obtain m where n: "n = Suc m" using less.prems by (cases n) auto
  have "evaluators m env dp = evaluators (height d) env dp" if "dp \<in> set (exact_deps env d)" for dp
  proof -
    have lt: "height dp < height d" using assms(2) less.prems(1) that by blast
    have ran: "dp \<in> ran (en_defs env)" using that by (auto simp: exact_deps_def List.map_filter_def ran_def)
    have "evaluators m env dp = evaluators (Suc (height dp)) env dp" "evaluators (height d) env dp = evaluators (Suc (height dp)) env dp"
      using less.hyps [OF lt ran] lt less.prems(2) n by auto
    then show ?thesis by simp
  qed
  then show ?case unfolding n by (simp add: cellEvaluator_cong [of env d "evaluators m env" "evaluators (height d) env"])
qed

subsection \<open>A formula that reads no other cell\<close>

text \<open>The functions that read a source at other coordinates than the cell's.\<close>

definition reading_functions :: "string list" where
  "reading_functions = [''LOOKUP'', ''SUMIFS'', ''AVERAGEIFS'', ''MINIFS'', ''MAXIFS'', ''COUNTIFS'', ''SUMIF'', ''AVERAGEIF'', ''COUNTIF'']"

fun plain_formula :: "node \<Rightarrow> bool" where
  "plain_formula (UnaryExpr o1 e) = plain_formula e"
| "plain_formula (BinaryExpr o1 l r) \<longleftrightarrow> plain_formula l \<and> plain_formula r"
| "plain_formula (CallExpr name args) \<longleftrightarrow> name \<notin> set reading_functions \<and> list_all plain_formula args"
| "plain_formula _ = True"

definition with_resolve :: "(string \<Rightarrow> (string \<times> string) list \<Rightarrow> FormulaError + f64 \<times> bool) option \<Rightarrow> EvalContext \<Rightarrow> EvalContext" where
  "with_resolve R ctx = ctx\<lparr>Dim := map_option (\<lambda>d. d\<lparr>DimEvalContext.Resolve := R\<rparr>) (Dim ctx)\<rparr>"

lemma with_resolve_sel [simp]:
  "Vars (with_resolve R ctx) = Vars ctx" "Blank (with_resolve R ctx) = Blank ctx" "Funcs (with_resolve R ctx) = Funcs ctx" "Time (with_resolve R ctx) = Time ctx"
  "Dim (with_resolve R ctx) = map_option (\<lambda>d. d\<lparr>DimEvalContext.Resolve := R\<rparr>) (Dim ctx)"
  by (simp_all add: with_resolve_def)

lemma operand_resolve [simp]: "evalOperand (with_resolve R ctx) n v = evalOperand ctx n v"
  by (simp add: evalOperand_def split: node.split)

lemma time_resolve [simp]: "timeCtx (with_resolve R ctx) fn = timeCtx ctx fn" "on_time (with_resolve R ctx) fn f = on_time ctx fn f"
  by (simp_all add: timeCtx_def on_time_def)

lemmas scalar_defs = fnIF_def fnIFS_def fnAND_def fnOR_def fnNOT_def fnIFERROR_def fnIFNA_def fnSWITCH_def fnISBLANK_def fnABS_def fnINT_def fnROUND_def fnROUNDUP_def
  fnROUNDDOWN_def fnCEILING_def fnFLOOR_def fnMOD_def fnPOWER_def fnSQRT_def fnSUM_def fnAVERAGE_def fnMIN_def fnMAX_def fnCOUNT_def fnCOUNTA_def fnCONCAT_def
  fnTEXTJOIN_def fnLEN_def fnLEFT_def fnRIGHT_def fnMID_def fnUPPER_def fnLOWER_def fnTRIM_def fnTEXT_def fnSUBSTITUTE_def fnTODAY_def fnDATE_def fnYEAR_def
  fnMONTH_def fnDAY_def fnDAYS_def fnEDATE_def fnEOMONTH_def fnDAYSINMONTH_def fnDAYSINYEAR_def

lemmas time_defs = fnPREVIOUS_def fnNEXT_def fnLAG_def fnLEAD_def fnOFFSET_def fnMOVINGSUM_def fnCUMULATE_def fnDECUMULATE_def fnMONTHTODATE_def fnQUARTERTODATE_def
  fnYEARTODATE_def fnHALFYEARTODATE_def fnMONTHVALUE_def fnQUARTERVALUE_def fnHALFYEARVALUE_def fnYEARVALUE_def fnTIMESUM_def fnSTART_def fnEND_def
  shiftOrZero_def lagLead_def periodToDate_def intervalValue_def periodDate_def

lemma scalar_resolve: "list_all (\<lambda>(_, f). f pl (with_resolve R ctx) args vals = f pl ctx args vals) scalar_builtins"
  unfolding scalar_builtins_def list.pred_inject prod.case by (intro conjI list.pred_inject(1); simp only: scalar_defs operand_resolve)

lemma times_resolve: "list_all (\<lambda>(_, f). f pl (with_resolve R ctx) args vals = f pl ctx args vals) time_builtins"
  unfolding time_builtins_def list.pred_inject prod.case by (intro conjI list.pred_inject(1); simp only: time_defs time_resolve)

lemma parent_resolve: "fnPARENT pl (with_resolve R ctx) args vals = fnPARENT pl ctx args vals"
  by (cases "Dim ctx") (simp_all add: fnPARENT_def dimCtx_def Let_def)

lemma call_resolve:
  assumes "name \<notin> set reading_functions" "Funcs ctx = []"
  shows "evalCall pl (with_resolve R ctx) name args vals = evalCall pl ctx name args vals"
proof -
  have "f pl (with_resolve R ctx) args vals = f pl ctx args vals" if "map_of builtins name = Some f" for f
  proof -
    from that have "(name, f) \<in> set builtins" by (rule map_of_SomeD)
    moreover have "f = fnPARENT" if "(name, f) \<in> set dim_builtins"
      using that assms(1) unfolding dim_builtins_def reading_functions_def set_append list.set list.map by (elim UnE insertE) simp_all
    ultimately consider "(name, f) \<in> set scalar_builtins" | "(name, f) \<in> set time_builtins" | "f = fnPARENT"
      unfolding builtins_def set_append by blast
    then show ?thesis
    proof cases
      case 1 with scalar_resolve [of pl R ctx args vals] show ?thesis unfolding list_all_iff by blast
    next
      case 2 with times_resolve [of pl R ctx args vals] show ?thesis unfolding list_all_iff by blast
    qed (simp add: parent_resolve)
  qed
  with assms(2) show ?thesis by (simp add: evalCall_def split: option.split)
qed

lemma ident_resolve: "eval_ident (with_resolve R ctx) name = eval_ident ctx name" "evalDimProperty (with_resolve R ctx) dm prop = evalDimProperty ctx dm prop"
proof -
  have "lookup (with_resolve R ctx) name = lookup ctx name" by (simp add: lookup_def)
  moreover have "unboundDimension (with_resolve R ctx) name = unboundDimension ctx name" by (cases "Dim ctx") (simp_all add: unboundDimension_def)
  moreover have "picklist (Dim (with_resolve R ctx)) name = picklist (Dim ctx) name" by (cases "Dim ctx") (simp_all add: picklist_def)
  ultimately show "eval_ident (with_resolve R ctx) name = eval_ident ctx name" by (simp only: eval_ident_def decodePicklist_def)
  show "evalDimProperty (with_resolve R ctx) dm prop = evalDimProperty ctx dm prop" by (cases "Dim ctx") (simp_all add: evalDimProperty_def dimCtx_def Let_def)
qed

lemma eval_resolve: "plain_formula n \<Longrightarrow> Funcs ctx = [] \<Longrightarrow> eval pl (with_resolve R ctx) n = eval pl ctx n"
proof (induction n)
  case (CallExpr name args)
  then have same: "map (eval pl (with_resolve R ctx)) args = map (eval pl ctx) args" by (auto simp: list_all_iff)
  from CallExpr.prems show ?case unfolding eval.simps same by (simp add: call_resolve)
qed (simp_all add: ident_resolve evalBinary_def)

subsection \<open>What a plain formula depends on\<close>

lemma new_reads_meta: "r_meta (newDimReads meta d defs mdims fetch rows memo) = meta"
proof -
  have "r_meta (foldl (add_dependency defs) r ids) = r_meta r" for r ids
    by (induction ids arbitrary: r) (simp_all add: add_dependency_def Let_def split: option.split)
  then show ?thesis by (simp add: newDimReads_def)
qed

lemma plain_eval_reads:
  assumes "plain_formula n" "r_meta r = r_meta r'"
  shows "EvalNode pl \<lparr>Vars = vs, Blank = bl, Funcs = [], Time = tm, Dim = Some (dim_context r cmb)\<rparr> n =
    EvalNode pl \<lparr>Vars = vs, Blank = bl, Funcs = [], Time = tm, Dim = Some (dim_context r' cmb)\<rparr> n"
proof -
  let ?ctx = "\<lambda>r. \<lparr>Vars = vs, Blank = bl, Funcs = [], Time = tm, Dim = Some (dim_context r cmb)\<rparr>"
  have "with_resolve None (?ctx r) = with_resolve None (?ctx r')" using assms(2) by (simp add: with_resolve_def dim_context_def)
  then have "eval pl (?ctx r) n = eval pl (?ctx r') n" using eval_resolve [OF assms(1), of "?ctx r" pl None] eval_resolve [OF assms(1), of "?ctx r'" pl None] by simp
  then show ?thesis by (simp add: EvalNode_def safeEval_def)
qed

definition dep_read :: "evalEnv \<Rightarrow> (string \<rightharpoonup> unit RawValue) \<Rightarrow> (string \<rightharpoonup> exactSource) \<Rightarrow> combo \<Rightarrow> string \<Rightarrow> MetricDef \<Rightarrow> onDemandResult" where
  "dep_read env fetch sources cmb i dp =
     fst (resolveDependency (en_dims env) dp (en_metricDims env i) cmb (case fetch i of None \<Rightarrow> mapFetch Map.empty | Some f \<Rightarrow> f) (sources i))"

lemma bind_deps_cong:
  assumes "\<forall>i \<in> set ids. \<forall>dp. en_defs env i = Some dp \<longrightarrow> dep_read env fetch sources cmb i dp = dep_read env fetch' sources' cmb i dp"
  shows "bind_deps env fetch sources texts plain cmb ids b = bind_deps env fetch' sources' texts plain cmb ids b"
  using assms
proof (induction ids arbitrary: b)
  case (Cons i ids)
  have IH: "bind_deps env fetch sources texts plain cmb ids b = bind_deps env fetch' sources' texts plain cmb ids b" for b using Cons by simp
  show ?case
  proof (cases "en_defs env i")
    case (Some dp)
    then have "dep_read env fetch sources cmb i dp = dep_read env fetch' sources' cmb i dp" using Cons.prems by simp
    then show ?thesis by (simp only: bind_deps.simps IH Some option.case dep_read_def)
  qed (simp add: IH)
qed simp

lemma evalCell_cong:
  assumes "parse (f_Formula d) = Inr n" "plain_formula n"
    and "\<forall>i \<in> set (f_DependsOnID d). \<forall>dp. en_defs env i = Some dp \<longrightarrow> dep_read env fetch sources cmb i dp = dep_read env fetch' sources' cmb i dp"
  shows "evalCell env fetch sources texts d cmb = evalCell env fetch' sources' texts d cmb"
proof -
  let ?r = "newDimReads (en_meta env) d (en_defs env) (en_metricDims env) fetch sources True"
  let ?r' = "newDimReads (en_meta env) d (en_defs env) (en_metricDims env) fetch' sources' True"
  have "r_meta ?r = r_meta ?r'" by (simp only: new_reads_meta)
  then show ?thesis
    unfolding evalCell_def Let_def assms(1) sum.case bind_deps_cong [OF assms(3)] by (simp add: plain_eval_reads [OF assms(2), of ?r ?r'] cong: sum.case_cong)
qed

lemma loadDependencies_at:
  assumes "loadDependencies env S ids = Inr (fetch, sources)" "i \<in> set ids" "en_defs env i = Some dp"
  obtains m where "en_values env dp = Inr m" "fetch i = Some (mapFetch (map_of m))" "exact_metric dp \<or> sources i = None"
proof -
  have "\<exists>m. en_values env dp = Inr m \<and> fetch i = Some (mapFetch (map_of m)) \<and> (\<not> exact_metric dp \<longrightarrow> sources i = None)"
    using assms
  proof (induction ids arbitrary: fetch sources)
    case (Cons j ids)
    obtain dj mj f s where j: "en_defs env j = Some dj" "en_values env dj = Inr mj" "loadDependencies env S ids = Inr (f, s)"
        "fetch = f(j \<mapsto> mapFetch (map_of mj))" "sources = (case exact_source env S dj (map_of mj) of None \<Rightarrow> s | Some src \<Rightarrow> s(j \<mapsto> src))"
      using Cons.prems(1) by (auto simp: map_sum_def split: option.splits sum.splits)
    have none: "exact_source env S dp m = None" if "\<not> exact_metric dp" for m using that by (auto simp: exact_source_def exactRows_def exact_metric_def)
    have rest: "s i = None" if "i \<notin> set ids"
      using j(3) that
    proof (induction ids arbitrary: f s)
      case (Cons k ids)
      then show ?case by (auto simp: map_sum_def split: option.splits sum.splits)
    qed simp
    show ?case
    proof (cases "i \<in> set ids")
      case True
      from Cons.IH [OF j(3) True assms(3)] show ?thesis using j assms(3) none by (cases "i = j") (auto split: option.splits)
    next
      case False
      then have "i = j" using Cons.prems(2) by simp
      then show ?thesis using j assms(3) none rest False by (auto split: option.splits)
    qed
  qed simp
  with that show thesis by blast
qed

lemma loadTexts_values: "loadTexts (env\<lparr>en_values := vs\<rparr>) ids = loadTexts env ids"
  by (induction ids) (simp_all cong: option.case_cong if_cong sum.case_cong)

lemma evalCell_values: "evalCell (env\<lparr>en_values := vs\<rparr>) = evalCell env"
proof -
  have nt: "noteAt (env\<lparr>en_values := vs\<rparr>) = noteAt env" by (simp add: noteAt_def fun_eq_iff)
  have "bind_deps (env\<lparr>en_values := vs\<rparr>) f s t p c ids b = bind_deps env f s t p c ids b" for f s t p c ids b
    by (induction ids arbitrary: b) (simp_all add: nt cong: option.case_cong if_cong sum.case_cong)
  moreover have "cell_vars (env\<lparr>en_values := vs\<rparr>) = cell_vars env" by (simp add: cell_vars_def fun_eq_iff)
  ultimately show ?thesis by (simp add: evalCell_def fun_eq_iff cong: sum.case_cong)
qed

text \<open>Two states of the values a metric's formula reads: at a cell where they read alike, they evaluate alike.\<close>

lemma cell_same:
  assumes "parse (f_Formula d) = Inr n" "plain_formula n"
    and "cellEvaluator env S d = Inr ev" "cellEvaluator (env\<lparr>en_values := vs\<rparr>) S' d = Inr ev'"
    and "\<forall>i \<in> set (f_DependsOnID d). \<forall>dp m m'. en_defs env i = Some dp \<longrightarrow> en_values env dp = Inr m \<longrightarrow> vs dp = Inr m' \<longrightarrow> \<not> exact_metric dp \<and>
      fst (resolveDependency (en_dims env) dp (en_metricDims env i) cmb (mapFetch (map_of m)) None) =
      fst (resolveDependency (en_dims env) dp (en_metricDims env i) cmb (mapFetch (map_of m')) None)"
  shows "ev' cmb = ev cmb"
proof -
  let ?env = "env\<lparr>en_values := vs\<rparr>"
  obtain fetch sources texts where f: "loadDependencies env S (f_DependsOnID d) = Inr (fetch, sources)" "loadTexts env (f_DependsOnID d) = Inr texts"
      "ev = (\<lambda>c. number_of (evalCell env fetch sources texts d c))"
    using assms(3) by (auto simp: cellEvaluator_def valueEvaluator_def map_sum_def split: sum.splits)
  obtain fetch' sources' where g: "loadDependencies ?env S' (f_DependsOnID d) = Inr (fetch', sources')"
      "ev' = (\<lambda>c. number_of (evalCell env fetch' sources' texts d c))"
    using assms(4) by (auto simp: cellEvaluator_def valueEvaluator_def map_sum_def loadTexts_values f(2) evalCell_values split: sum.splits)
  have "dep_read env fetch sources cmb i dp = dep_read env fetch' sources' cmb i dp" if i: "i \<in> set (f_DependsOnID d)" "en_defs env i = Some dp" for i dp
  proof -
    have def': "en_defs ?env i = Some dp" using i(2) by simp
    obtain m where m: "en_values env dp = Inr m" "fetch i = Some (mapFetch (map_of m))" "exact_metric dp \<or> sources i = None"
      by (rule loadDependencies_at [OF f(1) i])
    obtain m' where m': "en_values ?env dp = Inr m'" "fetch' i = Some (mapFetch (map_of m'))" "exact_metric dp \<or> sources' i = None"
      by (rule loadDependencies_at [OF g(1) i(1) def'])
    show ?thesis using assms(5) i m m' by (simp add: dep_read_def)
  qed
  then show ?thesis using evalCell_cong [OF assms(1,2)] f(3) g(2) by metis
qed

end
