(* ===== verification/Spec2Isabelle.thy ===== *)
theory Spec2Isabelle
  imports Analyze DimContext PassQueue Targets Workers Execute CellEval
begin

text \<open>
  The calculation core of maverickbuilds.app: the formula language of a planning model, the
  resolution of a metric at any combination of dimension members, the time dimension, and the reads
  a recalculation makes. The program keeps a model (dimensions with hierarchies, metrics with
  formulas) and its recorded values in PostgreSQL; the gateway loads them and evaluates formulas
  cell by cell. This development models the Go packages that decide what a cell is worth:
  \<open>internal/formula\<close>, \<open>internal/rollup\<close>, \<open>internal/timedim\<close>, the planning of \<open>internal/metricformula\<close>, and
  \<open>internal/calculation\<close>: the reads of other cells, and the pass that recalculates a revision.

  \<^bold>\<open>Parts and how they interact.\<close> A formula is lexed, parsed and evaluated over a context. The context
  answers variables, periods (time functions) and members (dimensional functions). In a recalculation
  the dimensional context is \<open>dim_context\<close>: it answers from the member metadata and reads other
  metrics by \<open>dim_resolve\<close>, which places the overridden members (\<open>NormalizeCombo\<close>) and resolves the
  source there (\<open>ResolveTime\<close>) over recorded values kept under \<open>dimKey\<close>.

  A write to the model asks for a recalculation: the metrics it reaches (\<open>AffectedMetricIDs\<close>), queued with other
  requests (\<open>passQueue\<close>) until a pass takes them. The pass orders the metrics by their dependencies (\<open>Plan\<close>), runs
  their components on workers (\<open>runComponents\<close>) that share a cache (\<open>passCache\<close>), follows the written cells where it can
  (\<open>region\<close>, \<open>increment\<close>), evaluates each metric at its cells (\<open>executePartition\<close>), reduces the leaves to totals over members and
  periods, and writes the rows that changed (\<open>diffResults\<close>, \<open>persistRows\<close>).

  \<^bold>\<open>Theories and sources\<close> (paths under \<open>src/internal\<close>):
  \<^item> \<open>Prelude\<close>: outcomes of code that may panic, the parts of \<open>strings\<close> and \<open>strconv\<close> in use;
    \<open>Float64\<close>: binary64 as exact rationals with rounding; \<open>Decimal\<close>: decimal texts, \<open>significant15\<close> and
    \<open>decimalRound\<close> (\<open>formula/arity.go\<close>, \<open>functions.go\<close>); \<open>GoTime\<close>: the civil calendar and date serials.
  \<^item> \<open>Values\<close> (\<open>ast.go\<close>, \<open>value.go\<close>), \<open>Lexer\<close> (\<open>lexer.go\<close>), \<open>Parser\<close> and \<open>Grammar\<close> (\<open>parser.go\<close>),
    \<open>Criteria\<close> (\<open>criteria.go\<close>, \<open>membercode.go\<close>), \<open>Context\<close> (the context structs), \<open>Scalar\<close>
    (\<open>functions.go\<close>), \<open>TimeFns\<close> (\<open>time.go\<close>), \<open>DimFns\<close> (\<open>dimension.go\<close>, \<open>picklist.go\<close>), \<open>Eval\<close> (\<open>eval.go\<close>,
    \<open>formula.go\<close>), \<open>Refs\<close> (\<open>refs.go\<close>, \<open>funcrefs.go\<close>, \<open>rename.go\<close>, the arity table), \<open>Analyze\<close> (\<open>analyze.go\<close>).
  \<^item> \<open>TimeDim\<close> (\<open>timedim/timedim.go\<close>): configuration, periods, generation, hierarchy, reindexing.
  \<^item> \<open>Rollup\<close> (\<open>rollup/rollup.go\<close>, \<open>index.go\<close>, \<open>calcmember.go\<close>): hierarchies, relations between
    dimensions, combinations, aggregation, \<open>Resolve\<close>, \<open>ResolveTime\<close>, \<open>NormalizeCombo\<close>, calculated members.
  \<^item> \<open>ComboKey\<close> (\<open>calculation/store.go\<close>, \<open>dimKey\<close> to \<open>plainJSON\<close>): writing and reading storage keys.
  \<^item> \<open>DimContext\<close> (\<open>calculation/dimcontext.go\<close>, \<open>exactSource\<close> of \<open>ondemand.go\<close>): member metadata, the cell's
    context, reads of sources with their caches.
  \<^item> \<open>TemporalPlan\<close> (\<open>metricformula/temporal.go\<close>): the dependency graph, its components, the validation and order
    of recurrences; \<open>Tarjan\<close> and \<open>PlanOrder\<close> prove it.
  \<^item> \<open>PassQueue\<close> (\<open>calculation/queue.go\<close>), \<open>Targets\<close> and \<open>Workers\<close> (\<open>scheduler.go\<close>, \<open>lean.go\<close>): the queue of requests, what a
    request calculates, and the workers of a pass.
  \<^item> \<open>TimeAxis\<close> (\<open>timeseries.go\<close>, \<open>leafrows.go\<close>): the time axis, the reductions over time, the index of the leaves.
  \<^item> \<open>Regions\<close> (\<open>region.go\<close>, \<open>incremental.go\<close>): what a pass that follows written cells evaluates, and what it writes.
  \<^item> \<open>PassCache\<close> (\<open>passcache.go\<close>, \<open>limits.go\<close>): the values a pass has read or written, and the size limit.
  \<^item> \<open>Partition\<close> (\<open>scheduler.go\<close>): the evaluation of a metric's cells, its totals, slices, periods and ratios, on the scalar and
    the text path; \<open>Lean\<close> (\<open>lean.go\<close>): the path of a metric with very many cells; \<open>Execute\<close> (\<open>scheduler.go\<close>, \<open>loadHeld\<close> of
    \<open>incremental.go\<close>): \<open>executePartition\<close>, which chooses the path and writes the table, the cache and the increment.
  \<^item> \<open>CellEval\<close> (\<open>ondemand.go\<close>): the evaluation of a metric's formula at a cell, and the evaluators of sources built on demand.

  \<^bold>\<open>State.\<close> A struct is a record with the fields of the source; a pointer that may be nil is an
  option. Operations that fill a cache return the new state. A Go map is the list of its entries in
  iteration order where the code iterates over it, so what holds for all lists of entries holds for
  every iteration order; a combination is such a list with one entry per dimension, and \<open>same_combo\<close>
  says two lists are the same map. Go errors are values of a sum type, panics the constructor \<open>panic\<close>.
  Concurrent code is an inductive step relation, one step per critical section: the callers of the queue
  (\<open>PassQueue.step\<close>), the workers of a pass (\<open>Workers.run_step\<close>), the readers and writers of the cache
  (\<open>PassCache.cache_step\<close>); a log of events records what happened in which order.

  \<^bold>\<open>Interfaces.\<close> Locales state what a client relies on and are interpreted on the model: the parsers of a
  grammar level (\<open>Grammar\<close>), the choice of a best element (MIN and MAX in \<open>Scalar\<close>), the codec of a
  pick-list (\<open>DimFns\<close>, interpreted on the codec \<open>DimMetadata.Picklist\<close> builds), the reader of recorded
  values (\<open>reader\<close> of \<open>Rollup\<close>, interpreted in \<open>DimContext\<close> on the prefetched values of a dependency), and the store of a
  metric's leaves (\<open>leaf_store\<close> of \<open>Lean\<close>, the Go interface \<open>leafRows\<close>, interpreted on the result rows and on \<open>compactRows\<close>).

  \<^bold>\<open>What is shown.\<close>
  \<^item> Language: the parser accepts exactly its grammar; quoted names without a closing brace, other than TRUE and FALSE, parse back; renaming and analysis are
    functions on every formula.
  \<^item> Functions: rounding is exact on fifteen digits, with ties away from zero, and idempotent; wildcards match as
    defined; the conditional aggregations are folds over the product of surviving members, and their memo changes no
    result as far as its keys decide the results, which they do not for every text (\<open>memo_key_collision\<close>); moving windows, to-date and interval functions reduce the periods they name; dates,
    DECUMULATE and pick-lists round trip.
  \<^item> Time dimension: generated periods are valid, interval keys agree with the formula engine's,
    reindexing numbers the periods in order.
  \<^item> Rollup: subtree search ends and is exact also on cyclic parents, counts are exact up to their cap,
    rollup combinations complement the leaves, averages count a leaf once, \<open>NormalizeCombo\<close> is
    characterised with its refusals.
  \<^item> Calculation: keys are canonical for valid UTF-8 and read back from the database's text; a name means one dimension
    whatever the iteration order; every cache of the metadata and of the reads of a cell is transparent; a LOOKUP is one
    uncached read of its source (below).
  \<^item> Planning: \<open>tarjan\<close> gives the strongly connected components, dependencies first; a plan exists exactly when time
    breaks every cycle, and a planned recurrence reads only values computed before.
  \<^item> Passes: a request is answered by a pass that began after it and covers it, and every request is answered; the
    workers run every component once, after the ones its formulas read, and end; the targets of a recalculation are exactly what the
    change reaches (its plan adds what they depend on); refusals for size spread to exactly the readers that are checked later.
  \<^item> Incremental passes: a cell outside a projected region reads the same, also from a source whose totals changed; writing a difference is writing the
    rows, and the recorded change misses no leaf cell; the cache holds what the table holds unless a
    metric is forgotten while it is being loaded.
  \<^item> Reductions: totals over time, the leaf index and the leaves of a slice are characterised by scans of the leaves.
  \<^item> Evaluators: a plain formula evaluates alike where its sources read alike.
  \<^item> Partitions: a partial evaluation leaves the table of a whole one, and so does the whole chain from a change of the sources over the planned
    region and the formula's evaluation to the written difference (\<open>pass_follows_cells\<close>, below); the lean path writes the rows of the ordinary path; the rows
    of a metric are one per intersection; and what is kept, deleted and reported when no cell evaluates.

  \<^bold>\<open>Fuel and bounds.\<close> The parser's fuel is the number of tokens plus one and each loop consumes a token
  per round, so it never runs out (\<open>Grammar\<close>). \<open>resolve\<close> counts down from \<open>maxDepth\<close> + 1 as the source
  counts up to \<open>maxDepth\<close>; reaching 0 is \<open>ErrDepthExceeded\<close>. \<open>GeneratePeriods\<close> stops at the source's limit of
  10000 periods. Relation chains are followed \<open>maxDepth\<close> steps, as in the source. The fuel of \<open>strong\<close> and
  \<open>visit\<close> in \<open>TemporalPlan\<close> is the number of nodes plus one; running out would be the value None, and \<open>tarjan_components\<close>
  and \<open>Plan_correct\<close> show that it never is. The fuel of \<open>evaluators\<close>
  bounds the chain of sources evaluated on demand, where the source has none; above a metric's rank it does not matter (\<open>evaluators_settle\<close>). The fuel of the odometer of \<open>compactRows\<close> is the number of cells, which it visits
  all (\<open>each_position_all\<close>). The queue counts passes with a natural number where the source has a
  64-bit counter. All other loops are total functions with a termination proof.

  \<^bold>\<open>Parameters and limits.\<close> \<open>math.Pow\<close> and the clock are fields of \<open>platform\<close>; \<open>json.Unmarshal\<close> is an argument of
  \<open>keyOf\<close>; recorded values are the argument \<open>fetch\<close>; the formula of a source evaluated on demand is
  the field \<open>x_eval\<close>, as in the source. Texts are sequences of bytes and case is ASCII case; storage keys are those of
  \<open>encoding/json\<close> for valid UTF-8, which the texts of the database are (\<open>ComboKey\<close>); dates are UTC and the calendar does not wrap, as \<open>time.Date\<close>
  does beyond some 2.9e11 years; \<open>int\<close> conversions of floats follow amd64. Memoisation is off in \<open>eval\<close> (\<open>Memo\<close> nil) and is
  explicit state in \<open>conditional_memo\<close>; so the second evaluation of a cell that failed without data on a memo hit is the first one,
  and whether the reads of other cells met a value is \<open>en_read\<close>. A cell's reads start with empty caches, which \<open>reads_transparent\<close> allows. Mutexes are not modelled: each method is one step.
  \<open>run_step\<close> is the parallel branch of \<open>runComponents\<close>; the sequential one, for a single worker or component, runs the components in the order of the
  plan and needs no such argument.

  \<^bold>\<open>Not modelled.\<close> Of \<open>internal/calculation\<close>: the evaluation of time-series formulas and of recurrences (\<open>executeTimeSeries\<close>, a
  field of \<open>partition_env\<close>), the time context of a text calculation (\<open>en_time\<close>), what loading the operands
  of a ratio leaves in the cache, and the SQL of the store; a table is the list or map of its rows, and
  failed statements, which roll a write back, are left out. Of \<open>metricformula\<close>: the save-time checks of names, types and windows
  over SQL metadata. \<open>writeguard\<close>, \<open>readset\<close>, \<open>modeledit\<close>, \<open>importpkg\<close>, \<open>plan\<close> and \<open>workflow\<close> interleave their logic with
  SQL. The gateway, the generated OpenAPI and gRPC code, integrations, notifications, exports, the
  assistant, the web client and deployment are input and output around this core.
\<close>

subsection \<open>A LOOKUP of a recalculation\<close>

lemma LOOKUP_builtin: "map_of builtins ''LOOKUP'' = Some fnLOOKUP"
  by (simp add: builtins_def scalar_builtins_def dim_builtins_def)

lemma demo_LOOKUP: "spec_resolve demo_reads [] ''sales'' [(''Region'', ''EMEA'')] = Inr (Fin 7, True)"
  by code_simp

text \<open>
  C25 A LOOKUP evaluated in a recalculation is one uncached read of its source: for a source that is
  not a pick-list and a member the dimension has, the evaluator, the cell's context and the pass's
  caches together give the value the source resolves to at the cell's coordinates with that member
  in place, 0 where there is none, or the error of that read.
\<close>

theorem LOOKUP_in_pass:
  assumes "wf_reads r" "reads_ok r" "distinct (map fst cmb)"
    and ctx: "Funcs ctx = []" "Dim ctx = Some (dim_context r cmb)"
    and src: "PicklistDimension (r_meta r) metric = []"
    and arg: "eval pl ctx arg = ret (StringVal code)" "code \<noteq> []"
    and mem: "dimID (r_meta r) dm cmb = Inr i" "meta_member (r_meta r) i code \<noteq> None"
  shows "eval pl ctx (CallExpr ''LOOKUP'' [Ident metric, Ident dm, arg]) =
    (case spec_resolve r cmb metric [(dm, code)] of Inl e \<Rightarrow> ret (ErrorVal e) | Inr (v, _) \<Rightarrow> ret (NumberVal v))"
proof -
  have member: "Member (dim_context r cmb) = Some (cell_Member (r_meta r) cmb)"
    and resolve: "DimEvalContext.Resolve (dim_context r cmb) = Some (\<lambda>metric overrides. fst (dim_resolve r cmb metric overrides))"
    and pick: "picklist (Some (dim_context r cmb)) metric = None"
    using src by (simp_all add: dim_context_def CellContext_def picklist_def meta_Picklist_def)
  have "cell_Member (r_meta r) cmb dm code = Inr (code, True)" using mem by (simp add: cell_Member_def)
  moreover have "fst (dim_resolve r cmb metric [(dm, code)]) = spec_resolve r cmb metric [(dm, code)]"
    using dim_resolve_ok [OF assms(1-3), of metric "[(dm, code)]"] by auto
  moreover have "evalCall pl ctx ''LOOKUP'' [Ident metric, Ident dm, arg] (map (eval pl ctx) [Ident metric, Ident dm, arg]) =
      fnLOOKUP pl ctx [Ident metric, Ident dm, arg] (map (eval pl ctx) [Ident metric, Ident dm, arg])"
    using ctx(1) by (simp add: evalCall_def LOOKUP_builtin)
  ultimately show ?thesis
    using arg ctx(2) member resolve pick
    by (simp add: fnLOOKUP_def dimCtx_def sourceArg_def dimensionArg_def containsFold_def Let_def fail_def
          split: sum.split)
qed

theorem LOOKUP_in_pass_witness:
  "eval demo_platform (empty_context\<lparr>Dim := Some (dim_context demo_reads [])\<rparr>)
     (CallExpr ''LOOKUP'' [Ident ''sales'', Ident ''Region'', StringLit ''EMEA'']) = ret (NumberVal (Fin 7))"
proof -
  have ok: "reads_ok demo_reads" unfolding demo_reads_def by (rule new_reads_ok(1)) simp
  have mem: "dimID (r_meta demo_reads) ''Region'' [] = Inr ''region''" "meta_member (r_meta demo_reads) ''region'' ''EMEA'' \<noteq> None"
    unfolding demo_reads_sel by code_simp+
  have pl: "PicklistDimension (r_meta demo_reads) ''sales'' = []" unfolding demo_reads_sel by code_simp
  show ?thesis
    by (subst LOOKUP_in_pass [OF demo_reads_wf ok _ _ _ pl _ _ mem])
      (simp_all add: empty_context_def demo_LOOKUP)
qed

subsection \<open>A pass that follows written cells\<close>












abbreviation "no_source \<equiv> \<lambda>_ :: MetricDef. Inl [] :: string + cellEval"







end
